(* ===== verification/Prelude.thy ===== *)
theory Prelude
  imports Main "HOL-Library.Word"
begin

unbundle bit_operations_syntax

section \<open>Shared types, result plumbing and byte-level memory\<close>

text \<open>
  The theories of this development share the names for the machine integers of the Rust
  sources, the result type of a kernel routine and its sequencing operator, the little-endian
  byte encoding of machine words (the kernel runs on riscv64, so every \<open>u16\<close>, \<open>u32\<close>
  and \<open>u64\<close> it stores through a pointer is laid out little-endian), and byte-addressed
  memory.  The release profile of the workspace leaves overflow checks off, so \<open>+\<close>,
  \<open>-\<close> and \<open>*\<close> on machine integers wrap, as they do on \<^typ>\<open>'a word\<close>.
\<close>

type_synonym u8 = "8 word"
type_synonym u16 = "16 word"
type_synonym u32 = "32 word"
type_synonym u64 = "64 word"

named_theorems flow \<open>equations that run a kernel routine past one call\<close>
named_theorems frame \<open>what an operation leaves unchanged\<close>

subsection \<open>Sequencing of fallible code\<close>

text \<open>
  \<open>and_then r f\<close> runs \<open>f\<close> on the value of a successful \<open>r\<close> and passes an abnormal
  outcome on unchanged, as the end of a diverging call does.
\<close>

definition and_then :: "'e + 'a \<Rightarrow> ('a \<Rightarrow> 'e + 'b) \<Rightarrow> 'e + 'b" where
  "and_then r f = (case r of Inl e \<Rightarrow> Inl e | Inr a \<Rightarrow> f a)"

lemma and_then_Inr [simp]: "and_then (Inr a) f = f a"
  by (simp add: and_then_def)

lemma and_then_Inl [simp]: "and_then (Inl e) f = Inl e"
  by (simp add: and_then_def)

lemma and_then_eq_Inr: "and_then r f = Inr b \<longleftrightarrow> (\<exists>a. r = Inr a \<and> f a = Inr b)"
  by (cases r) simp_all

lemma and_then_eq_Inl:
  "and_then r f = Inl e \<longleftrightarrow> r = Inl e \<or> (\<exists>a. r = Inr a \<and> f a = Inl e)"
  by (cases r) auto

lemma and_then_cong [fundef_cong]:
  "r = r' \<Longrightarrow> (\<And>a. r' = Inr a \<Longrightarrow> f a = g a) \<Longrightarrow> and_then r f = and_then r' g"
  by (cases r') simp_all

lemma and_then_assoc: "and_then (and_then r f) g = and_then r (\<lambda>a. and_then (f a) g)"
  by (cases r) simp_all

lemma and_then_elim [elim!]:
  assumes "and_then r f = Inr b"
  obtains a where "r = Inr a" "f a = Inr b"
  using assms by (auto simp: and_then_eq_Inr)

subsection \<open>Bounds of machine integers\<close>

lemma unat_u32_less: "unat (n :: u32) < 2 ^ 32"
  by (rule less_le_trans [OF unsigned_less]) simp

lemma unat_u64_less: "unat (n :: u64) < 2 ^ 64"
  by (rule less_le_trans [OF unsigned_less]) simp

lemma unat_minus_1_u64: "unat (- 1 :: u64) = 2 ^ 64 - 1"
  by (simp add: unsigned_minus_1_eq_mask mask_eq_exp_minus_1)

subsection \<open>Little-endian encoding of words\<close>

definition le_bytes :: "nat \<Rightarrow> 'a::len word \<Rightarrow> u8 list" where
  "le_bytes n w = map (\<lambda>i. ucast (drop_bit (8 * i) w)) [0..<n]"

primrec of_le :: "u8 list \<Rightarrow> 'a::len word" where
  "of_le [] = 0"
| "of_le (b # bs) = ucast b OR push_bit 8 (of_le bs)"

lemma length_le_bytes [simp]: "length (le_bytes n w) = n"
  by (simp add: le_bytes_def)

lemma nth_le_bytes [simp]: "i < n \<Longrightarrow> le_bytes n w ! i = ucast (drop_bit (8 * i) w)"
  by (simp add: le_bytes_def)

lemma bit_of_le:
  "bit (of_le bs :: 'a::len word) n \<longleftrightarrow>
     n < LENGTH('a) \<and> n div 8 < length bs \<and> bit (bs ! (n div 8)) (n mod 8)"
proof (induction bs arbitrary: n)
  case Nil
  then show ?case by simp
next
  case (Cons b bs)
  show ?case
  proof (cases "n < 8")
    case True
    then show ?thesis by (auto simp: bit_simps)
  next
    case False
    define m where "m = n - 8"
    with False have n: "n = m + 8" by simp
    then have d: "n div 8 = Suc (m div 8)" "n mod 8 = m mod 8" by simp_all
    have "\<not> bit b n" using False by (auto dest: bit_imp_le_length)
    then have "bit (of_le (b # bs) :: 'a word) n \<longleftrightarrow> n < LENGTH('a) \<and> bit (of_le bs :: 'a word) m"
      using n by (auto simp: bit_simps)
    also have "\<dots> \<longleftrightarrow> n < LENGTH('a) \<and> m div 8 < length bs \<and> bit (bs ! (m div 8)) (m mod 8)"
      using n by (auto simp: Cons.IH)
    finally show ?thesis by (simp add: d)
  qed
qed

lemma of_le_le_bytes: "LENGTH('a) \<le> 8 * n \<Longrightarrow> of_le (le_bytes n w) = (w :: 'a::len word)"
  by (rule bit_word_eqI) (auto simp: bit_of_le bit_simps less_mult_imp_div_less mult.commute)

lemma le_bytes_of_le:
  assumes "8 * length bs \<le> LENGTH('a)"
  shows "le_bytes (length bs) (of_le bs :: 'a::len word) = bs"
proof (rule nth_equalityI)
  fix i assume "i < length (le_bytes (length bs) (of_le bs :: 'a word))"
  then have i: "i < length bs" by simp
  show "le_bytes (length bs) (of_le bs :: 'a word) ! i = bs ! i"
  proof (rule bit_word_eqI)
    fix n assume n: "n < LENGTH(8)"
    then have "(8 * i + n) div 8 = i" "(8 * i + n) mod 8 = n" by simp_all
    moreover have "8 * i + n < LENGTH('a)" using i n assms by simp
    ultimately show "bit (le_bytes (length bs) (of_le bs :: 'a word) ! i) n = bit (bs ! i) n"
      using i n by (simp add: bit_simps bit_of_le)
  qed
qed simp

lemma of_le_replicate_0 [simp]: "of_le (replicate n 0) = 0"
  by (induction n) simp_all

lemma le_bytes_0 [simp]: "le_bytes n 0 = replicate n 0"
  by (rule nth_equalityI) simp_all

subsection \<open>Byte-addressed memory\<close>

type_synonym memory = "u64 \<Rightarrow> u8"

definition load_bytes :: "memory \<Rightarrow> u64 \<Rightarrow> nat \<Rightarrow> u8 list" where
  "load_bytes m a n = map (\<lambda>i. m (a + of_nat i)) [0..<n]"

definition store_bytes :: "memory \<Rightarrow> u64 \<Rightarrow> u8 list \<Rightarrow> memory" where
  "store_bytes m a bs = (\<lambda>x. if unat (x - a) < length bs then bs ! unat (x - a) else m x)"

definition load64 :: "memory \<Rightarrow> u64 \<Rightarrow> u64" where
  "load64 m a = of_le (load_bytes m a 8)"

definition store64 :: "memory \<Rightarrow> u64 \<Rightarrow> u64 \<Rightarrow> memory" where
  "store64 m a v = store_bytes m a (le_bytes 8 v)"

text \<open>The \<open>n\<close> bytes from \<open>a\<close> (modulo \<open>2 ^ 64\<close>), and two such ranges being apart.\<close>

definition in_range :: "u64 \<Rightarrow> nat \<Rightarrow> u64 \<Rightarrow> bool" where
  "in_range a n x \<longleftrightarrow> unat (x - a) < n"

definition apart :: "u64 \<Rightarrow> nat \<Rightarrow> u64 \<Rightarrow> nat \<Rightarrow> bool" where
  "apart a n b k \<longleftrightarrow> (\<forall>x. \<not> (in_range a n x \<and> in_range b k x))"

lemma apart_sym: "apart a n b k \<Longrightarrow> apart b k a n"
  by (auto simp: apart_def)

lemma unat_of_nat_64: "i < 2 ^ 64 \<Longrightarrow> unat (of_nat i :: u64) = i"
  by (simp add: unat_of_nat)

lemma in_range_nth: "i < n \<Longrightarrow> n \<le> 2 ^ 64 \<Longrightarrow> in_range a n (a + of_nat i)"
  by (simp add: in_range_def unat_of_nat_64)

lemma length_load_bytes [simp]: "length (load_bytes m a n) = n"
  by (simp add: load_bytes_def)

lemma nth_load_bytes [simp]: "i < n \<Longrightarrow> load_bytes m a n ! i = m (a + of_nat i)"
  by (simp add: load_bytes_def)

lemma load_store_bytes:
  "n = length bs \<Longrightarrow> length bs \<le> 2 ^ 64 \<Longrightarrow> load_bytes (store_bytes m a bs) a n = bs"
  by (rule nth_equalityI) (simp_all add: store_bytes_def unat_of_nat_64)

lemma store_bytes_outside: "\<not> in_range a (length bs) x \<Longrightarrow> store_bytes m a bs x = m x"
  by (simp add: store_bytes_def in_range_def)

lemma load_bytes_cong:
  "n \<le> 2 ^ 64 \<Longrightarrow> (\<And>x. in_range a n x \<Longrightarrow> m x = m' x) \<Longrightarrow> load_bytes m a n = load_bytes m' a n"
  by (rule nth_equalityI) (simp_all add: in_range_nth)

lemma load_store_apart:
  "apart a (length bs) b n \<Longrightarrow> n \<le> 2 ^ 64 \<Longrightarrow>
     load_bytes (store_bytes m a bs) b n = load_bytes m b n"
  by (rule load_bytes_cong) (auto simp: apart_def intro!: store_bytes_outside)

lemma load64_store64 [simp]: "load64 (store64 m a v) a = v"
  by (simp add: load64_def store64_def load_store_bytes of_le_le_bytes)

lemma load64_store64_apart:
  "apart a 8 b 8 \<Longrightarrow> load64 (store64 m a v) b = load64 m b"
  by (simp add: load64_def store64_def load_store_apart)

lemma store64_outside: "\<not> in_range a 8 x \<Longrightarrow> store64 m a v x = m x"
  by (simp add: store64_def store_bytes_outside)

lemma load64_cong: "(\<And>x. in_range a 8 x \<Longrightarrow> m x = m' x) \<Longrightarrow> load64 m a = load64 m' a"
  unfolding load64_def by (rule arg_cong [OF load_bytes_cong]) simp_all

subsection \<open>Words inside a byte list\<close>

text \<open>
  Reading and writing an \<open>n\<close>-byte word at an offset of a block, as the sources do by casting
  \<open>data.as_ptr()\<close> to a \<open>#[repr(C)]\<close> struct.
\<close>

definition getw :: "nat \<Rightarrow> u8 list \<Rightarrow> nat \<Rightarrow> 'a::len word" where
  "getw n bs off = of_le (take n (drop off bs))"

definition putw :: "nat \<Rightarrow> u8 list \<Rightarrow> nat \<Rightarrow> 'a::len word \<Rightarrow> u8 list" where
  "putw n bs off w = take off bs @ le_bytes n w @ drop (off + n) bs"

lemma length_putw [simp]: "off + n \<le> length bs \<Longrightarrow> length (putw n bs off w) = length bs"
  by (simp add: putw_def)

lemma getw_putw_same:
  "off + n \<le> length bs \<Longrightarrow> LENGTH('a) \<le> 8 * n \<Longrightarrow> getw n (putw n bs off w) off = (w :: 'a::len word)"
  by (simp add: getw_def putw_def of_le_le_bytes)

lemma nth_putw:
  "off + n \<le> length bs \<Longrightarrow> i < length bs \<Longrightarrow>
     putw n bs off w ! i = (if off \<le> i \<and> i < off + n then le_bytes n w ! (i - off) else bs ! i)"
  by (auto simp: putw_def nth_append)

lemma take_drop_eqI:
  assumes "off + n \<le> length xs" "length ys = length xs" "\<And>i. off \<le> i \<Longrightarrow> i < off + n \<Longrightarrow> xs ! i = ys ! i"
  shows "take n (drop off xs) = take n (drop off ys)"
  by (rule nth_equalityI) (use assms in auto)

lemma getw_putw_other:
  assumes "off + n \<le> length bs" "off' + m \<le> length bs" "off + n \<le> off' \<or> off' + m \<le> off"
  shows "getw m (putw n bs off w) off' = getw m bs off'"
  unfolding getw_def
  by (rule arg_cong [of _ _ of_le], rule take_drop_eqI) (use assms in \<open>auto simp: nth_putw\<close>)

subsection \<open>Counted loops\<close>

text \<open>A \<open>while i < n\<close> loop whose body may fail, over the values the counter takes.\<close>

primrec for_each :: "('i \<Rightarrow> 's \<Rightarrow> 'e + 's) \<Rightarrow> 'i list \<Rightarrow> 's \<Rightarrow> 'e + 's" where
  "for_each body [] s = Inr s"
| "for_each body (i # is) s = and_then (body i s) (for_each body is)"

lemma for_each_append: "for_each body (xs @ ys) s = and_then (for_each body xs s) (for_each body ys)"
  by (induction xs arbitrary: s) (auto simp: and_then_assoc intro: and_then_cong)

lemma for_each_cong [fundef_cong]:
  "is = is' \<Longrightarrow> s = s' \<Longrightarrow> (\<And>i t. i \<in> set is' \<Longrightarrow> body i t = body' i t) \<Longrightarrow>
     for_each body is s = for_each body' is' s'"
proof (induction is' arbitrary: "is" s s')
  case (Cons i is')
  then show ?case by (auto intro!: and_then_cong)
qed simp

text \<open>The invariant rule of a counted loop.\<close>

lemma for_each_inv:
  assumes "I 0 s" "\<And>i t. i < n \<Longrightarrow> I i t \<Longrightarrow> \<exists>u. body i t = Inr u \<and> I (Suc i) u"
  shows "\<exists>t. for_each body [0..<n] s = Inr t \<and> I n t"
  using assms
proof (induction n)
  case (Suc n)
  then obtain t where "for_each body [0..<n] s = Inr t" "I n t" by fastforce
  moreover obtain u where "body n t = Inr u" "I (Suc n) u" using Suc.prems(2) [of n t] \<open>I n t\<close> by auto
  ultimately show ?case by (auto simp: for_each_append)
qed simp

end
