(* ===== verification/Spinlock.thy ===== *)
theory Spinlock
  imports Prelude
begin

section \<open>Spin locks and per-hart interrupt nesting (kernel/rust\_spinlock.rs)\<close>

text \<open>
  The base of the kernel state: the harts' \<open>Cpu\<close> entries, each hart's \<open>sstatus.SIE\<close>
  bit, and the spin locks.  A lock is named by the static or the object it sits in, so two
  \<open>*mut Spinlock\<close> of the source are equal iff their \<open>lockid\<close>s are.  \<open>hart\<close> is the hart
  that runs (\<open>tp\<close>, \<open>cpuid()\<close>): the routines of the kernel are state transformers of
  the hart they run on, and the last section interleaves harts.

  A routine returns \<open>Inr\<close> of its result and the new state, or \<open>Inl\<close> of the reason why
  it does not come back: a kernel panic with its message, a spin on a lock that stays taken,
  a sleep on a channel that is not woken, a yield of the hart to the scheduler, the exit of the
  process, a loop that does not end, or a raw pointer access that is undefined (null, or outside
  its array).
\<close>

datatype lockid =
    LKmem | LBcache | LLog | LItable | LFtable | LWait | LPid | LTicks | LDisk | LPr | LMain | LCons | LUart
  | LProc nat | LBuf nat | LInode nat | LPipe u64

datatype chan =
    ChLog | ChTicks | ChCons | ChUart | ChDiskFree | ChDiskBuf nat
  | ChProc nat | ChBuf nat | ChInode nat | ChPipeRead u64 | ChPipeWrite u64

datatype stuck = Panic string | Spins lockid | Sleeps chan | Yields | Exits | Diverges | Undefined

type_synonym 'a kres = "stuck + 'a"

subsection \<open>State\<close>

record spinlock =
  locked :: u32
  lname :: string
  lcpu :: "nat option"

record cpu =
  cproc :: "nat option"
  noff :: int
  intena :: bool

record machine =
  hart :: nat
  sie :: "nat \<Rightarrow> bool"
  cpus :: "nat \<Rightarrow> cpu"
  locks :: "lockid \<Rightarrow> spinlock"

definition mycpu :: "'z machine_scheme \<Rightarrow> cpu" where
  "mycpu s = cpus s (hart s)"

definition set_mycpu :: "cpu \<Rightarrow> 'z machine_scheme \<Rightarrow> 'z machine_scheme" where
  "set_mycpu c s = s\<lparr>cpus := (cpus s)(hart s := c)\<rparr>"

definition intr_get :: "'z machine_scheme \<Rightarrow> bool" where
  "intr_get s = sie s (hart s)"

definition intr_on :: "'z machine_scheme \<Rightarrow> 'z machine_scheme" where
  "intr_on s = s\<lparr>sie := (sie s)(hart s := True)\<rparr>"

definition intr_off :: "'z machine_scheme \<Rightarrow> 'z machine_scheme" where
  "intr_off s = s\<lparr>sie := (sie s)(hart s := False)\<rparr>"

subsection \<open>Operations\<close>

definition initlock :: "lockid \<Rightarrow> string \<Rightarrow> 'z machine_scheme \<Rightarrow> 'z machine_scheme" where
  "initlock l nm s = s\<lparr>locks := (locks s)(l := \<lparr>locked = 0, lname = nm, lcpu = None\<rparr>)\<rparr>"

definition holding :: "lockid \<Rightarrow> 'z machine_scheme \<Rightarrow> bool" where
  "holding l s \<longleftrightarrow> locked (locks s l) \<noteq> 0 \<and> lcpu (locks s l) = Some (hart s)"

definition push_off :: "'z machine_scheme \<Rightarrow> 'z machine_scheme" where
  "push_off s =
     (let old = intr_get s;
          s = intr_off s;
          c = mycpu s;
          c = (if noff c = 0 then c\<lparr>intena := old\<rparr> else c)
      in set_mycpu (c\<lparr>noff := noff c + 1\<rparr>) s)"

definition pop_off :: "'z machine_scheme \<Rightarrow> 'z machine_scheme kres" where
  "pop_off s =
     (if intr_get s then Inl (Panic ''pop_off - interruptible'')
      else if noff (mycpu s) < 1 then Inl (Panic ''pop_off'')
      else
        let s = set_mycpu ((mycpu s)\<lparr>noff := noff (mycpu s) - 1\<rparr>) s
        in Inr (if noff (mycpu s) = 0 \<and> intena (mycpu s) then intr_on s else s))"

text \<open>One \<open>atomic.swap(1, Acquire)\<close>: the previous value and the new state.\<close>

definition swap_locked :: "lockid \<Rightarrow> 'z machine_scheme \<Rightarrow> u32 \<times> 'z machine_scheme" where
  "swap_locked l s =
     (locked (locks s l), s\<lparr>locks := (locks s)(l := (locks s l)\<lparr>locked := 1\<rparr>)\<rparr>)"

definition set_lcpu :: "lockid \<Rightarrow> nat option \<Rightarrow> 'z machine_scheme \<Rightarrow> 'z machine_scheme" where
  "set_lcpu l h s = s\<lparr>locks := (locks s)(l := (locks s l)\<lparr>lcpu := h\<rparr>)\<rparr>"

definition store_unlocked :: "lockid \<Rightarrow> 'z machine_scheme \<Rightarrow> 'z machine_scheme" where
  "store_unlocked l s = s\<lparr>locks := (locks s)(l := (locks s l)\<lparr>locked := 0\<rparr>)\<rparr>"

definition acquire :: "lockid \<Rightarrow> 'z machine_scheme \<Rightarrow> 'z machine_scheme kres" where
  "acquire l s =
     (let s = push_off s in
      if holding l s then Inl (Panic ''acquire'')
      else
        let (old, s) = swap_locked l s in
        if old \<noteq> 0 then Inl (Spins l)
        else Inr (set_lcpu l (Some (hart s)) s))"

definition release :: "lockid \<Rightarrow> 'z machine_scheme \<Rightarrow> 'z machine_scheme kres" where
  "release l s =
     (if \<not> holding l s then Inl (Panic ''release'')
      else pop_off (store_unlocked l (set_lcpu l None s)))"

subsection \<open>A critical section on one hart\<close>

text \<open>
  \<open>cpu_ok\<close> is the nesting discipline: the counter is not negative and interrupts are only on
  at depth 0.  Taking a free lock and giving it back leaves one trace, \<open>crit\<close>: at depth 0
  the \<open>intena\<close> field remembers the interrupt bit.
\<close>

definition cpu_ok :: "'z machine_scheme \<Rightarrow> bool" where
  "cpu_ok s \<longleftrightarrow> 0 \<le> noff (mycpu s) \<and> (intr_get s \<longrightarrow> noff (mycpu s) = 0)"

definition lock_free :: "lockid \<Rightarrow> 'z machine_scheme \<Rightarrow> bool" where
  "lock_free l s \<longleftrightarrow> locked (locks s l) = 0 \<and> lcpu (locks s l) = None"

definition crit :: "'z machine_scheme \<Rightarrow> 'z machine_scheme" where
  "crit s = (let c = mycpu s in
     set_mycpu (if noff c = 0 then c\<lparr>intena := intr_get s\<rparr> else c) s)"

definition acquired :: "lockid \<Rightarrow> 'z machine_scheme \<Rightarrow> 'z machine_scheme" where
  "acquired l s = (let s = push_off s in
     s\<lparr>locks := (locks s)(l := (locks s l)\<lparr>locked := 1, lcpu := Some (hart s)\<rparr>)\<rparr>)"

lemmas machine_defs = mycpu_def set_mycpu_def intr_get_def intr_on_def intr_off_def
  push_off_def Let_def

lemma hart_push_off [simp]: "hart (push_off s) = hart s"
  by (simp add: machine_defs)

lemma locks_push_off [simp]: "locks (push_off s) = locks s"
  by (simp add: machine_defs)

lemma hart_crit [simp]: "hart (crit s) = hart s"
  by (simp add: machine_defs crit_def)

lemma locks_crit [simp]: "locks (crit s) = locks s"
  by (simp add: machine_defs crit_def)

lemma sie_crit [simp]: "sie (crit s) = sie s"
  by (simp add: machine_defs crit_def)

lemma noff_crit [simp]: "noff (mycpu (crit s)) = noff (mycpu s)"
  by (simp add: machine_defs crit_def)

lemma cproc_crit [simp]: "cproc (mycpu (crit s)) = cproc (mycpu s)"
  by (simp add: machine_defs crit_def)

lemma crit_crit [simp]: "crit (crit s) = crit s"
  by (simp add: machine_defs crit_def)

lemma cpu_ok_crit [simp]: "cpu_ok (crit s) = cpu_ok s"
  by (simp add: cpu_ok_def intr_get_def)

lemma lock_free_crit [simp]: "lock_free l (crit s) = lock_free l s"
  by (simp add: lock_free_def)

lemma cpu_ok_push_off: "cpu_ok s \<Longrightarrow> cpu_ok (push_off s)"
  by (simp add: cpu_ok_def machine_defs)

lemma acquire_free [flow]: "lock_free l s \<Longrightarrow> acquire l s = Inr (acquired l s)"
  by (simp add: acquire_def acquired_def lock_free_def holding_def swap_locked_def set_lcpu_def
      Let_def)

lemma acquire_held: "holding l s \<Longrightarrow> acquire l s = Inl (Panic ''acquire'')"
  by (simp add: acquire_def holding_def Let_def)

lemma acquire_other:
  "locked (locks s l) \<noteq> 0 \<Longrightarrow> \<not> holding l s \<Longrightarrow> acquire l s = Inl (Spins l)"
  by (simp add: acquire_def holding_def swap_locked_def Let_def)

lemma holding_acquired [simp]: "holding l (acquired l s)"
  by (simp add: holding_def acquired_def Let_def)

lemma hart_acquired [simp]: "hart (acquired l s) = hart s"
  by (simp add: acquired_def Let_def)

lemma lock_free_acquired: "l' \<noteq> l \<Longrightarrow> lock_free l' (acquired l s) = lock_free l' s"
  by (simp add: lock_free_def acquired_def Let_def)

lemma cpu_ok_acquired [simp]: "cpu_ok s \<Longrightarrow> cpu_ok (acquired l s)"
  by (simp add: cpu_ok_def acquired_def machine_defs)

lemma crit_acquired [simp]: "cpu_ok s \<Longrightarrow> crit (acquired l s) = acquired l s"
  by (auto simp: crit_def acquired_def cpu_ok_def machine_defs)

lemma cproc_acquired [simp]: "cproc (mycpu (acquired l s)) = cproc (mycpu s)"
  by (simp add: acquired_def machine_defs)

text \<open>
  The central fact about one hart: \<open>release\<close> after \<open>acquire\<close> restores the lock, the nesting
  depth and the interrupt bit.
\<close>

lemma release_acquired [flow]:
  assumes "cpu_ok s" "lock_free l s"
  shows "release l (acquired l s) = Inr (crit s)"
proof -
  have "(locks s l)\<lparr>locked := 0, lcpu := None\<rparr> = locks s l"
    using assms(2) by (simp add: lock_free_def)
  then show ?thesis
    using assms
    by (auto simp: release_def acquired_def crit_def holding_def pop_off_def store_unlocked_def
        set_lcpu_def cpu_ok_def lock_free_def machine_defs fun_upd_idem fun_upd_twist)
qed

text \<open>The order \<open>sleep\<close> uses: a second lock is taken before the first one is given back.\<close>

lemma release_under [flow]:
  assumes "cpu_ok s" "lock_free l s" "l' \<noteq> l"
  shows "release l (acquired l' (acquired l s)) = Inr (acquired l' s)"
proof -
  have "(locks s l)\<lparr>locked := 0, lcpu := None\<rparr> = locks s l"
    using assms(2) by (simp add: lock_free_def)
  then show ?thesis
    using assms
    by (auto simp: release_def acquired_def holding_def pop_off_def store_unlocked_def
        set_lcpu_def cpu_ok_def lock_free_def machine_defs fun_upd_idem fun_upd_twist)
qed

lemma release_not_held: "\<not> holding l s \<Longrightarrow> release l s = Inl (Panic ''release'')"
  by (simp add: release_def)

subsection \<open>Several harts: interleaved lock steps\<close>

text \<open>
  The harts of the machine run at the same time.  A step of hart \<open>h\<close> is one of the memory
  operations of \<open>acquire\<close> and \<open>release\<close>: the two routines above, cut at the accesses to
  the lock word.  \<open>pc\<close> says where each hart is; \<open>owned h\<close> collects the locks hart \<open>h\<close>
  has taken and not given back.
\<close>

datatype lock_pc =
    Running
  | Swapping lockid   \<comment> \<open>in the \<open>while atomic.swap(1)\<close> loop\<close>
  | Marking lockid    \<comment> \<open>swap returned 0, \<open>lk.cpu\<close> not yet written\<close>
  | Storing lockid    \<comment> \<open>\<open>lk.cpu\<close> cleared, lock word not yet stored\<close>
  | Popping           \<comment> \<open>lock word stored, \<open>pop_off\<close> still to run\<close>
  | Halted            \<comment> \<open>kernel panic\<close>

record smp = machine +
  pc :: "nat \<Rightarrow> lock_pc"
  owned :: "nat \<Rightarrow> lockid set"

definition on_hart :: "nat \<Rightarrow> smp \<Rightarrow> smp" where
  "on_hart h s = s\<lparr>hart := h\<rparr>"

definition goto :: "nat \<Rightarrow> lock_pc \<Rightarrow> smp \<Rightarrow> smp" where
  "goto h p s = s\<lparr>pc := (pc s)(h := p)\<rparr>"

inductive lock_step :: "smp \<Rightarrow> smp \<Rightarrow> bool" where
  acquire_enter:
    "pc s h = Running \<Longrightarrow> t = push_off (on_hart h s) \<Longrightarrow>
     lock_step s (goto h (if holding l t then Halted else Swapping l) t)"
| acquire_spin:
    "pc s h = Swapping l \<Longrightarrow> swap_locked l (on_hart h s) = (old, t) \<Longrightarrow> old \<noteq> 0 \<Longrightarrow>
     lock_step s t"
| acquire_win:
    "pc s h = Swapping l \<Longrightarrow> swap_locked l (on_hart h s) = (0, t) \<Longrightarrow>
     lock_step s (goto h (Marking l) t)"
| acquire_mark:
    "pc s h = Marking l \<Longrightarrow>
     lock_step s (goto h Running
       ((set_lcpu l (Some h) (on_hart h s))\<lparr>owned := (owned s)(h := insert l (owned s h))\<rparr>))"
| release_enter:
    "pc s h = Running \<Longrightarrow> holding l (on_hart h s) \<Longrightarrow>
     lock_step s (goto h (Storing l) (set_lcpu l None (on_hart h s)))"
| release_bad:
    "pc s h = Running \<Longrightarrow> \<not> holding l (on_hart h s) \<Longrightarrow>
     lock_step s (goto h Halted (on_hart h s))"
| release_store:
    "pc s h = Storing l \<Longrightarrow>
     lock_step s (goto h Popping
       ((store_unlocked l (on_hart h s))\<lparr>owned := (owned s)(h := owned s h - {l})\<rparr>))"
| release_pop:
    "pc s h = Popping \<Longrightarrow> pop_off (on_hart h s) = Inr t \<Longrightarrow> lock_step s (goto h Running t)"
| release_pop_bad:
    "pc s h = Popping \<Longrightarrow> pop_off (on_hart h s) = Inl e \<Longrightarrow>
     lock_step s (goto h Halted (on_hart h s))"

definition smp_init :: smp where
  "smp_init = \<lparr>hart = 0, sie = (\<lambda>_. True),
     cpus = (\<lambda>_. \<lparr>cproc = None, noff = 0, intena = False\<rparr>),
     locks = (\<lambda>_. \<lparr>locked = 0, lname = [], lcpu = None\<rparr>),
     pc = (\<lambda>_. Running), owned = (\<lambda>_. {})\<rparr>"

inductive smp_reachable :: "smp \<Rightarrow> bool" where
  smp_start: "smp_reachable smp_init"
| smp_step: "smp_reachable s \<Longrightarrow> lock_step s t \<Longrightarrow> smp_reachable t"

text \<open>
  The lock word is set exactly while some hart is between its winning swap and its store, and
  \<open>lk.cpu\<close> names the owner from \<open>acquire_mark\<close> to \<open>release_enter\<close>.
\<close>

definition has_lock :: "smp \<Rightarrow> nat \<Rightarrow> lockid \<Rightarrow> bool" where
  "has_lock s h l \<longleftrightarrow> l \<in> owned s h \<or> pc s h = Marking l"

definition depth :: "lock_pc \<Rightarrow> nat" where
  "depth p = (case p of Swapping _ \<Rightarrow> 1 | Marking _ \<Rightarrow> 1 | Popping \<Rightarrow> 1 | _ \<Rightarrow> 0)"

definition word_inv_at :: "lockid \<Rightarrow> smp \<Rightarrow> bool" where
  "word_inv_at l s \<longleftrightarrow>
     (locked (locks s l) \<noteq> 0) = (\<exists>h. has_lock s h l) \<and>
     (\<forall>h h'. has_lock s h l \<longrightarrow> has_lock s h' l \<longrightarrow> h = h') \<and>
     (\<forall>h. lcpu (locks s l) = Some h \<longleftrightarrow> l \<in> owned s h \<and> pc s h \<noteq> Storing l) \<and>
     (\<forall>h. pc s h = Storing l \<longrightarrow> l \<in> owned s h) \<and>
     (\<forall>h. pc s h = Marking l \<longrightarrow> l \<notin> owned s h)"

definition word_inv :: "smp \<Rightarrow> bool" where
  "word_inv s \<longleftrightarrow> (\<forall>l. word_inv_at l s)"

definition nest_inv :: "smp \<Rightarrow> bool" where
  "nest_inv s \<longleftrightarrow> (\<forall>h. finite (owned s h) \<and>
     (pc s h \<noteq> Halted \<longrightarrow> noff (cpus s h) = int (card (owned s h)) + int (depth (pc s h))) \<and>
     (pc s h \<noteq> Halted \<longrightarrow> sie s h \<longrightarrow> owned s h = {} \<and> depth (pc s h) = 0))"

lemmas step_defs = on_hart_def goto_def swap_locked_def set_lcpu_def store_unlocked_def
  holding_def machine_defs

lemma word_inv_init: "word_inv smp_init"
  by (simp add: word_inv_def word_inv_at_def smp_init_def has_lock_def)

lemma nest_inv_init: "nest_inv smp_init"
  by (simp add: nest_inv_def smp_init_def depth_def)

lemma word_inv_at_cong:
  assumes "word_inv_at l s" and "locks t l = locks s l" and "\<And>h. (l \<in> owned t h) = (l \<in> owned s h)"
    and "\<And>h. (pc t h = Marking l) = (pc s h = Marking l)"
    and "\<And>h. (pc t h = Storing l) = (pc s h = Storing l)"
  shows "word_inv_at l t"
  using assms by (simp add: word_inv_at_def has_lock_def)

lemma lock_step_word_inv: "lock_step s t \<Longrightarrow> word_inv_at k s \<Longrightarrow> word_inv_at k t"
proof (induction rule: lock_step.induct)
  case (acquire_enter s h t l)
  show ?case
    by (rule word_inv_at_cong [OF acquire_enter(3)]) (use acquire_enter in \<open>auto simp: step_defs\<close>)
next
  case (acquire_spin s h l old t)
  then show ?case by (cases "k = l") (auto simp: step_defs word_inv_at_def has_lock_def)
next
  case (acquire_win s h l t)
  have "\<not> has_lock s h' l" if "k = l" for h'
    using that acquire_win by (auto simp: step_defs word_inv_at_def)
  then have "k = l \<Longrightarrow> ?case"
    using acquire_win by (auto simp: step_defs word_inv_at_def has_lock_def)
  moreover have "k \<noteq> l \<Longrightarrow> ?case"
    by (rule word_inv_at_cong [OF acquire_win(3)]) (use acquire_win in \<open>auto simp: step_defs\<close>)
  ultimately show ?case by blast
next
  case (acquire_mark s h l)
  have "k \<noteq> l \<Longrightarrow> ?case"
    by (rule word_inv_at_cong [OF acquire_mark(2)]) (use acquire_mark in \<open>auto simp: step_defs\<close>)
  moreover have "k = l \<Longrightarrow> ?case"
    using acquire_mark by (auto simp: step_defs word_inv_at_def has_lock_def)
  ultimately show ?case by blast
next
  case (release_enter s h l)
  have "k \<noteq> l \<Longrightarrow> ?case"
    by (rule word_inv_at_cong [OF release_enter(3)]) (use release_enter in \<open>auto simp: step_defs\<close>)
  moreover have "k = l \<Longrightarrow> ?case"
    using release_enter by (auto simp: step_defs word_inv_at_def has_lock_def)
  ultimately show ?case by blast
next
  case (release_bad s h l)
  show ?case
    by (rule word_inv_at_cong [OF release_bad(3)]) (use release_bad in \<open>auto simp: step_defs\<close>)
next
  case (release_store s h l)
  have "k \<noteq> l \<Longrightarrow> ?case"
    by (rule word_inv_at_cong [OF release_store(2)]) (use release_store in \<open>auto simp: step_defs\<close>)
  moreover have "k = l \<Longrightarrow> ?case"
    using release_store by (auto simp: step_defs word_inv_at_def has_lock_def)
  ultimately show ?case by blast
next
  case (release_pop s h t)
  show ?case
    by (rule word_inv_at_cong [OF release_pop(3)])
      (use release_pop in \<open>auto simp: step_defs pop_off_def split: if_splits\<close>)
next
  case (release_pop_bad s h e)
  show ?case
    by (rule word_inv_at_cong [OF release_pop_bad(3)]) (use release_pop_bad in \<open>auto simp: step_defs\<close>)
qed

lemma lock_step_nest_inv: "lock_step s t \<Longrightarrow> word_inv s \<Longrightarrow> nest_inv s \<Longrightarrow> nest_inv t"
proof (induction rule: lock_step.induct)
  case (acquire_mark s h l)
  then have "l \<notin> owned s h" by (auto simp: word_inv_def word_inv_at_def)
  with acquire_mark show ?case
    by (auto simp: step_defs nest_inv_def depth_def dest!: spec [of _ h])
next
  case (release_enter s h l)
  then have "l \<in> owned s h" by (auto simp: step_defs word_inv_def word_inv_at_def)
  with release_enter show ?case by (auto simp: step_defs nest_inv_def depth_def)
next
  case (release_store s h l)
  then have l: "l \<in> owned s h" by (auto simp: word_inv_def word_inv_at_def)
  moreover have "finite (owned s h)" using release_store by (simp add: nest_inv_def)
  ultimately have "int (card (owned s h - {l})) + 1 = int (card (owned s h))"
    by (metis add.commute card_Suc_Diff1 of_nat_Suc)
  with release_store l show ?case by (auto simp: step_defs nest_inv_def depth_def)
next
  case (release_pop s h t)
  then show ?case
    by (auto simp: step_defs nest_inv_def depth_def pop_off_def split: if_splits)
next
  case (acquire_win s h l t)
  then have "\<not> sie s h" by (auto simp: nest_inv_def depth_def dest!: spec [of _ h])
  with acquire_win show ?case by (auto simp: step_defs nest_inv_def depth_def)
qed (auto simp: step_defs nest_inv_def depth_def split: if_splits)

lemma smp_reachable_inv: "smp_reachable s \<Longrightarrow> word_inv s \<and> nest_inv s"
  by (induction rule: smp_reachable.induct)
    (auto simp: word_inv_def word_inv_init [unfolded word_inv_def] nest_inv_init
      intro: lock_step_word_inv lock_step_nest_inv [unfolded word_inv_def])

text \<open>A hart that takes the allocator's lock, for the witnesses below.\<close>

lemma smp_some_owner: "\<exists>s. smp_reachable s \<and> LKmem \<in> owned s 0 \<and> pc s 0 = Running"
proof -
  define s1 where "s1 = goto 0 (Swapping LKmem) (push_off (on_hart 0 smp_init))"
  define s2 where "s2 = goto 0 (Marking LKmem) (snd (swap_locked LKmem (on_hart 0 s1)))"
  define s3 where "s3 = goto 0 Running
    ((set_lcpu LKmem (Some 0) (on_hart 0 s2))\<lparr>owned := (owned s2)(0 := insert LKmem (owned s2 0))\<rparr>)"
  have "lock_step smp_init s1"
    using lock_step.acquire_enter [of smp_init 0 "push_off (on_hart 0 smp_init)" LKmem]
    by (simp add: s1_def step_defs smp_init_def)
  moreover have "swap_locked LKmem (on_hart 0 s1) = (0, snd (swap_locked LKmem (on_hart 0 s1)))"
    by (simp add: s1_def step_defs smp_init_def)
  then have "lock_step s1 s2"
    unfolding s2_def by (rule lock_step.acquire_win [rotated]) (simp add: s1_def step_defs)
  moreover have "lock_step s2 s3"
    unfolding s3_def by (rule lock_step.acquire_mark) (simp add: s2_def step_defs)
  ultimately have "smp_reachable s3" by (blast intro: smp_start smp_step)
  then show ?thesis by (intro exI [of _ s3]) (simp add: s3_def step_defs)
qed

text \<open>
  C2: whatever the interleaving of the harts' lock operations, two harts never have the same spin lock
  at the same time.
\<close>

theorem spinlock_mutual_exclusion:
  assumes "smp_reachable s" "has_lock s h l" "has_lock s h' l"
  shows "h = h'"
  using smp_reachable_inv [OF assms(1)] assms(2,3) by (auto simp: word_inv_def word_inv_at_def)

theorem spinlock_mutual_exclusion_witness:
  "\<exists>s. smp_reachable s \<and> has_lock s 0 LKmem \<and> \<not> has_lock s 1 LKmem"
  using smp_some_owner spinlock_mutual_exclusion [of _ 0 LKmem 1] by (auto simp: has_lock_def)

text \<open>
  C11: a hart that holds a spin lock runs with interrupts off, so that no interrupt handler of the same
  hart can wait for that lock.
\<close>

theorem spinlock_interrupts_off:
  assumes "smp_reachable s" "l \<in> owned s h" "pc s h \<noteq> Halted"
  shows "\<not> sie s h"
  using smp_reachable_inv [OF assms(1)] assms(2,3) by (auto simp: nest_inv_def)

theorem spinlock_interrupts_off_witness:
  "\<exists>s. smp_reachable s \<and> LKmem \<in> owned s 0 \<and> \<not> sie s 0"
  using smp_some_owner spinlock_interrupts_off [of _ LKmem 0] by auto



end
