(* ===== verification/Cstring.thy ===== *)
theory Cstring
  imports Prelude
begin

section \<open>Memory and string routines (kernel/rust\_string.rs)\<close>

text \<open>
  The raw-pointer loops of the kernel's string module, over byte-addressed memory.  A pointer is
  an address, \<open>p.add(k)\<close> is \<open>p + k\<close>, and a loop bounded by a count recurses on what is left
  of the count.  \<open>strlen\<close> has no bound: it is a partial function that returns when a NUL byte
  follows.  The closed forms below (what memory holds afterwards) are what the other
  components use.
\<close>

subsection \<open>The loops\<close>

primrec memset_from :: "u64 \<Rightarrow> u8 \<Rightarrow> nat \<Rightarrow> nat \<Rightarrow> memory \<Rightarrow> memory" where
  "memset_from dst c i 0 m = m"
| "memset_from dst c i (Suc left) m = memset_from dst c (Suc i) left (m(dst + of_nat i := c))"

definition memset :: "u64 \<Rightarrow> u32 \<Rightarrow> u32 \<Rightarrow> memory \<Rightarrow> memory" where
  "memset dst c n m = memset_from dst (ucast c) 0 (unat n) m"

primrec memcmp_left :: "memory \<Rightarrow> u64 \<Rightarrow> u64 \<Rightarrow> nat \<Rightarrow> int" where
  "memcmp_left m s1 s2 0 = 0"
| "memcmp_left m s1 s2 (Suc left) =
     (if m s1 \<noteq> m s2 then uint (m s1) - uint (m s2) else memcmp_left m (s1 + 1) (s2 + 1) left)"

definition memcmp :: "memory \<Rightarrow> u64 \<Rightarrow> u64 \<Rightarrow> u32 \<Rightarrow> int" where
  "memcmp m v1 v2 n = memcmp_left m v1 v2 (unat n)"

primrec copy_down :: "u64 \<Rightarrow> u64 \<Rightarrow> nat \<Rightarrow> memory \<Rightarrow> memory" where
  "copy_down d s 0 m = m"
| "copy_down d s (Suc left) m = copy_down (d - 1) (s - 1) left (m(d - 1 := m (s - 1)))"

primrec copy_up :: "u64 \<Rightarrow> u64 \<Rightarrow> nat \<Rightarrow> memory \<Rightarrow> memory" where
  "copy_up d s 0 m = m"
| "copy_up d s (Suc left) m = copy_up (d + 1) (s + 1) left (m(d := m s))"

definition memmove :: "u64 \<Rightarrow> u64 \<Rightarrow> u32 \<Rightarrow> memory \<Rightarrow> memory" where
  "memmove dst src n m =
     (if n = 0 then m
      else if src < dst \<and> src + ucast n > dst
        then copy_down (dst + ucast n) (src + ucast n) (unat n) m
      else copy_up dst src (unat n) m)"

definition memcpy :: "u64 \<Rightarrow> u64 \<Rightarrow> u32 \<Rightarrow> memory \<Rightarrow> memory" where
  "memcpy dst src n m = memmove dst src n m"

primrec strncmp_left :: "memory \<Rightarrow> u64 \<Rightarrow> u64 \<Rightarrow> nat \<Rightarrow> int" where
  "strncmp_left m p q 0 = 0"
| "strncmp_left m p q (Suc left) =
     (if m p \<noteq> 0 \<and> m p = m q then strncmp_left m (p + 1) (q + 1) left
      else uint (m p) - uint (m q))"

definition strncmp :: "memory \<Rightarrow> u64 \<Rightarrow> u64 \<Rightarrow> u32 \<Rightarrow> int" where
  "strncmp m p q n = strncmp_left m p q (unat n)"

primrec zero_fill :: "u64 \<Rightarrow> nat \<Rightarrow> memory \<Rightarrow> memory" where
  "zero_fill s 0 m = m"
| "zero_fill s (Suc left) m = zero_fill (s + 1) left (m(s := 0))"

primrec strncpy_left :: "u64 \<Rightarrow> u64 \<Rightarrow> nat \<Rightarrow> memory \<Rightarrow> memory" where
  "strncpy_left s t 0 m = m"
| "strncpy_left s t (Suc left) m =
     (let ch = m t; m = m(s := ch) in
      if ch = 0 then zero_fill (s + 1) left m else strncpy_left (s + 1) (t + 1) left m)"

definition strncpy :: "u64 \<Rightarrow> u64 \<Rightarrow> int \<Rightarrow> memory \<Rightarrow> memory" where
  "strncpy s t n m = strncpy_left s t (nat n) m"

text \<open>\<open>safestrcpy\<close> copies at most \<open>n - 1\<close> bytes and always writes a NUL.\<close>

primrec safestrcpy_left :: "u64 \<Rightarrow> u64 \<Rightarrow> nat \<Rightarrow> memory \<Rightarrow> memory" where
  "safestrcpy_left s t 0 m = m(s := 0)"
| "safestrcpy_left s t (Suc left) m =
     (let ch = m t; m = m(s := ch) in
      if ch = 0 then m(s + 1 := 0) else safestrcpy_left (s + 1) (t + 1) left m)"

definition safestrcpy :: "u64 \<Rightarrow> u64 \<Rightarrow> int \<Rightarrow> memory \<Rightarrow> memory" where
  "safestrcpy s t n m = (if n \<le> 0 then m else safestrcpy_left s t (nat (n - 1)) m)"

text \<open>The \<open>c_int\<close> counter of \<open>strlen\<close> is kept at its width.\<close>

partial_function (option) strlen_from :: "memory \<Rightarrow> u64 \<Rightarrow> u32 \<Rightarrow> u32 option" where
  "strlen_from m s n = (if m s = 0 then Some n else strlen_from m (s + 1) (n + 1))"

definition strlen :: "memory \<Rightarrow> u64 \<Rightarrow> u32 option" where
  "strlen m s = strlen_from m s 0"

subsection \<open>What the loops leave in memory\<close>

lemma in_range_0 [simp]: "\<not> in_range a 0 x"
  by (simp add: in_range_def)

lemma in_range_Suc:
  assumes "k < 2 ^ 64"
  shows "in_range a (Suc k) x \<longleftrightarrow> x = a \<or> in_range (a + 1) k x"
proof (cases "x = a")
  case True
  then show ?thesis by (simp add: in_range_def)
next
  case False
  then have "unat (x - a) \<noteq> 0" by (simp add: unat_eq_zero)
  then have "unat (x - (a + 1)) = unat (x - a) - 1"
    by (metis diff_diff_add unat_minus_one unsigned_0)
  with False \<open>unat (x - a) \<noteq> 0\<close> show ?thesis by (auto simp: in_range_def)
qed

lemma memset_from_eq:
  "k < 2 ^ 64 \<Longrightarrow> memset_from dst c i k m =
     (\<lambda>x. if in_range (dst + of_nat i) k x then c else m x)"
proof (induction k arbitrary: i m)
  case (Suc k)
  then show ?case
    by (auto simp: in_range_Suc fun_eq_iff algebra_simps)
qed simp

lemma memset_eq:
  "memset dst c n m = (\<lambda>x. if in_range dst (unat n) x then ucast c else m x)"
proof -
  have "unat n < 2 ^ 64" using unat_u32_less [of n] by simp
  then show ?thesis by (simp add: memset_def memset_from_eq)
qed

lemma copy_up_eq:
  assumes "k < 2 ^ 64" "\<And>i j. i < j \<Longrightarrow> j < k \<Longrightarrow> d + of_nat i \<noteq> s + of_nat j"
  shows "copy_up d s k m = (\<lambda>x. if in_range d k x then m (x - d + s) else m x)"
  using assms
proof (induction k arbitrary: d s m)
  case (Suc k)
  have far: "d \<noteq> s + of_nat j" if "0 < j" "j < Suc k" for j
    using Suc.prems(2) [of 0 j] that by simp
  have "copy_up (d + 1) (s + 1) k (m(d := m s)) =
      (\<lambda>x. if in_range (d + 1) k x then (m(d := m s)) (x - (d + 1) + (s + 1)) else (m(d := m s)) x)"
  proof (rule Suc.IH)
    fix i j :: nat assume "i < j" "j < k"
    then show "d + 1 + of_nat i \<noteq> s + 1 + of_nat j" using Suc.prems(2) [of "Suc i" "Suc j"] by (simp add: algebra_simps)
  qed (use Suc.prems in simp)
  moreover have "x - d + s \<noteq> d" if "in_range (d + 1) k x" for x
  proof -
    have "in_range d (Suc k) x" using that Suc.prems(1) by (simp add: in_range_Suc)
    moreover have "x \<noteq> d" using that Suc.prems(1) by (auto simp: in_range_def unat_minus_1_u64)
    ultimately show ?thesis
      using far [of "unat (x - d)"] by (auto simp: in_range_def unat_eq_zero algebra_simps unat_gt_0)
  qed
  ultimately show ?case
    using Suc.prems(1) by (auto simp: in_range_Suc fun_eq_iff algebra_simps)
qed simp

lemma copy_down_eq:
  assumes "k < 2 ^ 64" "\<And>i j. i < j \<Longrightarrow> j < k \<Longrightarrow> d + of_nat j \<noteq> s + of_nat i"
  shows "copy_down (d + of_nat k) (s + of_nat k) k m =
    (\<lambda>x. if in_range d k x then m (x - d + s) else m x)"
  using assms
proof (induction k arbitrary: m)
  case (Suc k)
  let ?m = "m(d + of_nat k := m (s + of_nat k))"
  have "copy_down (d + of_nat k) (s + of_nat k) k ?m =
      (\<lambda>x. if in_range d k x then ?m (x - d + s) else ?m x)"
    using Suc.prems by (intro Suc.IH) auto
  moreover have "x - d + s \<noteq> d + of_nat k" if "in_range d k x" for x
    using Suc.prems(2) [of "unat (x - d)" k] that by (auto simp: in_range_def algebra_simps)
  moreover have "in_range d (Suc k) x \<longleftrightarrow> in_range d k x \<or> x = d + of_nat k" for x
  proof -
    have "unat (x - d) = k \<longleftrightarrow> x - d = of_nat k"
      using Suc.prems(1) by (auto simp: unat_of_nat_64)
    then show ?thesis by (auto simp: in_range_def less_Suc_eq algebra_simps)
  qed
  moreover have "\<not> in_range d k (d + of_nat k)"
    using Suc.prems(1) by (simp add: in_range_def unat_of_nat_64)
  ultimately show ?case
    by (auto simp: fun_eq_iff algebra_simps)
qed simp

lemma store_load_bytes:
  assumes "n \<le> 2 ^ 64"
  shows "store_bytes m d (load_bytes m' s n) = (\<lambda>x. if in_range d n x then m' (x - d + s) else m x)"
  by (auto simp: store_bytes_def in_range_def fun_eq_iff algebra_simps)

text \<open>
  \<open>memmove\<close> stores what the source held before the call, also where the two ranges overlap,
  as long as neither range reaches the end of the address space.
\<close>

lemma memmove_eq:
  assumes "unat src + unat n < 2 ^ 64" "unat dst + unat n < 2 ^ 64"
  shows "memmove dst src n m = store_bytes m dst (load_bytes m src (unat n))"
proof -
  have n: "unat n < 2 ^ 64" "(of_nat (unat n) :: u64) = ucast n"
    using unat_u32_less [of n] by simp_all
  have su: "unat (src + of_nat i) = unat src + i" "unat (dst + of_nat i) = unat dst + i"
    if "i \<le> unat n" for i
    using that assms n(1) by (simp_all add: unat_word_ariths unat_of_nat_64)
  show ?thesis
  proof (cases "src < dst \<and> src + ucast n > dst")
    case True
    have "dst + of_nat j \<noteq> src + of_nat i" if "i < j" "j < unat n" for i j
    proof -
      have "unat src < unat dst" using True by (simp add: word_less_nat_alt)
      then have "unat (src + of_nat i) < unat (dst + of_nat j)" using that su by simp
      then show ?thesis by auto
    qed
    then have "copy_down (dst + of_nat (unat n)) (src + of_nat (unat n)) (unat n) m =
        (\<lambda>x. if in_range dst (unat n) x then m (x - dst + src) else m x)"
      using n by (intro copy_down_eq) auto
    with True n show ?thesis by (auto simp: memmove_def store_load_bytes)
  next
    case False
    have "dst + of_nat i \<noteq> src + of_nat j" if ij: "i < j" "j < unat n" for i j
    proof -
      have "unat dst \<le> unat src \<or> unat src + unat n \<le> unat dst"
        using False su(1) [of "unat n"] n(2) by (auto simp: word_less_nat_alt not_less)
      then have "unat (dst + of_nat i) \<noteq> unat (src + of_nat j)" using ij su by auto
      then show ?thesis by auto
    qed
    then have "copy_up dst src (unat n) m =
        (\<lambda>x. if in_range dst (unat n) x then m (x - dst + src) else m x)"
      using n by (intro copy_up_eq) auto
    with False n show ?thesis by (auto simp: memmove_def store_load_bytes)
  qed
qed

subsection \<open>NUL-terminated names\<close>

text \<open>The name a fixed-width field of \<open>n\<close> bytes holds: its bytes before the first NUL.\<close>

definition name_of :: "u8 list \<Rightarrow> u8 list" where
  "name_of bs = takeWhile (\<lambda>b. b \<noteq> 0) bs"

definition pad :: "nat \<Rightarrow> u8 list \<Rightarrow> u8 list" where
  "pad n bs = bs @ replicate (n - length bs) 0"

lemma load_bytes_0 [simp]: "load_bytes m a 0 = []"
  by (simp add: load_bytes_def)

lemma load_bytes_Suc: "load_bytes m a (Suc n) = m a # load_bytes m (a + 1) n"
  by (rule nth_equalityI) (auto simp: nth_Cons algebra_simps split: nat.splits)

lemma store_bytes_Nil [simp]: "store_bytes m a [] = m"
  by (simp add: store_bytes_def)

lemma store_bytes_Cons:
  assumes "Suc (length bs) < 2 ^ 64"
  shows "store_bytes m a (b # bs) = store_bytes (m(a := b)) (a + 1) bs"
proof
  fix x
  show "store_bytes m a (b # bs) x = store_bytes (m(a := b)) (a + 1) bs x"
  proof (cases "x = a")
    case True
    then show ?thesis using assms by (simp add: store_bytes_def unat_minus_1_u64)
  next
    case False
    then have "unat (x - a) \<noteq> 0" by (simp add: unat_eq_zero)
    then have "unat (x - (a + 1)) = unat (x - a) - 1"
      by (metis diff_diff_add unat_minus_one unsigned_0)
    with False \<open>unat (x - a) \<noteq> 0\<close> show ?thesis
      by (auto simp: store_bytes_def nth_Cons split: nat.splits)
  qed
qed

lemma strncmp_left_0_iff:
  "strncmp_left m p q n = 0 \<longleftrightarrow> name_of (load_bytes m p n) = name_of (load_bytes m q n)"
proof (induction n arbitrary: p q)
  case (Suc n)
  then show ?case
    by (auto simp: name_of_def load_bytes_Suc word_uint_eq_iff)
qed (simp add: name_of_def)

lemma strncmp_0_iff:
  "strncmp m p q n = 0 \<longleftrightarrow> name_of (load_bytes m p (unat n)) = name_of (load_bytes m q (unat n))"
  by (simp add: strncmp_def strncmp_left_0_iff)

lemma zero_fill_eq: "n < 2 ^ 64 \<Longrightarrow> zero_fill s n m = store_bytes m s (replicate n 0)"
  by (induction n arbitrary: s m) (simp_all add: store_bytes_Cons)

lemma apart_Suc:
  assumes "apart a (Suc n) b (Suc k)" "n < 2 ^ 64" "k < 2 ^ 64"
  shows "apart (a + 1) n (b + 1) k" "\<not> in_range (b + 1) k a" "\<not> in_range (a + 1) n b" "a \<noteq> b"
proof -
  have *: "\<not> ((x = a \<or> in_range (a + 1) n x) \<and> (x = b \<or> in_range (b + 1) k x))" for x
    using assms(1) in_range_Suc [OF assms(2), of a x] in_range_Suc [OF assms(3), of b x]
    by (auto simp: apart_def)
  show "apart (a + 1) n (b + 1) k" using * by (auto simp: apart_def)
  show "\<not> in_range (b + 1) k a" "a \<noteq> b" using * [of a] by auto
  show "\<not> in_range (a + 1) n b" using * [of b] by auto
qed

lemma load_bytes_upd_outside:
  "\<not> in_range b k a \<Longrightarrow> k \<le> 2 ^ 64 \<Longrightarrow> load_bytes (m(a := v)) b k = load_bytes m b k"
  by (rule load_bytes_cong) auto

lemma strncpy_left_eq:
  assumes "apart s n t n" "n < 2 ^ 64"
  shows "strncpy_left s t n m = store_bytes m s (pad n (name_of (load_bytes m t n)))"
  using assms
proof (induction n arbitrary: s t m)
  case (Suc n)
  note ap = apart_Suc [OF Suc.prems(1)]
  have n: "n < 2 ^ 64" "n \<le> 2 ^ 64" using Suc.prems(2) by simp_all
  have len: "length (name_of (load_bytes m (t + 1) n)) \<le> n"
    using length_takeWhile_le [of _ "load_bytes m (t + 1) n"] by (simp add: name_of_def)
  show ?case
  proof (cases "m t = 0")
    case True
    with Suc.prems(2) show ?thesis
      by (simp add: zero_fill_eq name_of_def pad_def load_bytes_Suc store_bytes_Cons)
  next
    case False
    have "strncpy_left (s + 1) (t + 1) n (m(s := m t)) =
        store_bytes (m(s := m t)) (s + 1) (pad n (name_of (load_bytes (m(s := m t)) (t + 1) n)))"
      using Suc.IH [OF ap(1) n(1)] n by simp
    also have "load_bytes (m(s := m t)) (t + 1) n = load_bytes m (t + 1) n"
      using ap(2) n by (simp add: load_bytes_upd_outside)
    finally have step: "strncpy_left (s + 1) (t + 1) n (m(s := m t)) =
        store_bytes (m(s := m t)) (s + 1) (pad n (name_of (load_bytes m (t + 1) n)))" .
    show ?thesis
      using False Suc.prems(2) len
      by (simp add: step load_bytes_Suc name_of_def pad_def store_bytes_Cons)
  qed
qed (simp add: name_of_def pad_def)

lemma strncpy_eq:
  "apart s (nat n) t (nat n) \<Longrightarrow> nat n < 2 ^ 64 \<Longrightarrow>
     strncpy s t n m = store_bytes m s (pad (nat n) (name_of (load_bytes m t (nat n))))"
  by (simp add: strncpy_def strncpy_left_eq)

lemma length_name_of: "length (name_of bs) \<le> length bs"
  by (simp add: name_of_def length_takeWhile_le)

lemma name_of_pad: "name_of (pad n (name_of bs)) = name_of bs"
  by (simp add: name_of_def pad_def takeWhile_append takeWhile_replicate)

text \<open>A name copied with \<open>strncpy\<close> compares equal to its source.\<close>

lemma strncpy_strncmp:
  assumes "apart s (unat n) t (unat n)"
  shows "strncmp (strncpy s t (int (unat n)) m) s t n = 0"
proof -
  have n: "unat n < 2 ^ 64" using unat_u32_less [of n] by simp
  let ?bs = "pad (unat n) (name_of (load_bytes m t (unat n)))"
  have len: "length ?bs = unat n"
    using length_name_of [of "load_bytes m t (unat n)"] by (simp add: pad_def)
  have "strncpy s t (int (unat n)) m = store_bytes m s ?bs"
    using strncpy_eq [of s "int (unat n)" t m] assms n by simp
  then show ?thesis
    using n len assms
    by (simp add: strncmp_0_iff load_store_bytes load_store_apart name_of_pad del: of_nat_unat)
qed

lemma strlen_from_eq:
  assumes "k < 2 ^ 64" "\<forall>i < k. m (s + of_nat i) \<noteq> 0" "m (s + of_nat k) = 0"
  shows "strlen_from m s n = Some (n + of_nat k)"
  using assms
proof (induction k arbitrary: s n)
  case 0
  then show ?case by (subst strlen_from.simps) simp
next
  case (Suc k)
  have "m s \<noteq> 0" using Suc.prems(2) by (auto dest: spec [of _ 0])
  moreover have "strlen_from m (s + 1) (n + 1) = Some (n + 1 + of_nat k)"
  proof (rule Suc.IH)
    show "\<forall>i<k. m (s + 1 + of_nat i) \<noteq> 0"
      using Suc.prems(2) by (auto simp: algebra_simps dest: spec [of _ "Suc _"])
  qed (use Suc.prems in \<open>simp_all add: algebra_simps\<close>)
  ultimately show ?case by (subst strlen_from.simps) (simp add: algebra_simps)
qed

lemma strlen_eq:
  assumes "k < 2 ^ 31" "\<forall>i < k. m (s + of_nat i) \<noteq> 0" "m (s + of_nat k) = 0"
  shows "strlen m s = Some (of_nat k)" "sint (of_nat k :: u32) = int k"
  using assms strlen_from_eq [of k m s 0]
  by (simp_all add: strlen_def signed_of_nat signed_take_bit_int_eq_self)

subsection \<open>Properties\<close>

text \<open>
  C21: \<open>memmove\<close> makes the destination hold what the source held before the call, also when
  the ranges overlap in either direction, and changes no byte outside the destination.
\<close>

theorem memmove_correct:
  assumes "unat src + unat n < 2 ^ 64" "unat dst + unat n < 2 ^ 64"
  shows "load_bytes (memmove dst src n m) dst (unat n) = load_bytes m src (unat n) \<and>
    (\<forall>x. \<not> in_range dst (unat n) x \<longrightarrow> memmove dst src n m x = m x)"
proof -
  have "unat n \<le> 2 ^ 64" using unat_u32_less [of n] by simp
  then show ?thesis
    using memmove_eq [OF assms, of m] by (simp add: load_store_bytes store_bytes_outside)
qed

theorem memmove_correct_witness:
  "load_bytes (memmove 0x1001 0x1000 3 (\<lambda>a. ucast a)) 0x1001 3 = [0, 1, 2]"
  using memmove_correct [of "0x1000" 3 "0x1001" "\<lambda>a. ucast a"]
  by (simp add: load_bytes_def upt_rec)

lemma safestrcpy_left_eq:
  assumes "apart s (Suc n) t n" "n < 2 ^ 63"
  shows "load_bytes (safestrcpy_left s t n m) s (Suc (length (name_of (load_bytes m t n)))) =
      name_of (load_bytes m t n) @ [0] \<and>
    (\<forall>x. \<not> in_range s (Suc n) x \<longrightarrow> safestrcpy_left s t n m x = m x)"
  using assms
proof (induction n arbitrary: s t m)
  case 0
  then show ?case by (auto simp: load_bytes_Suc name_of_def in_range_Suc)
next
  case (Suc n)
  note ap = apart_Suc [OF Suc.prems(1)]
  have n: "n < 2 ^ 63" "n < 2 ^ 64" "Suc n < 2 ^ 64" using Suc.prems(2) by simp_all
  show ?case
  proof (cases "m t = 0")
    case True
    then show ?thesis
      using n by (auto simp: load_bytes_Suc name_of_def in_range_Suc)
  next
    case False
    define m' where "m' = m(s := m t)"
    have src: "load_bytes m' (t + 1) n = load_bytes m (t + 1) n"
      using ap(2) n by (simp add: m'_def load_bytes_upd_outside)
    have ih: "load_bytes (safestrcpy_left (s + 1) (t + 1) n m') (s + 1)
          (Suc (length (name_of (load_bytes m (t + 1) n)))) = name_of (load_bytes m (t + 1) n) @ [0]"
      "\<And>x. \<not> in_range (s + 1) (Suc n) x \<Longrightarrow> safestrcpy_left (s + 1) (t + 1) n m' x = m' x"
      using Suc.IH [of "s + 1" "t + 1" m'] ap(1) n src by auto
    have "\<not> in_range (s + 1) (Suc n) s" using n by (simp add: in_range_def unat_minus_1_u64)
    then have "safestrcpy_left (s + 1) (t + 1) n m' s = m t" using ih(2) by (simp add: m'_def)
    moreover have "safestrcpy_left (s + 1) (t + 1) n m' x = m x" if "\<not> in_range s (Suc (Suc n)) x" for x
      using that ih(2) [of x] n in_range_Suc [of "Suc n" s x] by (simp add: m'_def)
    ultimately show ?thesis
      using False ih(1) by (simp add: load_bytes_Suc [of _ _ "Suc _"] load_bytes_Suc [of _ t] name_of_def m'_def Let_def)
  qed
qed

text \<open>
  \<open>safestrcpy\<close> with a positive size \<open>n\<close> always leaves a NUL-terminated string in the
  \<open>n\<close> bytes of the destination: the source string cut to \<open>n - 1\<close> bytes.  No byte outside those
  \<open>n\<close> changes.
\<close>

theorem safestrcpy_correct:
  assumes "0 < n" "n < 2 ^ 31" "apart s (nat n) t (nat n - 1)"
  shows "(let str = name_of (load_bytes m t (nat n - 1)) in
      length str < nat n \<and> load_bytes (safestrcpy s t n m) s (Suc (length str)) = str @ [0]) \<and>
    (\<forall>x. \<not> in_range s (nat n) x \<longrightarrow> safestrcpy s t n m x = m x)"
proof -
  obtain k where k: "nat n = Suc k" "nat (n - 1) = k" using assms(1) by (cases "nat n") auto
  have "k < 2 ^ 63" using k(1) assms(2) by simp
  then show ?thesis
    using safestrcpy_left_eq [of s k t m] assms k length_name_of [of "load_bytes m t k"]
    by (simp add: safestrcpy_def Let_def)
qed

theorem safestrcpy_correct_witness:
  "load_bytes (safestrcpy 0x2000 0x1001 3 (\<lambda>a. ucast a)) 0x2000 3 = [1, 2, 0]"
proof -
  have "apart 0x2000 3 0x1001 2" by (auto simp: apart_def in_range_def word_less_nat_alt unat_sub_if')
  then show ?thesis
    using safestrcpy_correct [of 3 "0x2000" "0x1001" "\<lambda>a. ucast a"]
    by (simp add: load_bytes_def upt_rec name_of_def)
qed

end
