(* ===== verification/Kalloc.thy ===== *)
theory Kalloc
  imports Spinlock Cstring
begin

section \<open>The physical page allocator (kernel/rust\_kalloc.rs)\<close>

text \<open>
  Free pages form a linked list through their own first eight bytes (\<open>Run.next\<close>), headed by
  \<open>KMEM.freelist\<close>; every page of \<open>[KERNBASE, PHYSTOP)\<close> has a 16-bit reference count.
  The state keeps physical memory itself, so the list lives in memory here too.  \<open>kend\<close> is
  the linker symbol \<open>end\<close>; no operation writes it.
\<close>

abbreviation PGSIZE :: u64 where "PGSIZE \<equiv> 4096"
abbreviation KERNBASE :: u64 where "KERNBASE \<equiv> 0x80000000"
abbreviation PHYSTOP :: u64 where "PHYSTOP \<equiv> KERNBASE + 128 * 1024 * 1024"

record kmem = machine +
  mem :: memory
  freelist :: u64
  refcnt :: "nat \<Rightarrow> u16"
  kend :: u64

definition pa_to_idx :: "u64 \<Rightarrow> nat" where
  "pa_to_idx pa = unat ((pa - KERNBASE) div PGSIZE)"

definition refcnt_at :: "u64 \<Rightarrow> 'z kmem_scheme \<Rightarrow> u16" where
  "refcnt_at pa s = refcnt s (pa_to_idx pa)"

definition refcnt_store :: "u64 \<Rightarrow> u16 \<Rightarrow> 'z kmem_scheme \<Rightarrow> 'z kmem_scheme" where
  "refcnt_store pa v s = s\<lparr>refcnt := (refcnt s)(pa_to_idx pa := v)\<rparr>"

definition refcnt_set_one :: "u64 \<Rightarrow> 'z kmem_scheme \<Rightarrow> 'z kmem_scheme" where
  "refcnt_set_one pa s = refcnt_store pa 1 s"

definition kref_inc :: "u64 \<Rightarrow> 'z kmem_scheme \<Rightarrow> 'z kmem_scheme kres" where
  "kref_inc pa s =
     (if pa < KERNBASE \<or> pa \<ge> PHYSTOP \<or> pa mod PGSIZE \<noteq> 0 then Inl (Panic ''kref_inc'')
      else
        let prev = refcnt_at pa s; s = refcnt_store pa (prev + 1) s in
        if prev = 0 then Inl (Panic ''kref_inc on free page'') else Inr s)"

definition refcnt_dec :: "u64 \<Rightarrow> 'z kmem_scheme \<Rightarrow> (u16 \<times> 'z kmem_scheme) kres" where
  "refcnt_dec pa s =
     (let prev = refcnt_at pa s; s = refcnt_store pa (prev - 1) s in
      if prev = 0 then Inl (Panic ''refcnt underflow'') else Inr (prev - 1, s))"

definition kref_get :: "u64 \<Rightarrow> 'z kmem_scheme \<Rightarrow> u16" where
  "kref_get pa s = (if pa < KERNBASE \<or> pa \<ge> PHYSTOP then 0 else refcnt_at pa s)"

definition pgroundup :: "u64 \<Rightarrow> u64" where
  "pgroundup addr = (addr + PGSIZE - 1) AND NOT (PGSIZE - 1)"

definition kfree :: "u64 \<Rightarrow> 'z kmem_scheme \<Rightarrow> 'z kmem_scheme kres" where
  "kfree pa s =
     (if pa mod PGSIZE \<noteq> 0 \<or> pa < kend s \<or> pa \<ge> PHYSTOP then Inl (Panic ''kfree'')
      else and_then (refcnt_dec pa s) (\<lambda>(count, s).
        if count \<noteq> 0 then Inr s
        else
          let s = s\<lparr>mem := memset pa 1 4096 (mem s)\<rparr> in
          and_then (acquire LKmem s) (\<lambda>s.
          let s = s\<lparr>mem := store64 (mem s) pa (freelist s)\<rparr>;
              s = s\<lparr>freelist := pa\<rparr>
          in release LKmem s)))"

definition kalloc :: "'z kmem_scheme \<Rightarrow> (u64 \<times> 'z kmem_scheme) kres" where
  "kalloc s =
     and_then (acquire LKmem s) (\<lambda>s.
     let r = freelist s;
         s = (if r \<noteq> 0 then s\<lparr>freelist := load64 (mem s) r\<rparr> else s) in
     and_then (release LKmem s) (\<lambda>s.
     Inr (if r \<noteq> 0
          then (r, let s = refcnt_set_one r s in s\<lparr>mem := memset r 5 4096 (mem s)\<rparr>)
          else (r, s))))"

text \<open>
  \<open>freerange\<close> steps an address upwards; on 64-bit addresses the loop need not end, so it is
  a partial function: \<open>None\<close> is a loop that never exits.
\<close>

partial_function (option) freerange_from ::
    "u64 \<Rightarrow> u64 \<Rightarrow> 'z kmem_scheme \<Rightarrow> 'z kmem_scheme kres option" where
  "freerange_from p pa_end s =
     (if p + PGSIZE \<le> pa_end
      then case kfree p (refcnt_store p 1 s) of
             Inl e \<Rightarrow> Some (Inl e)
           | Inr s \<Rightarrow> freerange_from (p + PGSIZE) pa_end s
      else Some (Inr s))"

definition freerange :: "u64 \<Rightarrow> u64 \<Rightarrow> 'z kmem_scheme \<Rightarrow> 'z kmem_scheme kres option" where
  "freerange pa_start pa_end s = freerange_from (pgroundup pa_start) pa_end s"

definition kinit :: "'z kmem_scheme \<Rightarrow> 'z kmem_scheme kres option" where
  "kinit s = freerange (kend s) PHYSTOP (initlock LKmem ''kmem'' s)"

text \<open>
  \<open>KallocPage\<close>, the owned handle: \<open>alloc\<close> is \<open>kalloc\<close> with the null page as \<open>None\<close>,
  \<open>drop\<close> gives the page back, \<open>clone_shared\<close> takes one more reference.
\<close>

definition kalloc_page :: "'z kmem_scheme \<Rightarrow> (u64 option \<times> 'z kmem_scheme) kres" where
  "kalloc_page s =
     and_then (kalloc s) (\<lambda>(pa, s). Inr (if pa = 0 then None else Some pa, s))"

definition drop_page :: "u64 \<Rightarrow> 'z kmem_scheme \<Rightarrow> 'z kmem_scheme kres" where
  "drop_page pa s = (if pa \<noteq> 0 then kfree pa s else Inr s)"

definition clone_shared :: "u64 \<Rightarrow> 'z kmem_scheme \<Rightarrow> (u64 \<times> 'z kmem_scheme) kres" where
  "clone_shared pa s = and_then (kref_inc pa s) (\<lambda>s. Inr (pa, s))"

subsection \<open>Lock operations leave the allocator's fields alone\<close>

lemma kmem_acquired [simp]:
  "mem (acquired l s) = mem s" "freelist (acquired l s) = freelist s"
  "refcnt (acquired l s) = refcnt s" "kend (acquired l s) = kend s"
  by (simp_all add: acquired_def machine_defs)

lemma kmem_crit [simp]:
  "mem (crit s) = mem s" "freelist (crit s) = freelist s"
  "refcnt (crit s) = refcnt s" "kend (crit s) = kend s"
  by (simp_all add: crit_def machine_defs)

lemmas release_unfold = release_def pop_off_def store_unlocked_def set_lcpu_def holding_def
  machine_defs

lemmas acquire_unfold = acquire_def swap_locked_def set_lcpu_def holding_def machine_defs

lemma acquire_kmem_upd [simp]:
  "acquire l (s\<lparr>mem := x1\<rparr>) = map_sum id (\<lambda>t. t\<lparr>mem := x1\<rparr>) (acquire l s)"
  "acquire l (s\<lparr>freelist := x2\<rparr>) = map_sum id (\<lambda>t. t\<lparr>freelist := x2\<rparr>) (acquire l s)"
  "acquire l (s\<lparr>refcnt := x3\<rparr>) = map_sum id (\<lambda>t. t\<lparr>refcnt := x3\<rparr>) (acquire l s)"
  by (simp_all add: acquire_unfold)

lemma release_kmem_upd [simp]:
  "release l (s\<lparr>mem := x1\<rparr>) = map_sum id (\<lambda>t. t\<lparr>mem := x1\<rparr>) (release l s)"
  "release l (s\<lparr>freelist := x2\<rparr>) = map_sum id (\<lambda>t. t\<lparr>freelist := x2\<rparr>) (release l s)"
  "release l (s\<lparr>refcnt := x3\<rparr>) = map_sum id (\<lambda>t. t\<lparr>refcnt := x3\<rparr>) (release l s)"
  by (simp_all add: release_unfold)

lemma acquired_kmem_upd [simp]:
  "acquired l (s\<lparr>mem := x1\<rparr>) = (acquired l s)\<lparr>mem := x1\<rparr>"
  "acquired l (s\<lparr>freelist := x2\<rparr>) = (acquired l s)\<lparr>freelist := x2\<rparr>"
  "acquired l (s\<lparr>refcnt := x3\<rparr>) = (acquired l s)\<lparr>refcnt := x3\<rparr>"
  by (simp_all add: acquired_def machine_defs)

lemma crit_kmem_upd [simp]:
  "crit (s\<lparr>mem := x1\<rparr>) = (crit s)\<lparr>mem := x1\<rparr>"
  "crit (s\<lparr>freelist := x2\<rparr>) = (crit s)\<lparr>freelist := x2\<rparr>"
  "crit (s\<lparr>refcnt := x3\<rparr>) = (crit s)\<lparr>refcnt := x3\<rparr>"
  by (simp_all add: crit_def machine_defs)

lemma lock_free_kmem_upd [simp]:
  "lock_free l (s\<lparr>mem := x1\<rparr>) = lock_free l s"
  "lock_free l (s\<lparr>freelist := x2\<rparr>) = lock_free l s"
  "lock_free l (s\<lparr>refcnt := x3\<rparr>) = lock_free l s"
  by (simp_all add: lock_free_def)

lemma cpu_ok_kmem_upd [simp]:
  "cpu_ok (s\<lparr>mem := x1\<rparr>) = cpu_ok s"
  "cpu_ok (s\<lparr>freelist := x2\<rparr>) = cpu_ok s"
  "cpu_ok (s\<lparr>refcnt := x3\<rparr>) = cpu_ok s"
  by (simp_all add: cpu_ok_def machine_defs)

lemma mycpu_kmem_upd [simp]:
  "mycpu (s\<lparr>mem := x1\<rparr>) = mycpu s"
  "mycpu (s\<lparr>freelist := x2\<rparr>) = mycpu s"
  "mycpu (s\<lparr>refcnt := x3\<rparr>) = mycpu s"
  by (simp_all add: mycpu_def)

subsection \<open>What the operations compute\<close>

lemma kalloc_eq:
  assumes "cpu_ok s" "lock_free LKmem s"
  shows "kalloc s = Inr (if freelist s = 0 then (0, crit s)
    else (freelist s, (crit s)\<lparr>mem := memset (freelist s) 5 4096 (mem s),
       freelist := load64 (mem s) (freelist s),
       refcnt := (refcnt s)(pa_to_idx (freelist s) := 1)\<rparr>))"
  using assms
  by (simp add: kalloc_def flow refcnt_set_one_def refcnt_store_def Let_def)

lemma kfree_shared:
  assumes "pa mod PGSIZE = 0" "kend s \<le> pa" "pa < PHYSTOP" "refcnt_at pa s \<noteq> 0" "refcnt_at pa s \<noteq> 1"
  shows "kfree pa s = Inr (s\<lparr>refcnt := (refcnt s)(pa_to_idx pa := refcnt_at pa s - 1)\<rparr>)"
  using assms by (auto simp: kfree_def refcnt_dec_def refcnt_store_def Let_def)

lemma kfree_last:
  assumes "cpu_ok s" "lock_free LKmem s"
    and "pa mod PGSIZE = 0" "kend s \<le> pa" "pa < PHYSTOP" "refcnt_at pa s = 1"
  shows "kfree pa s = Inr ((crit s)\<lparr>mem := store64 (memset pa 1 4096 (mem s)) pa (freelist s),
     freelist := pa, refcnt := (refcnt s)(pa_to_idx pa := 0)\<rparr>)"
  using assms by (auto simp: kfree_def refcnt_dec_def refcnt_store_def Let_def flow)

subsection \<open>Pages and the count table\<close>

definition aligned :: "u64 \<Rightarrow> bool" where
  "aligned pa \<longleftrightarrow> pa mod PGSIZE = 0"

definition in_page :: "u64 \<Rightarrow> u64 \<Rightarrow> bool" where
  "in_page pa x \<longleftrightarrow> in_range pa 4096 x"

lemma unat_div_4096 [simp]: "unat ((x::u64) div 4096) = unat x div 4096"
  by (simp add: unat_div)
lemma unat_mod_4096 [simp]: "unat ((x::u64) mod 4096) = unat x mod 4096"
  by (simp add: unat_mod)

lemma aligned_unat: "aligned pa \<longleftrightarrow> unat pa mod 4096 = 0"
  by (simp add: aligned_def flip: unat_eq_zero)

lemma aligned_multiple: "aligned pa \<Longrightarrow> \<exists>a. unat pa = 4096 * a"
  by (auto simp: aligned_unat mod_eq_0_iff_dvd)

lemma in_page_div:
  assumes "aligned pa"
  shows "in_page pa x \<longleftrightarrow> unat x div 4096 = unat pa div 4096"
proof -
  have p: "unat pa mod 4096 = 0" using assms by (simp add: aligned_unat)
  have bound: "unat pa < 2 ^ 64" "unat x < 2 ^ 64" by (simp_all only: unat_u64_less)
  show ?thesis
  proof (cases "pa \<le> x")
    case True
    then have "unat (x - pa) = unat x - unat pa" "unat pa \<le> unat x"
      by (simp_all add: unat_sub word_le_nat_alt)
    moreover obtain a where a: "unat pa = 4096 * a" using p by (auto simp: mod_eq_0_iff_dvd elim: dvdE)
    moreover obtain b r where b: "unat x = 4096 * b + r" "r < 4096"
      by (metis div_mult_mod_eq mod_less_divisor mult.commute zero_less_numeral)
    ultimately have "unat (x - pa) < 4096 \<longleftrightarrow> b = a" by auto
    with a b show ?thesis unfolding in_page_def in_range_def by auto
  next
    case False
    then have "unat (x - pa) = 2 ^ 64 + unat x - unat pa" "unat x < unat pa"
      by (simp_all add: unat_sub_if' word_le_nat_alt)
    moreover obtain a where a: "unat pa = 4096 * a" using p by (auto simp: mod_eq_0_iff_dvd elim: dvdE)
    moreover obtain b r where b: "unat x = 4096 * b + r" "r < 4096"
      by (metis div_mult_mod_eq mod_less_divisor mult.commute zero_less_numeral)
    ultimately have "b < a" "4096 * a < 2 ^ 64" "unat (x - pa) = 2 ^ 64 + (4096 * b + r) - 4096 * a"
      using bound by auto
    moreover from this have "a < 2 ^ 52" by simp
    ultimately have "4096 \<le> unat (x - pa)" by simp
    then show ?thesis using a b \<open>b < a\<close> by (simp add: in_page_def in_range_def)
  qed
qed

lemma in_page_self [simp]: "in_page pa pa"
  by (simp add: in_page_def in_range_def)

lemma in_page_unique: "aligned p \<Longrightarrow> aligned q \<Longrightarrow> in_page p x \<Longrightarrow> in_page q x \<Longrightarrow> p = q"
proof -
  assume a: "aligned p" "aligned q" "in_page p x" "in_page q x"
  then have "unat p div 4096 = unat q div 4096" by (simp add: in_page_div)
  with a(1,2) have "unat p = unat q" unfolding aligned_unat
    by (metis div_mult_mod_eq)
  then show "p = q" by (simp add: word_unat_eq_iff)
qed

lemma in_page_header: "in_range pa 8 x \<Longrightarrow> in_page pa x"
  by (simp add: in_page_def in_range_def)

lemma load64_page_cong:
  "(\<And>x. in_page pa x \<Longrightarrow> m x = m' x) \<Longrightarrow> load64 m pa = load64 m' pa"
  by (rule load64_cong) (simp add: in_page_header)

lemma memset_page: "memset pa c 4096 m = (\<lambda>x. if in_page pa x then ucast c else m x)"
  by (simp add: memset_eq in_page_def)

lemma pa_to_idx_unat:
  "KERNBASE \<le> pa \<Longrightarrow> pa_to_idx pa = (unat pa - unat KERNBASE) div 4096"
  by (simp add: pa_to_idx_def unat_sub word_le_nat_alt)

lemma pa_to_idx_inj:
  assumes "aligned p" "aligned q" "KERNBASE \<le> p" "KERNBASE \<le> q" "pa_to_idx p = pa_to_idx q"
  shows "p = q"
proof -
  obtain a b where ab: "unat p = 4096 * a" "unat q = 4096 * b"
    using assms(1,2) by (auto simp: aligned_unat mod_eq_0_iff_dvd elim!: dvdE)
  have "2147483648 \<le> 4096 * a" "2147483648 \<le> 4096 * b"
    using assms(3,4) ab by (simp_all add: word_le_nat_alt)
  then have le: "524288 \<le> a" "524288 \<le> b" by linarith+
  have "(4096 * a - 2147483648) div 4096 = a - 524288" "(4096 * b - 2147483648) div 4096 = b - 524288"
    using le by linarith+
  with assms(3-5) ab have "a - 524288 = b - 524288" by (simp add: pa_to_idx_unat)
  with le ab show ?thesis by (simp add: word_unat_eq_iff)
qed

subsection \<open>The invariant: the free list is exactly the pages with count 0\<close>

text \<open>
  \<open>freechain m p ps\<close>: following the \<open>next\<close> words in memory from \<open>p\<close> visits \<open>ps\<close>
  and ends at null.  \<open>zero_pages\<close> are the pages after the kernel image with count 0; the
  invariant says the free list visits each of them once and nothing else, so no page is both free
  and referenced, and none is lost.
\<close>

fun freechain :: "memory \<Rightarrow> u64 \<Rightarrow> u64 list \<Rightarrow> bool" where
  "freechain m p [] \<longleftrightarrow> p = 0"
| "freechain m p (q # qs) \<longleftrightarrow> p = q \<and> q \<noteq> 0 \<and> freechain m (load64 m q) qs"

definition kpage :: "'z kmem_scheme \<Rightarrow> u64 \<Rightarrow> bool" where
  "kpage s p \<longleftrightarrow> aligned p \<and> kend s \<le> p \<and> p < PHYSTOP"

definition zero_pages :: "'z kmem_scheme \<Rightarrow> u64 set" where
  "zero_pages s = {p. kpage s p \<and> refcnt_at p s = 0}"

definition free_list :: "u64 list \<Rightarrow> 'z kmem_scheme \<Rightarrow> bool" where
  "free_list ps s \<longleftrightarrow> freechain (mem s) (freelist s) ps \<and> distinct ps \<and>
     set ps = zero_pages s"

definition kmem_inv :: "'z kmem_scheme \<Rightarrow> bool" where
  "kmem_inv s \<longleftrightarrow> KERNBASE \<le> kend s \<and> cpu_ok s \<and> lock_free LKmem s \<and> (\<exists>ps. free_list ps s)"

definition page_refs :: "'z kmem_scheme \<Rightarrow> u64 \<Rightarrow> nat" where
  "page_refs s p = (if kpage s p then unat (refcnt_at p s) else 0)"

lemma kpage_upd [simp]:
  "kpage (s\<lparr>mem := x1\<rparr>) = kpage s" "kpage (s\<lparr>freelist := x2\<rparr>) = kpage s"
  "kpage (s\<lparr>refcnt := x3\<rparr>) = kpage s" "kpage (crit s) = kpage s"
  by (simp_all add: kpage_def fun_eq_iff)

lemma refcnt_at_simps [simp]:
  "refcnt_at p (s\<lparr>mem := x1\<rparr>) = refcnt_at p s" "refcnt_at p (s\<lparr>freelist := x2\<rparr>) = refcnt_at p s"
  "refcnt_at p (s\<lparr>refcnt := r\<rparr>) = r (pa_to_idx p)" "refcnt_at p (crit s) = refcnt_at p s"
  by (simp_all add: refcnt_at_def)

lemma freechain_cong:
  "(\<And>q. q \<in> set ps \<Longrightarrow> load64 m q = load64 m' q) \<Longrightarrow> freechain m p ps = freechain m' p ps"
  by (induction ps arbitrary: p) auto

lemma kpage_nonzero: "KERNBASE \<le> kend s \<Longrightarrow> kpage s p \<Longrightarrow> p \<noteq> 0"
  by (auto simp: kpage_def word_le_nat_alt)

lemma kpage_idx_eq:
  "KERNBASE \<le> kend s \<Longrightarrow> kpage s p \<Longrightarrow> kpage s q \<Longrightarrow> (pa_to_idx p = pa_to_idx q) = (p = q)"
  by (auto simp: kpage_def intro: pa_to_idx_inj order_trans)

lemma zero_pages_simps [simp]:
  "zero_pages (s\<lparr>mem := x1\<rparr>) = zero_pages s" "zero_pages (s\<lparr>freelist := x2\<rparr>) = zero_pages s"
  "zero_pages (crit s) = zero_pages s"
  by (simp_all add: zero_pages_def)

lemma zero_pages_upd:
  assumes "KERNBASE \<le> kend s" "kpage s pa" "kend t = kend s"
    "refcnt t = (refcnt s)(pa_to_idx pa := v)"
  shows "zero_pages t = (if v = 0 then insert pa (zero_pages s) else zero_pages s - {pa})"
proof -
  have k: "kpage t = kpage s" using assms(3) by (simp add: kpage_def fun_eq_iff)
  have "refcnt_at p t = (if p = pa then v else refcnt_at p s)" if "kpage s p" for p
    using kpage_idx_eq [OF assms(1) that assms(2)] assms(4) by (simp add: refcnt_at_def)
  with assms(2) k show ?thesis by (auto simp: zero_pages_def split: if_splits)
qed

lemma load64_other_page:
  assumes "aligned p" "aligned q" "p \<noteq> q" "\<And>x. \<not> in_page p x \<Longrightarrow> m x = m' x"
  shows "load64 m q = load64 m' q"
  by (rule load64_page_cong) (use assms in_page_unique in blast)

lemma kalloc_inv:
  assumes "kmem_inv s"
  obtains (none) "freelist s = 0" "kalloc s = Inr (0, crit s)" "kmem_inv (crit s)"
      "\<And>p. kpage s p \<Longrightarrow> refcnt_at p s \<noteq> 0"
  | (page) pa t where "kalloc s = Inr (pa, t)" "kmem_inv t" "kpage s pa" "refcnt_at pa s = 0"
      "t = (crit s)\<lparr>mem := memset pa 5 4096 (mem s), freelist := freelist t,
              refcnt := (refcnt s)(pa_to_idx pa := 1)\<rparr>"
proof -
  from assms obtain ps where k: "KERNBASE \<le> kend s" "cpu_ok s" "lock_free LKmem s"
    and ps: "freechain (mem s) (freelist s) ps" "distinct ps"
      "set ps = zero_pages s"
    by (auto simp: kmem_inv_def free_list_def)
  note eq = kalloc_eq [OF k(2,3)]
  show thesis
  proof (cases ps)
    case Nil
    then have "freelist s = 0" "\<And>p. kpage s p \<Longrightarrow> refcnt_at p s \<noteq> 0"
      using ps by (auto simp: zero_pages_def)
    then show ?thesis using none eq assms by (simp add: kmem_inv_def free_list_def)
  next
    case (Cons pa qs)
    with ps have fl: "freelist s = pa" "pa \<noteq> 0" "freechain (mem s) (load64 (mem s) pa) qs"
      and pa: "kpage s pa" "refcnt_at pa s = 0"
      by (auto simp: zero_pages_def)
    let ?t = "(crit s)\<lparr>mem := memset pa 5 4096 (mem s), freelist := load64 (mem s) pa,
              refcnt := (refcnt s)(pa_to_idx pa := 1)\<rparr>"
    have "load64 (mem s) q = load64 (memset pa 5 4096 (mem s)) q" if "q \<in> set qs" for q
      by (rule load64_other_page [of pa]) (use that pa ps Cons in \<open>auto simp: kpage_def memset_page zero_pages_def\<close>)
    then have "freechain (mem ?t) (freelist ?t) qs"
      using fl(3) freechain_cong [of qs "mem s" "mem ?t"] by simp
    moreover have "set qs = zero_pages ?t"
      using ps Cons zero_pages_upd [OF k(1) pa(1), of ?t 1] by auto
    ultimately have "kmem_inv ?t"
      unfolding kmem_inv_def free_list_def using k ps Cons by (auto intro!: exI [of _ qs])
    then show ?thesis using page [of pa ?t] eq fl pa by simp
  qed
qed

lemma kfree_inv:
  assumes "kmem_inv s" "kpage s pa" "refcnt_at pa s \<noteq> 0"
  shows "\<exists>t. kfree pa s = Inr t \<and> kmem_inv t \<and> kend t = kend s \<and>
    refcnt t = (refcnt s)(pa_to_idx pa := refcnt_at pa s - 1) \<and>
    (if refcnt_at pa s = 1 then (\<forall>x. \<not> in_page pa x \<longrightarrow> mem t x = mem s x) else mem t = mem s)"
proof -
  from assms(1) obtain ps where k: "KERNBASE \<le> kend s" "cpu_ok s" "lock_free LKmem s"
    and ps: "freechain (mem s) (freelist s) ps" "distinct ps"
      "set ps = zero_pages s"
    by (auto simp: kmem_inv_def free_list_def)
  have pa: "pa mod PGSIZE = 0" "kend s \<le> pa" "pa < PHYSTOP" "aligned pa"
    using assms(2) by (auto simp: kpage_def aligned_def)
  show ?thesis
  proof (cases "refcnt_at pa s = 1")
    case True
    let ?m = "store64 (memset pa 1 4096 (mem s)) pa (freelist s)"
    let ?t = "(crit s)\<lparr>mem := ?m, freelist := pa, refcnt := (refcnt s)(pa_to_idx pa := 0)\<rparr>"
    have out: "?m x = mem s x" if "\<not> in_page pa x" for x
    proof -
      have "\<not> in_range pa 8 x" using that in_page_header by blast
      from store64_outside [OF this] that show ?thesis by (simp add: memset_page)
    qed
    have "load64 (mem s) q = load64 ?m q" if "q \<in> set ps" for q
      by (rule load64_other_page [of pa])
        (use that pa ps assms out in \<open>auto simp: kpage_def zero_pages_def\<close>)
    then have "freechain ?m pa (pa # ps)"
      using ps(1) freechain_cong [of ps "mem s" ?m] kpage_nonzero [OF k(1) assms(2)] by simp
    moreover have "set (pa # ps) = zero_pages ?t"
      using ps zero_pages_upd [OF k(1) assms(2), of ?t 0] by auto
    ultimately have "kmem_inv ?t"
      unfolding kmem_inv_def free_list_def using k ps assms(3)
      by (auto simp: zero_pages_def intro!: exI [of _ "pa # ps"])
    then show ?thesis using kfree_last [OF k(2,3) pa(1-3) True] out True by auto
  next
    case False
    let ?t = "s\<lparr>refcnt := (refcnt s)(pa_to_idx pa := refcnt_at pa s - 1)\<rparr>"
    have "refcnt_at pa s - 1 \<noteq> 0" using False by (metis eq_iff_diff_eq_0)
    then have "set ps = zero_pages ?t"
      using ps assms(3) zero_pages_upd [OF k(1) assms(2), of ?t "refcnt_at pa s - 1"]
      by (auto simp: zero_pages_def)
    then have "kmem_inv ?t"
      unfolding kmem_inv_def free_list_def using k ps by auto
    then show ?thesis using kfree_shared [OF pa(1-3) assms(3) False] False by auto
  qed
qed

lemma kref_inc_inv:
  assumes "kmem_inv s" "kpage s pa" "refcnt_at pa s \<noteq> 0" "refcnt_at pa s \<noteq> - 1"
  shows "\<exists>t. kref_inc pa s = Inr t \<and> kmem_inv t \<and>
    t = s\<lparr>refcnt := (refcnt s)(pa_to_idx pa := refcnt_at pa s + 1)\<rparr>"
proof -
  from assms(1) obtain ps where k: "KERNBASE \<le> kend s" "cpu_ok s" "lock_free LKmem s"
    and ps: "freechain (mem s) (freelist s) ps" "distinct ps"
      "set ps = zero_pages s"
    by (auto simp: kmem_inv_def free_list_def)
  let ?t = "s\<lparr>refcnt := (refcnt s)(pa_to_idx pa := refcnt_at pa s + 1)\<rparr>"
  have "refcnt_at pa s + 1 \<noteq> 0" using assms(4) by (metis add_eq_0_iff2)
  then have "set ps = zero_pages ?t"
    using ps assms(3) zero_pages_upd [OF k(1) assms(2), of ?t "refcnt_at pa s + 1"]
    by (auto simp: zero_pages_def)
  then have "kmem_inv ?t"
    unfolding kmem_inv_def free_list_def using k ps by auto
  moreover have "kref_inc pa s = Inr ?t"
    using assms(2,3) k by (auto simp: kref_inc_def refcnt_store_def kpage_def aligned_def Let_def)
  ultimately show ?thesis by blast
qed

subsection \<open>The allocator as an interface\<close>

text \<open>
  What a client of the allocator may rely on.  \<open>refs\<close> counts the references to a page,
  \<open>page\<close> says which addresses the allocator manages, \<open>bytes\<close> is physical memory.
\<close>

locale page_allocator =
  fixes alloc :: "'s \<Rightarrow> (u64 \<times> 's) kres"
    and free :: "u64 \<Rightarrow> 's \<Rightarrow> 's kres"
    and share :: "u64 \<Rightarrow> 's \<Rightarrow> 's kres"
    and inv :: "'s \<Rightarrow> bool"
    and page :: "'s \<Rightarrow> u64 \<Rightarrow> bool"
    and refs :: "'s \<Rightarrow> u64 \<Rightarrow> nat"
    and bytes :: "'s \<Rightarrow> memory"
  assumes page_aligned: "page s p \<Longrightarrow> aligned p \<and> p \<noteq> 0"
    and alloc_law: "inv s \<Longrightarrow> \<exists>pa t. alloc s = Inr (pa, t) \<and> inv t \<and> page t = page s \<and>
      (if pa = 0 then refs t = refs s \<and> bytes t = bytes s \<and> (\<forall>p. page s p \<longrightarrow> refs s p \<noteq> 0)
       else page s pa \<and> refs s pa = 0 \<and> refs t = (refs s)(pa := 1) \<and>
         (\<forall>x. \<not> in_page pa x \<longrightarrow> bytes t x = bytes s x))"
    and free_law: "\<lbrakk>inv s; page s p; refs s p \<noteq> 0\<rbrakk> \<Longrightarrow>
      \<exists>t. free p s = Inr t \<and> inv t \<and> page t = page s \<and> refs t = (refs s)(p := refs s p - 1) \<and>
        (if refs s p = 1 then \<forall>x. \<not> in_page p x \<longrightarrow> bytes t x = bytes s x else bytes t = bytes s)"
    and share_law: "\<lbrakk>inv s; page s p; refs s p \<noteq> 0; refs s p < 2 ^ 16 - 1\<rbrakk> \<Longrightarrow>
      \<exists>t. share p s = Inr t \<and> inv t \<and> page t = page s \<and> refs t = (refs s)(p := refs s p + 1) \<and>
        bytes t = bytes s"
begin

text \<open>
  A client step is an allocation, or a free or a share of a page that is held.  The steps that
  keep page \<open>q\<close> referenced are those of \<open>keeps q\<close>.
\<close>

definition client_step :: "'s \<Rightarrow> 's \<Rightarrow> bool" where
  "client_step s t \<longleftrightarrow> (\<exists>pa. alloc s = Inr (pa, t)) \<or>
     (\<exists>p. page s p \<and> refs s p \<noteq> 0 \<and> free p s = Inr t) \<or>
     (\<exists>p. page s p \<and> refs s p \<noteq> 0 \<and> refs s p < 2 ^ 16 - 1 \<and> share p s = Inr t)"

definition keeps :: "u64 \<Rightarrow> 's \<Rightarrow> 's \<Rightarrow> bool" where
  "keeps q s t \<longleftrightarrow> client_step s t \<and> refs t q \<noteq> 0"

lemma client_step_cases:
  assumes "client_step s t" "inv s"
  obtains (none) "inv t" "page t = page s" "refs t = refs s" "bytes t = bytes s"
  | (got) p where "inv t" "page t = page s" "page s p" "refs s p = 0" "refs t = (refs s)(p := 1)"
      "\<And>x. \<not> in_page p x \<Longrightarrow> bytes t x = bytes s x"
  | (freed) p where "inv t" "page t = page s" "page s p" "refs s p = 1" "refs t = (refs s)(p := 0)"
      "\<And>x. \<not> in_page p x \<Longrightarrow> bytes t x = bytes s x"
  | (count) p n where "inv t" "page t = page s" "page s p" "refs s p \<noteq> 0" "n \<noteq> 0"
      "refs t = (refs s)(p := n)" "bytes t = bytes s"
proof -
  consider (a) pa where "alloc s = Inr (pa, t)"
    | (f) p where "page s p" "refs s p \<noteq> 0" "free p s = Inr t"
    | (sh) p where "page s p" "refs s p \<noteq> 0" "refs s p < 2 ^ 16 - 1" "share p s = Inr t"
    using assms(1) by (auto simp: client_step_def)
  then show thesis
  proof cases
    case a
    then show ?thesis using alloc_law [OF assms(2)] none got by (cases "pa = 0") auto
  next
    case f
    then show ?thesis using free_law [OF assms(2) f(1,2)] freed [of p] count [of p "refs s p - 1"]
      by (cases "refs s p = 1") auto
  next
    case sh
    then show ?thesis using share_law [OF assms(2) sh(1-3)] count [of p "refs s p + 1"] by auto
  qed
qed

lemma keeps_bytes:
  assumes "keeps q s t" "inv s" "page s q" "refs s q \<noteq> 0"
  shows "inv t \<and> page t q \<and> (\<forall>x. in_page q x \<longrightarrow> bytes t x = bytes s x)"
proof -
  have far: "\<not> in_page p x" if "page s p" "p \<noteq> q" "in_page q x" for p x
    using that in_page_unique assms(3) page_aligned by blast
  from assms(1) have st: "client_step s t" and q: "refs t q \<noteq> 0" by (auto simp: keeps_def)
  from st assms(2) show ?thesis
  proof (cases rule: client_step_cases)
    case (got p)
    then have "p \<noteq> q" using assms(4) by auto
    with got far assms(3) show ?thesis by simp
  next
    case (freed p)
    then have "p \<noteq> q" using q by auto
    with freed far assms(3) show ?thesis by simp
  qed (use assms(3) in simp_all)
qed

lemma held_page_stable:
  assumes "(keeps q)\<^sup>*\<^sup>* s t" "inv s" "page s q" "refs s q \<noteq> 0"
  shows "inv t \<and> page t q \<and> refs t q \<noteq> 0 \<and> (\<forall>x. in_page q x \<longrightarrow> bytes t x = bytes s x)"
  using assms
proof (induction rule: rtranclp_induct)
  case (step t u)
  then have t: "inv t" "page t q" "refs t q \<noteq> 0" "\<forall>x. in_page q x \<longrightarrow> bytes t x = bytes s x" by auto
  with keeps_bytes [OF step.hyps(2) t(1-3)] step.hyps(2) show ?case by (auto simp: keeps_def)
qed simp

end

lemma page_refs_upd:
  assumes "KERNBASE \<le> kend s" "kpage s pa" "kend t = kend s"
    "refcnt t = (refcnt s)(pa_to_idx pa := v)"
  shows "page_refs t = (page_refs s)(pa := unat v)"
proof
  fix p
  have "kpage t = kpage s" using assms(3) by (simp add: kpage_def fun_eq_iff)
  then show "page_refs t p = ((page_refs s)(pa := unat v)) p"
    using assms kpage_idx_eq [OF assms(1), of p pa] by (auto simp: page_refs_def refcnt_at_def)
qed

lemma page_refs_crit [simp]: "page_refs (crit s) = page_refs s"
  by (simp add: page_refs_def fun_eq_iff)

lemma kmem_inv_kend: "kmem_inv s \<Longrightarrow> KERNBASE \<le> kend s"
  by (simp add: kmem_inv_def)

lemma kpage_kend: "kend t = kend s \<Longrightarrow> kpage t = kpage s"
  by (simp add: kpage_def fun_eq_iff)

abbreviation managed :: "'z kmem_scheme \<Rightarrow> u64 \<Rightarrow> bool" where
  "managed s p \<equiv> KERNBASE \<le> kend s \<and> kpage s p"

lemma page_refs_1: "kpage s p \<Longrightarrow> page_refs s p = 1 \<longleftrightarrow> refcnt_at p s = 1"
  by (simp add: page_refs_def word_unat_eq_iff)

interpretation kalloc: page_allocator kalloc kfree kref_inc kmem_inv managed page_refs mem
proof
  show "aligned p \<and> p \<noteq> 0" if "managed s p" for s :: "'a kmem_scheme" and p
    using that kpage_nonzero [of s p] by (auto simp: kpage_def)
next
  fix s :: "'a kmem_scheme" assume inv: "kmem_inv s"
  show "\<exists>pa t. kalloc s = Inr (pa, t) \<and> kmem_inv t \<and> managed t = managed s \<and>
      (if pa = 0 then page_refs t = page_refs s \<and> mem t = mem s \<and> (\<forall>p. managed s p \<longrightarrow> page_refs s p \<noteq> 0)
       else managed s pa \<and> page_refs s pa = 0 \<and> page_refs t = (page_refs s)(pa := 1) \<and>
         (\<forall>x. \<not> in_page pa x \<longrightarrow> mem t x = mem s x))"
    using inv
  proof (cases rule: kalloc_inv)
    case none
    then show ?thesis by (auto simp: page_refs_def unat_eq_zero)
  next
    case (page pa t)
    have t: "kend t = kend s" "refcnt t = (refcnt s)(pa_to_idx pa := 1)" "mem t = memset pa 5 4096 (mem s)"
      by (subst page(5); simp)+
    have "page_refs t = (page_refs s)(pa := 1)"
      using page_refs_upd [OF kmem_inv_kend [OF inv] page(3) t(1,2)] by simp
    then show ?thesis
      using page(1-4) t kpage_nonzero [OF kmem_inv_kend [OF inv] page(3)] kmem_inv_kend [OF inv] kpage_kend [OF t(1)]
      by (auto simp: memset_page page_refs_def)
  qed
next
  fix s :: "'a kmem_scheme" and p
  assume inv: "kmem_inv s" and p: "managed s p" "page_refs s p \<noteq> 0"
  then have nz: "refcnt_at p s \<noteq> 0" by (auto simp: page_refs_def unat_eq_zero)
  from kfree_inv [OF inv conjunct2 [OF p(1)] nz] obtain t where t: "kfree p s = Inr t" "kmem_inv t"
      "kend t = kend s" "refcnt t = (refcnt s)(pa_to_idx p := refcnt_at p s - 1)"
      "if refcnt_at p s = 1 then (\<forall>x. \<not> in_page p x \<longrightarrow> mem t x = mem s x) else mem t = mem s"
    by blast
  moreover have "unat (refcnt_at p s - 1) = page_refs s p - 1"
    using p nz by (simp add: page_refs_def unat_minus_one)
  ultimately show "\<exists>t. kfree p s = Inr t \<and> kmem_inv t \<and> managed t = managed s \<and>
        page_refs t = (page_refs s)(p := page_refs s p - 1) \<and>
        (if page_refs s p = 1 then \<forall>x. \<not> in_page p x \<longrightarrow> mem t x = mem s x else mem t = mem s)"
    using page_refs_upd [of s p t "refcnt_at p s - 1"] kpage_kend [OF t(3)] p page_refs_1 [of s p] by auto
next
  fix s :: "'a kmem_scheme" and p
  assume inv: "kmem_inv s" and p: "managed s p" "page_refs s p \<noteq> 0" "page_refs s p < 2 ^ 16 - 1"
  then have nz: "refcnt_at p s \<noteq> 0" "refcnt_at p s \<noteq> - 1"
    by (auto simp: page_refs_def unat_eq_zero unsigned_minus_1_eq_mask mask_eq_exp_minus_1)
  from kref_inc_inv [OF inv conjunct2 [OF p(1)] nz] obtain t where t: "kref_inc p s = Inr t" "kmem_inv t"
      "t = s\<lparr>refcnt := (refcnt s)(pa_to_idx p := refcnt_at p s + 1)\<rparr>" by blast
  moreover have "unat (refcnt_at p s + 1) = page_refs s p + 1"
    using p by (simp add: page_refs_def unat_word_ariths)
  ultimately show "\<exists>t. kref_inc p s = Inr t \<and> kmem_inv t \<and> managed t = managed s \<and>
        page_refs t = (page_refs s)(p := page_refs s p + 1) \<and> mem t = mem s"
    using page_refs_upd [of s p t "refcnt_at p s + 1"] p by auto
qed

subsection \<open>Boot: \<open>kinit\<close> puts every page after the kernel in the pool\<close>

lemma pgroundup_unat:
  assumes "unat a + 4095 < 2 ^ 64"
  shows "unat (pgroundup a) = (unat a + 4095) div 4096 * 4096"
proof -
  have m: "(4095 :: u64) = mask 12" by (simp add: mask_eq_exp_minus_1)
  have "(a + PGSIZE - 1) AND NOT (PGSIZE - 1) = (a + 4095) AND NOT (mask 12)"
    by (simp add: m [symmetric] add_diff_eq [symmetric])
  also have "\<dots> = push_bit 12 (drop_bit 12 (a + 4095))"
    by (rule bit_word_eqI) (auto simp: bit_simps)
  finally have "unat (pgroundup a) = unat (drop_bit 12 (a + 4095)) * 4096 mod 2 ^ 64"
    by (simp add: pgroundup_def push_bit_eq_mult unat_word_ariths mult.commute)
  moreover have "unat (a + 4095) = unat a + 4095"
    using assms by (simp add: unat_word_ariths)
  moreover have "unat (drop_bit 12 (a + 4095)) = unat (a + 4095) div 4096"
    by (simp add: drop_bit_eq_div unat_div)
  moreover have "(unat a + 4095) div 4096 * 4096 < 2 ^ 64"
    using assms by (meson div_times_less_eq_dividend le_less_trans)
  ultimately show ?thesis by simp
qed

definition pool :: "u64 \<Rightarrow> 'z kmem_scheme \<Rightarrow> bool" where
  "pool p s \<longleftrightarrow> KERNBASE \<le> kend s \<and> cpu_ok s \<and> lock_free LKmem s \<and>
     (\<exists>ps. freechain (mem s) (freelist s) ps \<and> distinct ps \<and> set ps = {q. kpage s q \<and> q < p} \<and>
        (\<forall>q\<in>set ps. refcnt_at q s = 0))"

lemma kpage_below_next:
  assumes "kpage s p"
  shows "{q. kpage s q \<and> q < p + PGSIZE} = insert p {q. kpage s q \<and> q < p}"
proof -
  have "unat p < 2281701376" using assms by (simp add: kpage_def word_less_nat_alt)
  then have next_p: "unat (p + PGSIZE) = unat p + 4096" by (simp add: unat_word_ariths)
  have "q = p" if q: "kpage s q" "q < p + PGSIZE" "\<not> q < p" for q
  proof -
    obtain a b where "unat p = 4096 * a" "unat q = 4096 * b"
      using assms q(1) aligned_multiple unfolding kpage_def by blast
    with q(2,3) next_p have "unat q = unat p" by (simp add: word_less_nat_alt)
    then show ?thesis by (simp add: word_unat_eq_iff)
  qed
  moreover have "p < p + PGSIZE" using next_p by (simp add: word_less_nat_alt)
  ultimately show ?thesis using assms by (auto intro: less_trans)
qed

lemma pool_kfree:
  assumes "pool p s" "kpage s p"
  shows "\<exists>t. kfree p (refcnt_store p 1 s) = Inr t \<and> pool (p + PGSIZE) t \<and> kend t = kend s"
proof -
  from assms(1) obtain ps where k: "KERNBASE \<le> kend s" "cpu_ok s" "lock_free LKmem s"
    and ps: "freechain (mem s) (freelist s) ps" "distinct ps" "set ps = {q. kpage s q \<and> q < p}"
      "\<forall>q\<in>set ps. refcnt_at q s = 0"
    by (auto simp: pool_def)
  have p: "p mod PGSIZE = 0" "kend s \<le> p" "p < PHYSTOP" "aligned p"
    using assms(2) by (auto simp: kpage_def aligned_def)
  let ?m = "store64 (memset p 1 4096 (mem s)) p (freelist s)"
  let ?t = "(crit s)\<lparr>mem := ?m, freelist := p, refcnt := (refcnt s)(pa_to_idx p := 0)\<rparr>"
  have run: "kfree p (refcnt_store p 1 s) = Inr ?t"
    using kfree_last [of "refcnt_store p 1 s" p] k p by (simp add: refcnt_store_def)
  have out: "?m x = mem s x" if "\<not> in_page p x" for x
    using that store64_outside [of p x "memset p 1 4096 (mem s)"] in_page_header [of p x]
    by (auto simp: memset_page)
  have "load64 (mem s) q = load64 ?m q" if "q \<in> set ps" for q
    by (rule load64_other_page [of p]) (use that p ps out in \<open>auto simp: kpage_def\<close>)
  then have "freechain ?m p (p # ps)"
    using ps(1) freechain_cong [of ps "mem s" ?m] kpage_nonzero [OF k(1) assms(2)] by simp
  moreover have "set (p # ps) = {q. kpage ?t q \<and> q < p + PGSIZE}"
    using kpage_below_next [OF assms(2)] ps(3) by simp
  moreover have "refcnt_at q ?t = 0" if "q \<in> set (p # ps)" for q
    using that ps(3,4) kpage_idx_eq [OF k(1) _ assms(2)] by (auto simp: refcnt_at_def)
  ultimately have "pool (p + PGSIZE) ?t"
    unfolding pool_def using k ps(2,3) by (intro conjI exI [of _ "p # ps"]) auto
  with run show ?thesis by auto
qed

lemma freerange_from_pool:
  assumes "pool p s" "aligned p" "kend s \<le> p" "unat p + 4096 * n = unat PHYSTOP"
  shows "\<exists>t. freerange_from p PHYSTOP s = Some (Inr t) \<and> pool PHYSTOP t \<and> kend t = kend s"
  using assms
proof (induction n arbitrary: p s)
  case 0
  then have "p = PHYSTOP" by (simp add: word_unat_eq_iff)
  then show ?case using 0 by (subst freerange_from.simps) (simp add: word_le_nat_alt)
next
  case (Suc n)
  have next_p: "unat (p + PGSIZE) = unat p + 4096" using Suc.prems(4) by (simp add: unat_word_ariths)
  have kp: "kpage s p" using Suc.prems by (simp add: kpage_def word_less_nat_alt)
  from pool_kfree [OF Suc.prems(1) kp] obtain t where
    t: "kfree p (refcnt_store p 1 s) = Inr t" "pool (p + PGSIZE) t" "kend t = kend s" by blast
  have "aligned (p + PGSIZE)" "kend t \<le> p + PGSIZE" "unat (p + PGSIZE) + 4096 * n = unat PHYSTOP"
    using Suc.prems next_p t(3) by (simp_all add: aligned_unat word_le_nat_alt)
  from Suc.IH [OF t(2) this] t(3) obtain u where
    "freerange_from (p + PGSIZE) PHYSTOP t = Some (Inr u)" "pool PHYSTOP u" "kend u = kend s" by auto
  moreover have "p + PGSIZE \<le> PHYSTOP" using Suc.prems(4) next_p by (simp add: word_le_nat_alt)
  ultimately show ?case using t(1) by (subst freerange_from.simps) simp
qed

lemma kinit_ok:
  assumes "cpu_ok s" "freelist s = 0" "KERNBASE \<le> kend s" "kend s \<le> PHYSTOP"
  shows "\<exists>t. kinit s = Some (Inr t) \<and> kmem_inv t \<and> kend t = kend s \<and>
    (\<forall>p. kpage s p \<longrightarrow> page_refs t p = 0)"
proof -
  let ?s = "initlock LKmem ''kmem'' s" and ?p = "pgroundup (kend s)"
  have same: "kend ?s = kend s" "freelist ?s = freelist s" "kpage ?s = kpage s"
    by (simp_all add: initlock_def kpage_def fun_eq_iff)
  have le: "unat (kend s) \<le> 2281701376" using assms(4) by (simp add: word_le_nat_alt)
  then have p: "unat ?p = (unat (kend s) + 4095) div 4096 * 4096" by (simp add: pgroundup_unat)
  have al: "aligned ?p" by (simp add: aligned_unat p)
  have bound: "unat (kend s) \<le> unat ?p" "unat ?p \<le> 2281701376" "unat ?p < unat (kend s) + 4096"
  proof -
    define k where "k = (unat (kend s) + 4095) div 4096"
    have "4096 * k \<le> unat (kend s) + 4095" "unat (kend s) + 4095 < 4096 * k + 4096"
      unfolding k_def by linarith+
    moreover from this le have "k < 557057" by linarith
    ultimately show "unat (kend s) \<le> unat ?p" "unat ?p \<le> 2281701376" "unat ?p < unat (kend s) + 4096"
      unfolding p k_def [symmetric] by linarith+
  qed
  have none: "{q. kpage ?s q \<and> q < ?p} = {}"
  proof -
    have False if q: "kpage s q" "q < ?p" for q
    proof -
      obtain b where b: "unat q = 4096 * b"
        using q(1) aligned_multiple unfolding kpage_def by blast
      have "unat (kend s) \<le> 4096 * b" "4096 * b < (unat (kend s) + 4095) div 4096 * 4096"
        using q b p by (simp_all add: kpage_def word_le_nat_alt word_less_nat_alt)
      moreover from this(1) have "(unat (kend s) + 4095) div 4096 < Suc b"
        by (simp add: less_mult_imp_div_less)
      ultimately show False by linarith
    qed
    then show ?thesis using same by auto
  qed
  have "cpu_ok ?s" using assms(1) by (simp add: initlock_def cpu_ok_def machine_defs)
  moreover have "lock_free LKmem ?s" by (simp add: initlock_def lock_free_def)
  ultimately have "pool ?p ?s"
    unfolding pool_def none using assms(2,3) same by (auto intro!: exI [of _ "[]"])
  moreover have "\<exists>n. unat ?p + 4096 * n = unat PHYSTOP"
  proof -
    obtain a where a: "unat ?p = 4096 * a" using aligned_multiple [OF al] by blast
    with bound(2) have "a \<le> 557056" by linarith
    with a show ?thesis by (intro exI [of _ "557056 - a"]) simp
  qed
  ultimately obtain t where t: "freerange_from ?p PHYSTOP ?s = Some (Inr t)" "pool PHYSTOP t" "kend t = kend s"
    using freerange_from_pool [of ?p ?s] al bound(1) same(1) by (auto simp: word_le_nat_alt)
  from t(2) obtain ps where ps: "freechain (mem t) (freelist t) ps" "distinct ps"
      "set ps = {q. kpage t q \<and> q < PHYSTOP}" "\<forall>q\<in>set ps. refcnt_at q t = 0"
    by (auto simp: pool_def)
  then have "set ps = zero_pages t" by (auto simp: zero_pages_def kpage_def)
  then have "kmem_inv t" using t(2) ps by (auto simp: kmem_inv_def free_list_def pool_def)
  moreover have "page_refs t p = 0" if "kpage s p" for p
    using ps that kpage_kend [OF t(3)] by (simp add: page_refs_def kpage_def)
  ultimately show ?thesis using t by (auto simp: kinit_def freerange_def same)
qed

subsection \<open>Correctness of the allocator\<close>

text \<open>
  C8: \<open>kalloc\<close> on a good allocator always returns; it hands out a page that nobody referenced,
  with count 1 and no other page's bytes changed, or null exactly when every page is referenced;
  the invariant holds afterwards.
\<close>

theorem kalloc_correct:
  assumes "kmem_inv s"
  shows "\<exists>pa t. kalloc s = Inr (pa, t) \<and> kmem_inv t \<and>
    (pa = 0 \<longleftrightarrow> (\<forall>p. kpage s p \<longrightarrow> page_refs s p \<noteq> 0)) \<and>
    (pa \<noteq> 0 \<longrightarrow> kpage s pa \<and> page_refs s pa = 0 \<and> page_refs t = (page_refs s)(pa := 1) \<and>
       (\<forall>x. mem t x = (if in_page pa x then 5 else mem s x)))"
  using assms
proof (cases rule: kalloc_inv)
  case none
  then show ?thesis by (auto simp: page_refs_def unat_eq_zero)
next
  case (page pa t)
  have t: "kend t = kend s" "refcnt t = (refcnt s)(pa_to_idx pa := 1)" "mem t = memset pa 5 4096 (mem s)"
    by (subst page(5); simp)+
  note k = kmem_inv_kend [OF assms]
  have "page_refs t = (page_refs s)(pa := 1)"
    using page_refs_upd [OF k page(3) t(1,2)] by simp
  moreover have "page_refs s pa = 0" using page(4) by (simp add: page_refs_def)
  ultimately show ?thesis
    using page(1-3) t(3) kpage_nonzero [OF k page(3)] by (auto simp: memset_page)
qed

text \<open>A hart with interrupts on, no lock held, and one free page: the last one before \<open>PHYSTOP\<close>.\<close>

definition one_free :: kmem where
  "one_free = \<lparr>hart = 0, sie = (\<lambda>_. True),
     cpus = (\<lambda>_. \<lparr>cproc = None, noff = 0, intena = False\<rparr>),
     locks = (\<lambda>_. \<lparr>locked = 0, lname = [], lcpu = None\<rparr>),
     mem = (\<lambda>_. 0), freelist = 0x87fff000, refcnt = (\<lambda>i. if i = 32767 then 0 else 1),
     kend = 0x80100000\<rparr>"

lemma kmem_inv_one_free: "kmem_inv one_free"
proof -
  have idx: "pa_to_idx 0x87fff000 = 32767" by (simp add: pa_to_idx_def unat_div)
  have page: "kpage one_free 0x87fff000" and kend: "KERNBASE \<le> kend one_free"
    by (simp_all add: kpage_def aligned_def one_free_def word_le_nat_alt)
  have "zero_pages one_free = {0x87fff000}"
    using page kpage_idx_eq [OF kend _ page] idx
    by (auto simp: zero_pages_def refcnt_at_def one_free_def split: if_splits)
  moreover have "load64 (mem one_free) p = 0" for p
  proof -
    have "load_bytes (mem one_free) p 8 = replicate 8 0"
      by (rule nth_equalityI) (simp_all add: one_free_def)
    then show ?thesis by (simp only: load64_def of_le_replicate_0)
  qed
  ultimately have "free_list [0x87fff000] one_free"
    by (simp add: free_list_def) (simp add: one_free_def)
  then show ?thesis
    using kend by (auto simp: kmem_inv_def cpu_ok_def lock_free_def one_free_def machine_defs)
qed

theorem kalloc_correct_witness:
  "kmem_inv one_free \<and> (\<exists>pa t. kalloc one_free = Inr (pa, t) \<and> kmem_inv t \<and> pa \<noteq> 0 \<and> page_refs t pa = 1)"
proof -
  have "kpage one_free 0x87fff000" by (simp add: kpage_def aligned_def one_free_def)
  moreover have "page_refs one_free 0x87fff000 = 0"
    by (simp add: page_refs_def refcnt_at_def pa_to_idx_def unat_div one_free_def)
  ultimately show ?thesis using kmem_inv_one_free kalloc_correct [OF kmem_inv_one_free] by fastforce
qed

text \<open>
  freeing a referenced page always returns and drops its count by one; memory changes only
  when the last reference goes, and then only in that page; freeing a page that is not referenced
  panics instead of corrupting the free list.
\<close>

theorem kfree_correct:
  assumes "kmem_inv s" "kpage s pa"
  shows "if page_refs s pa = 0 then kfree pa s = Inl (Panic ''refcnt underflow'')
    else \<exists>t. kfree pa s = Inr t \<and> kmem_inv t \<and> page_refs t = (page_refs s)(pa := page_refs s pa - 1) \<and>
      (\<forall>x. mem t x \<noteq> mem s x \<longrightarrow> in_page pa x \<and> page_refs s pa = 1)"
proof (cases "page_refs s pa = 0")
  case True
  then have "refcnt_at pa s = 0" using assms(2) by (simp add: page_refs_def unat_eq_zero)
  then show ?thesis
    using assms(2) True by (auto simp: kfree_def refcnt_dec_def kpage_def aligned_def Let_def)
next
  case False
  then show ?thesis
    using kalloc.free_law [of s pa] assms kmem_inv_kend [OF assms(1)] by (auto split: if_splits)
qed

theorem kfree_correct_witness:
  "kmem_inv one_free \<and> kpage one_free 0x80200000 \<and> (\<exists>t. kfree 0x80200000 one_free = Inr t \<and> kmem_inv t)"
proof -
  have "kpage one_free 0x80200000" by (simp add: kpage_def aligned_def one_free_def)
  moreover from this have "page_refs one_free 0x80200000 = 1"
    by (simp add: page_refs_def refcnt_at_def pa_to_idx_def unat_div one_free_def)
  ultimately show ?thesis
    using kmem_inv_one_free kfree_correct [of one_free "0x80200000"] by auto
qed

text \<open>
  The moves of the kernel's page users, in any order: allocate, give a held page back, take one
  more reference to a held page.  \<open>kstep q\<close> are those that leave \<open>q\<close> referenced.
\<close>

inductive kstep :: "u64 \<Rightarrow> kmem \<Rightarrow> kmem \<Rightarrow> bool" for q where
  kstep_alloc: "kalloc s = Inr (pa, t) \<Longrightarrow> page_refs t q \<noteq> 0 \<Longrightarrow> kstep q s t"
| kstep_free: "kpage s p \<Longrightarrow> page_refs s p \<noteq> 0 \<Longrightarrow> kfree p s = Inr t \<Longrightarrow> page_refs t q \<noteq> 0 \<Longrightarrow>
    kstep q s t"
| kstep_share: "kpage s p \<Longrightarrow> page_refs s p \<noteq> 0 \<Longrightarrow> page_refs s p < 2 ^ 16 - 1 \<Longrightarrow>
    kref_inc p s = Inr t \<Longrightarrow> page_refs t q \<noteq> 0 \<Longrightarrow> kstep q s t"

lemma kstep_keeps:
  "kstep q s t \<Longrightarrow> kmem_inv s \<Longrightarrow> kalloc.keeps q s t"
  by (induction rule: kstep.induct)
    (auto simp: kalloc.keeps_def kalloc.client_step_def kmem_inv_kend)

lemma ksteps_keeps:
  assumes "(kstep q)\<^sup>*\<^sup>* s t" "kmem_inv s" "kpage s q" "page_refs s q \<noteq> 0"
  shows "(kalloc.keeps q)\<^sup>*\<^sup>* s t"
  using assms
proof (induction rule: rtranclp_induct)
  case (step t u)
  then have keeps: "(kalloc.keeps q)\<^sup>*\<^sup>* s t" by simp
  then have "kmem_inv t"
    using kalloc.held_page_stable [OF keeps] step.prems kmem_inv_kend [of s] by simp
  with step.hyps(2) keeps show ?case using kstep_keeps [of q t u] by (simp add: rtranclp.rtrancl_into_rtrancl)
qed simp

text \<open>
  C3: through any sequence of allocations, frees and shares by all users, a page that stays
  referenced keeps its contents, and the allocator its invariant.
\<close>

theorem held_page_keeps_contents:
  assumes "(kstep q)\<^sup>*\<^sup>* s t" "kmem_inv s" "kpage s q" "page_refs s q \<noteq> 0"
  shows "kmem_inv t \<and> page_refs t q \<noteq> 0 \<and> (\<forall>x. in_page q x \<longrightarrow> mem t x = mem s x)"
  using kalloc.held_page_stable [OF ksteps_keeps [OF assms]] assms(2-4) kmem_inv_kend [OF assms(2)]
  by simp

theorem held_page_keeps_contents_witness:
  "\<exists>t. kalloc one_free = Inr (0x87fff000, t) \<and> (kstep 0x80200000)\<^sup>*\<^sup>* one_free t \<and>
     kmem_inv t \<and> (\<forall>x. in_page 0x80200000 x \<longrightarrow> mem t x = mem one_free x)"
proof -
  have ok: "cpu_ok one_free" "lock_free LKmem one_free"
    by (simp_all add: cpu_ok_def lock_free_def one_free_def machine_defs)
  have fl: "freelist one_free = 0x87fff000" by (simp add: one_free_def)
  then obtain t where t: "kalloc one_free = Inr (0x87fff000, t)"
    "refcnt t = (refcnt one_free)(pa_to_idx 0x87fff000 := 1)" "kend t = kend one_free"
    using kalloc_eq [OF ok] by auto
  have q: "kpage one_free 0x80200000" "page_refs one_free 0x80200000 \<noteq> 0"
    by (simp_all add: kpage_def aligned_def page_refs_def refcnt_at_def pa_to_idx_def unat_div one_free_def)
  have "page_refs t 0x80200000 \<noteq> 0"
    using t by (simp add: kpage_def aligned_def page_refs_def refcnt_at_def pa_to_idx_def unat_div one_free_def)
  then have "(kstep 0x80200000)\<^sup>*\<^sup>* one_free t" using kstep_alloc [OF t(1)] by blast
  then show ?thesis using held_page_keeps_contents [OF _ kmem_inv_one_free q] t(1) by blast
qed

text \<open>
  C9: at boot, on a kernel image that ends below \<open>PHYSTOP\<close>, \<open>kinit\<close> terminates without a
  panic and leaves every page after the image free.
\<close>

theorem kinit_correct:
  assumes "cpu_ok s" "freelist s = 0" "KERNBASE \<le> kend s" "kend s \<le> PHYSTOP"
  shows "\<exists>t. kinit s = Some (Inr t) \<and> kmem_inv t \<and> (\<forall>p. kpage s p \<longrightarrow> kpage t p \<and> page_refs t p = 0)"
  using kinit_ok [OF assms] kpage_kend by fastforce

theorem kinit_correct_witness:
  "\<exists>t. kinit (one_free\<lparr>freelist := 0\<rparr>) = Some (Inr t) \<and> kmem_inv t \<and> page_refs t 0x80200000 = 0"
proof -
  let ?s = "one_free\<lparr>freelist := 0\<rparr>"
  have "cpu_ok ?s" "freelist ?s = 0" "KERNBASE \<le> kend ?s" "kend ?s \<le> PHYSTOP" "kpage ?s 0x80200000"
    by (simp_all add: cpu_ok_def one_free_def machine_defs kpage_def aligned_def)
  then show ?thesis using kinit_correct [of ?s] by blast
qed

text \<open>
  C13: the count is 16 bits wide and \<open>kref_inc\<close> does not stop at the top: the 65536th reference
  to a page returns normally with count 0, after which the page is referenced and counted free.
\<close>

theorem kref_inc_wraps:
  assumes "kpage s pa" "KERNBASE \<le> kend s" "page_refs s pa = 65535"
  shows "\<exists>t. kref_inc pa s = Inr t \<and> page_refs t pa = 0"
proof -
  have max: "refcnt_at pa s = - 1"
    using assms(1,3) by (simp add: page_refs_def word_unat_eq_iff unsigned_minus_1_eq_mask mask_eq_exp_minus_1)
  have "kref_inc pa s = Inr (refcnt_store pa 0 s)"
    using assms(1,2) max by (auto simp: kref_inc_def kpage_def aligned_def Let_def)
  then show ?thesis by (simp add: page_refs_def refcnt_store_def)
qed

theorem kref_inc_wraps_witness:
  "\<exists>t. kref_inc 0x80200000 (one_free\<lparr>refcnt := (\<lambda>_. - 1)\<rparr>) = Inr t \<and> page_refs t 0x80200000 = 0"
proof -
  let ?s = "one_free\<lparr>refcnt := (\<lambda>_. - 1)\<rparr>"
  have "kpage ?s 0x80200000" "KERNBASE \<le> kend ?s" "page_refs ?s 0x80200000 = 65535"
    by (simp_all add: kpage_def aligned_def one_free_def page_refs_def refcnt_at_def unsigned_minus_1_eq_mask
        mask_eq_exp_minus_1)
  then show ?thesis by (rule kref_inc_wraps)
qed

end
