(* ===== verification/Proctab.thy ===== *)
theory Proctab
  imports Kalloc
begin

section \<open>The process table, sleep and wakeup (kernel/rust\_proc.rs, kernel/rust\_lock.rs)\<close>

text \<open>
  The part of the process module that the other components call: the table of \<open>Proc\<close> slots,
  \<open>myproc\<close>, the pid counter behind its \<open>SpinMutex\<close>, the kernel's page table and the harts' \<open>satp\<close>, \<open>sleep\<close>, \<open>wakeup\<close> and
  \<open>sched\<close>.  A \<open>*mut Proc\<close> is the index of its slot, a \<open>*mut c_void\<close> file or inode
  pointer the index in its table, null is \<open>None\<close>.  The trap frame of a process is the memory
  page \<open>trapframe\<close> points at.

  \<open>swtch\<close> hands the hart to the scheduler.  A routine that goes to sleep runs up to that switch
  (\<open>sleep_enter\<close>) and has the outcome \<open>Sleeps ch\<close>; what it does once it is scheduled again
  is \<open>sleep_exit\<close>.
\<close>

abbreviation NPROC :: nat where "NPROC \<equiv> 64"
abbreviation NOFILE :: nat where "NOFILE \<equiv> 16"

datatype procstate = UNUSED | USED | SLEEPING | RUNNABLE | RUNNING | ZOMBIE

record proc =
  state :: procstate
  pchan :: "chan option"
  pkilled :: u32
  xstate :: u32
  pid :: u32
  parent :: "nat option"
  kstack :: u64
  sz :: u64
  pagetable :: u64
  trapframe :: u64
  ctx_ra :: u64
  ctx_sp :: u64
  ofile :: "nat option list"
  cwd :: "nat option"
  pname :: "u8 list"

record ptable = kmem +
  procs :: "nat \<Rightarrow> proc"
  initproc :: "nat option"
  pid_counter :: u32
  pid_init_done :: bool
  kernel_pagetable :: u64
  satp :: "nat \<Rightarrow> u64"

definition upd_proc :: "nat \<Rightarrow> (proc \<Rightarrow> proc) \<Rightarrow> 'z ptable_scheme \<Rightarrow> 'z ptable_scheme" where
  "upd_proc i f s = s\<lparr>procs := (procs s)(i := f (procs s i))\<rparr>"

subsection \<open>The current process\<close>

definition myproc :: "'z machine_scheme \<Rightarrow> (nat option \<times> 'z machine_scheme) kres" where
  "myproc s =
     (let s = push_off s; p = cproc (mycpu s) in and_then (pop_off s) (\<lambda>s. Inr (p, s)))"

definition myproc_sz :: "'z ptable_scheme \<Rightarrow> (u64 \<times> 'z ptable_scheme) kres" where
  "myproc_sz s = and_then (myproc s) (\<lambda>(p, s).
     Inr (case p of None \<Rightarrow> 0 | Some i \<Rightarrow> sz (procs s i), s))"

definition myproc_pagetable :: "'z ptable_scheme \<Rightarrow> (u64 \<times> 'z ptable_scheme) kres" where
  "myproc_pagetable s = and_then (myproc s) (\<lambda>(p, s).
     Inr (case p of None \<Rightarrow> 0 | Some i \<Rightarrow> pagetable (procs s i), s))"

definition myproc_cwd :: "'z ptable_scheme \<Rightarrow> (nat option \<times> 'z ptable_scheme) kres" where
  "myproc_cwd s = and_then (myproc s) (\<lambda>(p, s).
     Inr (case p of None \<Rightarrow> None | Some i \<Rightarrow> cwd (procs s i), s))"

definition setkilled :: "nat \<Rightarrow> 'z ptable_scheme \<Rightarrow> 'z ptable_scheme kres" where
  "setkilled p s = and_then (acquire (LProc p) s) (\<lambda>s.
     release (LProc p) (upd_proc p (pkilled_update (\<lambda>_. 1)) s))"

definition killed :: "nat \<Rightarrow> 'z ptable_scheme \<Rightarrow> (u32 \<times> 'z ptable_scheme) kres" where
  "killed p s = and_then (acquire (LProc p) s) (\<lambda>s.
     let k = pkilled (procs s p) in and_then (release (LProc p) s) (\<lambda>s. Inr (k, s)))"

text \<open>
  \<open>allocpid\<close> locks \<open>PID_COUNTER\<close>, a \<open>SpinMutex\<close>: the first \<open>lock\<close> initialises the
  raw lock.
\<close>

definition pid_counter_lock :: "'z ptable_scheme \<Rightarrow> 'z ptable_scheme kres" where
  "pid_counter_lock s =
     (let s = (if \<not> pid_init_done s
               then (initlock LPid ''pid_counter'' s)\<lparr>pid_init_done := True\<rparr> else s)
      in acquire LPid s)"

definition allocpid :: "'z ptable_scheme \<Rightarrow> (u32 \<times> 'z ptable_scheme) kres" where
  "allocpid s = and_then (pid_counter_lock s) (\<lambda>s.
     let p = pid_counter s; s = s\<lparr>pid_counter := p + 1\<rparr> in
     and_then (release LPid s) (\<lambda>s. Inr (p, s)))"

subsection \<open>Sleep and wakeup\<close>

definition sched_enter :: "'z ptable_scheme \<Rightarrow> 'z ptable_scheme kres" where
  "sched_enter s = and_then (myproc s) (\<lambda>(p, s).
     case p of
       None \<Rightarrow> Inl Undefined
     | Some i \<Rightarrow>
         if \<not> holding (LProc i) s then Inl (Panic ''sched p->lock'')
         else if noff (mycpu s) \<noteq> 1 then Inl (Panic ''sched locks'')
         else if state (procs s i) = RUNNING then Inl (Panic ''sched RUNNING'')
         else Inr s)"

definition sleep_enter :: "chan \<Rightarrow> lockid \<Rightarrow> 'z ptable_scheme \<Rightarrow> 'z ptable_scheme kres" where
  "sleep_enter ch lk s = and_then (myproc s) (\<lambda>(p, s).
     case p of
       None \<Rightarrow> Inl Undefined
     | Some i \<Rightarrow>
         and_then (acquire (LProc i) s) (\<lambda>s.
         and_then (release lk s) (\<lambda>s.
         sched_enter (upd_proc i (\<lambda>q. q\<lparr>pchan := Some ch, state := SLEEPING\<rparr>) s))))"

definition sleep_exit :: "nat \<Rightarrow> lockid \<Rightarrow> bool \<Rightarrow> 'z ptable_scheme \<Rightarrow> 'z ptable_scheme kres" where
  "sleep_exit i lk ie s =
     (let s = set_mycpu ((mycpu s)\<lparr>intena := ie\<rparr>) s;
          s = upd_proc i (pchan_update (\<lambda>_. None)) s in
      and_then (release (LProc i) s) (\<lambda>s. acquire lk s))"

definition sleep :: "chan \<Rightarrow> lockid \<Rightarrow> 'z ptable_scheme \<Rightarrow> 'b kres" where
  "sleep ch lk s = and_then (sleep_enter ch lk s) (\<lambda>s. Inl (Sleeps ch))"

definition rouse :: "chan \<Rightarrow> proc \<Rightarrow> proc" where
  "rouse ch p = (if state p = SLEEPING \<and> pchan p = Some ch then p\<lparr>state := RUNNABLE\<rparr> else p)"

primrec wakeup_loop :: "chan \<Rightarrow> nat option \<Rightarrow> nat list \<Rightarrow> 'z ptable_scheme \<Rightarrow> 'z ptable_scheme kres" where
  "wakeup_loop ch current [] s = Inr s"
| "wakeup_loop ch current (i # is) s =
     and_then (if Some i \<noteq> current
               then and_then (acquire (LProc i) s) (\<lambda>s. release (LProc i) (upd_proc i (rouse ch) s))
               else Inr s)
       (wakeup_loop ch current is)"

definition wakeup :: "chan \<Rightarrow> 'z ptable_scheme \<Rightarrow> 'z ptable_scheme kres" where
  "wakeup ch s = and_then (myproc s) (\<lambda>(current, s). wakeup_loop ch current [0..<NPROC] s)"

subsection \<open>Lock operations leave the table alone\<close>

lemma ptable_acquired [simp]:
  "procs (acquired l s) = procs s"
  "initproc (acquired l s) = initproc s"
  "pid_counter (acquired l s) = pid_counter s"
  "pid_init_done (acquired l s) = pid_init_done s"
  "kernel_pagetable (acquired l s) = kernel_pagetable s"
  "satp (acquired l s) = satp s"
  by (simp_all add: acquired_def machine_defs)

lemma ptable_crit [simp]:
  "procs (crit s) = procs s"
  "initproc (crit s) = initproc s"
  "pid_counter (crit s) = pid_counter s"
  "pid_init_done (crit s) = pid_init_done s"
  "kernel_pagetable (crit s) = kernel_pagetable s"
  "satp (crit s) = satp s"
  by (simp_all add: crit_def machine_defs)

lemma ptable_initlock [simp]:
  "procs (initlock l nm s) = procs s"
  "initproc (initlock l nm s) = initproc s"
  "pid_counter (initlock l nm s) = pid_counter s"
  "pid_init_done (initlock l nm s) = pid_init_done s"
  "kernel_pagetable (initlock l nm s) = kernel_pagetable s"
  "satp (initlock l nm s) = satp s"
  by (simp_all add: initlock_def)

lemma release_ptable_upd [simp]:
  "release l (s\<lparr>procs := x0\<rparr>) = map_sum id (\<lambda>t. t\<lparr>procs := x0\<rparr>) (release l s)"
  "release l (s\<lparr>initproc := x1\<rparr>) = map_sum id (\<lambda>t. t\<lparr>initproc := x1\<rparr>) (release l s)"
  "release l (s\<lparr>pid_counter := x2\<rparr>) = map_sum id (\<lambda>t. t\<lparr>pid_counter := x2\<rparr>) (release l s)"
  "release l (s\<lparr>pid_init_done := x3\<rparr>) = map_sum id (\<lambda>t. t\<lparr>pid_init_done := x3\<rparr>) (release l s)"
  "release l (s\<lparr>kernel_pagetable := x4\<rparr>) = map_sum id (\<lambda>t. t\<lparr>kernel_pagetable := x4\<rparr>) (release l s)"
  "release l (s\<lparr>satp := x5\<rparr>) = map_sum id (\<lambda>t. t\<lparr>satp := x5\<rparr>) (release l s)"
  by (simp_all add: release_unfold)

lemma acquire_ptable_upd [simp]:
  "acquire l (s\<lparr>procs := x0\<rparr>) = map_sum id (\<lambda>t. t\<lparr>procs := x0\<rparr>) (acquire l s)"
  "acquire l (s\<lparr>initproc := x1\<rparr>) = map_sum id (\<lambda>t. t\<lparr>initproc := x1\<rparr>) (acquire l s)"
  "acquire l (s\<lparr>pid_counter := x2\<rparr>) = map_sum id (\<lambda>t. t\<lparr>pid_counter := x2\<rparr>) (acquire l s)"
  "acquire l (s\<lparr>pid_init_done := x3\<rparr>) = map_sum id (\<lambda>t. t\<lparr>pid_init_done := x3\<rparr>) (acquire l s)"
  "acquire l (s\<lparr>kernel_pagetable := x4\<rparr>) = map_sum id (\<lambda>t. t\<lparr>kernel_pagetable := x4\<rparr>) (acquire l s)"
  "acquire l (s\<lparr>satp := x5\<rparr>) = map_sum id (\<lambda>t. t\<lparr>satp := x5\<rparr>) (acquire l s)"
  by (simp_all add: acquire_unfold)

lemma acquired_ptable_upd [simp]:
  "acquired l (s\<lparr>procs := x0\<rparr>) = (acquired l s)\<lparr>procs := x0\<rparr>"
  "acquired l (s\<lparr>initproc := x1\<rparr>) = (acquired l s)\<lparr>initproc := x1\<rparr>"
  "acquired l (s\<lparr>pid_counter := x2\<rparr>) = (acquired l s)\<lparr>pid_counter := x2\<rparr>"
  "acquired l (s\<lparr>pid_init_done := x3\<rparr>) = (acquired l s)\<lparr>pid_init_done := x3\<rparr>"
  "acquired l (s\<lparr>kernel_pagetable := x4\<rparr>) = (acquired l s)\<lparr>kernel_pagetable := x4\<rparr>"
  "acquired l (s\<lparr>satp := x5\<rparr>) = (acquired l s)\<lparr>satp := x5\<rparr>"
  by (simp_all add: acquired_def machine_defs)

lemma crit_ptable_upd [simp]:
  "crit (s\<lparr>procs := x0\<rparr>) = (crit s)\<lparr>procs := x0\<rparr>"
  "crit (s\<lparr>initproc := x1\<rparr>) = (crit s)\<lparr>initproc := x1\<rparr>"
  "crit (s\<lparr>pid_counter := x2\<rparr>) = (crit s)\<lparr>pid_counter := x2\<rparr>"
  "crit (s\<lparr>pid_init_done := x3\<rparr>) = (crit s)\<lparr>pid_init_done := x3\<rparr>"
  "crit (s\<lparr>kernel_pagetable := x4\<rparr>) = (crit s)\<lparr>kernel_pagetable := x4\<rparr>"
  "crit (s\<lparr>satp := x5\<rparr>) = (crit s)\<lparr>satp := x5\<rparr>"
  by (simp_all add: crit_def machine_defs)

lemma lock_free_ptable_upd [simp]:
  "lock_free l (s\<lparr>procs := x0\<rparr>) = lock_free l s"
  "lock_free l (s\<lparr>initproc := x1\<rparr>) = lock_free l s"
  "lock_free l (s\<lparr>pid_counter := x2\<rparr>) = lock_free l s"
  "lock_free l (s\<lparr>pid_init_done := x3\<rparr>) = lock_free l s"
  "lock_free l (s\<lparr>kernel_pagetable := x4\<rparr>) = lock_free l s"
  "lock_free l (s\<lparr>satp := x5\<rparr>) = lock_free l s"
  by (simp_all add: lock_free_def)

lemma cpu_ok_ptable_upd [simp]:
  "cpu_ok (s\<lparr>procs := x0\<rparr>) = cpu_ok s"
  "cpu_ok (s\<lparr>initproc := x1\<rparr>) = cpu_ok s"
  "cpu_ok (s\<lparr>pid_counter := x2\<rparr>) = cpu_ok s"
  "cpu_ok (s\<lparr>pid_init_done := x3\<rparr>) = cpu_ok s"
  "cpu_ok (s\<lparr>kernel_pagetable := x4\<rparr>) = cpu_ok s"
  "cpu_ok (s\<lparr>satp := x5\<rparr>) = cpu_ok s"
  by (simp_all add: cpu_ok_def machine_defs)

lemma mycpu_ptable_upd [simp]:
  "mycpu (s\<lparr>procs := x0\<rparr>) = mycpu s"
  "mycpu (s\<lparr>initproc := x1\<rparr>) = mycpu s"
  "mycpu (s\<lparr>pid_counter := x2\<rparr>) = mycpu s"
  "mycpu (s\<lparr>pid_init_done := x3\<rparr>) = mycpu s"
  "mycpu (s\<lparr>kernel_pagetable := x4\<rparr>) = mycpu s"
  "mycpu (s\<lparr>satp := x5\<rparr>) = mycpu s"
  by (simp_all add: mycpu_def)

lemma kmem_initlock [simp]:
  "mem (initlock l nm s) = mem s" "freelist (initlock l nm s) = freelist s"
  "refcnt (initlock l nm s) = refcnt s" "kend (initlock l nm s) = kend s"
  by (simp_all add: initlock_def)

lemma pop_off_push_off: "cpu_ok s \<Longrightarrow> pop_off (push_off s) = Inr (crit s)"
  by (auto simp: pop_off_def crit_def cpu_ok_def machine_defs fun_upd_idem)

lemma cproc_push_off [simp]: "cproc (mycpu (push_off s)) = cproc (mycpu s)"
  by (simp add: machine_defs)

lemma myproc_eq [flow]: "cpu_ok s \<Longrightarrow> myproc s = Inr (cproc (mycpu s), crit s)"
  by (simp add: myproc_def pop_off_push_off Let_def)

definition roused :: "chan \<Rightarrow> nat option \<Rightarrow> nat set \<Rightarrow> (nat \<Rightarrow> proc) \<Rightarrow> nat \<Rightarrow> proc" where
  "roused ch current I ps = (\<lambda>i. if i \<in> I \<and> Some i \<noteq> current then rouse ch (ps i) else ps i)"

definition procs_free :: "'z machine_scheme \<Rightarrow> bool" where
  "procs_free s \<longleftrightarrow> (\<forall>i < NPROC. lock_free (LProc i) s)"

lemma rouse_idem [simp]: "rouse ch (rouse ch p) = rouse ch p"
  by (simp add: rouse_def)

lemma wakeup_loop_eq:
  assumes "cpu_ok s" "crit s = s" "\<forall>i\<in>set is. Some i \<noteq> current \<longrightarrow> lock_free (LProc i) s"
  shows "wakeup_loop ch current is s = Inr (s\<lparr>procs := roused ch current (set is) (procs s)\<rparr>)"
  using assms
proof (induction "is" arbitrary: s)
  case Nil
  then show ?case by (simp add: roused_def)
next
  case (Cons i "is")
  show ?case
  proof (cases "Some i = current")
    case True
    then have "roused ch current (set (i # is)) (procs s) = roused ch current (set is) (procs s)"
      by (auto simp: roused_def)
    then show ?thesis using Cons True by simp
  next
    case False
    let ?s = "s\<lparr>procs := (procs s)(i := rouse ch (procs s i))\<rparr>"
    have "and_then (acquire (LProc i) s) (\<lambda>s. release (LProc i) (upd_proc i (rouse ch) s)) = Inr ?s"
      using Cons.prems False by (simp add: upd_proc_def flow)
    moreover have "wakeup_loop ch current is ?s =
        Inr (?s\<lparr>procs := roused ch current (set is) (procs ?s)\<rparr>)"
      using Cons.IH [of ?s] Cons.prems by (simp add: fun_upd_def)
    moreover have "roused ch current (set is) (procs ?s) = roused ch current (set (i # is)) (procs s)"
      using False by (auto simp: roused_def)
    ultimately show ?thesis using False by simp
  qed
qed

lemma wakeup_eq [flow]:
  assumes "cpu_ok s" "procs_free s"
  shows "wakeup ch s =
    Inr ((crit s)\<lparr>procs := roused ch (cproc (mycpu s)) {..<NPROC} (procs s)\<rparr>)"
  using assms wakeup_loop_eq [of "crit s" "[0..<NPROC]" "cproc (mycpu s)" ch]
  by (simp add: wakeup_def flow procs_free_def lessThan_atLeast0)

lemma holding_procs_upd [simp]: "holding l (s\<lparr>procs := x\<rparr>) = holding l s"
  by (simp add: holding_def)

lemma sleep_enter_eq:
  assumes "cpu_ok s" "noff (mycpu s) = 0" "lock_free lk s" "lock_free (LProc p) s" "cproc (mycpu s) = Some p"
    and "lk \<noteq> LProc p"
  shows "sleep_enter ch lk (acquired lk s) =
    Inr (upd_proc p (\<lambda>q. q\<lparr>pchan := Some ch, state := SLEEPING\<rparr>) (acquired (LProc p) s))"
proof -
  have "noff (mycpu (acquired (LProc p) s)) = 1" using assms(1,2) by (simp add: acquired_def cpu_ok_def machine_defs)
  then show ?thesis
    using assms by (simp add: sleep_enter_def sched_enter_def flow lock_free_acquired upd_proc_def)
qed

text \<open>A process runs on hart 0 and no lock is taken; used in the witnesses of this and later theories.\<close>

definition demo_proc :: proc where
  "demo_proc = \<lparr>state = RUNNING, pchan = None, pkilled = 0, xstate = 0, pid = 1, parent = None, kstack = 0,
     sz = 4096, pagetable = 0x80201000, trapframe = 0, ctx_ra = 0, ctx_sp = 0, ofile = replicate NOFILE None,
     cwd = None, pname = replicate 16 0\<rparr>"

definition demo_idle :: ptable where
  "demo_idle = \<lparr>hart = 0, sie = (\<lambda>_. True),
     cpus = (\<lambda>_. \<lparr>cproc = Some 0, noff = 0, intena = False\<rparr>),
     locks = (\<lambda>_. \<lparr>locked = 0, lname = [], lcpu = None\<rparr>),
     mem = (\<lambda>_. 0), freelist = 0x87fff000, refcnt = (\<lambda>i. if i = 32767 then 0 else 1), kend = 0x80100000,
     procs = (\<lambda>_. demo_proc), initproc = None, pid_counter = 2, pid_init_done = True,
     kernel_pagetable = 0, satp = (\<lambda>_. 0)\<rparr>"

lemma demo_idle_quiet [simp]:
  "cpu_ok demo_idle" "noff (mycpu demo_idle) = 0" "lock_free l demo_idle" "cproc (mycpu demo_idle) = Some 0"
  "procs_free demo_idle"
  by (simp_all add: demo_idle_def cpu_ok_def lock_free_def procs_free_def machine_defs)

text \<open>
  C6: a process that goes to sleep on \<open>ch\<close> holding only the lock \<open>lk\<close> reaches the switch to the scheduler
  in state \<open>SLEEPING\<close>, with \<open>lk\<close> given back and its own lock held, so that a waker cannot look at it
  before; and any later \<open>wakeup\<close> on \<open>ch\<close> by another process makes it runnable.
\<close>

theorem sleep_then_wakeup:
  assumes "cpu_ok s" "noff (mycpu s) = 0" "lock_free lk s" "lock_free (LProc p) s" "cproc (mycpu s) = Some p"
    and "lk \<noteq> LProc p" "p < NPROC"
  shows "\<exists>t. sleep_enter ch lk (acquired lk s) = Inr t \<and>
    state (procs t p) = SLEEPING \<and> pchan (procs t p) = Some ch \<and> lock_free lk t \<and> holding (LProc p) t \<and>
    (\<forall>u. cpu_ok u \<and> procs_free u \<and> procs u p = procs t p \<and> cproc (mycpu u) \<noteq> Some p \<longrightarrow>
       (\<exists>v. wakeup ch u = Inr v \<and> state (procs v p) = RUNNABLE))"
proof (intro exI conjI allI impI)
  let ?t = "upd_proc p (\<lambda>q. q\<lparr>pchan := Some ch, state := SLEEPING\<rparr>) (acquired (LProc p) s)"
  show "sleep_enter ch lk (acquired lk s) = Inr ?t" by (rule sleep_enter_eq [OF assms(1-6)])
  show "state (procs ?t p) = SLEEPING" "pchan (procs ?t p) = Some ch" by (simp_all add: upd_proc_def)
  show "lock_free lk ?t" "holding (LProc p) ?t"
    using assms(3,6) by (simp_all add: upd_proc_def lock_free_acquired)
  fix u assume u: "cpu_ok u \<and> procs_free u \<and> procs u p = procs ?t p \<and> cproc (mycpu u) \<noteq> Some p"
  then show "wakeup ch u = Inr ((crit u)\<lparr>procs := roused ch (cproc (mycpu u)) {..<NPROC} (procs u)\<rparr>)"
    by (simp add: wakeup_eq)
  show "state (procs ((crit u)\<lparr>procs := roused ch (cproc (mycpu u)) {..<NPROC} (procs u)\<rparr>) p) = RUNNABLE"
    using u assms(7) by (auto simp: roused_def rouse_def upd_proc_def)
qed

theorem sleep_then_wakeup_witness:
  "\<exists>t. sleep_enter ChTicks LTicks (acquired LTicks demo_idle) = Inr t \<and> state (procs t 0) = SLEEPING"
  using sleep_then_wakeup [of demo_idle LTicks 0 ChTicks] by auto

end
