(* ===== verification/Sleeplock.thy ===== *)
theory Sleeplock
  imports Proctab
begin

section \<open>Sleep locks (kernel/rust\_sleeplock.rs)\<close>

text \<open>
  A sleep lock is a flag and an owner pid, guarded by a spin lock; a process that finds the flag
  set sleeps on the lock's address.  Buffers and inodes have one each.
\<close>

datatype sleepid = SBuf nat | SInode nat

primrec inner :: "sleepid \<Rightarrow> lockid" where
  "inner (SBuf i) = LBuf i"
| "inner (SInode i) = LInode i"

primrec sl_chan :: "sleepid \<Rightarrow> chan" where
  "sl_chan (SBuf i) = ChBuf i"
| "sl_chan (SInode i) = ChInode i"

record sleeplock =
  sl_locked :: u32
  sl_name :: string
  sl_pid :: u32

record sltable = ptable +
  slocks :: "sleepid \<Rightarrow> sleeplock"

definition upd_sl :: "sleepid \<Rightarrow> (sleeplock \<Rightarrow> sleeplock) \<Rightarrow> 'z sltable_scheme \<Rightarrow> 'z sltable_scheme" where
  "upd_sl l f s = s\<lparr>slocks := (slocks s)(l := f (slocks s l))\<rparr>"

definition current_pid :: "'z ptable_scheme \<Rightarrow> (u32 \<times> 'z ptable_scheme) kres" where
  "current_pid s = and_then (myproc s) (\<lambda>(p, s).
     Inr (case p of None \<Rightarrow> 0 | Some i \<Rightarrow> pid (procs s i), s))"

definition initsleeplock :: "sleepid \<Rightarrow> string \<Rightarrow> 'z sltable_scheme \<Rightarrow> 'z sltable_scheme" where
  "initsleeplock l nm s =
     upd_sl l (\<lambda>_. \<lparr>sl_locked = 0, sl_name = nm, sl_pid = 0\<rparr>) (initlock (inner l) ''sleep lock'' s)"

definition acquiresleep :: "sleepid \<Rightarrow> 'z sltable_scheme \<Rightarrow> 'z sltable_scheme kres" where
  "acquiresleep l s = and_then (acquire (inner l) s) (\<lambda>s.
     if sl_locked (slocks s l) \<noteq> 0 then sleep (sl_chan l) (inner l) s
     else
       let s = upd_sl l (sl_locked_update (\<lambda>_. 1)) s in
       and_then (current_pid s) (\<lambda>(p, s).
       release (inner l) (upd_sl l (sl_pid_update (\<lambda>_. p)) s)))"

definition releasesleep :: "sleepid \<Rightarrow> 'z sltable_scheme \<Rightarrow> 'z sltable_scheme kres" where
  "releasesleep l s = and_then (acquire (inner l) s) (\<lambda>s.
     let s = upd_sl l (\<lambda>k. k\<lparr>sl_locked := 0, sl_pid := 0\<rparr>) s in
     and_then (wakeup (sl_chan l) s) (\<lambda>s. release (inner l) s))"

definition holdingsleep :: "sleepid \<Rightarrow> 'z sltable_scheme \<Rightarrow> (bool \<times> 'z sltable_scheme) kres" where
  "holdingsleep l s = and_then (acquire (inner l) s) (\<lambda>s.
     and_then (if sl_locked (slocks s l) \<noteq> 0
               then and_then (current_pid s) (\<lambda>(p, s). Inr (sl_pid (slocks s l) = p, s))
               else Inr (False, s)) (\<lambda>(r, s).
     and_then (release (inner l) s) (\<lambda>s. Inr (r, s))))"

lemma sltable_acquired [simp]:
  "slocks (acquired l s) = slocks s"
  by (simp_all add: acquired_def machine_defs)

lemma sltable_crit [simp]:
  "slocks (crit s) = slocks s"
  by (simp_all add: crit_def machine_defs)

lemma sltable_initlock [simp]:
  "slocks (initlock l nm s) = slocks s"
  by (simp_all add: initlock_def)

lemma release_sltable_upd [simp]:
  "release l (s\<lparr>slocks := x0\<rparr>) = map_sum id (\<lambda>t. t\<lparr>slocks := x0\<rparr>) (release l s)"
  by (simp_all add: release_unfold)

lemma acquire_sltable_upd [simp]:
  "acquire l (s\<lparr>slocks := x0\<rparr>) = map_sum id (\<lambda>t. t\<lparr>slocks := x0\<rparr>) (acquire l s)"
  by (simp_all add: acquire_unfold)

lemma acquired_sltable_upd [simp]:
  "acquired l (s\<lparr>slocks := x0\<rparr>) = (acquired l s)\<lparr>slocks := x0\<rparr>"
  by (simp_all add: acquired_def machine_defs)

lemma crit_sltable_upd [simp]:
  "crit (s\<lparr>slocks := x0\<rparr>) = (crit s)\<lparr>slocks := x0\<rparr>"
  by (simp_all add: crit_def machine_defs)

lemma lock_free_sltable_upd [simp]:
  "lock_free l (s\<lparr>slocks := x0\<rparr>) = lock_free l s"
  by (simp_all add: lock_free_def)

lemma cpu_ok_sltable_upd [simp]:
  "cpu_ok (s\<lparr>slocks := x0\<rparr>) = cpu_ok s"
  by (simp_all add: cpu_ok_def machine_defs)

lemma mycpu_sltable_upd [simp]:
  "mycpu (s\<lparr>slocks := x0\<rparr>) = mycpu s"
  by (simp_all add: mycpu_def)

subsection \<open>Uncontended operation\<close>

definition my_pid :: "'z ptable_scheme \<Rightarrow> u32" where
  "my_pid s = (case cproc (mycpu s) of None \<Rightarrow> 0 | Some i \<Rightarrow> pid (procs s i))"

lemma inner_not_proc [simp]: "inner l \<noteq> LProc i" "LProc i \<noteq> inner l"
  by (cases l; simp)+

lemma inner_inj [simp]: "inner l = inner l' \<longleftrightarrow> l = l'"
  by (cases l; cases l') simp_all

lemma sl_chan_inj [simp]: "sl_chan l = sl_chan l' \<longleftrightarrow> l = l'"
  by (cases l; cases l') simp_all

lemma current_pid_eq [flow]: "cpu_ok s \<Longrightarrow> current_pid s = Inr (my_pid s, crit s)"
  by (simp add: current_pid_def flow my_pid_def split: option.split)

lemma my_pid_simps [simp]:
  "my_pid (acquired l s) = my_pid s" "my_pid (crit s) = my_pid s"
  "my_pid (s\<lparr>slocks := x\<rparr>) = my_pid s"
  by (simp_all add: my_pid_def split: option.split)

lemma procs_free_acquired [simp]:
  "(\<And>i. LProc i \<noteq> l) \<Longrightarrow> procs_free (acquired l s) = procs_free s"
  by (simp add: procs_free_def lock_free_acquired)

lemma procs_free_simps [simp]:
  "procs_free (crit s) = procs_free s"
  by (simp add: procs_free_def)

lemma procs_free_slocks [simp]: "procs_free (s\<lparr>slocks := x\<rparr>) = procs_free s"
  by (simp add: procs_free_def)

lemma acquiresleep_free [flow]:
  assumes "cpu_ok s" "lock_free (inner l) s" "sl_locked (slocks s l) = 0"
  shows "acquiresleep l s = Inr ((crit s)\<lparr>slocks := (slocks s)(l :=
    (slocks s l)\<lparr>sl_locked := 1, sl_pid := my_pid s\<rparr>)\<rparr>)"
  using assms by (simp add: acquiresleep_def flow upd_sl_def Let_def)

lemma acquiresleep_taken:
  assumes "cpu_ok s" "lock_free (inner l) s" "sl_locked (slocks s l) \<noteq> 0"
  shows "\<exists>e. acquiresleep l s = Inl e"
  using assms by (auto simp: acquiresleep_def flow sleep_def and_then_def split: sum.splits)

lemma releasesleep_eq [flow]:
  assumes "cpu_ok s" "lock_free (inner l) s" "procs_free s"
  shows "releasesleep l s = Inr ((crit s)\<lparr>procs := roused (sl_chan l) (cproc (mycpu s)) {..<NPROC} (procs s),
    slocks := (slocks s)(l := (slocks s l)\<lparr>sl_locked := 0, sl_pid := 0\<rparr>)\<rparr>)"
  using assms by (simp add: releasesleep_def flow upd_sl_def Let_def)

lemma holdingsleep_eq [flow]:
  assumes "cpu_ok s" "lock_free (inner l) s"
  shows "holdingsleep l s =
    Inr (sl_locked (slocks s l) \<noteq> 0 \<and> sl_pid (slocks s l) = my_pid s, crit s)"
  using assms by (simp add: holdingsleep_def flow)

end
