(* ===== verification/Bio.thy ===== *)
theory Bio
  imports Sleeplock
begin

section \<open>The buffer cache (kernel/rust\_bio.rs)\<close>

text \<open>
  Thirty buffers on a circular doubly linked list through \<open>BCACHE.head\<close>, most recently used
  first.  A \<open>*mut Buf\<close> is an index: \<open>0..29\<close> for \<open>BCACHE.buf\<close>, \<open>HEAD\<close> for the list
  head.  The two list walks of \<open>bget\<close> take fuel \<open>NBUF + 1\<close>: a walk that visits more nodes
  than there are never meets the head, and \<open>Diverges\<close>.

  \<open>disk_rw\<close> is what the buffer cache relies on from \<open>virtio_disk_rw\<close>: under the disk lock it
  moves one block between the buffer and the device.  \<open>history\<close> lists the writes the device has
  performed, in order; no code reads it.
\<close>

abbreviation NBUF :: nat where "NBUF \<equiv> 30"
abbreviation HEAD :: nat where "HEAD \<equiv> 30"
abbreviation BSIZE :: nat where "BSIZE \<equiv> 1024"
abbreviation ROOTDEV :: u32 where "ROOTDEV \<equiv> 1"

record buf =
  valid :: bool
  dev :: u32
  blockno :: u32
  brefcnt :: u32
  prev :: nat
  nxt :: nat
  data :: "u8 list"

record bcache = sltable +
  bufs :: "nat \<Rightarrow> buf"
  disk :: "u32 \<Rightarrow> u8 list"
  history :: "(u32 \<times> u8 list) list"

definition upd_buf :: "nat \<Rightarrow> (buf \<Rightarrow> buf) \<Rightarrow> 'z bcache_scheme \<Rightarrow> 'z bcache_scheme" where
  "upd_buf b f s = s\<lparr>bufs := (bufs s)(b := f (bufs s b))\<rparr>"

definition disk_rw :: "nat \<Rightarrow> bool \<Rightarrow> 'z bcache_scheme \<Rightarrow> 'z bcache_scheme kres" where
  "disk_rw b write s = and_then (acquire LDisk s) (\<lambda>s.
     release LDisk
       (if write
        then s\<lparr>disk := (disk s)(blockno (bufs s b) := data (bufs s b)),
               history := history s @ [(blockno (bufs s b), data (bufs s b))]\<rparr>
        else upd_buf b (data_update (\<lambda>_. disk s (blockno (bufs s b)))) s))"

subsection \<open>Operations\<close>

fun scan :: "nat \<Rightarrow> (nat \<Rightarrow> nat) \<Rightarrow> (nat \<Rightarrow> bool) \<Rightarrow> nat \<Rightarrow> nat option kres" where
  "scan 0 follow P b = Inl Diverges"
| "scan (Suc fuel) follow P b =
     (if b = HEAD then Inr None
      else if P b then Inr (Some b)
      else scan fuel follow P (follow b))"

definition bget :: "u32 \<Rightarrow> u32 \<Rightarrow> 'z bcache_scheme \<Rightarrow> (nat \<times> 'z bcache_scheme) kres" where
  "bget d bn s = and_then (acquire LBcache s) (\<lambda>s.
     and_then (scan (Suc NBUF) (\<lambda>b. nxt (bufs s b))
                 (\<lambda>b. dev (bufs s b) = d \<and> blockno (bufs s b) = bn) (nxt (bufs s HEAD))) (\<lambda>found.
     case found of
       Some b \<Rightarrow>
         and_then (release LBcache (upd_buf b (\<lambda>k. k\<lparr>brefcnt := brefcnt k + 1\<rparr>) s)) (\<lambda>s.
         and_then (acquiresleep (SBuf b) s) (\<lambda>s. Inr (b, s)))
     | None \<Rightarrow>
         and_then (scan (Suc NBUF) (\<lambda>b. prev (bufs s b)) (\<lambda>b. brefcnt (bufs s b) = 0)
                     (prev (bufs s HEAD))) (\<lambda>found.
         case found of
           Some b \<Rightarrow>
             and_then (release LBcache (upd_buf b (\<lambda>k. k\<lparr>dev := d, blockno := bn, valid := False,
                                                         brefcnt := 1\<rparr>) s)) (\<lambda>s.
             and_then (acquiresleep (SBuf b) s) (\<lambda>s. Inr (b, s)))
         | None \<Rightarrow> Inl (Panic ''bget: no buffers''))))"

primrec binit_loop :: "nat list \<Rightarrow> 'z bcache_scheme \<Rightarrow> 'z bcache_scheme" where
  "binit_loop [] s = s"
| "binit_loop (b # bs) s =
     (let s = upd_buf b (nxt_update (\<lambda>_. nxt (bufs s HEAD))) s;
          s = upd_buf b (prev_update (\<lambda>_. HEAD)) s;
          s = initsleeplock (SBuf b) ''buffer'' s;
          s = upd_buf (nxt (bufs s HEAD)) (prev_update (\<lambda>_. b)) s;
          s = upd_buf HEAD (nxt_update (\<lambda>_. b)) s
      in binit_loop bs s)"

definition binit :: "'z bcache_scheme \<Rightarrow> 'z bcache_scheme" where
  "binit s =
     (let s = initlock LBcache ''bcache'' s;
          s = upd_buf HEAD (prev_update (\<lambda>_. HEAD)) s;
          s = upd_buf HEAD (nxt_update (\<lambda>_. HEAD)) s
      in binit_loop [0..<NBUF] s)"

definition bread :: "u32 \<Rightarrow> u32 \<Rightarrow> 'z bcache_scheme \<Rightarrow> (nat \<times> 'z bcache_scheme) kres" where
  "bread d bn s = and_then (bget d bn s) (\<lambda>(b, s).
     if \<not> valid (bufs s b)
     then and_then (disk_rw b False s) (\<lambda>s. Inr (b, upd_buf b (valid_update (\<lambda>_. True)) s))
     else Inr (b, s))"

definition bwrite :: "nat \<Rightarrow> 'z bcache_scheme \<Rightarrow> 'z bcache_scheme kres" where
  "bwrite b s = and_then (holdingsleep (SBuf b) s) (\<lambda>(h, s).
     if \<not> h then Inl (Panic ''bwrite'') else disk_rw b True s)"

definition move_to_front :: "nat \<Rightarrow> 'z bcache_scheme \<Rightarrow> 'z bcache_scheme" where
  "move_to_front b s =
     (let s = upd_buf (nxt (bufs s b)) (prev_update (\<lambda>_. prev (bufs s b))) s;
          s = upd_buf (prev (bufs s b)) (nxt_update (\<lambda>_. nxt (bufs s b))) s;
          s = upd_buf b (nxt_update (\<lambda>_. nxt (bufs s HEAD))) s;
          s = upd_buf b (prev_update (\<lambda>_. HEAD)) s;
          s = upd_buf (nxt (bufs s HEAD)) (prev_update (\<lambda>_. b)) s
      in upd_buf HEAD (nxt_update (\<lambda>_. b)) s)"

definition brelse :: "nat \<Rightarrow> 'z bcache_scheme \<Rightarrow> 'z bcache_scheme kres" where
  "brelse b s = and_then (holdingsleep (SBuf b) s) (\<lambda>(h, s).
     if \<not> h then Inl (Panic ''brelse'')
     else
       and_then (releasesleep (SBuf b) s) (\<lambda>s.
       and_then (acquire LBcache s) (\<lambda>s.
       let s = upd_buf b (\<lambda>k. k\<lparr>brefcnt := brefcnt k - 1\<rparr>) s;
           s = (if brefcnt (bufs s b) = 0 then move_to_front b s else s)
       in release LBcache s)))"

definition bpin :: "nat \<Rightarrow> 'z bcache_scheme \<Rightarrow> 'z bcache_scheme kres" where
  "bpin b s = and_then (acquire LBcache s) (\<lambda>s.
     release LBcache (upd_buf b (\<lambda>k. k\<lparr>brefcnt := brefcnt k + 1\<rparr>) s))"

definition bunpin :: "nat \<Rightarrow> 'z bcache_scheme \<Rightarrow> 'z bcache_scheme kres" where
  "bunpin b s = and_then (acquire LBcache s) (\<lambda>s.
     release LBcache (upd_buf b (\<lambda>k. k\<lparr>brefcnt := brefcnt k - 1\<rparr>) s))"

subsection \<open>Lock operations leave the cache alone\<close>

lemma bcache_acquired [simp]:
  "bufs (acquired l s) = bufs s"
  "disk (acquired l s) = disk s"
  "history (acquired l s) = history s"
  by (simp_all add: acquired_def machine_defs)

lemma bcache_crit [simp]:
  "bufs (crit s) = bufs s"
  "disk (crit s) = disk s"
  "history (crit s) = history s"
  by (simp_all add: crit_def machine_defs)

lemma bcache_initlock [simp]:
  "bufs (initlock l nm s) = bufs s"
  "disk (initlock l nm s) = disk s"
  "history (initlock l nm s) = history s"
  by (simp_all add: initlock_def)

lemma release_bcache_upd [simp]:
  "release l (s\<lparr>bufs := x0\<rparr>) = map_sum id (\<lambda>t. t\<lparr>bufs := x0\<rparr>) (release l s)"
  "release l (s\<lparr>disk := x1\<rparr>) = map_sum id (\<lambda>t. t\<lparr>disk := x1\<rparr>) (release l s)"
  "release l (s\<lparr>history := x2\<rparr>) = map_sum id (\<lambda>t. t\<lparr>history := x2\<rparr>) (release l s)"
  by (simp_all add: release_unfold)

lemma acquire_bcache_upd [simp]:
  "acquire l (s\<lparr>bufs := x0\<rparr>) = map_sum id (\<lambda>t. t\<lparr>bufs := x0\<rparr>) (acquire l s)"
  "acquire l (s\<lparr>disk := x1\<rparr>) = map_sum id (\<lambda>t. t\<lparr>disk := x1\<rparr>) (acquire l s)"
  "acquire l (s\<lparr>history := x2\<rparr>) = map_sum id (\<lambda>t. t\<lparr>history := x2\<rparr>) (acquire l s)"
  by (simp_all add: acquire_unfold)

lemma acquired_bcache_upd [simp]:
  "acquired l (s\<lparr>bufs := x0\<rparr>) = (acquired l s)\<lparr>bufs := x0\<rparr>"
  "acquired l (s\<lparr>disk := x1\<rparr>) = (acquired l s)\<lparr>disk := x1\<rparr>"
  "acquired l (s\<lparr>history := x2\<rparr>) = (acquired l s)\<lparr>history := x2\<rparr>"
  by (simp_all add: acquired_def machine_defs)

lemma crit_bcache_upd [simp]:
  "crit (s\<lparr>bufs := x0\<rparr>) = (crit s)\<lparr>bufs := x0\<rparr>"
  "crit (s\<lparr>disk := x1\<rparr>) = (crit s)\<lparr>disk := x1\<rparr>"
  "crit (s\<lparr>history := x2\<rparr>) = (crit s)\<lparr>history := x2\<rparr>"
  by (simp_all add: crit_def machine_defs)

lemma lock_free_bcache_upd [simp]:
  "lock_free l (s\<lparr>bufs := x0\<rparr>) = lock_free l s"
  "lock_free l (s\<lparr>disk := x1\<rparr>) = lock_free l s"
  "lock_free l (s\<lparr>history := x2\<rparr>) = lock_free l s"
  by (simp_all add: lock_free_def)

lemma cpu_ok_bcache_upd [simp]:
  "cpu_ok (s\<lparr>bufs := x0\<rparr>) = cpu_ok s"
  "cpu_ok (s\<lparr>disk := x1\<rparr>) = cpu_ok s"
  "cpu_ok (s\<lparr>history := x2\<rparr>) = cpu_ok s"
  by (simp_all add: cpu_ok_def machine_defs)

lemma mycpu_bcache_upd [simp]:
  "mycpu (s\<lparr>bufs := x0\<rparr>) = mycpu s"
  "mycpu (s\<lparr>disk := x1\<rparr>) = mycpu s"
  "mycpu (s\<lparr>history := x2\<rparr>) = mycpu s"
  by (simp_all add: mycpu_def)

subsection \<open>Doubly linked lists\<close>

text \<open>\<open>dll f g xs\<close>: along \<open>xs\<close> each node's \<open>f\<close> is the next and each node's \<open>g\<close> the previous one.\<close>

fun dll :: "(nat \<Rightarrow> nat) \<Rightarrow> (nat \<Rightarrow> nat) \<Rightarrow> nat list \<Rightarrow> bool" where
  "dll f g (x # y # xs) \<longleftrightarrow> f x = y \<and> g y = x \<and> dll f g (y # xs)"
| "dll f g xs \<longleftrightarrow> True"

lemma dll_Cons: "ys \<noteq> [] \<Longrightarrow> dll f g (x # ys) \<longleftrightarrow> f x = hd ys \<and> g (hd ys) = x \<and> dll f g ys"
  by (cases ys) auto

lemma dll_append:
  "xs \<noteq> [] \<Longrightarrow> ys \<noteq> [] \<Longrightarrow> dll f g (xs @ ys) \<longleftrightarrow>
     dll f g xs \<and> dll f g ys \<and> f (last xs) = hd ys \<and> g (hd ys) = last xs"
  by (induction xs) (auto simp: dll_Cons)

lemma dll_cong:
  "(\<And>x. x \<in> set (butlast xs) \<Longrightarrow> f x = f' x) \<Longrightarrow> (\<And>x. x \<in> set (tl xs) \<Longrightarrow> g x = g' x) \<Longrightarrow>
     dll f g xs = dll f' g' xs"
proof (induction xs)
  case (Cons x xs)
  show ?case
  proof (cases "xs = []")
    case False
    then have "hd xs \<in> set xs" by simp
    moreover have "dll f g xs = dll f' g' xs"
      using Cons False by (intro Cons.IH) (auto intro: list.set_sel(2))
    ultimately show ?thesis using Cons.prems False by (simp add: dll_Cons)
  qed simp
qed simp

lemma dll_rev: "dll f g xs \<Longrightarrow> dll g f (rev xs)"
proof (induction xs)
  case (Cons x xs)
  then show ?case by (cases "xs = []") (simp_all add: dll_append dll_Cons last_rev)
qed simp

lemma scan_dll:
  assumes "dll f g (a # xs @ [HEAD])" "HEAD \<notin> set xs" "length xs < fuel"
  shows "scan fuel f P (f a) = Inr (find P xs)"
  using assms
proof (induction xs arbitrary: a fuel)
  case Nil
  then show ?case by (cases fuel) auto
next
  case (Cons x xs)
  then show ?case by (cases fuel) auto
qed

lemma scan_dll_rev:
  assumes "dll f g (HEAD # xs @ [a])" "HEAD \<notin> set xs" "length xs < fuel"
  shows "scan fuel g P (g a) = Inr (find P (rev xs))"
  using scan_dll [of g f a "rev xs" fuel P] dll_rev [OF assms(1)] assms(2,3) by simp

lemma dll_unlink:
  assumes "dll f g (us @ b # vs)" "us \<noteq> []" "vs \<noteq> []" "distinct (us @ b # butlast vs)"
    "distinct (tl us @ b # vs)"
  shows "dll (f(last us := hd vs)) (g(hd vs := last us)) (us @ vs)"
proof -
  have d: "dll f g us" "dll f g vs"
    using assms(1-3) by (auto simp: dll_append dll_Cons)
  have n: "x \<noteq> last us" if "x \<in> set (butlast us) \<or> x \<in> set (butlast vs)" for x
    using that assms(2,4) by (cases us rule: rev_cases) auto
  have p: "x \<noteq> hd vs" if "x \<in> set (tl us) \<or> x \<in> set (tl vs)" for x
    using assms(3,5) that by (cases vs) auto
  have "dll (f(last us := hd vs)) (g(hd vs := last us)) us = dll f g us"
    by (rule dll_cong) (use n p in auto)
  moreover have "dll (f(last us := hd vs)) (g(hd vs := last us)) vs = dll f g vs"
    by (rule dll_cong) (use n p in auto)
  ultimately show ?thesis using d assms(2,3) by (simp add: dll_append)
qed

lemma dll_push:
  assumes "dll f g (h # vs)" "vs \<noteq> []" "b \<noteq> h" "b \<notin> set vs" "distinct vs" "h \<notin> set (butlast vs)"
  shows "dll (f(b := hd vs, h := b)) (g(b := h, hd vs := b)) (h # b # vs)"
proof -
  have d: "dll f g vs" "f h = hd vs" using assms(1,2) by (auto simp: dll_Cons)
  have "b \<noteq> hd vs" using assms(2,4) by (cases vs) auto
  have "dll (f(b := hd vs, h := b)) (g(b := h, hd vs := b)) vs = dll f g vs"
  proof (rule dll_cong)
    show "(f(b := hd vs, h := b)) x = f x" if "x \<in> set (butlast vs)" for x
      using that assms(4,6) by (auto dest: in_set_butlastD)
    show "(g(b := h, hd vs := b)) x = g x" if "x \<in> set (tl vs)" for x
      using that assms(4,5) by (cases vs) auto
  qed
  then show ?thesis using d assms(2,3) \<open>b \<noteq> hd vs\<close> by (simp add: dll_Cons)
qed

subsection \<open>The invariant of the cache\<close>

text \<open>
  \<open>H\<close> is the set of buffers the running process holds.  The list links all buffers; no two
  buffers hold the same block; a buffer that nobody references and that holds a block agrees with
  the disk, so recycling it loses nothing.
\<close>

definition lru :: "nat list \<Rightarrow> (nat \<Rightarrow> buf) \<Rightarrow> bool" where
  "lru xs bf \<longleftrightarrow> dll (\<lambda>b. nxt (bf b)) (\<lambda>b. prev (bf b)) (HEAD # xs @ [HEAD]) \<and> distinct xs \<and>
     set xs = {..<NBUF}"

definition keys_ok :: "(nat \<Rightarrow> buf) \<Rightarrow> bool" where
  "keys_ok bf \<longleftrightarrow> (\<forall>i < NBUF. \<forall>j < NBUF. dev (bf i) \<noteq> 0 \<longrightarrow> dev (bf i) = dev (bf j) \<longrightarrow>
     blockno (bf i) = blockno (bf j) \<longrightarrow> i = j)"

definition bc_locks :: "nat set \<Rightarrow> 'z bcache_scheme \<Rightarrow> bool" where
  "bc_locks H s \<longleftrightarrow> cpu_ok s \<and> procs_free s \<and> lock_free LBcache s \<and> lock_free LDisk s \<and>
     (\<forall>i < NBUF. lock_free (LBuf i) s) \<and> H \<subseteq> {..<NBUF} \<and>
     (\<forall>i < NBUF. sl_locked (slocks s (SBuf i)) \<noteq> 0 \<longleftrightarrow> i \<in> H) \<and>
     (\<forall>i \<in> H. sl_pid (slocks s (SBuf i)) = my_pid s)"

definition bc_data :: "nat set \<Rightarrow> 'z bcache_scheme \<Rightarrow> bool" where
  "bc_data H s \<longleftrightarrow> keys_ok (bufs s) \<and> (\<forall>bn. length (disk s bn) = BSIZE) \<and>
     (\<forall>i < NBUF. valid (bufs s i) \<longrightarrow> dev (bufs s i) = ROOTDEV \<and> length (data (bufs s i)) = BSIZE) \<and>
     (\<forall>i \<in> H. brefcnt (bufs s i) \<noteq> 0 \<and> valid (bufs s i)) \<and>
     (\<forall>i < NBUF. valid (bufs s i) \<longrightarrow> brefcnt (bufs s i) = 0 \<longrightarrow>
        data (bufs s i) = disk s (blockno (bufs s i)))"

definition bc_inv :: "nat set \<Rightarrow> 'z bcache_scheme \<Rightarrow> bool" where
  "bc_inv H s \<longleftrightarrow> bc_locks H s \<and> bc_data H s \<and> (\<exists>xs. lru xs (bufs s))"

text \<open>What a reader of block \<open>bn\<close> sees: the cached copy, or else the disk.\<close>

definition cached :: "u32 \<Rightarrow> u32 \<Rightarrow> 'z bcache_scheme \<Rightarrow> nat option" where
  "cached d bn s = find (\<lambda>i. dev (bufs s i) = d \<and> blockno (bufs s i) = bn) [0..<NBUF]"

definition view :: "u32 \<Rightarrow> u32 \<Rightarrow> 'z bcache_scheme \<Rightarrow> u8 list" where
  "view d bn s = (case cached d bn s of
     Some i \<Rightarrow> if valid (bufs s i) then data (bufs s i) else disk s bn | None \<Rightarrow> disk s bn)"

lemma find_unique:
  assumes "i \<in> set xs" "P i" "\<And>j. j \<in> set xs \<Longrightarrow> P j \<Longrightarrow> j = i"
  shows "find P xs = Some i"
  using assms
proof (induction xs)
  case (Cons x xs)
  show ?case
  proof (cases "P x")
    case True
    then have "x = i" using Cons.prems(3) by simp
    with True show ?thesis by simp
  next
    case False
    then have "i \<in> set xs" using Cons.prems(1,2) by auto
    then have "find P xs = Some i"
      by (rule Cons.IH [OF _ Cons.prems(2)]) (rule Cons.prems(3); simp)
    with False show ?thesis by simp
  qed
qed simp

lemma find_SomeD: "find P xs = Some x \<Longrightarrow> x \<in> set xs \<and> P x"
  by (induction xs) (auto split: if_splits)

lemma find_NoneI: "(\<And>j. j \<in> set xs \<Longrightarrow> \<not> P j) \<Longrightarrow> find P xs = None"
  by (simp add: find_None_iff)

lemma keys_okD:
  "keys_ok bf \<Longrightarrow> i < NBUF \<Longrightarrow> j < NBUF \<Longrightarrow> dev (bf i) = d \<Longrightarrow> dev (bf j) = d \<Longrightarrow> d \<noteq> 0 \<Longrightarrow>
     blockno (bf i) = bn \<Longrightarrow> blockno (bf j) = bn \<Longrightarrow> i = j"
  using keys_ok_def [THEN iffD1, rule_format, of bf i j] by simp

lemma cached_Some:
  assumes "keys_ok (bufs s)" "d \<noteq> 0"
  shows "cached d bn s = Some i \<longleftrightarrow> i < NBUF \<and> dev (bufs s i) = d \<and> blockno (bufs s i) = bn"
proof
  assume "cached d bn s = Some i"
  then obtain k where "k < length [0..<NBUF]" "dev (bufs s ([0..<NBUF] ! k)) = d \<and>
      blockno (bufs s ([0..<NBUF] ! k)) = bn" "i = [0..<NBUF] ! k"
    unfolding cached_def find_Some_iff by blast
  then show "i < NBUF \<and> dev (bufs s i) = d \<and> blockno (bufs s i) = bn" by auto
next
  assume "i < NBUF \<and> dev (bufs s i) = d \<and> blockno (bufs s i) = bn"
  then show "cached d bn s = Some i"
    unfolding cached_def using keys_okD [OF assms(1)] assms(2) by (intro find_unique) auto
qed

lemma find_lru:
  assumes "set xs = {..<NBUF}" "keys_ok (bufs s)" "d \<noteq> 0"
  shows "find (\<lambda>i. dev (bufs s i) = d \<and> blockno (bufs s i) = bn) xs = cached d bn s"
proof (cases "cached d bn s")
  case None
  then have "\<not> (dev (bufs s j) = d \<and> blockno (bufs s j) = bn)" if "j < NBUF" for j
    using that cached_Some [OF assms(2,3), of bn j] by auto
  then show ?thesis using None assms(1) by (auto intro!: find_NoneI)
next
  case (Some i)
  then have "i < NBUF \<and> dev (bufs s i) = d \<and> blockno (bufs s i) = bn"
    using cached_Some [OF assms(2,3)] by blast
  then show ?thesis
    using Some assms keys_okD [OF assms(2)] by (subst Some, intro find_unique) auto
qed

lemma lru_scan:
  assumes "lru xs bf"
  shows "scan (Suc NBUF) (\<lambda>b. nxt (bf b)) P (nxt (bf HEAD)) = Inr (find P xs)"
    and "scan (Suc NBUF) (\<lambda>b. prev (bf b)) P (prev (bf HEAD)) = Inr (find P (rev xs))"
proof -
  have xs: "dll (\<lambda>b. nxt (bf b)) (\<lambda>b. prev (bf b)) (HEAD # xs @ [HEAD])" "HEAD \<notin> set xs"
      "length xs < Suc NBUF"
    using assms distinct_card [of xs] by (auto simp: lru_def)
  show "scan (Suc NBUF) (\<lambda>b. nxt (bf b)) P (nxt (bf HEAD)) = Inr (find P xs)"
    using scan_dll [OF xs] .
  show "scan (Suc NBUF) (\<lambda>b. prev (bf b)) P (prev (bf HEAD)) = Inr (find P (rev xs))"
    using scan_dll_rev [OF xs] .
qed

subsection \<open>Reading a block\<close>

definition hold :: "nat \<Rightarrow> 'z bcache_scheme \<Rightarrow> sleeplock" where
  "hold b s = (slocks s (SBuf b))\<lparr>sl_locked := 1, sl_pid := my_pid s\<rparr>"

lemma my_pid_bcache [simp]:
  "my_pid (s\<lparr>bufs := x\<rparr>) = my_pid s" "my_pid (s\<lparr>disk := y\<rparr>) = my_pid s"
  "my_pid (s\<lparr>history := z\<rparr>) = my_pid s"
  by (simp_all add: my_pid_def split: option.split)

lemma procs_free_bcache [simp]:
  "procs_free (s\<lparr>bufs := x\<rparr>) = procs_free s" "procs_free (s\<lparr>disk := y\<rparr>) = procs_free s"
  "procs_free (s\<lparr>history := z\<rparr>) = procs_free s"
  by (simp_all add: procs_free_def)

lemma cached_crit [simp]: "cached d bn (crit s) = cached d bn s" "cached d bn (acquired l s) = cached d bn s"
  by (simp_all add: cached_def)

lemma bget_cached:
  assumes inv: "bc_inv H s" and d: "d \<noteq> 0" and b: "cached d bn s = Some b" "b \<notin> H"
  shows "bget d bn s = Inr (b, (crit s)\<lparr>slocks := (slocks s)(SBuf b := hold b s),
    bufs := (bufs s)(b := (bufs s b)\<lparr>brefcnt := brefcnt (bufs s b) + 1\<rparr>)\<rparr>)"
proof -
  from inv obtain xs where xs: "lru xs (bufs s)" by (auto simp: bc_inv_def)
  have set: "set xs = {..<NBUF}" and k: "keys_ok (bufs s)"
    using xs inv by (auto simp: lru_def bc_inv_def bc_data_def)
  have lt: "b < NBUF" using b(1) cached_Some [OF k d] by blast
  have fr: "cpu_ok s" "lock_free LBcache s" "lock_free (LBuf b) s" "sl_locked (slocks s (SBuf b)) = 0"
    using inv lt b(2) by (auto simp: bc_inv_def bc_locks_def)
  show ?thesis
    using fr b(1) find_lru [OF set k d] lru_scan(1) [OF xs]
    by (simp add: bget_def flow upd_buf_def hold_def)
qed

lemma bget_recycled:
  assumes inv: "bc_inv H s" and d: "d \<noteq> 0" and b: "cached d bn s = None" "i < NBUF" "brefcnt (bufs s i) = 0"
  shows "\<exists>b < NBUF. brefcnt (bufs s b) = 0 \<and> bget d bn s = Inr (b, (crit s)\<lparr>slocks := (slocks s)(SBuf b := hold b s),
    bufs := (bufs s)(b := (bufs s b)\<lparr>dev := d, blockno := bn, valid := False, brefcnt := 1\<rparr>)\<rparr>)"
proof -
  from inv obtain xs where xs: "lru xs (bufs s)" by (auto simp: bc_inv_def)
  have set: "set xs = {..<NBUF}" and k: "keys_ok (bufs s)"
    using xs inv by (auto simp: lru_def bc_inv_def bc_data_def)
  obtain b where f: "find (\<lambda>b. brefcnt (bufs s b) = 0) (rev xs) = Some b"
    using b(2,3) set by (cases "find (\<lambda>b. brefcnt (bufs s b) = 0) (rev xs)") (auto simp: find_None_iff)
  then have b0: "b < NBUF" "brefcnt (bufs s b) = 0"
    using set find_SomeD [OF f] by auto
  then have "b \<notin> H" using inv by (auto simp: bc_inv_def bc_data_def)
  then have fr: "cpu_ok s" "lock_free LBcache s" "lock_free (LBuf b) s" "sl_locked (slocks s (SBuf b)) = 0"
    using inv b0 by (auto simp: bc_inv_def bc_locks_def)
  show ?thesis
    using fr b0 b(1) f find_lru [OF set k d] lru_scan [OF xs]
    by (intro exI [of _ b]) (simp add: bget_def flow upd_buf_def hold_def)
qed

lemma bget_full:
  assumes inv: "bc_inv H s" and d: "d \<noteq> 0" and b: "cached d bn s = None" "\<forall>i < NBUF. brefcnt (bufs s i) \<noteq> 0"
  shows "bget d bn s = Inl (Panic ''bget: no buffers'')"
proof -
  from inv obtain xs where xs: "lru xs (bufs s)" by (auto simp: bc_inv_def)
  have set: "set xs = {..<NBUF}" and k: "keys_ok (bufs s)"
    using xs inv by (auto simp: lru_def bc_inv_def bc_data_def)
  have f: "find (\<lambda>b. brefcnt (bufs s b) = 0) (rev xs) = None"
    using b(2) set by (auto simp: find_None_iff)
  have "lock_free LBcache s" using inv by (auto simp: bc_inv_def bc_locks_def)
  then show ?thesis
    using b(1) f find_lru [OF set k d] lru_scan [OF xs] by (simp add: bget_def flow)
qed

lemma lru_upd:
  "nxt k = nxt (bf b) \<Longrightarrow> prev k = prev (bf b) \<Longrightarrow> lru xs (bf(b := k)) = lru xs bf"
proof -
  assume k: "nxt k = nxt (bf b)" "prev k = prev (bf b)"
  have "(\<lambda>i. nxt ((bf(b := k)) i)) = (\<lambda>i. nxt (bf i))" "(\<lambda>i. prev ((bf(b := k)) i)) = (\<lambda>i. prev (bf i))"
    using k by auto
  then show ?thesis by (simp only: lru_def)
qed

lemma keys_ok_upd:
  assumes "keys_ok bf" "\<And>j. j < NBUF \<Longrightarrow> j \<noteq> b \<Longrightarrow> dev (bf j) = dev k \<Longrightarrow> blockno (bf j) = blockno k \<Longrightarrow> dev k = 0"
  shows "keys_ok (bf(b := k))"
  unfolding keys_ok_def
proof (intro allI impI)
  fix i j
  assume *: "i < NBUF" "j < NBUF" "dev ((bf(b := k)) i) \<noteq> 0" "dev ((bf(b := k)) i) = dev ((bf(b := k)) j)"
    "blockno ((bf(b := k)) i) = blockno ((bf(b := k)) j)"
  show "i = j"
  proof (rule ccontr)
    assume "i \<noteq> j"
    then consider "i = b" "j \<noteq> b" | "j = b" "i \<noteq> b" | "i \<noteq> b" "j \<noteq> b" by blast
    then show False
    proof cases
      case 1
      then have "dev k = 0" using assms(2) [of j] * by simp
      with 1 * show False by simp
    next
      case 2
      then have "dev k = 0" using assms(2) [of i] * by simp
      with 2 * show False by simp
    next
      case 3
      have "i = j" by (rule keys_okD [OF assms(1) *(1,2), of "dev (bf i)" "blockno (bf i)"]) (use * 3 in simp_all)
      with \<open>i \<noteq> j\<close> show False ..
    qed
  qed
qed

text \<open>
  \<open>room d bn H s\<close>: block \<open>bn\<close> can be got without waiting, since it is cached in a buffer the
  process does not hold already, or some buffer is unreferenced.
\<close>

definition room :: "u32 \<Rightarrow> u32 \<Rightarrow> nat set \<Rightarrow> 'z bcache_scheme \<Rightarrow> bool" where
  "room d bn H s \<longleftrightarrow> (case cached d bn s of
     Some i \<Rightarrow> i \<notin> H \<and> brefcnt (bufs s i) \<noteq> - 1
   | None \<Rightarrow> \<exists>i < NBUF. brefcnt (bufs s i) = 0)"

definition bread_post :: "u32 \<Rightarrow> u32 \<Rightarrow> nat set \<Rightarrow> 'z bcache_scheme \<Rightarrow> nat \<Rightarrow> buf \<Rightarrow> 'z bcache_scheme \<Rightarrow> bool" where
  "bread_post d bn H s b k t \<longleftrightarrow>
     t = (crit s)\<lparr>slocks := (slocks s)(SBuf b := hold b s), bufs := (bufs s)(b := k)\<rparr> \<and>
     b < NBUF \<and> b \<notin> H \<and> dev k = d \<and> blockno k = bn \<and> valid k \<and> data k = view d bn s \<and>
     nxt k = nxt (bufs s b) \<and> prev k = prev (bufs s b) \<and>
     (if cached d bn s = Some b then brefcnt k = brefcnt (bufs s b) + 1 \<and> brefcnt k \<noteq> 0
      else cached d bn s = None \<and> brefcnt (bufs s b) = 0 \<and> brefcnt k = 1)"

lemma bc_invD:
  assumes "bc_inv H s"
  shows "keys_ok (bufs s)" "cpu_ok s" "procs_free s" "lock_free LBcache s" "lock_free LDisk s"
    "\<And>i. i < NBUF \<Longrightarrow> lock_free (LBuf i) s" "H \<subseteq> {..<NBUF}" "\<And>bn. length (disk s bn) = BSIZE"
    "\<And>i. i < NBUF \<Longrightarrow> valid (bufs s i) \<Longrightarrow> length (data (bufs s i)) = BSIZE \<and> dev (bufs s i) = ROOTDEV"
    "\<And>i. i < NBUF \<Longrightarrow> valid (bufs s i) \<Longrightarrow> brefcnt (bufs s i) = 0 \<Longrightarrow>
       data (bufs s i) = disk s (blockno (bufs s i))"
  using assms by (auto simp: bc_inv_def bc_locks_def bc_data_def)

lemma length_view: "bc_inv H s \<Longrightarrow> d \<noteq> 0 \<Longrightarrow> length (view d bn s) = BSIZE"
  using bc_invD [of H s] cached_Some [of s d bn] by (auto simp: view_def split: option.splits)

lemma bread_post:
  assumes inv: "bc_inv H s" and d: "d \<noteq> 0" and room: "room d bn H s"
  shows "\<exists>b k t. bread d bn s = Inr (b, t) \<and> bread_post d bn H s b k t"
proof (cases "cached d bn s")
  case (Some b)
  with room have b: "b \<notin> H" "brefcnt (bufs s b) \<noteq> - 1" by (auto simp: room_def)
  have kb: "b < NBUF" "dev (bufs s b) = d" "blockno (bufs s b) = bn"
    using Some cached_Some [OF bc_invD(1) [OF inv] d] by blast+
  have nz: "brefcnt (bufs s b) + 1 \<noteq> 0" using b(2) by (metis add_eq_0_iff2)
  let ?k = "(bufs s b)\<lparr>brefcnt := brefcnt (bufs s b) + 1, data := view d bn s, valid := True\<rparr>"
  have same: "?k = (bufs s b)\<lparr>brefcnt := brefcnt (bufs s b) + 1\<rparr>" if "valid (bufs s b)"
    using that Some by (intro buf.equality) (simp_all add: view_def)
  have "bread d bn s =
      Inr (b, (crit s)\<lparr>slocks := (slocks s)(SBuf b := hold b s), bufs := (bufs s)(b := ?k)\<rparr>)"
  proof (cases "valid (bufs s b)")
    case True
    with bget_cached [OF inv d Some b(1)] show ?thesis by (simp add: bread_def same)
  next
    case False
    with bget_cached [OF inv d Some b(1)] Some kb bc_invD(2,5) [OF inv] show ?thesis
      by (simp add: bread_def view_def disk_rw_def flow upd_buf_def)
  qed
  then show ?thesis using Some kb b nz by (auto simp: bread_post_def)
next
  case None
  with room obtain i where i: "i < NBUF" "brefcnt (bufs s i) = 0" by (auto simp: room_def)
  from bget_recycled [OF inv d None i] obtain b where b: "b < NBUF" "brefcnt (bufs s b) = 0"
    "bget d bn s = Inr (b, (crit s)\<lparr>slocks := (slocks s)(SBuf b := hold b s),
      bufs := (bufs s)(b := (bufs s b)\<lparr>dev := d, blockno := bn, valid := False, brefcnt := 1\<rparr>)\<rparr>)" by blast
  have "b \<notin> H" using inv b by (auto simp: bc_inv_def bc_data_def)
  let ?k = "(bufs s b)\<lparr>dev := d, blockno := bn, brefcnt := 1, data := view d bn s, valid := True\<rparr>"
  have "bread d bn s = Inr (b, (crit s)\<lparr>slocks := (slocks s)(SBuf b := hold b s), bufs := (bufs s)(b := ?k)\<rparr>)"
    using b None bc_invD(2,5) [OF inv] by (simp add: bread_def view_def disk_rw_def flow upd_buf_def)
  then show ?thesis using None b \<open>b \<notin> H\<close> by (auto simp: bread_post_def)
qed

lemma bread_post_inv:
  assumes inv: "bc_inv H s" and d1: "d = ROOTDEV" and p: "bread_post d bn H s b k t"
  shows "bc_inv (insert b H) t" and "d' \<noteq> 0 \<Longrightarrow> view d' bn' t = view d' bn' s"
proof -
  have d: "d \<noteq> 0" using d1 by simp
  note D = bc_invD [OF inv]
  have t: "t = (crit s)\<lparr>slocks := (slocks s)(SBuf b := hold b s), bufs := (bufs s)(b := k)\<rparr>"
    and k: "b < NBUF" "b \<notin> H" "dev k = d" "blockno k = bn" "valid k" "data k = view d bn s"
      "nxt k = nxt (bufs s b)" "prev k = prev (bufs s b)" "brefcnt k \<noteq> 0"
    using p by (auto simp: bread_post_def split: if_splits)
  have keys: "keys_ok ((bufs s)(b := k))"
  proof (rule keys_ok_upd [OF D(1)])
    fix j assume j: "j < NBUF" "j \<noteq> b" "dev (bufs s j) = dev k" "blockno (bufs s j) = blockno k"
    then have "cached d bn s = Some j" using k cached_Some [OF D(1) d] by auto
    then show "dev k = 0" using p j(2) by (auto simp: bread_post_def split: if_splits)
  qed
  have "bc_locks (insert b H) t"
    using inv k(1,2) by (auto simp: t bc_inv_def bc_locks_def hold_def)
  moreover have "bc_data (insert b H) t"
    using inv k d1 keys length_view [OF inv d, of bn] by (auto simp: t bc_inv_def bc_data_def)
  moreover have "\<exists>xs. lru xs (bufs t)" using inv k(7,8) by (auto simp: t bc_inv_def lru_upd)
  ultimately show "bc_inv (insert b H) t" by (simp add: bc_inv_def)
  show "view d' bn' t = view d' bn' s" if d': "d' \<noteq> 0"
  proof -
    have kt: "keys_ok (bufs t)" using keys by (simp add: t)
    note ct = cached_Some [OF kt d', of bn'] and cs = cached_Some [OF D(1) d', of bn']
    show ?thesis
    proof (cases "d' = d \<and> bn' = bn")
      case True
      then have "cached d' bn' t = Some b" using ct k by (simp add: t)
      then show ?thesis using True k by (simp add: view_def t)
    next
      case False
      show ?thesis
      proof (cases "cached d' bn' s")
        case None
        then have "cached d' bn' t = None"
          using ct cs False k by (cases "cached d' bn' t") (auto simp: t split: if_splits)
        then show ?thesis using None by (simp add: view_def t)
      next
        case (Some i)
        then have i: "i < NBUF" "dev (bufs s i) = d'" "blockno (bufs s i) = bn'" using cs by auto
        show ?thesis
        proof (cases "i = b")
          case False
          then have "cached d' bn' t = Some i" using ct i by (simp add: t)
          then show ?thesis using Some False by (simp add: view_def t)
        next
          case True
          have "cached d' bn' t = None"
          proof (rule ccontr)
            assume "cached d' bn' t \<noteq> None"
            then obtain j where j: "j < NBUF" "dev (bufs t j) = d'" "blockno (bufs t j) = bn'" using ct by auto
            then have "j \<noteq> b" using k \<open>\<not> (d' = d \<and> bn' = bn)\<close> by (auto simp: t)
            moreover from this have "j = b"
              by (intro keys_okD [OF D(1) j(1) k(1), of d' bn']) (use j i True d' in \<open>auto simp: t\<close>)
            ultimately show False ..
          qed
          moreover have "brefcnt (bufs s b) = 0"
            using p True i \<open>\<not> (d' = d \<and> bn' = bn)\<close> cached_Some [OF D(1) d, of bn b]
            by (auto simp: bread_post_def split: if_splits)
          ultimately show ?thesis using Some True i D(10) [of b] by (simp add: view_def t)
        qed
      qed
    qed
  qed
qed

subsection \<open>Writing and releasing\<close>

definition written :: "nat \<Rightarrow> 'z bcache_scheme \<Rightarrow> 'z bcache_scheme" where
  "written b s = (crit s)\<lparr>disk := (disk s)(blockno (bufs s b) := data (bufs s b)),
     history := history s @ [(blockno (bufs s b), data (bufs s b))]\<rparr>"

lemma bwrite_eq:
  assumes "bc_inv H s" "b \<in> H"
  shows "bwrite b s = Inr (written b s)"
proof -
  have "b < NBUF" using assms by (auto simp: bc_inv_def bc_locks_def)
  then show ?thesis
    using assms by (simp add: bwrite_def flow disk_rw_def bc_inv_def bc_locks_def written_def)
qed

lemma bwrite_inv:
  assumes inv: "bc_inv H s" and b: "b \<in> H"
  shows "bc_inv H (written b s)" (is "bc_inv H ?t")
proof -
  note D = bc_invD [OF inv]
  have lt: "b < NBUF" and v: "valid (bufs s b)" "brefcnt (bufs s b) \<noteq> 0"
    using assms by (auto simp: bc_inv_def bc_locks_def bc_data_def)
  have "data (bufs s i) = disk ?t (blockno (bufs s i))"
    if i: "i < NBUF" "valid (bufs s i)" "brefcnt (bufs s i) = 0" for i
  proof (cases "blockno (bufs s i) = blockno (bufs s b)")
    case True
    have "i = b" by (rule keys_okD [OF D(1) i(1) lt, of ROOTDEV "blockno (bufs s b)"])
        (use True D(9) i lt v in simp_all)
    then show ?thesis using i v by simp
  next
    case False
    then show ?thesis using D(10) [OF i] by (simp add: written_def)
  qed
  then have "bc_data H ?t"
    using inv D(9) [OF lt v(1)] by (auto simp: bc_inv_def bc_data_def written_def)
  moreover have "bc_locks H ?t" using inv by (auto simp: bc_inv_def bc_locks_def written_def)
  ultimately show ?thesis using inv by (simp add: bc_inv_def written_def)
qed

definition unlinked :: "buf \<Rightarrow> buf" where
  "unlinked k = k\<lparr>nxt := 0, prev := 0\<rparr>"

lemma unlinked_eqD:
  assumes "unlinked k = unlinked k'"
  shows "valid k = valid k'" "dev k = dev k'" "blockno k = blockno k'" "brefcnt k = brefcnt k'" "data k = data k'"
  using assms by (cases k; cases k'; simp add: unlinked_def)+

definition nxtf :: "'z bcache_scheme \<Rightarrow> nat \<Rightarrow> nat" where
  "nxtf s = (\<lambda>i. nxt (bufs s i))"

definition prevf :: "'z bcache_scheme \<Rightarrow> nat \<Rightarrow> nat" where
  "prevf s = (\<lambda>i. prev (bufs s i))"

lemma link_upd [simp]:
  "nxtf (upd_buf a (nxt_update (\<lambda>_. v)) s) = (nxtf s)(a := v)"
  "nxtf (upd_buf a (prev_update (\<lambda>_. v)) s) = nxtf s"
  "prevf (upd_buf a (nxt_update (\<lambda>_. v)) s) = prevf s"
  "prevf (upd_buf a (prev_update (\<lambda>_. v)) s) = (prevf s)(a := v)"
  by (auto simp: nxtf_def prevf_def upd_buf_def)

lemma unlinked_upd [simp]:
  "unlinked (bufs (upd_buf a (nxt_update (\<lambda>_. v)) s) i) = unlinked (bufs s i)"
  "unlinked (bufs (upd_buf a (prev_update (\<lambda>_. v)) s) i) = unlinked (bufs s i)"
  by (simp_all add: unlinked_def upd_buf_def)

lemma frame_upd_buf:
  "t = s\<lparr>bufs := bufs t\<rparr> \<Longrightarrow> upd_buf a f t = s\<lparr>bufs := bufs (upd_buf a f t)\<rparr>"
  by (cases t) (simp add: upd_buf_def)

lemma move_to_front_frame:
  "move_to_front b s = s\<lparr>bufs := bufs (move_to_front b s)\<rparr>"
  unfolding move_to_front_def Let_def by (intro frame_upd_buf) simp

lemma move_to_front_unlinked [simp]: "unlinked (bufs (move_to_front b s) i) = unlinked (bufs s i)"
  by (simp add: move_to_front_def Let_def)

lemma move_to_front_links:
  assumes "nxtf s b \<noteq> b" "b \<noteq> HEAD"
  shows "nxtf (move_to_front b s) =
      (let f = (nxtf s)(prevf s b := nxtf s b) in f(b := f HEAD, HEAD := b))"
    and "prevf (move_to_front b s) =
      (let f = (nxtf s)(prevf s b := nxtf s b); g = (prevf s)(nxtf s b := prevf s b) in g(b := HEAD, f HEAD := b))"
  using assms unfolding move_to_front_def Let_def
  by (simp_all add: nxtf_def [symmetric] prevf_def [symmetric]
      fun_cong [OF nxtf_def, symmetric] fun_cong [OF prevf_def, symmetric])

lemma move_to_front_lru:
  assumes lru: "lru xs (bufs s)" and b: "b < NBUF"
  shows "lru (b # remove1 b xs) (bufs (move_to_front b s))"
proof -
  let ?f = "\<lambda>i. nxt (bufs s i)" and ?g = "\<lambda>i. prev (bufs s i)"
  obtain ys zs where xs: "xs = ys @ b # zs" and ny: "b \<notin> set ys"
    using lru b split_list_first [of b xs] by (auto simp: lru_def)
  have d: "distinct xs" "HEAD \<notin> set xs" using lru by (auto simp: lru_def)
  let ?us = "HEAD # ys" and ?vs = "zs @ [HEAD]" and ?ws = "ys @ zs @ [HEAD]"
  have dl: "dll ?f ?g (?us @ b # ?vs)" using lru xs by (simp add: lru_def)
  then have at: "?g b = last ?us" "?f b = hd ?vs"
    using dll_append [of ?us "b # ?vs" ?f ?g] dll_Cons [of ?vs ?f ?g b] by auto
  let ?f1 = "?f(last ?us := hd ?vs)" and ?g1 = "?g(hd ?vs := last ?us)"
  have "dll ?f1 ?g1 (?us @ ?vs)"
    by (rule dll_unlink [OF dl]) (use d xs in auto)
  then have d1: "dll ?f1 ?g1 (HEAD # ?ws)" by simp
  then have hd: "?f1 HEAD = hd ?ws" by (simp add: dll_Cons)
  have "dll (?f1(b := hd ?ws, HEAD := b)) (?g1(b := HEAD, hd ?ws := b)) (HEAD # b # ?ws)"
    by (rule dll_push [OF d1]) (use d xs b in \<open>auto simp: butlast_append\<close>)
  moreover have "nxtf s b \<noteq> b" "b \<noteq> HEAD"
    using at d xs b by (auto simp: nxtf_def hd_append)
  note move_to_front_links [OF this]
  then have "(\<lambda>i. nxt (bufs (move_to_front b s) i)) = ?f1(b := hd ?ws, HEAD := b)"
    "(\<lambda>i. prev (bufs (move_to_front b s) i)) = ?g1(b := HEAD, hd ?ws := b)"
    unfolding hd [symmetric] at [symmetric] by (simp_all only: nxtf_def prevf_def Let_def)
  ultimately have "dll (\<lambda>i. nxt (bufs (move_to_front b s) i)) (\<lambda>i. prev (bufs (move_to_front b s) i))
      (HEAD # (b # remove1 b xs) @ [HEAD])"
    using xs ny by (simp add: remove1_append)
  moreover have "distinct (b # remove1 b xs)" "set (b # remove1 b xs) = {..<NBUF}"
    using lru b by (auto simp: lru_def)
  ultimately show ?thesis unfolding lru_def by blast
qed

definition freed_sl :: "nat \<Rightarrow> 'z bcache_scheme \<Rightarrow> sleeplock" where
  "freed_sl b s = (slocks s (SBuf b))\<lparr>sl_locked := 0, sl_pid := 0\<rparr>"

definition brelse_post :: "nat \<Rightarrow> 'z bcache_scheme \<Rightarrow> 'z bcache_scheme \<Rightarrow> bool" where
  "brelse_post b s t \<longleftrightarrow>
     t = (crit s)\<lparr>procs := roused (ChBuf b) (cproc (mycpu s)) {..<NPROC} (procs s),
           slocks := (slocks s)(SBuf b := freed_sl b s), bufs := bufs t\<rparr> \<and>
     (\<forall>i. unlinked (bufs t i) = unlinked (((bufs s)(b := (bufs s b)\<lparr>brefcnt := brefcnt (bufs s b) - 1\<rparr>)) i)) \<and>
     (\<exists>xs. lru xs (bufs t))"

lemma brelse_post:
  assumes inv: "bc_inv H s" and b: "b \<in> H"
  shows "\<exists>t. brelse b s = Inr t \<and> brelse_post b s t"
proof -
  note D = bc_invD [OF inv]
  have lt: "b < NBUF" using D(7) b by auto
  have sl: "sl_locked (slocks s (SBuf b)) \<noteq> 0" "sl_pid (slocks s (SBuf b)) = my_pid s"
    using inv b lt by (auto simp: bc_inv_def bc_locks_def)
  define u0 where "u0 = (crit s)\<lparr>procs := roused (ChBuf b) (cproc (mycpu s)) {..<NPROC} (procs s),
           slocks := (slocks s)(SBuf b := freed_sl b s)\<rparr>"
  define u where "u = u0\<lparr>bufs := (bufs s)(b := (bufs s b)\<lparr>brefcnt := brefcnt (bufs s b) - 1\<rparr>)\<rparr>"
  define t where "t = (if brefcnt (bufs s b) - 1 = 0 then move_to_front b u else u)"
  have u: "cpu_ok u" "lock_free LBcache u" using D by (simp_all add: u_def u0_def)
  have mtf: "move_to_front b (acquired LBcache u) = (acquired LBcache u)\<lparr>bufs := bufs (move_to_front b u)\<rparr>"
  proof -
    have "bufs (move_to_front b (acquired LBcache u)) = bufs (move_to_front b u)"
      by (simp add: move_to_front_def upd_buf_def Let_def)
    with move_to_front_frame [of b "acquired LBcache u"] show ?thesis by simp
  qed
  have frame: "t = u\<lparr>bufs := bufs t\<rparr>"
    unfolding t_def using move_to_front_frame [of b u] by auto
  have crit: "crit u = u" by (simp add: u_def u0_def)
  have "brelse b s = and_then (acquire LBcache u0) (\<lambda>s.
       let s = upd_buf b (\<lambda>k. k\<lparr>brefcnt := brefcnt k - 1\<rparr>) s;
           s = (if brefcnt (bufs s b) = 0 then move_to_front b s else s)
       in release LBcache s)"
    using lt sl D(2-6) by (simp add: brelse_def flow freed_sl_def u0_def)
  also have "\<dots> = release LBcache (if brefcnt (bufs s b) - 1 = 0 then move_to_front b (acquired LBcache u)
        else acquired LBcache u)"
    using D(4) by (simp add: flow u_def u0_def upd_buf_def Let_def)
  also have "\<dots> = Inr t"
    using u crit move_to_front_frame [of b u] by (simp add: mtf t_def flow)
  finally have run: "brelse b s = Inr t" .
  obtain xs where xs: "lru xs (bufs s)" using inv by (auto simp: bc_inv_def)
  then have lru_u: "lru xs (bufs u)" by (simp add: u_def lru_upd)
  then have "\<exists>xs. lru xs (bufs t)" using move_to_front_lru [OF lru_u lt] by (auto simp: t_def)
  moreover have "unlinked (bufs t i) = unlinked (bufs u i)" for i by (simp add: t_def)
  moreover have "t = (crit s)\<lparr>procs := roused (ChBuf b) (cproc (mycpu s)) {..<NPROC} (procs s),
           slocks := (slocks s)(SBuf b := freed_sl b s), bufs := bufs t\<rparr>"
    by (subst frame) (simp add: u_def u0_def)
  ultimately show ?thesis unfolding brelse_post_def using run by (intro exI [of _ t]) (simp add: u_def u0_def)
qed

lemma unlinked_cached:
  assumes "\<And>i. dev (bf i) = dev (bufs s i) \<and> blockno (bf i) = blockno (bufs s i)"
  shows "cached d bn (s\<lparr>bufs := bf\<rparr>) = cached d bn s"
  using assms by (simp add: cached_def)

lemma brelse_inv:
  assumes inv: "bc_inv H s" and b: "b \<in> H" and post: "brelse_post b s t"
    and clean: "brefcnt (bufs s b) = 1 \<Longrightarrow> data (bufs s b) = disk s (blockno (bufs s b))"
  shows "bc_inv (H - {b}) t" and "view d bn t = view d bn s"
proof -
  have t: "t = (crit s)\<lparr>procs := roused (ChBuf b) (cproc (mycpu s)) {..<NPROC} (procs s),
           slocks := (slocks s)(SBuf b := freed_sl b s), bufs := bufs t\<rparr>"
    and un: "\<And>i. unlinked (bufs t i) = unlinked (((bufs s)(b := (bufs s b)\<lparr>brefcnt := brefcnt (bufs s b) - 1\<rparr>)) i)"
    and lru: "\<exists>xs. lru xs (bufs t)"
    using post by (auto simp: brelse_post_def)
  have core: "valid (bufs t i) = valid (bufs s i)" "dev (bufs t i) = dev (bufs s i)"
      "blockno (bufs t i) = blockno (bufs s i)" "data (bufs t i) = data (bufs s i)"
      "brefcnt (bufs t i) = (if i = b then brefcnt (bufs s b) - 1 else brefcnt (bufs s i))" for i
    using unlinked_eqD [OF un [of i]] by auto
  have tf: "disk t = disk s" "slocks t = (slocks s)(SBuf b := freed_sl b s)"
      "cpu_ok t = cpu_ok s" "procs_free t = procs_free s" "my_pid t = my_pid s"
      "\<And>l. lock_free l t = lock_free l s"
    by (subst t, simp add: procs_free_def my_pid_def roused_def rouse_def split: option.split)+
  have b1: "brefcnt (bufs s b) - 1 = 0 \<longleftrightarrow> brefcnt (bufs s b) = 1"
    by (metis eq_iff_diff_eq_0)
  have "bc_locks (H - {b}) t"
    using inv b by (auto simp: bc_inv_def bc_locks_def tf freed_sl_def)
  moreover have "keys_ok (bufs t)" using inv by (simp add: bc_inv_def bc_data_def keys_ok_def core)
  then have "bc_data (H - {b}) t"
    using inv b clean b1 by (auto simp: bc_inv_def bc_data_def core tf)
  ultimately show "bc_inv (H - {b}) t" using lru by (simp add: bc_inv_def)
  have "cached d bn t = cached d bn s" by (simp add: cached_def core)
  then show "view d bn t = view d bn s" by (simp add: view_def core tf split: option.split)
qed

lemma bpin_eq [flow]:
  "cpu_ok s \<Longrightarrow> lock_free LBcache s \<Longrightarrow>
     bpin b s = Inr (upd_buf b (\<lambda>k. k\<lparr>brefcnt := brefcnt k + 1\<rparr>) (crit s))"
  by (simp add: bpin_def flow upd_buf_def)

lemma bunpin_eq [flow]:
  "cpu_ok s \<Longrightarrow> lock_free LBcache s \<Longrightarrow>
     bunpin b s = Inr (upd_buf b (\<lambda>k. k\<lparr>brefcnt := brefcnt k - 1\<rparr>) (crit s))"
  by (simp add: bunpin_def flow upd_buf_def)

end
