(* ===== verification/Log.thy ===== *)
theory Log
  imports Bio
begin

section \<open>The write-ahead log (kernel/rust\_log.rs)\<close>

text \<open>
  File-system calls bracket their block updates with \<open>begin_op\<close> and \<open>end_op\<close>; \<open>log_write\<close>
  records a block number and pins the buffer; the last \<open>end_op\<close> commits: it copies the logged
  blocks to the log area, writes the header (the commit point), installs them at home and clears
  the header.  \<open>recover_from_log\<close> redoes the installation at boot.  The progress messages of a
  recovery are not modelled.
\<close>

abbreviation MAXOPBLOCKS :: int where "MAXOPBLOCKS \<equiv> 10"
abbreviation LOGBLOCKS :: nat where "LOGBLOCKS \<equiv> 30"

record logst = bcache +
  lstart :: u32
  outstanding :: int
  committing :: bool
  ldev :: u32
  lh_n :: int
  lh_block :: "nat \<Rightarrow> u32"

definition set_data :: "nat \<Rightarrow> u8 list \<Rightarrow> 'z bcache_scheme \<Rightarrow> 'z bcache_scheme" where
  "set_data b d s = upd_buf b (data_update (\<lambda>_. d)) s"

subsection \<open>Installing, the header, recovery\<close>

definition install_one :: "bool \<Rightarrow> nat \<Rightarrow> 'z logst_scheme \<Rightarrow> 'z logst_scheme kres" where
  "install_one recovering tail s =
     and_then (bread (ldev s) (lstart s + of_nat tail + 1) s) (\<lambda>(lbuf, s).
     and_then (bread (ldev s) (lh_block s tail) s) (\<lambda>(dbuf, s).
     let s = set_data dbuf (data (bufs s lbuf)) s in
     and_then (bwrite dbuf s) (\<lambda>s.
     and_then (if \<not> recovering then bunpin dbuf s else Inr s) (\<lambda>s.
     and_then (brelse lbuf s) (\<lambda>s. brelse dbuf s)))))"

definition install_trans :: "bool \<Rightarrow> 'z logst_scheme \<Rightarrow> 'z logst_scheme kres" where
  "install_trans recovering s = for_each (install_one recovering) [0..<nat (lh_n s)] s"

text \<open>
  The on-disk header: \<open>n\<close> in the first four bytes, then the block numbers.  A count above
  \<open>LOGBLOCKS\<close> makes the loop of \<open>read_head\<close> write past \<open>LOG.lh.block\<close>.
\<close>

definition hdr_n :: "u8 list \<Rightarrow> int" where
  "hdr_n d = sint (getw 4 d 0 :: u32)"

definition hdr_block :: "u8 list \<Rightarrow> nat \<Rightarrow> u32" where
  "hdr_block d i = getw 4 d (4 + 4 * i)"

definition read_head :: "'z logst_scheme \<Rightarrow> 'z logst_scheme kres" where
  "read_head s = and_then (bread (ldev s) (lstart s) s) (\<lambda>(b, s).
     let d = data (bufs s b); s = s\<lparr>lh_n := hdr_n d\<rparr> in
     and_then (for_each (\<lambda>i s. if i < LOGBLOCKS then Inr (s\<lparr>lh_block := (lh_block s)(i := hdr_block d i)\<rparr>)
                               else Inl Undefined) [0..<nat (lh_n s)] s) (\<lambda>s.
     brelse b s))"

primrec put_blocks :: "(nat \<Rightarrow> u32) \<Rightarrow> nat list \<Rightarrow> u8 list \<Rightarrow> u8 list" where
  "put_blocks blk [] d = d"
| "put_blocks blk (i # is) d = put_blocks blk is (putw 4 d (4 + 4 * i) (blk i))"

definition write_head :: "'z logst_scheme \<Rightarrow> 'z logst_scheme kres" where
  "write_head s = and_then (bread (ldev s) (lstart s) s) (\<lambda>(b, s).
     let d = putw 4 (data (bufs s b)) 0 (word_of_int (lh_n s) :: u32);
         s = set_data b (put_blocks (lh_block s) [0..<nat (lh_n s)] d) s in
     and_then (bwrite b s) (\<lambda>s. brelse b s))"

definition recover_from_log :: "'z logst_scheme \<Rightarrow> 'z logst_scheme kres" where
  "recover_from_log s =
     and_then (read_head s) (\<lambda>s.
     and_then (install_trans True s) (\<lambda>s.
     write_head (s\<lparr>lh_n := 0\<rparr>)))"

definition initlog :: "u32 \<Rightarrow> u32 \<Rightarrow> 'z logst_scheme \<Rightarrow> 'z logst_scheme kres" where
  "initlog d logstart s =
     recover_from_log ((initlock LLog ''log'' s)\<lparr>lstart := logstart, ldev := d\<rparr>)"

subsection \<open>Transactions\<close>

definition begin_op :: "'z logst_scheme \<Rightarrow> 'z logst_scheme kres" where
  "begin_op s = and_then (acquire LLog s) (\<lambda>s.
     if committing s then sleep ChLog LLog s
     else if lh_n s + (outstanding s + 1) * MAXOPBLOCKS > int LOGBLOCKS then sleep ChLog LLog s
     else release LLog (s\<lparr>outstanding := outstanding s + 1\<rparr>))"

definition write_log_one :: "nat \<Rightarrow> 'z logst_scheme \<Rightarrow> 'z logst_scheme kres" where
  "write_log_one tail s =
     and_then (bread (ldev s) (lstart s + of_nat tail + 1) s) (\<lambda>(to, s).
     and_then (bread (ldev s) (lh_block s tail) s) (\<lambda>(from, s).
     let s = set_data to (data (bufs s from)) s in
     and_then (bwrite to s) (\<lambda>s.
     and_then (brelse from s) (\<lambda>s. brelse to s))))"

definition write_log :: "'z logst_scheme \<Rightarrow> 'z logst_scheme kres" where
  "write_log s = for_each write_log_one [0..<nat (lh_n s)] s"

definition commit :: "'z logst_scheme \<Rightarrow> 'z logst_scheme kres" where
  "commit s =
     (if lh_n s > 0
      then and_then (write_log s) (\<lambda>s.
           and_then (write_head s) (\<lambda>s.
           and_then (install_trans False s) (\<lambda>s.
           write_head (s\<lparr>lh_n := 0\<rparr>))))
      else Inr s)"

definition end_op :: "'z logst_scheme \<Rightarrow> 'z logst_scheme kres" where
  "end_op s = and_then (acquire LLog s) (\<lambda>s.
     let s = s\<lparr>outstanding := outstanding s - 1\<rparr> in
     if committing s then Inl (Panic ''log.committing'')
     else if outstanding s = 0
     then and_then (release LLog (s\<lparr>committing := True\<rparr>)) (\<lambda>s.
          and_then (commit s) (\<lambda>s.
          and_then (acquire LLog s) (\<lambda>s.
          and_then (wakeup ChLog (s\<lparr>committing := False\<rparr>)) (\<lambda>s.
          release LLog s))))
     else and_then (wakeup ChLog s) (\<lambda>s. release LLog s))"

definition log_slot :: "u32 \<Rightarrow> 'z logst_scheme \<Rightarrow> nat" where
  "log_slot bn s = length (takeWhile (\<lambda>i. lh_block s i \<noteq> bn) [0..<nat (lh_n s)])"

definition log_write :: "nat \<Rightarrow> 'z logst_scheme \<Rightarrow> 'z logst_scheme kres" where
  "log_write b s = and_then (acquire LLog s) (\<lambda>s.
     if lh_n s \<ge> int LOGBLOCKS then Inl (Panic ''too big a transaction'')
     else if outstanding s < 1 then Inl (Panic ''log_write outside of trans'')
     else
       let i = log_slot (blockno (bufs s b)) s;
           s = s\<lparr>lh_block := (lh_block s)(i := blockno (bufs s b))\<rparr> in
       and_then (if int i = lh_n s
                 then and_then (bpin b s) (\<lambda>s. Inr (s\<lparr>lh_n := lh_n s + 1\<rparr>))
                 else Inr s) (\<lambda>s.
       release LLog s))"

subsection \<open>Lock operations leave the log alone\<close>

lemma logst_acquired [simp]:
  "lstart (acquired l s) = lstart s"
  "outstanding (acquired l s) = outstanding s"
  "committing (acquired l s) = committing s"
  "ldev (acquired l s) = ldev s"
  "lh_n (acquired l s) = lh_n s"
  "lh_block (acquired l s) = lh_block s"
  by (simp_all add: acquired_def machine_defs)

lemma logst_crit [simp]:
  "lstart (crit s) = lstart s"
  "outstanding (crit s) = outstanding s"
  "committing (crit s) = committing s"
  "ldev (crit s) = ldev s"
  "lh_n (crit s) = lh_n s"
  "lh_block (crit s) = lh_block s"
  by (simp_all add: crit_def machine_defs)

lemma logst_initlock [simp]:
  "lstart (initlock l nm s) = lstart s"
  "outstanding (initlock l nm s) = outstanding s"
  "committing (initlock l nm s) = committing s"
  "ldev (initlock l nm s) = ldev s"
  "lh_n (initlock l nm s) = lh_n s"
  "lh_block (initlock l nm s) = lh_block s"
  by (simp_all add: initlock_def)

lemma release_logst_upd [simp]:
  "release l (s\<lparr>lstart := x0\<rparr>) = map_sum id (\<lambda>t. t\<lparr>lstart := x0\<rparr>) (release l s)"
  "release l (s\<lparr>outstanding := x1\<rparr>) = map_sum id (\<lambda>t. t\<lparr>outstanding := x1\<rparr>) (release l s)"
  "release l (s\<lparr>committing := x2\<rparr>) = map_sum id (\<lambda>t. t\<lparr>committing := x2\<rparr>) (release l s)"
  "release l (s\<lparr>ldev := x3\<rparr>) = map_sum id (\<lambda>t. t\<lparr>ldev := x3\<rparr>) (release l s)"
  "release l (s\<lparr>lh_n := x4\<rparr>) = map_sum id (\<lambda>t. t\<lparr>lh_n := x4\<rparr>) (release l s)"
  "release l (s\<lparr>lh_block := x5\<rparr>) = map_sum id (\<lambda>t. t\<lparr>lh_block := x5\<rparr>) (release l s)"
  by (simp_all add: release_unfold)

lemma acquire_logst_upd [simp]:
  "acquire l (s\<lparr>lstart := x0\<rparr>) = map_sum id (\<lambda>t. t\<lparr>lstart := x0\<rparr>) (acquire l s)"
  "acquire l (s\<lparr>outstanding := x1\<rparr>) = map_sum id (\<lambda>t. t\<lparr>outstanding := x1\<rparr>) (acquire l s)"
  "acquire l (s\<lparr>committing := x2\<rparr>) = map_sum id (\<lambda>t. t\<lparr>committing := x2\<rparr>) (acquire l s)"
  "acquire l (s\<lparr>ldev := x3\<rparr>) = map_sum id (\<lambda>t. t\<lparr>ldev := x3\<rparr>) (acquire l s)"
  "acquire l (s\<lparr>lh_n := x4\<rparr>) = map_sum id (\<lambda>t. t\<lparr>lh_n := x4\<rparr>) (acquire l s)"
  "acquire l (s\<lparr>lh_block := x5\<rparr>) = map_sum id (\<lambda>t. t\<lparr>lh_block := x5\<rparr>) (acquire l s)"
  by (simp_all add: acquire_unfold)

lemma acquired_logst_upd [simp]:
  "acquired l (s\<lparr>lstart := x0\<rparr>) = (acquired l s)\<lparr>lstart := x0\<rparr>"
  "acquired l (s\<lparr>outstanding := x1\<rparr>) = (acquired l s)\<lparr>outstanding := x1\<rparr>"
  "acquired l (s\<lparr>committing := x2\<rparr>) = (acquired l s)\<lparr>committing := x2\<rparr>"
  "acquired l (s\<lparr>ldev := x3\<rparr>) = (acquired l s)\<lparr>ldev := x3\<rparr>"
  "acquired l (s\<lparr>lh_n := x4\<rparr>) = (acquired l s)\<lparr>lh_n := x4\<rparr>"
  "acquired l (s\<lparr>lh_block := x5\<rparr>) = (acquired l s)\<lparr>lh_block := x5\<rparr>"
  by (simp_all add: acquired_def machine_defs)

lemma crit_logst_upd [simp]:
  "crit (s\<lparr>lstart := x0\<rparr>) = (crit s)\<lparr>lstart := x0\<rparr>"
  "crit (s\<lparr>outstanding := x1\<rparr>) = (crit s)\<lparr>outstanding := x1\<rparr>"
  "crit (s\<lparr>committing := x2\<rparr>) = (crit s)\<lparr>committing := x2\<rparr>"
  "crit (s\<lparr>ldev := x3\<rparr>) = (crit s)\<lparr>ldev := x3\<rparr>"
  "crit (s\<lparr>lh_n := x4\<rparr>) = (crit s)\<lparr>lh_n := x4\<rparr>"
  "crit (s\<lparr>lh_block := x5\<rparr>) = (crit s)\<lparr>lh_block := x5\<rparr>"
  by (simp_all add: crit_def machine_defs)

lemma lock_free_logst_upd [simp]:
  "lock_free l (s\<lparr>lstart := x0\<rparr>) = lock_free l s"
  "lock_free l (s\<lparr>outstanding := x1\<rparr>) = lock_free l s"
  "lock_free l (s\<lparr>committing := x2\<rparr>) = lock_free l s"
  "lock_free l (s\<lparr>ldev := x3\<rparr>) = lock_free l s"
  "lock_free l (s\<lparr>lh_n := x4\<rparr>) = lock_free l s"
  "lock_free l (s\<lparr>lh_block := x5\<rparr>) = lock_free l s"
  by (simp_all add: lock_free_def)

lemma cpu_ok_logst_upd [simp]:
  "cpu_ok (s\<lparr>lstart := x0\<rparr>) = cpu_ok s"
  "cpu_ok (s\<lparr>outstanding := x1\<rparr>) = cpu_ok s"
  "cpu_ok (s\<lparr>committing := x2\<rparr>) = cpu_ok s"
  "cpu_ok (s\<lparr>ldev := x3\<rparr>) = cpu_ok s"
  "cpu_ok (s\<lparr>lh_n := x4\<rparr>) = cpu_ok s"
  "cpu_ok (s\<lparr>lh_block := x5\<rparr>) = cpu_ok s"
  by (simp_all add: cpu_ok_def machine_defs)

lemma mycpu_logst_upd [simp]:
  "mycpu (s\<lparr>lstart := x0\<rparr>) = mycpu s"
  "mycpu (s\<lparr>outstanding := x1\<rparr>) = mycpu s"
  "mycpu (s\<lparr>committing := x2\<rparr>) = mycpu s"
  "mycpu (s\<lparr>ldev := x3\<rparr>) = mycpu s"
  "mycpu (s\<lparr>lh_n := x4\<rparr>) = mycpu s"
  "mycpu (s\<lparr>lh_block := x5\<rparr>) = mycpu s"
  by (simp_all add: mycpu_def)

lemma my_pid_logst_upd [simp]:
  "my_pid (s\<lparr>lstart := x0\<rparr>) = my_pid s"
  "my_pid (s\<lparr>outstanding := x1\<rparr>) = my_pid s"
  "my_pid (s\<lparr>committing := x2\<rparr>) = my_pid s"
  "my_pid (s\<lparr>ldev := x3\<rparr>) = my_pid s"
  "my_pid (s\<lparr>lh_n := x4\<rparr>) = my_pid s"
  "my_pid (s\<lparr>lh_block := x5\<rparr>) = my_pid s"
  by (simp_all add: my_pid_def split: option.split)

lemma procs_free_logst_upd [simp]:
  "procs_free (s\<lparr>lstart := x0\<rparr>) = procs_free s"
  "procs_free (s\<lparr>outstanding := x1\<rparr>) = procs_free s"
  "procs_free (s\<lparr>committing := x2\<rparr>) = procs_free s"
  "procs_free (s\<lparr>ldev := x3\<rparr>) = procs_free s"
  "procs_free (s\<lparr>lh_n := x4\<rparr>) = procs_free s"
  "procs_free (s\<lparr>lh_block := x5\<rparr>) = procs_free s"
  by (simp_all add: procs_free_def)

lemma cached_logst_upd [simp]:
  "cached d bn (s\<lparr>lstart := x0\<rparr>) = cached d bn s"
  "cached d bn (s\<lparr>outstanding := x1\<rparr>) = cached d bn s"
  "cached d bn (s\<lparr>committing := x2\<rparr>) = cached d bn s"
  "cached d bn (s\<lparr>ldev := x3\<rparr>) = cached d bn s"
  "cached d bn (s\<lparr>lh_n := x4\<rparr>) = cached d bn s"
  "cached d bn (s\<lparr>lh_block := x5\<rparr>) = cached d bn s"
  by (simp_all add: cached_def)

lemma view_logst_upd [simp]:
  "view d bn (s\<lparr>lstart := x0\<rparr>) = view d bn s"
  "view d bn (s\<lparr>outstanding := x1\<rparr>) = view d bn s"
  "view d bn (s\<lparr>committing := x2\<rparr>) = view d bn s"
  "view d bn (s\<lparr>ldev := x3\<rparr>) = view d bn s"
  "view d bn (s\<lparr>lh_n := x4\<rparr>) = view d bn s"
  "view d bn (s\<lparr>lh_block := x5\<rparr>) = view d bn s"
  by (simp_all add: view_def split: option.split)

lemma bc_inv_logst_upd [simp]:
  "bc_inv H (s\<lparr>lstart := x0\<rparr>) = bc_inv H s"
  "bc_inv H (s\<lparr>outstanding := x1\<rparr>) = bc_inv H s"
  "bc_inv H (s\<lparr>committing := x2\<rparr>) = bc_inv H s"
  "bc_inv H (s\<lparr>ldev := x3\<rparr>) = bc_inv H s"
  "bc_inv H (s\<lparr>lh_n := x4\<rparr>) = bc_inv H s"
  "bc_inv H (s\<lparr>lh_block := x5\<rparr>) = bc_inv H s"
  by (simp_all add: bc_inv_def bc_locks_def bc_data_def)

subsection \<open>What the layers below leave unchanged\<close>

text \<open>
  \<open>calm s t\<close>: from \<open>s\<close> to \<open>t\<close> only the cache, its sleep locks, the interrupt bookkeeping of
  the harts and the wakefulness of sleeping processes changed.
\<close>

definition proc_le :: "proc \<Rightarrow> proc \<Rightarrow> bool" where
  "proc_le p q \<longleftrightarrow> q = p \<or> state p = SLEEPING \<and> q = p\<lparr>state := RUNNABLE\<rparr>"

definition calm :: "'z bcache_scheme \<Rightarrow> 'z bcache_scheme \<Rightarrow> bool" where
  "calm s t \<longleftrightarrow> (\<exists>c p l b. t = s\<lparr>cpus := c, procs := p, slocks := l, bufs := b\<rparr> \<and>
     (\<forall>h. cproc (c h) = cproc (cpus s h)) \<and> (\<forall>i. proc_le (procs s i) (p i)) \<and>
     (\<forall>j. l (SInode j) = slocks s (SInode j)))"

lemma proc_le_trans: "proc_le p q \<Longrightarrow> proc_le q r \<Longrightarrow> proc_le p r"
  by (auto simp: proc_le_def)

lemma proc_le_refl [simp]: "proc_le p p"
  by (simp add: proc_le_def)

lemma proc_le_fields:
  "proc_le p q \<Longrightarrow> pid q = pid p \<and> sz q = sz p \<and> pagetable q = pagetable p \<and> cwd q = cwd p \<and> ofile q = ofile p"
  by (auto simp: proc_le_def)

lemma calmI:
  assumes "t = s\<lparr>cpus := c, procs := p, slocks := l, bufs := b\<rparr>" "\<And>h. cproc (c h) = cproc (cpus s h)"
    "\<And>i. proc_le (procs s i) (p i)" "\<And>j. l (SInode j) = slocks s (SInode j)"
  shows "calm s t"
  using assms unfolding calm_def by blast

lemma calm_refl [simp]: "calm s s"
  by (rule calmI [where c = "cpus s" and p = "procs s" and l = "slocks s" and b = "bufs s"]) simp_all

lemma calm_trans [trans]:
  assumes "calm s t" "calm t u"
  shows "calm s u"
proof -
  obtain c p l b where t: "t = s\<lparr>cpus := c, procs := p, slocks := l, bufs := b\<rparr>"
    and t': "\<And>h. cproc (c h) = cproc (cpus s h)" "\<And>i. proc_le (procs s i) (p i)"
    "\<And>j. l (SInode j) = slocks s (SInode j)"
    using assms(1) unfolding calm_def by blast
  obtain c' p' l' b' where u: "u = t\<lparr>cpus := c', procs := p', slocks := l', bufs := b'\<rparr>"
    and u': "\<And>h. cproc (c' h) = cproc (cpus t h)" "\<And>i. proc_le (procs t i) (p' i)"
    "\<And>j. l' (SInode j) = slocks t (SInode j)"
    using assms(2) unfolding calm_def by blast
  show ?thesis
  proof (rule calmI)
    show "u = s\<lparr>cpus := c', procs := p', slocks := l', bufs := b'\<rparr>" using u t by simp
    show "proc_le (procs s i) (p' i)" for i using t'(2) u'(2) t by (auto intro: proc_le_trans)
  qed (use t t' u' in simp_all)
qed

lemma calm_crit [simp]: "calm s (crit s)"
  by (rule calmI [where c = "cpus (crit s)" and p = "procs s" and l = "slocks s" and b = "bufs s"])
    (auto simp: crit_def machine_defs)

lemma proc_le_roused: "proc_le (ps i) (roused ch cur I ps i)"
  by (auto simp: proc_le_def roused_def rouse_def)

lemma calmD:
  assumes "calm s t"
  shows "mem t = mem s" "disk t = disk s" "history t = history s" "locks t = locks s" "hart t = hart s"
    "my_pid t = my_pid s" "kend t = kend s" "cproc (mycpu t) = cproc (mycpu s)"
proof -
  obtain c p l b where t: "t = s\<lparr>cpus := c, procs := p, slocks := l, bufs := b\<rparr>"
    and t': "\<And>h. cproc (c h) = cproc (cpus s h)" "\<And>i. proc_le (procs s i) (p i)"
    using assms unfolding calm_def by blast
  show "mem t = mem s" "disk t = disk s" "history t = history s" "locks t = locks s" "hart t = hart s" "kend t = kend s"
    by (simp_all add: t)
  show cp: "cproc (mycpu t) = cproc (mycpu s)" using t' by (simp add: t mycpu_def)
  show "my_pid t = my_pid s"
    unfolding my_pid_def cp using t'(2) proc_le_fields by (auto simp: t split: option.split)
qed

subsection \<open>Blocks that are pinned or held\<close>

text \<open>
  \<open>H\<close> is the set of buffers the process holds, \<open>P\<close> the set of pinned blocks.  Reference counts
  are exact: one for a held buffer, one for a pinned block; so every other buffer agrees with the
  disk.
\<close>

definition pinned :: "u32 set \<Rightarrow> 'z bcache_scheme \<Rightarrow> nat \<Rightarrow> bool" where
  "pinned P s i \<longleftrightarrow> dev (bufs s i) = ROOTDEV \<and> blockno (bufs s i) \<in> P"

definition bit01 :: "bool \<Rightarrow> u32" where
  "bit01 b = (if b then 1 else 0)"

definition pin_inv :: "nat set \<Rightarrow> u32 set \<Rightarrow> 'z bcache_scheme \<Rightarrow> bool" where
  "pin_inv H P s \<longleftrightarrow> bc_inv H s \<and> (\<forall>bn \<in> P. cached ROOTDEV bn s \<noteq> None) \<and>
     (\<forall>i < NBUF. brefcnt (bufs s i) = bit01 (i \<in> H) + bit01 (pinned P s i)) \<and>
     (\<forall>i < NBUF. pinned P s i \<longrightarrow> valid (bufs s i))"

lemma pin_invD:
  assumes "pin_inv H P s"
  shows "bc_inv H s" "\<And>bn. bn \<in> P \<Longrightarrow> cached ROOTDEV bn s \<noteq> None"
    "\<And>i. i < NBUF \<Longrightarrow> brefcnt (bufs s i) = bit01 (i \<in> H) + bit01 (pinned P s i)"
    "\<And>i. i < NBUF \<Longrightarrow> pinned P s i \<Longrightarrow> valid (bufs s i)"
    "keys_ok (bufs s)"
  using assms by (auto simp: pin_inv_def bc_inv_def bc_data_def)

lemma bit01_simps [simp]: "bit01 True = 1" "bit01 False = 0"
  by (simp_all add: bit01_def)

lemma bit01_sum_0: "bit01 a + bit01 b = 0 \<longleftrightarrow> \<not> a \<and> \<not> b"
  by (cases a; cases b) simp_all

lemma bit01_sum_m1: "bit01 a + bit01 b \<noteq> - 1"
  by (cases a; cases b) simp_all

lemma card_pinned:
  assumes "pin_inv H P s" "finite P"
  shows "card {i. i < NBUF \<and> pinned P s i} \<le> card P"
proof -
  note k = pin_invD(5) [OF assms(1)]
  have "inj_on (\<lambda>i. blockno (bufs s i)) {i. i < NBUF \<and> pinned P s i}"
    by (rule inj_onI) (auto simp: pinned_def intro: keys_okD [OF k, of _ _ ROOTDEV])
  moreover have "(\<lambda>i. blockno (bufs s i)) ` {i. i < NBUF \<and> pinned P s i} \<subseteq> P"
    by (auto simp: pinned_def)
  ultimately show ?thesis by (rule card_inj_on_le) (rule assms(2))
qed

definition held_blocks :: "nat set \<Rightarrow> 'z bcache_scheme \<Rightarrow> u32 set" where
  "held_blocks H s = (\<lambda>i. blockno (bufs s i)) ` H"

text \<open>
  A block the process does not hold can be read when it is pinned, or when the held and pinned
  buffers leave one free.
\<close>

definition can_read :: "nat set \<Rightarrow> u32 set \<Rightarrow> u32 \<Rightarrow> 'z bcache_scheme \<Rightarrow> bool" where
  "can_read H P bn s \<longleftrightarrow> bn \<notin> held_blocks H s \<and> (bn \<in> P \<or> finite P \<and> card H + card P < NBUF)"

lemma pin_room:
  assumes inv: "pin_inv H P s" and can: "can_read H P bn s"
  shows "room ROOTDEV bn H s"
proof (cases "cached ROOTDEV bn s")
  case None
  then have few: "finite P" "card H + card P < NBUF"
    using can pin_invD(2) [OF inv, of bn] by (auto simp: can_read_def)
  have "\<exists>i < NBUF. brefcnt (bufs s i) = 0"
  proof (rule ccontr)
    assume none: "\<not> ?thesis"
    have HN: "H \<subseteq> {..<NBUF}" using bc_invD(7) [OF pin_invD(1) [OF inv]] .
    have "{..<NBUF} \<subseteq> H \<union> {i. i < NBUF \<and> pinned P s i}"
    proof
      fix i assume "i \<in> {..<NBUF}"
      then show "i \<in> H \<union> {i. i < NBUF \<and> pinned P s i}"
        using none pin_invD(3) [OF inv, of i] bit01_sum_0 [of "i \<in> H" "pinned P s i"] by auto
    qed
    then have "card {..<NBUF} \<le> card (H \<union> {i. i < NBUF \<and> pinned P s i})"
      using HN by (intro card_mono) (auto intro: finite_subset)
    also have "\<dots> \<le> card H + card {i. i < NBUF \<and> pinned P s i}" by (rule card_Un_le)
    also have "\<dots> \<le> card H + card P" using card_pinned [OF inv few(1)] by simp
    finally show False using few(2) by simp
  qed
  with None show ?thesis by (simp add: room_def)
next
  case (Some i)
  have i: "i < NBUF" "blockno (bufs s i) = bn"
    using Some cached_Some [OF pin_invD(5) [OF inv]] by auto
  then have "i \<notin> H" using can by (auto simp: held_blocks_def can_read_def)
  moreover have "brefcnt (bufs s i) \<noteq> - 1" using pin_invD(3) [OF inv i(1)] bit01_sum_m1 by metis
  ultimately show ?thesis using Some by (simp add: room_def)
qed

lemma bread_post_calm: "bread_post d bn H s b k t \<Longrightarrow> calm s t"
  unfolding bread_post_def
  by (rule calmI [where c = "cpus (crit s)" and p = "procs s" and b = "(bufs s)(b := k)"
        and l = "(slocks s)(SBuf b := hold b s)"])
    (auto simp: crit_def machine_defs)

lemma brelse_post_calm: "brelse_post b s t \<Longrightarrow> calm s t"
  unfolding brelse_post_def
  by (rule calmI [where c = "cpus (crit s)" and b = "bufs t" and l = "(slocks s)(SBuf b := freed_sl b s)"
        and p = "roused (ChBuf b) (cproc (mycpu s)) {..<NPROC} (procs s)"])
    (auto simp: crit_def machine_defs proc_le_roused)

lemma bread_pin:
  assumes inv: "pin_inv H P s" and can: "can_read H P bn s"
  shows "\<exists>b t. bread ROOTDEV bn s = Inr (b, t) \<and> calm s t \<and> pin_inv (insert b H) P t \<and> b \<notin> H \<and>
    blockno (bufs t b) = bn \<and> data (bufs t b) = view ROOTDEV bn s \<and>
    (\<forall>x. view ROOTDEV x t = view ROOTDEV x s) \<and> (\<forall>i. i \<noteq> b \<longrightarrow> bufs t i = bufs s i)"
proof -
  note bi = pin_invD(1) [OF inv]
  obtain b k t where run: "bread ROOTDEV bn s = Inr (b, t)" and post: "bread_post ROOTDEV bn H s b k t"
    using bread_post [OF bi _ pin_room [OF assms]] by auto
  have t: "bufs t = (bufs s)(b := k)" and k: "b < NBUF" "b \<notin> H" "dev k = ROOTDEV" "blockno k = bn" "valid k"
      "data k = view ROOTDEV bn s"
    using post by (auto simp: bread_post_def)
  note cl = bread_post_calm [OF post]
  note inv' = bread_post_inv [OF bi refl post]
  note cs = cached_Some [OF bc_invD(1) [OF bi], of ROOTDEV] and ct = cached_Some [OF bc_invD(1) [OF inv'(1)], of ROOTDEV]
  have pin: "pinned P t i = pinned P s i" if "i \<noteq> b" for i
    using that by (simp add: pinned_def t)
  have "brefcnt (bufs t i) = bit01 (i \<in> insert b H) + bit01 (pinned P t i)" if "i < NBUF" for i
  proof (cases "i = b")
    case False
    then show ?thesis using that pin_invD(3) [OF inv that] by (simp add: pin t)
  next
    case True
    show ?thesis
    proof (cases "cached ROOTDEV bn s = Some b")
      case True
      then have "dev (bufs s b) = ROOTDEV" "blockno (bufs s b) = bn" using cs by auto
      then have "pinned P t b = pinned P s b" using k by (simp add: pinned_def t)
      then show ?thesis
        using True post \<open>i = b\<close> pin_invD(3) [OF inv k(1)] k(2) by (simp add: bread_post_def)
    next
      case False
      then have "cached ROOTDEV bn s = None" "brefcnt k = 1" using post by (auto simp: bread_post_def split: if_splits)
      then have "bn \<notin> P" using pin_invD(2) [OF inv, of bn] by auto
      then show ?thesis using \<open>i = b\<close> \<open>brefcnt k = 1\<close> k by (simp add: t pinned_def)
    qed
  qed
  moreover have "valid (bufs t i)" if "i < NBUF" "pinned P t i" for i
    using that k pin_invD(4) [OF inv] pin by (cases "i = b") (auto simp: t)
  moreover have "cached ROOTDEV x t \<noteq> None" if x: "x \<in> P" for x
  proof -
    obtain i where i: "i < NBUF" "dev (bufs s i) = ROOTDEV" "blockno (bufs s i) = x"
      using pin_invD(2) [OF inv x] cs by auto
    then have "brefcnt (bufs s i) \<noteq> 0"
      using pin_invD(3) [OF inv i(1)] x bit01_sum_0 [of "i \<in> H" True] by (simp add: pinned_def)
    have "dev (bufs t i) = ROOTDEV \<and> blockno (bufs t i) = x"
    proof (cases "i = b")
      case True
      then have "cached ROOTDEV bn s = Some b" using post \<open>brefcnt (bufs s i) \<noteq> 0\<close> by (auto simp: bread_post_def split: if_splits)
      then show ?thesis using True i k cs by (auto simp: t)
    qed (use i t in simp)
    then show ?thesis using ct i by auto
  qed
  ultimately have "pin_inv (insert b H) P t" using inv'(1) by (auto simp: pin_inv_def)
  then show ?thesis using run cl k t inv'(2) by auto
qed

lemma cached_set_data [simp]: "cached d bn (set_data b x s) = cached d bn s"
  unfolding set_data_def upd_buf_def by (rule unlinked_cached) simp

lemma set_data_simps [simp]:
  "bufs (set_data b x s) i = (if i = b then (bufs s b)\<lparr>data := x\<rparr> else bufs s i)"
  "disk (set_data b x s) = disk s" "slocks (set_data b x s) = slocks s" "locks (set_data b x s) = locks s"
  "my_pid (set_data b x s) = my_pid s"  "procs_free (set_data b x s) = procs_free s"
  "cpu_ok (set_data b x s) = cpu_ok s" "lock_free l (set_data b x s) = lock_free l s"
  "history (set_data b x s) = history s"
  by (simp_all add: set_data_def upd_buf_def lock_free_def)

lemma calm_set_data [simp]: "calm s (set_data b x s)"
  unfolding set_data_def upd_buf_def
  by (rule calmI [where c = "cpus s" and p = "procs s" and l = "slocks s"]) simp_all

lemma held_buf:
  assumes "pin_inv H P s" "b \<in> H"
  shows "b < NBUF" "valid (bufs s b)" "brefcnt (bufs s b) \<noteq> 0" "dev (bufs s b) = ROOTDEV"
    "length (data (bufs s b)) = BSIZE" "cached ROOTDEV (blockno (bufs s b)) s = Some b"
    "view ROOTDEV (blockno (bufs s b)) s = data (bufs s b)"
proof -
  note bi = pin_invD(1) [OF assms(1)]
  show lt: "b < NBUF" using bc_invD(7) [OF bi] assms(2) by auto
  show v: "valid (bufs s b)" "brefcnt (bufs s b) \<noteq> 0" using bi assms(2) by (auto simp: bc_inv_def bc_data_def)
  show d: "dev (bufs s b) = ROOTDEV" "length (data (bufs s b)) = BSIZE"
    using bc_invD(9) [OF bi lt v(1)] by simp_all
  show c: "cached ROOTDEV (blockno (bufs s b)) s = Some b"
    using cached_Some [OF bc_invD(1) [OF bi], of ROOTDEV] lt d by simp
  show "view ROOTDEV (blockno (bufs s b)) s = data (bufs s b)" using c v by (simp add: view_def)
qed

lemma set_data_pin:
  assumes inv: "pin_inv H P s" and b: "b \<in> H" and len: "length x = BSIZE"
  shows "pin_inv H P (set_data b x s)"
    and "view ROOTDEV y (set_data b x s) = (if y = blockno (bufs s b) then x else view ROOTDEV y s)"
proof -
  note bi = pin_invD(1) [OF inv] and B = held_buf [OF inv b]
  let ?t = "set_data b x s"
  have "bc_locks H ?t" using bi by (simp add: bc_inv_def bc_locks_def)
  moreover have "bc_data H ?t"
    using bi B len by (auto simp: bc_inv_def bc_data_def keys_ok_def)
  moreover have "\<exists>xs. lru xs (bufs ?t)"
    using bi by (auto simp: bc_inv_def set_data_def upd_buf_def lru_upd)
  ultimately have "bc_inv H ?t" by (simp add: bc_inv_def)
  then show "pin_inv H P ?t" using inv unfolding pin_inv_def pinned_def by auto
  show "view ROOTDEV y ?t = (if y = blockno (bufs s b) then x else view ROOTDEV y s)"
    using B cached_Some [OF bc_invD(1) [OF bi], of ROOTDEV y b]
    by (auto simp: view_def split: option.split)
qed

lemma brelse_pin:
  assumes inv: "pin_inv H P s" and b: "b \<in> H"
    and clean: "blockno (bufs s b) \<notin> P \<Longrightarrow> data (bufs s b) = disk s (blockno (bufs s b))"
  shows "\<exists>t. brelse b s = Inr t \<and> calm s t \<and> pin_inv (H - {b}) P t \<and>
    (\<forall>x. view ROOTDEV x t = view ROOTDEV x s) \<and>
    (\<forall>i. blockno (bufs t i) = blockno (bufs s i) \<and> data (bufs t i) = data (bufs s i))"
proof -
  note bi = pin_invD(1) [OF inv] and B = held_buf [OF inv b]
  obtain t where run: "brelse b s = Inr t" and post: "brelse_post b s t"
    using brelse_post [OF bi b] by blast
  note cl = brelse_post_calm [OF post]
  have cl1: "data (bufs s b) = disk s (blockno (bufs s b))" if "brefcnt (bufs s b) = 1"
    using that pin_invD(3) [OF inv B(1)] b B(4) clean by (auto simp: bit01_def pinned_def split: if_splits)
  note inv' = brelse_inv [OF bi b post cl1]
  have un: "unlinked (bufs t i) = unlinked (((bufs s)(b := (bufs s b)\<lparr>brefcnt := brefcnt (bufs s b) - 1\<rparr>)) i)" for i
    using post by (simp add: brelse_post_def)
  have core: "valid (bufs t i) = valid (bufs s i)" "dev (bufs t i) = dev (bufs s i)"
      "blockno (bufs t i) = blockno (bufs s i)" "data (bufs t i) = data (bufs s i)"
      "brefcnt (bufs t i) = (if i = b then brefcnt (bufs s b) - 1 else brefcnt (bufs s i))" for i
    using unlinked_eqD [OF un [of i]] by auto
  have pin: "pinned P t i = pinned P s i" for i by (simp add: pinned_def core)
  have "cached d bn t = cached d bn s" for d bn by (simp add: cached_def core)
  then have "pin_inv (H - {b}) P t"
    using inv inv'(1) b by (auto simp: pin_inv_def pin core)
  then show ?thesis using run cl inv'(2) core by auto
qed

lemma written_simps [simp]:
  "bufs (written b s) = bufs s" "slocks (written b s) = slocks s" "locks (written b s) = locks s"
  "disk (written b s) = (disk s)(blockno (bufs s b) := data (bufs s b))"
  "history (written b s) = history s @ [(blockno (bufs s b), data (bufs s b))]"
  "cached d bn (written b s) = cached d bn s"
  by (simp_all add: written_def cached_def)

lemma bwrite_pin:
  assumes inv: "pin_inv H P s" and b: "b \<in> H"
  shows "bwrite b s = Inr (written b s)" and "pin_inv H P (written b s)"
    and "view ROOTDEV y (written b s) = view ROOTDEV y s"
proof -
  note bi = pin_invD(1) [OF inv] and B = held_buf [OF inv b]
  show "bwrite b s = Inr (written b s)" by (rule bwrite_eq [OF bi b])
  show "pin_inv H P (written b s)"
    using inv bwrite_inv [OF bi b] by (simp add: pin_inv_def pinned_def)
  have v: "valid (bufs s b)" using B by simp
  show "view ROOTDEV y (written b s) = view ROOTDEV y s"
    using B by (cases "y = blockno (bufs s b)") (auto simp: view_def split: option.split)
qed

definition unpinned :: "nat \<Rightarrow> 'z bcache_scheme \<Rightarrow> 'z bcache_scheme" where
  "unpinned b s = upd_buf b (\<lambda>k. k\<lparr>brefcnt := brefcnt k - 1\<rparr>) (crit s)"

lemma bunpin_pin:
  assumes inv: "pin_inv H P s" and b: "b \<in> H" "blockno (bufs s b) \<in> P"
  shows "bunpin b s = Inr (unpinned b s)"
    and "pin_inv H (P - {blockno (bufs s b)}) (unpinned b s)" and "calm s (unpinned b s)"
    and "view ROOTDEV y (unpinned b s) = view ROOTDEV y s"
    and "blockno (bufs (unpinned b s) i) = blockno (bufs s i) \<and> data (bufs (unpinned b s) i) = data (bufs s i)"
proof -
  note bi = pin_invD(1) [OF inv] and B = held_buf [OF inv b(1)]
  define t where "t = unpinned b s"
  have bt: "bufs t = (bufs s)(b := (bufs s b)\<lparr>brefcnt := brefcnt (bufs s b) - 1\<rparr>)" and dt: "disk t = disk s"
    by (simp_all add: t_def unpinned_def upd_buf_def)
  show "bunpin b s = Inr (unpinned b s)" using bc_invD [OF bi] by (simp add: flow unpinned_def)
  have two: "brefcnt (bufs s b) = 2"
    using pin_invD(3) [OF inv B(1)] b B(4) by (simp add: pinned_def)
  have ca: "cached d bn t = cached d bn s" for d bn
    unfolding cached_def by (rule find_cong) (auto simp: bt)
  have "bc_inv H ((crit s)\<lparr>bufs := bufs t\<rparr>)"
    using bi b two by (auto simp: bc_inv_def bc_locks_def bc_data_def keys_ok_def lru_upd bt)
  then have "bc_inv H t" by (simp add: t_def unpinned_def upd_buf_def)
  moreover have pin: "pinned (P - {blockno (bufs s b)}) t i \<longleftrightarrow> i \<noteq> b \<and> pinned P s i" if i: "i < NBUF" for i
  proof (cases "i = b")
    case False
    then have "\<not> (dev (bufs s i) = ROOTDEV \<and> blockno (bufs s i) = blockno (bufs s b))"
      using keys_okD [OF pin_invD(5) [OF inv] i B(1), of ROOTDEV "blockno (bufs s b)"] B by auto
    then show ?thesis using False by (auto simp: pinned_def bt)
  qed (simp add: pinned_def bt)
  have "brefcnt (bufs t i) = bit01 (i \<in> H) + bit01 (pinned (P - {blockno (bufs s b)}) t i)" if i: "i < NBUF" for i
    using pin_invD(3) [OF inv i] b two pin [OF i] by (simp add: bt)
  moreover have "valid (bufs t i)" if i: "i < NBUF" "pinned (P - {blockno (bufs s b)}) t i" for i
    using pin_invD(4) [OF inv i(1)] i pin [OF i(1)] by (simp add: bt)
  ultimately have "pin_inv H (P - {blockno (bufs s b)}) t"
    using pin_invD(2) [OF inv] by (simp add: pin_inv_def ca)
  then show "pin_inv H (P - {blockno (bufs s b)}) (unpinned b s)" by (simp add: t_def)
  show "calm s (unpinned b s)" unfolding unpinned_def upd_buf_def
    by (rule calmI [where c = "cpus (crit s)" and p = "procs s" and l = "slocks s" and b = "bufs t"])
      (auto simp: bt crit_def machine_defs)
  have "view ROOTDEV y t = view ROOTDEV y s" unfolding view_def ca by (simp add: bt dt split: option.split)
  then show "view ROOTDEV y (unpinned b s) = view ROOTDEV y s" by (simp add: t_def)
  show "blockno (bufs (unpinned b s) i) = blockno (bufs s i) \<and> data (bufs (unpinned b s) i) = data (bufs s i)"
    by (simp add: unpinned_def upd_buf_def)
qed

subsection \<open>The invariant of a running transaction\<close>

definition logged :: "'z logst_scheme \<Rightarrow> u32 set" where
  "logged s = lh_block s ` {..<nat (lh_n s)}"

definition log_inv :: "nat set \<Rightarrow> 'z logst_scheme \<Rightarrow> bool" where
  "log_inv H s \<longleftrightarrow> pin_inv H (logged s) s \<and> lock_free LLog s \<and> 0 \<le> lh_n s \<and> lh_n s \<le> int LOGBLOCKS \<and>
     inj_on (lh_block s) {..<nat (lh_n s)}"

lemma log_invD:
  assumes "log_inv H s"
  shows "bc_inv H s" "lock_free LLog s" "0 \<le> lh_n s" "lh_n s \<le> int LOGBLOCKS"
    "inj_on (lh_block s) {..<nat (lh_n s)}" "\<And>bn. bn \<in> logged s \<Longrightarrow> cached ROOTDEV bn s \<noteq> None"
    "\<And>i. i < NBUF \<Longrightarrow> brefcnt (bufs s i) = bit01 (i \<in> H) + bit01 (pinned (logged s) s i)"
    "\<And>i. i < NBUF \<Longrightarrow> pinned (logged s) s i \<Longrightarrow> valid (bufs s i)" "pin_inv H (logged s) s"
  using assms by (auto simp: log_inv_def pin_inv_def)

lemma card_logged: "log_inv H s \<Longrightarrow> card (logged s) = nat (lh_n s)"
  using log_invD(5) [of H s] by (simp add: logged_def card_image)

lemma finite_logged [simp]: "finite (logged s)"
  by (simp add: logged_def)

lemma calm_log:
  assumes "calm s t"
  shows "lh_n t = lh_n s" "lh_block t = lh_block s" "outstanding t = outstanding s"
    "committing t = committing s" "lstart t = lstart s" "ldev t = ldev s" "logged t = logged s"
    "lock_free k t = lock_free k s"
proof -
  obtain c p l b where "t = s\<lparr>cpus := c, procs := p, slocks := l, bufs := b\<rparr>"
    using assms unfolding calm_def by blast
  then show "lh_n t = lh_n s" "lh_block t = lh_block s" "outstanding t = outstanding s"
    "committing t = committing s" "lstart t = lstart s" "ldev t = ldev s" "logged t = logged s"
    "lock_free k t = lock_free k s"
    by (simp_all add: logged_def lock_free_def)
qed

lemma log_inv_calm: "log_inv H s \<Longrightarrow> calm s t \<Longrightarrow> pin_inv H' (logged s) t \<Longrightarrow> log_inv H' t"
  by (simp add: log_inv_def calm_log)

lemma log_slot_cases:
  obtains (new) "log_slot bn s = nat (lh_n s)" "bn \<notin> logged s"
  | (old) "log_slot bn s < nat (lh_n s)" "lh_block s (log_slot bn s) = bn" "bn \<in> logged s"
proof -
  let ?P = "\<lambda>i. lh_block s i \<noteq> bn" and ?xs = "[0..<nat (lh_n s)]"
  have le: "log_slot bn s \<le> nat (lh_n s)"
    using length_takeWhile_le [of ?P ?xs] by (simp add: log_slot_def)
  show ?thesis
  proof (cases "log_slot bn s = nat (lh_n s)")
    case True
    then have "takeWhile ?P ?xs = ?xs"
      by (metis log_slot_def length_upt minus_nat.diff_0 takeWhile_eq_take take_all order_refl)
    then have "bn \<notin> logged s" by (auto simp: logged_def takeWhile_eq_all_conv)
    with True new show ?thesis by simp
  next
    case False
    with le have lt: "log_slot bn s < nat (lh_n s)" by simp
    then have "lh_block s (log_slot bn s) = bn"
      using nth_length_takeWhile [of ?P ?xs] by (simp add: log_slot_def)
    moreover from this lt have "bn \<in> logged s"
      unfolding logged_def by (intro image_eqI [of _ _ "log_slot bn s"]) simp_all
    ultimately show ?thesis using lt old by blast
  qed
qed

text \<open>What \<open>log_write\<close> does to the in-memory header: append unless the block is there already.\<close>

definition log_list :: "'z logst_scheme \<Rightarrow> u32 list" where
  "log_list s = map (lh_block s) [0..<nat (lh_n s)]"

lemma set_log_list [simp]: "set (log_list s) = logged s"
  by (auto simp: log_list_def logged_def)

lemma distinct_log_list: "log_inv H s \<Longrightarrow> distinct (log_list s)"
  using log_invD(5) [of H s] by (simp add: log_list_def distinct_map lessThan_atLeast0)

lemma length_log_list [simp]: "length (log_list s) = nat (lh_n s)"
  by (simp add: log_list_def)

definition log_calm :: "'z logst_scheme \<Rightarrow> 'z logst_scheme \<Rightarrow> bool" where
  "log_calm s t \<longleftrightarrow> (\<exists>n blk. calm (s\<lparr>lh_n := n, lh_block := blk\<rparr>) t)"

lemma log_write_log:
  assumes inv: "log_inv H s" and b: "b \<in> H" and op: "1 \<le> outstanding s" and n: "lh_n s < int LOGBLOCKS"
  shows "\<exists>t. log_write b s = Inr t \<and> log_calm s t \<and> log_inv H t \<and> outstanding t = outstanding s \<and>
    log_list t = (if blockno (bufs s b) \<in> logged s then log_list s else log_list s @ [blockno (bufs s b)]) \<and>
    disk t = disk s \<and> (\<forall>x. view ROOTDEV x t = view ROOTDEV x s) \<and>
    (\<forall>i. blockno (bufs t i) = blockno (bufs s i) \<and> data (bufs t i) = data (bufs s i))"
proof -
  note bi = log_invD(1) [OF inv] and D = bc_invD [OF log_invD(1) [OF inv]]
  let ?bn = "blockno (bufs s b)"
  have lt: "b < NBUF" using D(7) b by auto
  have v: "valid (bufs s b)" "dev (bufs s b) = ROOTDEV"
    using bi b D(9) [OF lt] by (auto simp: bc_inv_def bc_data_def)
  have slot: "log_slot bn (acquired LLog s) = log_slot bn s" for bn by (simp add: log_slot_def)
  show ?thesis
  proof (cases rule: log_slot_cases [of ?bn s])
    case old
    then have same: "(lh_block s)(log_slot ?bn s := ?bn) = lh_block s" by auto
    have "(acquired LLog s)\<lparr>lh_block := lh_block (acquired LLog s)\<rparr> = acquired LLog s"
      by (simp del: logst_acquired)
    moreover have "int (log_slot ?bn s) \<noteq> lh_n s" using old(1) by linarith
    ultimately have "log_write b s = Inr (crit s)"
      using op n old log_invD(2,3) [OF inv] D(2)
      by (simp add: log_write_def flow slot same Let_def)
    moreover have "log_inv H (crit s)"
      using inv by (auto simp: log_inv_def pin_inv_def bc_inv_def bc_locks_def bc_data_def logged_def pinned_def)
    moreover have "log_calm s (crit s)"
      unfolding log_calm_def by (rule exI [of _ "lh_n s"], rule exI [of _ "lh_block s"]) simp
    ultimately show ?thesis using old by (auto simp: log_list_def view_def split: option.split)
  next
    case new
    let ?n = "nat (lh_n s)"
    define t where "t = (crit s)\<lparr>bufs := (bufs s)(b := (bufs s b)\<lparr>brefcnt := brefcnt (bufs s b) + 1\<rparr>),
        lh_n := lh_n s + 1, lh_block := (lh_block s)(?n := ?bn)\<rparr>"
    have tf: "bufs t = (bufs s)(b := (bufs s b)\<lparr>brefcnt := brefcnt (bufs s b) + 1\<rparr>)"
        "lh_n t = lh_n s + 1" "lh_block t = (lh_block s)(?n := ?bn)" "disk t = disk s"
        "outstanding t = outstanding s" "lock_free LLog t = lock_free LLog s"
      by (simp_all add: t_def)
    have run: "log_write b s = Inr t"
      using op n new log_invD(2,3) [OF inv] D(2,4)
      by (simp add: log_write_def flow slot upd_buf_def lock_free_acquired t_def)
    have nn: "nat (lh_n s + 1) = Suc ?n" using log_invD(3) [OF inv] by simp
    have lg: "logged t = insert ?bn (logged s)"
      by (auto simp: logged_def nn tf lessThan_Suc)
    have ca: "cached d bn t = cached d bn s" for d bn
      unfolding cached_def by (rule find_cong) (auto simp: tf)
    have nb: "brefcnt (bufs s b) = 1"
      using log_invD(7) [OF inv lt] b new by (simp add: pinned_def)
    have "bc_inv H ((crit s)\<lparr>bufs := bufs t\<rparr>)"
      using bi b nb by (auto simp: bc_inv_def bc_locks_def bc_data_def keys_ok_def lru_upd tf)
    then have "bc_inv H t" by (simp add: t_def)
    moreover have "inj_on (lh_block t) {..<nat (lh_n t)}"
    proof -
      have "inj_on (lh_block t) {..<?n}" using log_invD(5) [OF inv] by (auto simp: inj_on_def tf)
      moreover have "lh_block t ?n \<notin> lh_block t ` {..<?n}" using new(2) by (auto simp: logged_def tf)
      ultimately show ?thesis by (simp add: nn lessThan_Suc tf)
    qed
    moreover have "cached ROOTDEV bn t \<noteq> None" if "bn \<in> logged t" for bn
      using that log_invD(6) [OF inv, of bn] cached_Some [OF D(1), of ROOTDEV ?bn b] lt v
      by (auto simp: ca lg)
    moreover have pin: "pinned (logged t) t i \<longleftrightarrow> i = b \<or> pinned (logged s) s i" if i: "i < NBUF" for i
    proof (cases "i = b")
      case False
      then have "\<not> (dev (bufs s i) = ROOTDEV \<and> blockno (bufs s i) = ?bn)"
        using keys_okD [OF D(1) i lt, of ROOTDEV ?bn] v by auto
      then show ?thesis using False by (auto simp: pinned_def lg tf)
    qed (use v in \<open>simp add: pinned_def lg tf\<close>)
    have "brefcnt (bufs t i) = bit01 (i \<in> H) + bit01 (pinned (logged t) t i)" if i: "i < NBUF" for i
      using log_invD(7) [OF inv i] b nb pin [OF i] by (simp add: tf)
    moreover have "valid (bufs t i)" if i: "i < NBUF" "pinned (logged t) t i" for i
      using log_invD(8) [OF inv i(1)] v i pin [OF i(1)] by (auto simp: tf)
    ultimately have "log_inv H t"
      using n log_invD(2,3) [OF inv] tf by (simp add: log_inv_def pin_inv_def)
    moreover have "log_calm s t"
      unfolding log_calm_def t_def
      by (rule exI [of _ "lh_n s + 1"], rule exI [of _ "(lh_block s)(?n := ?bn)"],
          rule calmI [where c = "cpus (crit s)" and p = "procs s" and l = "slocks s" and
            b = "(bufs s)(b := (bufs s b)\<lparr>brefcnt := brefcnt (bufs s b) + 1\<rparr>)"])
        (auto simp: crit_def machine_defs)
    moreover have "log_list t = log_list s @ [?bn]"
      by (simp add: log_list_def nn tf)
    moreover have "view ROOTDEV x t = view ROOTDEV x s" for x
      unfolding view_def ca by (simp add: tf split: option.split)
    ultimately show ?thesis using run new tf by (intro exI [of _ t]) simp
  qed
qed

end
