(* ===== verification/Commit.thy ===== *)
theory Commit
  imports Log
begin

section \<open>Commit, recovery and crash safety of the log\<close>

text \<open>
  What \<open>commit\<close> and \<open>recover_from_log\<close> do to the disk.  A commit is a sequence of block
  writes (\<open>commit_writes\<close>); the theorem at the end says that recovery, started on the disk that
  any prefix of that sequence leaves, yields the blocks before or after the transaction and
  nothing in between.
\<close>

subsection \<open>Disk writes\<close>

definition apply_writes :: "(u32 \<times> u8 list) list \<Rightarrow> (u32 \<Rightarrow> u8 list) \<Rightarrow> u32 \<Rightarrow> u8 list" where
  "apply_writes ws d = fold (\<lambda>(b, x) d. d(b := x)) ws d"

lemma apply_writes_simps [simp]:
  "apply_writes [] d = d" "apply_writes (ws @ vs) d = apply_writes vs (apply_writes ws d)"
  "apply_writes ((b, x) # ws) d = apply_writes ws (d(b := x))"
  by (simp_all add: apply_writes_def)

text \<open>\<open>did s ws t\<close>: from \<open>s\<close> to \<open>t\<close> the device performed the writes \<open>ws\<close>, and else the step is calm.\<close>

definition did :: "'z bcache_scheme \<Rightarrow> (u32 \<times> u8 list) list \<Rightarrow> 'z bcache_scheme \<Rightarrow> bool" where
  "did s ws t \<longleftrightarrow> calm (s\<lparr>disk := apply_writes ws (disk s), history := history s @ ws\<rparr>) t"

lemma did_calm: "calm s t \<Longrightarrow> did s [] t"
  by (simp add: did_def)

lemma calm_disk_upd: "calm s t \<Longrightarrow> calm (s\<lparr>disk := d, history := h\<rparr>) (t\<lparr>disk := d, history := h\<rparr>)"
proof -
  assume "calm s t"
  then obtain c p l b where t: "t = s\<lparr>cpus := c, procs := p, slocks := l, bufs := b\<rparr>"
    and t': "\<And>h. cproc (c h) = cproc (cpus s h)" "\<And>i. proc_le (procs s i) (p i)"
    "\<And>j. l (SInode j) = slocks s (SInode j)"
    unfolding calm_def by blast
  show ?thesis
    by (rule calmI [where c = c and p = p and l = l and b = b]) (use t t' in simp_all)
qed

lemma did_trans:
  assumes "did s ws t" "did t vs u"
  shows "did s (ws @ vs) u"
proof -
  have t: "disk t = apply_writes ws (disk s)" "history t = history s @ ws"
    using calmD [OF assms(1) [unfolded did_def]] by simp_all
  from calm_disk_upd [OF assms(1) [unfolded did_def], where d = "apply_writes vs (disk t)" and h = "history t @ vs"]
  have "calm (s\<lparr>disk := apply_writes (ws @ vs) (disk s), history := history s @ ws @ vs\<rparr>)
      (t\<lparr>disk := apply_writes vs (disk t), history := history t @ vs\<rparr>)"
    by (simp add: t)
  from calm_trans [OF this assms(2) [unfolded did_def]] show ?thesis by (simp add: did_def)
qed

lemma did_written: "did s [(blockno (bufs s b), data (bufs s b))] (written b s)"
  using calm_disk_upd [OF calm_crit [of s]] by (simp add: did_def written_def)

lemma didD:
  assumes "did s ws t"
  shows "disk t = apply_writes ws (disk s)" "history t = history s @ ws"
  using calmD [OF assms [unfolded did_def]] by simp_all

lemma did_log:
  assumes "did s ws t"
  shows "lh_n t = lh_n s" "lh_block t = lh_block s" "outstanding t = outstanding s"
    "committing t = committing s" "lstart t = lstart s" "ldev t = ldev s" "logged t = logged s"
    "lock_free l t = lock_free l s"
  using calm_log [OF assms [unfolded did_def]] by (simp_all add: logged_def)

lemma did_lh_n: "did s ws t \<Longrightarrow> did (s\<lparr>lh_n := n\<rparr>) ws (t\<lparr>lh_n := n\<rparr>)"
proof -
  assume "did s ws t"
  then obtain c p l b where
    t: "t = s\<lparr>disk := apply_writes ws (disk s), history := history s @ ws, cpus := c, procs := p, slocks := l, bufs := b\<rparr>"
    and t': "\<And>h. cproc (c h) = cproc (cpus s h)" "\<And>i. proc_le (procs s i) (p i)"
    "\<And>j. l (SInode j) = slocks s (SInode j)"
    unfolding did_def calm_def by auto
  show ?thesis unfolding did_def
    by (rule calmI [where c = c and p = p and l = l and b = b]) (use t t' in simp_all)
qed

lemma view_clean:
  assumes "pin_inv H P s" "bn \<notin> P" "bn \<notin> held_blocks H s"
  shows "view ROOTDEV bn s = disk s bn"
proof (cases "cached ROOTDEV bn s")
  case (Some i)
  then have i: "i < NBUF" "dev (bufs s i) = ROOTDEV" "blockno (bufs s i) = bn"
    using cached_Some [OF pin_invD(5) [OF assms(1)], of ROOTDEV bn i] by auto
  then have "i \<notin> H" using assms(3) by (auto simp: held_blocks_def)
  then have "brefcnt (bufs s i) = 0"
    using pin_invD(3) [OF assms(1) i(1)] assms(2) i by (simp add: pinned_def)
  then show ?thesis
    using Some i bc_invD(10) [OF pin_invD(1) [OF assms(1)] i(1)] by (simp add: view_def)
qed (simp add: view_def)

subsection \<open>One block of a commit\<close>

definition log_at :: "'z logst_scheme \<Rightarrow> nat \<Rightarrow> u32" where
  "log_at s j = lstart s + of_nat j + 1"

lemma copy_block:
  assumes inv: "pin_inv {} P s" and a: "can_read {} P a s" and b: "b \<in> P \<or> finite P \<and> 1 + card P < NBUF" and ne: "a \<noteq> b"
  obtains x y s1 s2 where "bread ROOTDEV a s = Inr (x, s1)" "bread ROOTDEV b s1 = Inr (y, s2)"
    "calm s s1" "calm s s2" "pin_inv {x, y} P s2" "x \<noteq> y" "blockno (bufs s2 x) = a" "blockno (bufs s2 y) = b"
    "data (bufs s2 x) = view ROOTDEV a s" "data (bufs s2 y) = view ROOTDEV b s"
    "\<And>z. view ROOTDEV z s2 = view ROOTDEV z s"
proof -
  obtain x s1 where 1: "bread ROOTDEV a s = Inr (x, s1)" "calm s s1" "pin_inv {x} P s1"
      "blockno (bufs s1 x) = a" "data (bufs s1 x) = view ROOTDEV a s" "\<And>z. view ROOTDEV z s1 = view ROOTDEV z s"
    using bread_pin [OF inv a] by auto
  have "can_read {x} P b s1" using b ne 1(4) by (auto simp: can_read_def held_blocks_def)
  then obtain y s2 where 2: "bread ROOTDEV b s1 = Inr (y, s2)" "calm s1 s2" "pin_inv {y, x} P s2" "y \<noteq> x"
      "blockno (bufs s2 y) = b" "data (bufs s2 y) = view ROOTDEV b s1"
      "\<And>z. view ROOTDEV z s2 = view ROOTDEV z s1" "\<And>i. i \<noteq> y \<Longrightarrow> bufs s2 i = bufs s1 i"
    using bread_pin [OF 1(3), of b] by auto
  have x: "bufs s2 x = bufs s1 x" using 2(8) [of x] 2(4) by simp
  have "pin_inv {x, y} P s2" using 2(3) by (simp add: insert_commute)
  then show thesis
    by (rule that [OF 1(1) 2(1) 1(2) calm_trans [OF 1(2) 2(2)]])
      (simp_all add: x 1(4,5,6) 2(5,6,7) 2(4) [symmetric])
qed

lemma write_log_one_ok:
  assumes inv: "pin_inv {} P s" and few: "finite P" "card P < NBUF" and dev: "ldev s = ROOTDEV"
    and P: "lh_block s tail \<in> P" and ne: "log_at s tail \<notin> P"
  shows "\<exists>t. write_log_one tail s = Inr t \<and> pin_inv {} P t \<and>
    did s [(log_at s tail, view ROOTDEV (lh_block s tail) s)] t \<and>
    (\<forall>z. view ROOTDEV z t = (if z = log_at s tail then view ROOTDEV (lh_block s tail) s else view ROOTDEV z s))"
proof -
  let ?a = "log_at s tail" and ?b = "lh_block s tail"
  have a: "can_read {} P ?a s" using few by (simp add: can_read_def held_blocks_def)
  have ab: "?a \<noteq> ?b" using P ne by auto
  obtain x y s1 s2 where r: "bread ROOTDEV ?a s = Inr (x, s1)" "bread ROOTDEV ?b s1 = Inr (y, s2)"
    and c: "calm s s1" "calm s s2" and p2: "pin_inv {x, y} P s2" and n: "x \<noteq> y" "blockno (bufs s2 x) = ?a"
      "blockno (bufs s2 y) = ?b" "data (bufs s2 y) = view ROOTDEV ?b s"
    and v2: "\<And>z. view ROOTDEV z s2 = view ROOTDEV z s"
    by (rule copy_block [OF inv a disjI1 [OF P] ab]) (rule that; assumption)
  let ?v = "view ROOTDEV ?b s"
  have len: "length ?v = BSIZE" using held_buf(5) [OF p2, of y] n by simp
  let ?s3 = "set_data x ?v s2"
  have p3: "pin_inv {x, y} P ?s3" and v3: "\<And>z. view ROOTDEV z ?s3 = (if z = ?a then ?v else view ROOTDEV z s)"
    using set_data_pin [OF p2 _ len, of x] n v2 by auto
  have w: "bwrite x ?s3 = Inr (written x ?s3)" and p4: "pin_inv {x, y} P (written x ?s3)"
    and v4: "\<And>z. view ROOTDEV z (written x ?s3) = view ROOTDEV z ?s3"
    using bwrite_pin [OF p3, of x] by auto
  have b4: "bufs (written x ?s3) x = (bufs s2 x)\<lparr>data := ?v\<rparr>" "bufs (written x ?s3) y = bufs s2 y"
    using n by simp_all
  obtain s5 where r5: "brelse y (written x ?s3) = Inr s5" "calm (written x ?s3) s5" "pin_inv {x} P s5"
      "\<And>z. view ROOTDEV z s5 = view ROOTDEV z (written x ?s3)"
      "\<And>i. blockno (bufs s5 i) = blockno (bufs (written x ?s3) i)" "\<And>i. data (bufs s5 i) = data (bufs (written x ?s3) i)"
    using brelse_pin [OF p4, of y] P n by (auto simp: insert_Diff_if)
  have d5: "data (bufs s5 x) = disk s5 (blockno (bufs s5 x))"
    using r5(5,6) calmD(2) [OF r5(2)] b4 n by simp
  obtain s6 where r6: "brelse x s5 = Inr s6" "calm s5 s6" "pin_inv {} P s6"
      "\<And>z. view ROOTDEV z s6 = view ROOTDEV z s5"
    using brelse_pin [OF r5(3), of x] d5 by auto
  have "did s2 [(?a, ?v)] (written x ?s3)"
    using did_trans [OF did_calm [OF calm_set_data [of s2 x ?v]] did_written [of ?s3 x]] n by simp
  then have "did s [(?a, ?v)] s6"
    using did_trans [OF did_calm [OF c(2)]] did_trans [OF _ did_calm [OF r5(2)]] did_trans [OF _ did_calm [OF r6(2)]]
    by fastforce
  moreover have "write_log_one tail s = Inr s6"
    using r w r5(1) r6(1) n(4) calm_log(2,6) [OF c(1)] dev by (simp add: write_log_one_def log_at_def)
  ultimately show ?thesis using r6 r5 v4 v3 by auto
qed


lemma install_one_ok:
  assumes inv: "pin_inv {} P s" and few: "finite P" "card P < NBUF" and dev: "ldev s = ROOTDEV"
    and P: "if recovering then lh_block s tail \<notin> P \<and> 1 + card P < NBUF else lh_block s tail \<in> P"
    and ne: "log_at s tail \<notin> P" "log_at s tail \<noteq> lh_block s tail"
  shows "\<exists>t. install_one recovering tail s = Inr t \<and> pin_inv {} (P - {lh_block s tail}) t \<and>
    did s [(lh_block s tail, disk s (log_at s tail))] t \<and>
    (\<forall>z. view ROOTDEV z t = (if z = lh_block s tail then disk s (log_at s tail) else view ROOTDEV z s))"
proof -
  let ?a = "log_at s tail" and ?b = "lh_block s tail"
  have a: "can_read {} P ?a s" using few by (simp add: can_read_def held_blocks_def)
  have b: "?b \<in> P \<or> finite P \<and> 1 + card P < NBUF" using P few by (auto split: if_splits)
  obtain x y s1 s2 where r: "bread ROOTDEV ?a s = Inr (x, s1)" "bread ROOTDEV ?b s1 = Inr (y, s2)"
    and c: "calm s s1" "calm s s2" and p2: "pin_inv {x, y} P s2" and n: "x \<noteq> y" "blockno (bufs s2 x) = ?a"
      "blockno (bufs s2 y) = ?b" "data (bufs s2 x) = view ROOTDEV ?a s"
    and v2: "\<And>z. view ROOTDEV z s2 = view ROOTDEV z s"
    by (rule copy_block [OF inv a b ne(2)]) (rule that; assumption)
  let ?v = "disk s ?a"
  have va: "view ROOTDEV ?a s = ?v" using view_clean [OF inv ne(1)] by (simp add: held_blocks_def)
  have len: "length ?v = BSIZE" using held_buf(5) [OF p2, of x] n va by simp
  let ?s3 = "set_data y ?v s2"
  have p3: "pin_inv {x, y} P ?s3" and v3: "\<And>z. view ROOTDEV z ?s3 = (if z = ?b then ?v else view ROOTDEV z s)"
    using set_data_pin [OF p2 _ len, of y] n v2 by auto
  let ?s4 = "written y ?s3"
  have w: "bwrite y ?s3 = Inr ?s4" and p4: "pin_inv {x, y} P ?s4"
    and v4: "\<And>z. view ROOTDEV z ?s4 = view ROOTDEV z ?s3"
    using bwrite_pin [OF p3, of y] by auto
  have b4: "blockno (bufs ?s4 x) = ?a" "data (bufs ?s4 x) = ?v" "blockno (bufs ?s4 y) = ?b" "data (bufs ?s4 y) = ?v"
    "disk ?s4 ?a = ?v" "disk ?s4 ?b = ?v"
    using n ne va calmD(2) [OF c(2)] by simp_all
  obtain s5 where r5: "(if \<not> recovering then bunpin y ?s4 else Inr ?s4) = Inr s5" and c5: "calm ?s4 s5"
    and p5: "pin_inv {x, y} (P - {?b}) s5" and v5: "\<And>z. view ROOTDEV z s5 = view ROOTDEV z ?s4"
    and b5: "\<And>i. blockno (bufs s5 i) = blockno (bufs ?s4 i)" "\<And>i. data (bufs s5 i) = data (bufs ?s4 i)"
  proof (cases recovering)
    case True
    then show ?thesis using that [of ?s4] p4 P by simp
  next
    case False
    then have "blockno (bufs ?s4 y) \<in> P" using P b4 by simp
    from bunpin_pin [OF p4 _ this] False show ?thesis using that [of "unpinned y ?s4"] b4 by simp
  qed
  have d5: "disk s5 = disk ?s4" using calmD(2) [OF c5] .
  obtain s6 where r6: "brelse x s5 = Inr s6" "calm s5 s6" "pin_inv {y} (P - {?b}) s6"
      "\<And>z. view ROOTDEV z s6 = view ROOTDEV z s5"
      "\<And>i. blockno (bufs s6 i) = blockno (bufs s5 i)" "\<And>i. data (bufs s6 i) = data (bufs s5 i)"
  proof -
    have "data (bufs s5 x) = disk s5 (blockno (bufs s5 x))" by (simp only: b5 b4 d5)
    moreover have "{x, y} - {x} = {y}" using n(1) by auto
    ultimately obtain t where "brelse x s5 = Inr t" "calm s5 t" "pin_inv {y} (P - {?b}) t"
      "\<forall>z. view ROOTDEV z t = view ROOTDEV z s5"
      "\<forall>i. blockno (bufs t i) = blockno (bufs s5 i) \<and> data (bufs t i) = data (bufs s5 i)"
      using brelse_pin [OF p5, of x] by auto
    then show thesis by (intro that [of t]) auto
  qed
  have "data (bufs s6 y) = disk s6 (blockno (bufs s6 y))"
    using r6(5,6) b5 b4(3,4,6) d5 calmD(2) [OF r6(2)] by simp
  then obtain s7 where r7: "brelse y s6 = Inr s7" "calm s6 s7" "pin_inv {} (P - {?b}) s7"
      "\<And>z. view ROOTDEV z s7 = view ROOTDEV z s6"
    using brelse_pin [OF r6(3), of y] by auto
  have "did s2 [(?b, ?v)] ?s4"
    using did_trans [OF did_calm [OF calm_set_data [of s2 y ?v]] did_written [of ?s3 y]] n by simp
  then have "did s2 [(?b, ?v)] s7"
    using did_trans [OF _ did_calm [OF calm_trans [OF c5 calm_trans [OF r6(2) r7(2)]]]] by fastforce
  then have "did s [(?b, ?v)] s7" using did_trans [OF did_calm [OF c(2)]] by fastforce
  moreover have "install_one recovering tail s = Inr s7"
    using r w r5 r6(1) r7(1) n va calm_log(2,6) [OF c(1)] dev
    by (cases recovering) (simp_all add: install_one_def log_at_def)
  ultimately show ?thesis using r7 r6 v5 v4 v3 by auto
qed

definition hdr_image :: "u32 list \<Rightarrow> u8 list \<Rightarrow> u8 list" where
  "hdr_image bs d = put_blocks (\<lambda>i. bs ! i) [0..<length bs] (putw 4 d 0 (of_nat (length bs) :: u32))"

lemma put_blocks_cong: "(\<And>i. i \<in> set is \<Longrightarrow> f i = g i) \<Longrightarrow> put_blocks f is d = put_blocks g is d"
  by (induction "is" arbitrary: d) simp_all

lemma put_blocks_append: "put_blocks f (xs @ ys) d = put_blocks f ys (put_blocks f xs d)"
  by (induction xs arbitrary: d) simp_all

lemma length_put_blocks: "(\<And>i. i \<in> set is \<Longrightarrow> 8 + 4 * i \<le> length d) \<Longrightarrow> length (put_blocks f is d) = length d"
  by (induction "is" arbitrary: d) simp_all

lemma length_hdr_image: "length bs \<le> LOGBLOCKS \<Longrightarrow> length d = BSIZE \<Longrightarrow> length (hdr_image bs d) = BSIZE"
  unfolding hdr_image_def by (subst length_put_blocks) auto

lemma write_head_ok:
  assumes inv: "pin_inv {} P s" and few: "finite P" "card P < NBUF" and dev: "ldev s = ROOTDEV"
    and ne: "lstart s \<notin> P" and n: "0 \<le> lh_n s" "lh_n s \<le> int LOGBLOCKS"
  shows "\<exists>t. write_head s = Inr t \<and> pin_inv {} P t \<and>
    did s [(lstart s, hdr_image (log_list s) (disk s (lstart s)))] t \<and>
    (\<forall>z. z \<noteq> lstart s \<longrightarrow> view ROOTDEV z t = view ROOTDEV z s)"
proof -
  let ?a = "lstart s"
  have a: "can_read {} P ?a s" using few by (simp add: can_read_def held_blocks_def)
  obtain x s1 where r1: "bread ROOTDEV ?a s = Inr (x, s1)" "calm s s1" "pin_inv {x} P s1"
      "blockno (bufs s1 x) = ?a" "data (bufs s1 x) = view ROOTDEV ?a s" "\<And>z. view ROOTDEV z s1 = view ROOTDEV z s"
    using bread_pin [OF inv a] by auto
  have va: "view ROOTDEV ?a s = disk s ?a" using view_clean [OF inv ne] by (simp add: held_blocks_def)
  let ?v = "hdr_image (log_list s) (disk s ?a)"
  have len: "length ?v = BSIZE"
    using held_buf(5) [OF r1(3), of x] r1(5) va n by (intro length_hdr_image) simp_all
  have img: "put_blocks (lh_block s) [0..<nat (lh_n s)] (putw 4 (disk s ?a) 0 (word_of_int (lh_n s) :: u32)) = ?v"
  proof -
    have "(word_of_int (lh_n s) :: u32) = of_nat (length (log_list s))" using n by (simp add: of_nat_nat)
    then show ?thesis
      by (auto simp: hdr_image_def log_list_def intro!: put_blocks_cong)
  qed
  let ?s2 = "set_data x ?v s1" and ?s3 = "written x (set_data x ?v s1)"
  have p2: "pin_inv {x} P ?s2" and v2: "\<And>z. z \<noteq> ?a \<Longrightarrow> view ROOTDEV z ?s2 = view ROOTDEV z s"
    using set_data_pin [OF r1(3) _ len, of x] r1(4,6) by auto
  have w: "bwrite x ?s2 = Inr ?s3" and p3: "pin_inv {x} P ?s3" and v3: "\<And>z. view ROOTDEV z ?s3 = view ROOTDEV z ?s2"
    using bwrite_pin [OF p2, of x] by auto
  have "data (bufs ?s3 x) = disk ?s3 (blockno (bufs ?s3 x))" using r1(4) by simp
  then obtain s4 where r4: "brelse x ?s3 = Inr s4" "calm ?s3 s4" "pin_inv {} P s4"
      "\<And>z. view ROOTDEV z s4 = view ROOTDEV z ?s3"
    using brelse_pin [OF p3, of x] by auto
  have "did s1 [(?a, ?v)] ?s3"
    using did_trans [OF did_calm [OF calm_set_data [of s1 x ?v]] did_written [of ?s2 x]] r1(4) by simp
  then have "did s1 [(?a, ?v)] s4" using did_trans [OF _ did_calm [OF r4(2)]] by fastforce
  then have "did s [(?a, ?v)] s4" using did_trans [OF did_calm [OF r1(2)]] by fastforce
  moreover have "write_head s = Inr s4"
    using r1(1,5) w r4(1) va img calm_log [OF r1(2)] dev by (simp add: write_head_def)
  ultimately show ?thesis using r4(3,4) v3 v2 by auto
qed


subsection \<open>A whole commit\<close>

definition log_area :: "u32 \<Rightarrow> u32 set" where
  "log_area start = (\<lambda>j. start + of_nat j) ` {..LOGBLOCKS}"

definition log_layout :: "'z logst_scheme \<Rightarrow> bool" where
  "log_layout s \<longleftrightarrow> ldev s = ROOTDEV \<and> logged s \<inter> log_area (lstart s) = {}"

definition log_writes :: "u32 \<Rightarrow> u32 list \<Rightarrow> (u32 \<Rightarrow> u8 list) \<Rightarrow> (u32 \<times> u8 list) list" where
  "log_writes start bs v = map (\<lambda>j. (start + of_nat j + 1, v (bs ! j))) [0..<length bs]"

definition home_writes :: "u32 list \<Rightarrow> (u32 \<Rightarrow> u8 list) \<Rightarrow> (u32 \<times> u8 list) list" where
  "home_writes bs v = map (\<lambda>b. (b, v b)) bs"

definition commit_writes :: "u32 \<Rightarrow> u32 list \<Rightarrow> (u32 \<Rightarrow> u8 list) \<Rightarrow> u8 list \<Rightarrow> (u32 \<times> u8 list) list" where
  "commit_writes start bs v h =
     log_writes start bs v @ [(start, hdr_image bs h)] @ home_writes bs v @
     [(start, hdr_image [] (hdr_image bs h))]"

lemma log_at_area: "j < LOGBLOCKS \<Longrightarrow> start + of_nat j + 1 \<in> log_area start"
  unfolding log_area_def by (rule image_eqI [of _ _ "Suc j"]) simp_all

lemma start_area: "start \<in> log_area start"
  unfolding log_area_def by (rule image_eqI [of _ _ 0]) simp_all

lemma of_nat_u32_inj: "i < 2 ^ 32 \<Longrightarrow> j < 2 ^ 32 \<Longrightarrow> (of_nat i :: u32) = of_nat j \<longleftrightarrow> i = j"
  by (auto dest!: arg_cong [where f = unat] simp: unat_of_nat)

lemma logged_nth: "j < nat (lh_n s) \<Longrightarrow> lh_block s j = log_list s ! j \<and> lh_block s j \<in> logged s"
  by (auto simp: log_list_def logged_def)

lemma write_log_ok:
  assumes inv: "pin_inv {} (logged s) s" and lay: "log_layout s" and n: "nat (lh_n s) < LOGBLOCKS"
    and card: "card (logged s) < NBUF"
  defines "v \<equiv> \<lambda>b. view ROOTDEV b s"
  shows "\<exists>t. write_log s = Inr t \<and> pin_inv {} (logged s) t \<and> did s (log_writes (lstart s) (log_list s) v) t \<and>
    (\<forall>z. z \<notin> log_area (lstart s) \<longrightarrow> view ROOTDEV z t = v z)"
proof -
  let ?W = "log_writes (lstart s) (log_list s) v"
  define I where "I k t \<longleftrightarrow> pin_inv {} (logged s) t \<and> did s (take k ?W) t \<and>
    (\<forall>z. z \<notin> log_area (lstart s) \<longrightarrow> view ROOTDEV z t = v z)" for k t
  have "\<exists>t. for_each write_log_one [0..<nat (lh_n s)] s = Inr t \<and> I (nat (lh_n s)) t"
  proof (rule for_each_inv)
    show "I 0 s" using inv by (simp add: I_def v_def did_calm)
    fix i t assume i: "i < nat (lh_n s)" and I: "I i t"
    then have It: "pin_inv {} (logged s) t" "did s (take i ?W) t"
        "\<And>z. z \<notin> log_area (lstart s) \<Longrightarrow> view ROOTDEV z t = v z"
      by (auto simp: I_def)
    note fr = did_log [OF It(2)]
    have blk: "lh_block t i \<in> logged s" "lh_block t i \<notin> log_area (lstart s)"
      using logged_nth [OF i] lay fr(2) by (auto simp: log_layout_def)
    have at: "log_at t i = lstart s + of_nat i + 1" "log_at t i \<in> log_area (lstart s)"
      using log_at_area [of i] i n fr(5) by (simp_all add: log_at_def)
    then have at': "log_at t i \<notin> logged s" using lay by (auto simp: log_layout_def)
    have dv: "ldev t = ROOTDEV" using fr(6) lay by (simp add: log_layout_def)
    obtain u where u: "write_log_one i t = Inr u" "pin_inv {} (logged s) u"
        "did t [(log_at t i, view ROOTDEV (lh_block t i) t)] u"
        "\<And>z. view ROOTDEV z u = (if z = log_at t i then view ROOTDEV (lh_block t i) t else view ROOTDEV z t)"
      using write_log_one_ok [OF It(1) _ card dv blk(1) at'] by auto
    have "take (Suc i) ?W = take i ?W @ [(log_at t i, view ROOTDEV (lh_block t i) t)]"
      using i at(1) blk(2) It(3) logged_nth [OF i] fr(2) by (simp add: log_writes_def take_Suc_conv_app_nth)
    then have "did s (take (Suc i) ?W) u" using did_trans [OF It(2) u(3)] by simp
    then have "I (Suc i) u" using u It(3) at(2) by (auto simp: I_def)
    then show "\<exists>u. write_log_one i t = Inr u \<and> I (Suc i) u" using u(1) by blast
  qed
  moreover have "take (nat (lh_n s)) ?W = ?W" by (simp add: log_writes_def)
  ultimately show ?thesis by (auto simp: I_def write_log_def)
qed

lemma apply_writes_outside: "b \<notin> fst ` set ws \<Longrightarrow> apply_writes ws d b = d b"
  by (induction ws rule: rev_induct) (auto simp: apply_writes_def split: prod.splits)

lemma install_trans_ok:
  assumes inv: "pin_inv {} P s" and P: "if recovering then P = {} else P = logged s"
    and lay: "log_layout s" and dist: "distinct (log_list s)"
    and n: "nat (lh_n s) \<le> LOGBLOCKS" and card: "card P < NBUF"
    and v: "\<And>j. j < nat (lh_n s) \<Longrightarrow> disk s (log_at s j) = v (lh_block s j)"
  shows "\<exists>t. install_trans recovering s = Inr t \<and> pin_inv {} {} t \<and> did s (home_writes (log_list s) v) t \<and>
    (\<forall>z. view ROOTDEV z t = (if z \<in> logged s then v z else view ROOTDEV z s))"
proof -
  let ?W = "home_writes (log_list s) v" and ?L = "log_list s"
  define I where "I k t \<longleftrightarrow> pin_inv {} (P - set (take k ?L)) t \<and> did s (take k ?W) t \<and>
    (\<forall>z. view ROOTDEV z t = (if z \<in> set (take k ?L) then v z else view ROOTDEV z s))" for k t
  have fin: "finite P" using P by (auto split: if_splits)
  have "\<exists>t. for_each (install_one recovering) [0..<nat (lh_n s)] s = Inr t \<and> I (nat (lh_n s)) t"
  proof (rule for_each_inv)
    show "I 0 s" using inv by (simp add: I_def did_calm)
    fix i t assume i: "i < nat (lh_n s)" and I: "I i t"
    let ?P = "P - set (take i ?L)"
    have It: "pin_inv {} ?P t" "did s (take i ?W) t"
        "\<And>z. view ROOTDEV z t = (if z \<in> set (take i ?L) then v z else view ROOTDEV z s)"
      using I by (auto simp: I_def)
    note fr = did_log [OF It(2)]
    have bi: "lh_block t i = ?L ! i" "?L ! i \<in> logged s" using logged_nth [OF i] fr(2) by auto
    have nin: "?L ! i \<notin> set (take i ?L)"
      using dist i by (auto simp: in_set_conv_nth nth_eq_iff_index_eq)
    have le: "card ?P \<le> card P" using fin by (intro card_mono) auto
    have at: "log_at t i = log_at s i" "log_at s i \<in> log_area (lstart s)"
      using log_at_area [of i] i n fr(5) by (simp_all add: log_at_def)
    then have at': "log_at t i \<notin> logged s" using lay by (auto simp: log_layout_def)
    then have at2: "log_at t i \<notin> ?P" "log_at t i \<noteq> lh_block t i" using P bi by (auto split: if_splits)
    have dv: "ldev t = ROOTDEV" using fr(6) lay by (simp add: log_layout_def)
    have Pi: "if recovering then lh_block t i \<notin> ?P \<and> 1 + card ?P < NBUF else lh_block t i \<in> ?P"
      using P bi nin by auto
    obtain u where u: "install_one recovering i t = Inr u" "pin_inv {} (?P - {?L ! i}) u"
        "did t [(?L ! i, disk t (log_at t i))] u"
        "\<And>z. view ROOTDEV z u = (if z = ?L ! i then disk t (log_at t i) else view ROOTDEV z t)"
      using install_one_ok [OF It(1) _ _ dv Pi at2] fin le card bi by auto
    have "fst ` set (take i ?W) \<subseteq> logged s"
      by (auto simp: home_writes_def take_map dest!: in_set_takeD)
    then have "log_at s i \<notin> fst ` set (take i ?W)" using at' at(1) by auto
    then have "disk t (log_at t i) = disk s (log_at s i)"
      by (simp add: didD(1) [OF It(2)] apply_writes_outside at(1))
    then have di: "disk t (log_at t i) = v (?L ! i)" using v [OF i] logged_nth [OF i] by simp
    have tk: "take (Suc i) ?L = take i ?L @ [?L ! i]" using i by (simp add: take_Suc_conv_app_nth)
    have "take (Suc i) ?W = take i ?W @ [(?L ! i, v (?L ! i))]"
      using i by (simp add: home_writes_def take_Suc_conv_app_nth)
    then have "did s (take (Suc i) ?W) u" using did_trans [OF It(2) u(3)] di by simp
    moreover have "P - set (take (Suc i) ?L) = ?P - {?L ! i}" using tk by auto
    ultimately have "I (Suc i) u" using u It(3) di tk by (auto simp: I_def)
    then show "\<exists>u. install_one recovering i t = Inr u \<and> I (Suc i) u" using u(1) by blast
  qed
  moreover have "take (nat (lh_n s)) ?W = ?W" "take (nat (lh_n s)) ?L = ?L" by (simp_all add: home_writes_def)
  moreover have "P - logged s = {}" using P by (auto split: if_splits)
  ultimately show ?thesis by (auto simp: I_def install_trans_def simp del: Diff_eq_empty_iff)
qed


lemma apply_log_writes:
  assumes "j < length bs" "length bs \<le> LOGBLOCKS"
  shows "apply_writes (log_writes start bs v) d (start + of_nat j + 1) = v (bs ! j)"
  using assms
proof (induction bs rule: rev_induct)
  case (snoc b bs)
  have split: "log_writes start (bs @ [b]) v = log_writes start bs v @ [(start + of_nat (length bs) + 1, v b)]"
    by (simp add: log_writes_def nth_append)
  show ?case
  proof (cases "j = length bs")
    case True
    then show ?thesis by (simp add: split)
  next
    case False
    then have j: "j < length bs" using snoc.prems by simp
    have "(of_nat j :: u32) \<noteq> of_nat (length bs)"
      using j snoc.prems by (subst of_nat_u32_inj) auto
    then show ?thesis using snoc.IH [OF j] snoc.prems j by (simp add: split nth_append)
  qed
qed simp

lemma apply_home_writes:
  "apply_writes (home_writes bs v) d = (\<lambda>b. if b \<in> set bs then v b else d b)"
  by (induction bs rule: rev_induct) (auto simp: home_writes_def fun_eq_iff)

lemma log_at_not_start: "j < LOGBLOCKS \<Longrightarrow> (start :: u32) + of_nat j + 1 \<noteq> start"
proof -
  assume "j < LOGBLOCKS"
  then have "(of_nat (Suc j) :: u32) \<noteq> of_nat 0" by (subst of_nat_u32_inj) auto
  then show ?thesis by (simp add: add.assoc add.commute)
qed

lemma fst_log_writes: "length bs \<le> LOGBLOCKS \<Longrightarrow> fst ` set (log_writes start bs v) \<subseteq> log_area start - {start}"
  using log_at_not_start [of _ start] log_at_area [of _ start] by (auto simp: log_writes_def)

lemma commit_ok:
  assumes inv: "log_inv {} s" and lay: "log_layout s" and n: "0 < lh_n s" "lh_n s < int LOGBLOCKS"
  defines "v \<equiv> \<lambda>b. view ROOTDEV b s"
  shows "\<exists>t. commit s = Inr t \<and> log_inv {} t \<and> lh_n t = 0 \<and>
    did (s\<lparr>lh_n := 0\<rparr>) (commit_writes (lstart s) (log_list s) v (disk s (lstart s))) t \<and>
    (\<forall>z. z \<notin> log_area (lstart s) \<longrightarrow> view ROOTDEV z t = v z \<and> disk t z = v z)"
proof -
  let ?P = "logged s" and ?L = "log_list s" and ?st = "lstart s"
  note pin = log_invD(9) [OF inv]
  have card: "card ?P < NBUF" using card_logged [OF inv] n by simp
  have len: "length ?L \<le> LOGBLOCKS" using n by simp
  have nn: "nat (lh_n s) < LOGBLOCKS" using n by simp
  have stP: "?st \<notin> ?P" using lay start_area [of ?st] by (auto simp: log_layout_def)
  obtain t1 where t1: "write_log s = Inr t1" "pin_inv {} ?P t1" "did s (log_writes ?st ?L v) t1"
      "\<And>z. z \<notin> log_area ?st \<Longrightarrow> view ROOTDEV z t1 = v z"
    using write_log_ok [OF pin lay nn card] unfolding v_def by blast
  note f1 = did_log [OF t1(3)]
  have "?st \<notin> fst ` set (log_writes ?st ?L v)" using fst_log_writes [OF len, of ?st v] by auto
  then have dst: "disk t1 ?st = disk s ?st" by (simp add: didD(1) [OF t1(3)] apply_writes_outside)
  have L1: "log_list t1 = ?L" using f1 by (simp add: log_list_def)
  let ?h = "hdr_image ?L (disk s ?st)"
  have "\<exists>t2. write_head t1 = Inr t2 \<and> pin_inv {} ?P t2 \<and> did t1 [(?st, ?h)] t2 \<and>
      (\<forall>z. z \<noteq> ?st \<longrightarrow> view ROOTDEV z t2 = view ROOTDEV z t1)"
    using write_head_ok [OF t1(2) finite_logged card] stP f1 lay n L1 dst by (simp add: log_layout_def)
  then obtain t2 where t2: "write_head t1 = Inr t2" "pin_inv {} ?P t2" "did t1 [(?st, ?h)] t2"
      "\<And>z. z \<noteq> ?st \<Longrightarrow> view ROOTDEV z t2 = view ROOTDEV z t1" by blast
  note f2 = did_log [OF t2(3)]
  have L2: "log_list t2 = ?L" using f1 f2 by (simp add: log_list_def)
  have lay2: "log_layout t2" using lay f1 f2 by (simp add: log_layout_def)
  have d2: "disk t2 (log_at t2 j) = v (lh_block t2 j)" if j: "j < nat (lh_n t2)" for j
  proof -
    have j': "j < length ?L" using j f1 f2 by simp
    have "log_at t2 j = ?st + of_nat j + 1" "?st + of_nat j + 1 \<noteq> ?st"
      using f1 f2 log_at_not_start [of j ?st] j' len by (simp_all add: log_at_def)
    then show ?thesis
      using apply_log_writes [OF j' len] j' f1 f2 logged_nth [of j s]
      by (simp add: didD(1) [OF t2(3)] didD(1) [OF t1(3)])
  qed
  have "\<exists>t3. install_trans False t2 = Inr t3 \<and> pin_inv {} {} t3 \<and> did t2 (home_writes ?L v) t3 \<and>
      (\<forall>z. view ROOTDEV z t3 = (if z \<in> ?P then v z else view ROOTDEV z t2))"
    using install_trans_ok [OF t2(2), of False v] lay2 d2 L2 distinct_log_list [OF inv] nn card f1 f2 by simp
  then obtain t3 where t3: "install_trans False t2 = Inr t3" "pin_inv {} {} t3" "did t2 (home_writes ?L v) t3"
      "\<And>z. view ROOTDEV z t3 = (if z \<in> ?P then v z else view ROOTDEV z t2)" by blast
  note f3 = did_log [OF t3(3)]
  let ?t = "t3\<lparr>lh_n := 0\<rparr>"
  have p: "pin_inv {} {} ?t" using t3(2) by (simp add: pin_inv_def pinned_def)
  have d3: "disk t3 ?st = ?h"
    using stP by (simp add: didD(1) [OF t3(3)] didD(1) [OF t2(3)] apply_home_writes)
  have "\<exists>t4. write_head ?t = Inr t4 \<and> pin_inv {} {} t4 \<and> did ?t [(?st, hdr_image [] ?h)] t4 \<and>
      (\<forall>z. z \<noteq> ?st \<longrightarrow> view ROOTDEV z t4 = view ROOTDEV z ?t)"
    using write_head_ok [OF p] f1 f2 f3 lay d3 by (simp add: log_layout_def log_list_def)
  then obtain t4 where t4: "write_head ?t = Inr t4" "pin_inv {} {} t4" "did ?t [(?st, hdr_image [] ?h)] t4"
      "\<And>z. z \<noteq> ?st \<Longrightarrow> view ROOTDEV z t4 = view ROOTDEV z t3" by auto
  note f4 = did_log [OF t4(3)]
  have run: "commit s = Inr t4" using n t1(1) t2(1) t3(1) t4(1) by (simp add: commit_def)
  have "did s (log_writes ?st ?L v @ [(?st, ?h)] @ home_writes ?L v) t3"
    using did_trans [OF t1(3) did_trans [OF t2(3) t3(3)]] by simp
  then have "did (s\<lparr>lh_n := 0\<rparr>) (log_writes ?st ?L v @ [(?st, ?h)] @ home_writes ?L v) ?t"
    by (rule did_lh_n)
  from did_trans [OF this t4(3)] have d: "did (s\<lparr>lh_n := 0\<rparr>) (commit_writes ?st ?L v (disk s ?st)) t4"
    by (simp add: commit_writes_def)
  have "log_inv {} t4"
    using t4(2) f4 f3 f2 f1 log_invD(2) [OF inv] by (simp add: log_inv_def logged_def)
  moreover have "view ROOTDEV z t4 = v z \<and> disk t4 z = v z" if z: "z \<notin> log_area ?st" for z
  proof -
    have zs: "z \<noteq> ?st" using z start_area by blast
    have "view ROOTDEV z t4 = v z" using z zs by (simp add: t4(4) t3(4) t2(4) t1(4))
    moreover have "view ROOTDEV z t4 = disk t4 z" using view_clean [OF t4(2)] by (simp add: held_blocks_def)
    ultimately show ?thesis by simp
  qed
  moreover have "lh_n t4 = 0" using f4 by simp
  ultimately show ?thesis using run d by blast
qed

subsection \<open>Reading the header back\<close>

lemma getw_put_blocks_below:
  assumes "\<And>i. i \<in> set is \<Longrightarrow> 8 + 4 * i \<le> length d \<and> off + 4 \<le> 4 + 4 * i" "off + 4 \<le> length d"
  shows "getw 4 (put_blocks f is d) off = (getw 4 d off :: u32)"
  using assms
proof (induction "is" arbitrary: d)
  case (Cons i "is")
  have "getw 4 (put_blocks f is (putw 4 d (4 + 4 * i) (f i))) off = (getw 4 (putw 4 d (4 + 4 * i) (f i)) off :: u32)"
    using Cons.prems by (intro Cons.IH) auto
  also have "\<dots> = getw 4 d off" using Cons.prems by (intro getw_putw_other) auto
  finally show ?case by simp
qed simp

lemma getw_put_blocks:
  assumes "4 + 4 * n \<le> length d" "i < n"
  shows "getw 4 (put_blocks f [0..<n] d) (4 + 4 * i) = f i"
  using assms
proof (induction n)
  case (Suc n)
  have sp: "put_blocks f ([0..<n] @ [n]) d = putw 4 (put_blocks f [0..<n] d) (4 + 4 * n) (f n)" for d
    by (induction "[0..<n]" arbitrary: d rule: rev_induct) (simp_all add: put_blocks_append)
  have len: "length (put_blocks f [0..<n] d) = length d" using Suc.prems by (intro length_put_blocks) auto
  show ?case
  proof (cases "i = n")
    case True
    then show ?thesis using Suc.prems len by (simp add: sp getw_putw_same)
  next
    case False
    then show ?thesis using Suc len by (simp add: sp getw_putw_other)
  qed
qed simp

lemma hdr_image_read:
  assumes "length bs \<le> LOGBLOCKS" "length d = BSIZE"
  shows "hdr_n (hdr_image bs d) = int (length bs)" "i < length bs \<Longrightarrow> hdr_block (hdr_image bs d) i = bs ! i"
proof -
  have "getw 4 (hdr_image bs d) 0 = (of_nat (length bs) :: u32)"
    unfolding hdr_image_def using assms
    by (subst getw_put_blocks_below) (auto simp: getw_putw_same)
  then show "hdr_n (hdr_image bs d) = int (length bs)"
    using assms by (simp add: hdr_n_def signed_of_nat signed_take_bit_int_eq_self)
  show "hdr_block (hdr_image bs d) i = bs ! i" if "i < length bs"
    unfolding hdr_image_def hdr_block_def using assms that by (intro getw_put_blocks) auto
qed

subsection \<open>Recovery\<close>

definition hdr_list :: "u8 list \<Rightarrow> u32 list" where
  "hdr_list h = map (hdr_block h) [0..<nat (hdr_n h)]"

lemma hdr_list_image: "length bs \<le> LOGBLOCKS \<Longrightarrow> length d = BSIZE \<Longrightarrow> hdr_list (hdr_image bs d) = bs"
  by (rule nth_equalityI) (simp_all add: hdr_list_def hdr_image_read)

definition hdr_ok :: "u32 \<Rightarrow> u8 list \<Rightarrow> bool" where
  "hdr_ok start h \<longleftrightarrow> 0 \<le> hdr_n h \<and> hdr_n h \<le> int LOGBLOCKS \<and> distinct (hdr_list h) \<and>
     set (hdr_list h) \<inter> log_area start = {}"

definition recovered :: "u32 \<Rightarrow> (u32 \<Rightarrow> u8 list) \<Rightarrow> u32 \<Rightarrow> u8 list" where
  "recovered start d =
     apply_writes (map (\<lambda>j. (hdr_block (d start) j, d (start + of_nat j + 1))) [0..<nat (hdr_n (d start))] @
       [(start, hdr_image [] (d start))]) d"

lemma read_head_loop:
  "n \<le> LOGBLOCKS \<Longrightarrow>
   for_each (\<lambda>i s. if i < LOGBLOCKS then Inr (s\<lparr>lh_block := (lh_block s)(i := f i)\<rparr>) else Inl Undefined) [0..<n] s =
     Inr (s\<lparr>lh_block := (\<lambda>i. if i < n then f i else lh_block s i)\<rparr>)"
proof (induction n)
  case (Suc n)
  then show ?case by (auto simp: for_each_append fun_eq_iff intro!: arg_cong [where f = "\<lambda>b. s\<lparr>lh_block := b\<rparr>"])
qed simp

lemma calm_lh_upd:
  assumes "calm s t"
  shows "calm (s\<lparr>lh_n := n, lh_block := f\<rparr>) (t\<lparr>lh_n := n, lh_block := f\<rparr>)"
proof -
  obtain c p l b where t: "t = s\<lparr>cpus := c, procs := p, slocks := l, bufs := b\<rparr>"
    and t': "\<And>h. cproc (c h) = cproc (cpus s h)" "\<And>i. proc_le (procs s i) (p i)"
    "\<And>j. l (SInode j) = slocks s (SInode j)"
    using assms unfolding calm_def by blast
  show ?thesis
    by (rule calmI [where c = c and p = p and l = l and b = b]) (use t t' in simp_all)
qed

lemma pin_inv_lh_upd [simp]:
  "pin_inv H P (s\<lparr>lh_n := n\<rparr>) = pin_inv H P s" "pin_inv H P (s\<lparr>lh_block := f\<rparr>) = pin_inv H P s"
  by (simp_all add: pin_inv_def pinned_def)

lemma read_head_ok:
  assumes inv: "pin_inv {} {} s" and dev: "ldev s = ROOTDEV"
    and h: "0 \<le> hdr_n (disk s (lstart s))" "hdr_n (disk s (lstart s)) \<le> int LOGBLOCKS"
  defines "n \<equiv> hdr_n (disk s (lstart s))"
  shows "\<exists>t f. read_head s = Inr t \<and> pin_inv {} {} t \<and> calm (s\<lparr>lh_n := n, lh_block := f\<rparr>) t \<and>
    (\<forall>i < nat n. f i = hdr_block (disk s (lstart s)) i)"
proof -
  let ?a = "lstart s" and ?h = "disk s (lstart s)"
  have a: "can_read {} {} ?a s" by (simp add: can_read_def held_blocks_def)
  obtain x s1 where r1: "bread ROOTDEV ?a s = Inr (x, s1)" "calm s s1" "pin_inv {x} {} s1"
      "blockno (bufs s1 x) = ?a" "data (bufs s1 x) = view ROOTDEV ?a s"
    using bread_pin [OF inv a] by auto
  have va: "view ROOTDEV ?a s = ?h" using view_clean [OF inv] by (simp add: held_blocks_def)
  define f where "f = (\<lambda>i. if i < nat n then hdr_block ?h i else lh_block (s1\<lparr>lh_n := n\<rparr>) i)"
  let ?s2 = "s1\<lparr>lh_n := n, lh_block := f\<rparr>"
  have p2: "pin_inv {x} {} ?s2" using r1(3) by simp
  have "data (bufs ?s2 x) = disk ?s2 (blockno (bufs ?s2 x))"
    using r1(4,5) va calmD(2) [OF r1(2)] by simp
  then obtain t where t: "brelse x ?s2 = Inr t" "calm ?s2 t" "pin_inv {} {} t"
    using brelse_pin [OF p2, of x] by auto
  have "calm (s\<lparr>lh_n := n, lh_block := f\<rparr>) t"
    using calm_trans [OF calm_lh_upd [OF r1(2)] t(2)] .
  moreover have "read_head s = Inr t"
  proof -
    have dx: "data (bufs s1 x) = ?h" using r1(5) va by simp
    have "nat n \<le> LOGBLOCKS" using h by (simp add: n_def)
    from read_head_loop [OF this, of "hdr_block ?h" "s1\<lparr>lh_n := n\<rparr>"] t(1) show ?thesis
      unfolding read_head_def dev r1(1) and_then_Inr prod.case Let_def dx n_def [symmetric] f_def by simp
  qed
  ultimately show ?thesis using t(3) by (intro exI [of _ t] exI [of _ f]) (simp add: f_def)
qed


lemma recover_ok:
  assumes inv: "pin_inv {} {} s" and dev: "ldev s = ROOTDEV" and h: "hdr_ok (lstart s) (disk s (lstart s))"
    and lk: "lock_free LLog s"
  shows "\<exists>t. recover_from_log s = Inr t \<and> log_inv {} t \<and> lh_n t = 0 \<and> lstart t = lstart s \<and>
    disk t = recovered (lstart s) (disk s) \<and> (\<forall>z. view ROOTDEV z t = disk t z)"
proof -
  let ?a = "lstart s" and ?h = "disk s (lstart s)"
  let ?n = "hdr_n ?h"
  have n: "0 \<le> ?n" "?n \<le> int LOGBLOCKS" "distinct (hdr_list ?h)" "set (hdr_list ?h) \<inter> log_area ?a = {}"
    using h by (auto simp: hdr_ok_def)
  obtain t1 f where t1: "read_head s = Inr t1" "pin_inv {} {} t1" "calm (s\<lparr>lh_n := ?n, lh_block := f\<rparr>) t1"
      "\<And>i. i < nat ?n \<Longrightarrow> f i = hdr_block ?h i"
    using read_head_ok [OF inv dev n(1,2)] by blast
  have f1: "lh_n t1 = ?n" "lh_block t1 = f" "lstart t1 = ?a" "ldev t1 = ROOTDEV" "disk t1 = disk s" "lock_free LLog t1"
    using calm_log [OF t1(3)] calmD [OF t1(3)] dev lk by (auto simp: lock_free_def)
  have L: "log_list t1 = hdr_list ?h" using t1(4) by (simp add: log_list_def hdr_list_def f1)
  have lg: "logged t1 = set (hdr_list ?h)" using L set_log_list [of t1] by simp
  have dl: "distinct (log_list t1)" using n(3) L by simp
  define w where "w = (\<lambda>b. disk s (log_at t1 (THE j. j < nat ?n \<and> lh_block t1 j = b)))"
  have v: "disk t1 (log_at t1 j) = w (lh_block t1 j)" if j: "j < nat (lh_n t1)" for j
  proof -
    have "(THE i. i < nat ?n \<and> lh_block t1 i = lh_block t1 j) = j"
    proof (rule the_equality)
      fix i assume "i < nat ?n \<and> lh_block t1 i = lh_block t1 j"
      then show "i = j"
        using dl j f1(1) by (metis logged_nth length_log_list nth_eq_iff_index_eq)
    qed (use j f1 in simp)
    then show ?thesis by (simp add: f1 w_def)
  qed
  have n30: "nat (lh_n t1) \<le> LOGBLOCKS" using n(2) f1(1) by simp
  have lay: "log_layout t1" using f1 lg n(4) by (simp add: log_layout_def)
  have "\<exists>t2. install_trans True t1 = Inr t2 \<and> pin_inv {} {} t2 \<and> did t1 (home_writes (log_list t1) w) t2"
    using install_trans_ok [where recovering = True and v = w, OF t1(2) _ lay dl n30 _ v] by auto
  then obtain t2 where t2: "install_trans True t1 = Inr t2" "pin_inv {} {} t2" "did t1 (home_writes (log_list t1) w) t2" by blast
  note f2 = did_log [OF t2(3)]
  let ?t = "t2\<lparr>lh_n := 0\<rparr>"
  have "?a \<notin> set (hdr_list ?h)" using n(4) start_area by blast
  then have d2: "disk t2 ?a = ?h" by (simp add: didD(1) [OF t2(3)] apply_home_writes lg f1)
  have "\<exists>t3. write_head ?t = Inr t3 \<and> pin_inv {} {} t3 \<and> did ?t [(?a, hdr_image [] ?h)] t3"
    using write_head_ok [of "{}" ?t] t2(2) f1 f2 d2 by (auto simp: log_list_def)
  then obtain t3 where t3: "write_head ?t = Inr t3" "pin_inv {} {} t3" "did ?t [(?a, hdr_image [] ?h)] t3" by blast
  note f3 = did_log [OF t3(3)]
  have "recover_from_log s = Inr t3" using t1(1) t2(1) t3(1) by (simp add: recover_from_log_def)
  moreover have "log_inv {} t3" "lh_n t3 = 0" "lstart t3 = ?a"
    using t3(2) f3 f2 f1 by (simp_all add: log_inv_def logged_def)
  moreover have "home_writes (log_list t1) w = map (\<lambda>j. (hdr_block ?h j, disk s (?a + of_nat j + 1))) [0..<nat ?n]"
    using v t1(4) by (auto simp: home_writes_def log_list_def f1 log_at_def)
  then have "disk t3 = recovered ?a (disk s)"
    by (simp add: didD(1) [OF t3(3)] didD(1) [OF t2(3)] recovered_def f1)
  moreover have "view ROOTDEV z t3 = disk t3 z" for z
    using view_clean [OF t3(2)] by (simp add: held_blocks_def)
  ultimately show ?thesis by blast
qed

subsection \<open>Crash safety\<close>

text \<open>
  The commit of a transaction issues the writes \<open>commit_writes\<close> one after the other.  The machine
  may stop between any two of them; what recovery then makes of the disk is, outside the log
  area, the disk before the transaction or the disk after it.
\<close>

lemma recovered_empty:
  assumes "hdr_n (d start) = 0" "z \<noteq> start"
  shows "recovered start d z = d z"
  using assms by (simp add: recovered_def)

lemma recovered_committed:
  assumes "d start = hdr_image bs h" "length bs \<le> LOGBLOCKS" "length h = BSIZE" "z \<noteq> start"
    and "\<And>j. j < length bs \<Longrightarrow> d (start + of_nat j + 1) = v (bs ! j)"
  shows "recovered start d z = (if z \<in> set bs then v z else d z)"
proof -
  have "map (\<lambda>j. (hdr_block (d start) j, d (start + of_nat j + 1))) [0..<nat (hdr_n (d start))] = home_writes bs v"
    using assms by (intro nth_equalityI) (auto simp: hdr_image_read home_writes_def)
  then have "recovered start d = apply_writes (home_writes bs v @ [(start, hdr_image [] (d start))]) d"
    by (simp only: recovered_def)
  then show ?thesis using assms(4) by (simp add: apply_home_writes)
qed


lemma length_commit_parts [simp]:
  "length (log_writes start bs v) = length bs" "length (home_writes bs v) = length bs"
  by (simp_all add: log_writes_def home_writes_def)

lemma crash_disk:
  assumes len: "length bs \<le> LOGBLOCKS" and dist: "distinct bs" and dis: "set bs \<inter> log_area start = {}"
    and h: "length (old start) = BSIZE" "hdr_n (old start) = 0"
    and d: "d = apply_writes (take k (commit_writes start bs v (old start))) old"
  shows "hdr_ok start (d start)"
    and "z \<notin> log_area start \<Longrightarrow>
      recovered start d z = (if k \<le> length bs then old z else if z \<in> set bs then v z else old z)"
proof -
  let ?W1 = "log_writes start bs v" and ?W3 = "home_writes bs v" and ?h = "hdr_image bs (old start)"
  have st: "start \<notin> set bs" using dis start_area by blast
  have nost: "start \<notin> fst ` set (take m ?W1)" for m
    using fst_log_writes [OF len, of start v] by (auto dest: in_set_takeD)
  have noz: "z \<notin> fst ` set (take m ?W1)" if "z \<notin> log_area start" for m z
    using that fst_log_writes [OF len, of start v] by (auto dest: in_set_takeD)
  have hl: "length ?h = BSIZE" using length_hdr_image [OF len h(1)] .
  consider (early) "k \<le> length bs" | (mid) m where "k = Suc (length bs) + m" "m \<le> length bs"
    | (late) "Suc (2 * length bs) < k"
    by (metis Suc_leI add_Suc le_Suc_ex linorder_not_less mult_2 nat_add_left_cancel_le)
  then have "hdr_ok start (d start) \<and> (z \<notin> log_area start \<longrightarrow>
      recovered start d z = (if k \<le> length bs then old z else if z \<in> set bs then v z else old z))"
  proof cases
    case early
    then have d: "d = apply_writes (take k ?W1) old" by (simp add: d commit_writes_def)
    then have "d start = old start" using nost [of k] by (simp add: apply_writes_outside)
    moreover have "d z = old z" if "z \<notin> log_area start" using noz [OF that, of k] d by (simp add: apply_writes_outside)
    moreover have "z \<noteq> start" if "z \<notin> log_area start" using that start_area by blast
    ultimately show ?thesis
      using h(2) early recovered_empty [of d start z] by (auto simp: hdr_ok_def hdr_list_def)
  next
    case mid
    then have "take k (commit_writes start bs v (old start)) = ?W1 @ [(start, ?h)] @ take m ?W3"
      by (simp add: commit_writes_def)
    moreover have "take m ?W3 = home_writes (take m bs) v" by (simp add: home_writes_def take_map)
    ultimately have d: "d = (\<lambda>b. if b \<in> set (take m bs) then v b else ((apply_writes ?W1 old)(start := ?h)) b)"
      by (simp add: d apply_home_writes)
    have sub: "set (take m bs) \<subseteq> set bs" by (rule set_take_subset)
    then have ds: "d start = ?h" using st by (auto simp: d)
    have at: "d (start + of_nat j + 1) = v (bs ! j)" if j: "j < length bs" for j
    proof -
      have "start + of_nat j + 1 \<notin> set (take m bs)" "start + of_nat j + 1 \<noteq> start"
        using log_at_area [of j start] log_at_not_start [of j start] j len dis sub by auto
      then show ?thesis using apply_log_writes [OF j len, of start v old] by (simp add: d)
    qed
    have "d z = old z \<or> z \<in> set bs" if "z \<notin> log_area start"
      using noz [OF that, of "length bs"] that start_area [of start] sub
      by (auto simp: d apply_writes_outside)
    moreover have "hdr_ok start ?h"
      using hdr_list_image [OF len h(1)] hdr_image_read(1) [OF len h(1)] len dist dis by (simp add: hdr_ok_def)
    moreover have "z \<noteq> start" if "z \<notin> log_area start" using that start_area by blast
    ultimately show ?thesis
      using recovered_committed [OF ds len h(1) _ at, of z] mid(1) by (auto simp: ds)
  next
    case late
    then have "take k (commit_writes start bs v (old start)) = commit_writes start bs v (old start)"
      by (simp add: commit_writes_def)
    then have d: "d = (\<lambda>b. if b \<in> set bs then v b else ((apply_writes ?W1 old)(start := ?h)) b)(start := hdr_image [] ?h)"
      by (simp add: d apply_home_writes commit_writes_def)
    have ds: "d start = hdr_image [] ?h" by (simp add: d)
    moreover have "hdr_n (hdr_image [] ?h) = 0" using hdr_image_read(1) [of "[]" ?h] hl by simp
    moreover have "d z = (if z \<in> set bs then v z else old z)" if "z \<notin> log_area start"
      using noz [OF that, of "length bs"] that start_area [of start] by (auto simp: d apply_writes_outside)
    moreover have "z \<noteq> start" if "z \<notin> log_area start" using that start_area by blast
    ultimately show ?thesis
      using late recovered_empty [of d start z] by (auto simp: hdr_ok_def hdr_list_def)
  qed
  then show "hdr_ok start (d start)" "z \<notin> log_area start \<Longrightarrow>
      recovered start d z = (if k \<le> length bs then old z else if z \<in> set bs then v z else old z)" by auto
qed


lemma commit_crash:
  assumes inv: "log_inv {} s" and lay: "log_layout s" and n: "0 < lh_n s" "lh_n s < int LOGBLOCKS"
    and clean: "hdr_n (disk s (lstart s)) = 0"
  shows "\<exists>t ws. commit s = Inr t \<and> log_inv {} t \<and> lh_n t = 0 \<and> history t = history s @ ws \<and>
    disk t = apply_writes ws (disk s) \<and> hdr_n (disk t (lstart s)) = 0 \<and>
    (\<forall>z. z \<notin> log_area (lstart s) \<longrightarrow> view ROOTDEV z t = view ROOTDEV z s \<and> disk t z = view ROOTDEV z s) \<and>
    (\<forall>k (b :: logst). pin_inv {} {} b \<longrightarrow> lock_free LLog b \<longrightarrow> ldev b = ROOTDEV \<longrightarrow> lstart b = lstart s \<longrightarrow>
       disk b = apply_writes (take k ws) (disk s) \<longrightarrow>
       (\<exists>u. recover_from_log b = Inr u \<and> log_inv {} u \<and>
          (\<forall>z. z \<notin> log_area (lstart s) \<longrightarrow>
             view ROOTDEV z u = (if k \<le> nat (lh_n s) then disk s z else view ROOTDEV z s))))"
proof -
  let ?v = "\<lambda>b. view ROOTDEV b s" and ?st = "lstart s" and ?L = "log_list s"
  let ?ws = "commit_writes ?st ?L ?v (disk s ?st)"
  obtain t where t: "commit s = Inr t" "log_inv {} t" "lh_n t = 0" "did (s\<lparr>lh_n := 0\<rparr>) ?ws t"
      "\<And>z. z \<notin> log_area ?st \<Longrightarrow> view ROOTDEV z t = ?v z \<and> disk t z = ?v z"
    using commit_ok [OF inv lay n] by auto
  have len: "length ?L \<le> LOGBLOCKS" using n by simp
  have dis: "set ?L \<inter> log_area ?st = {}" using lay by (simp add: log_layout_def)
  have hl: "length (disk s ?st) = BSIZE" using bc_invD(8) [OF log_invD(1) [OF inv]] .
  note crash = crash_disk [where old = "disk s" and v = ?v, OF len distinct_log_list [OF inv] dis hl clean refl]
  have fin: "hdr_n (disk t ?st) = 0"
    using didD(1) [OF t(4)] hdr_image_read(1) [of "[]" "hdr_image ?L (disk s ?st)"] length_hdr_image [OF len hl]
    by (simp add: commit_writes_def)
  have vd: "?v z = disk s z" if "z \<notin> logged s" for z
    using view_clean [OF log_invD(9) [OF inv] that] by (simp add: held_blocks_def)
  have rec: "\<exists>u. recover_from_log b = Inr u \<and> log_inv {} u \<and>
          (\<forall>z. z \<notin> log_area ?st \<longrightarrow> view ROOTDEV z u = (if k \<le> nat (lh_n s) then disk s z else ?v z))"
    if b: "pin_inv {} {} b" "lock_free LLog b" "ldev b = ROOTDEV" "lstart b = ?st"
      "disk b = apply_writes (take k ?ws) (disk s)" for k and b :: logst
  proof -
    have "hdr_ok (lstart b) (disk b (lstart b))" using crash(1) [of k] b(4,5) by simp
    from recover_ok [OF b(1,3) this b(2)] obtain u where u: "recover_from_log b = Inr u" "log_inv {} u"
        "disk u = recovered ?st (disk b)" "\<And>z. view ROOTDEV z u = disk u z"
      using b(4) by auto
    have "view ROOTDEV z u = (if k \<le> nat (lh_n s) then disk s z else ?v z)" if "z \<notin> log_area ?st" for z
      using crash(2) [OF that, of k] u(3,4) b(5) vd [of z] by auto
    then show ?thesis using u(1,2) by blast
  qed
  have "history t = history s @ ?ws" "disk t = apply_writes ?ws (disk s)" using didD [OF t(4)] by simp_all
  then show ?thesis using t(1-3,5) fin rec by (intro exI [of _ t] exI [of _ ?ws]) auto
qed

subsection \<open>The theorem\<close>

text \<open>
  C1: a commit of a transaction of up to 29 blocks returns, installs every logged block and leaves the
  log empty; and if the machine stops after any number \<open>k\<close> of its disk writes, recovery on the
  disk as it then is succeeds and leaves, outside the log area, all of the old blocks (\<open>k\<close> at most
  the number of logged blocks) or all of the new ones.
\<close>

theorem commit_crash_safe:
  assumes "log_inv {} s" "log_layout s" "0 < lh_n s" "lh_n s < int LOGBLOCKS"
    and "hdr_n (disk s (lstart s)) = 0"
  shows "\<exists>t ws. commit s = Inr t \<and> log_inv {} t \<and> lh_n t = 0 \<and> history t = history s @ ws \<and>
    disk t = apply_writes ws (disk s) \<and> hdr_n (disk t (lstart s)) = 0 \<and>
    (\<forall>z. z \<notin> log_area (lstart s) \<longrightarrow> view ROOTDEV z t = view ROOTDEV z s \<and> disk t z = view ROOTDEV z s) \<and>
    (\<forall>k (b :: logst). pin_inv {} {} b \<longrightarrow> lock_free LLog b \<longrightarrow> ldev b = ROOTDEV \<longrightarrow> lstart b = lstart s \<longrightarrow>
       disk b = apply_writes (take k ws) (disk s) \<longrightarrow>
       (\<exists>u. recover_from_log b = Inr u \<and> log_inv {} u \<and>
          (\<forall>z. z \<notin> log_area (lstart s) \<longrightarrow>
             view ROOTDEV z u = (if k \<le> nat (lh_n s) then disk s z else view ROOTDEV z s))))"
  by (rule commit_crash [OF assms])

text \<open>
  A concrete cache: the buffers in a ring in index order, buffer 0 holding block 50 with new
  contents that are logged and not yet on the disk.
\<close>

definition ring_buf :: "nat \<Rightarrow> buf" where
  "ring_buf i = \<lparr>valid = False, dev = 0, blockno = 0, brefcnt = 0,
     prev = (if i = 0 then HEAD else i - 1), nxt = (if i = HEAD then 0 else i + 1), data = []\<rparr>"

definition demo_log :: logst where
  "demo_log = \<lparr>hart = 0, sie = (\<lambda>_. True),
     cpus = (\<lambda>_. \<lparr>cproc = Some 0, noff = 0, intena = False\<rparr>),
     locks = (\<lambda>_. \<lparr>locked = 0, lname = [], lcpu = None\<rparr>),
     mem = (\<lambda>_. 0), freelist = 0, refcnt = (\<lambda>_. 1), kend = 0x80100000,
     procs = (\<lambda>_. \<lparr>state = UNUSED, pchan = None, pkilled = 0, xstate = 0, pid = 1, parent = None, kstack = 0,
       sz = 0, pagetable = 0, trapframe = 0, ctx_ra = 0, ctx_sp = 0, ofile = replicate NOFILE None, cwd = None,
       pname = []\<rparr>),
     initproc = None, pid_counter = 2, pid_init_done = True, kernel_pagetable = 0, satp = (\<lambda>_. 0),
     slocks = (\<lambda>_. \<lparr>sl_locked = 0, sl_name = [], sl_pid = 0\<rparr>),
     bufs = ring_buf(0 := (ring_buf 0)\<lparr>valid := True, dev := ROOTDEV, blockno := 50, brefcnt := 1,
       data := replicate BSIZE 7\<rparr>),
     disk = (\<lambda>_. replicate BSIZE 0), history = [],
     lstart = 2, outstanding = 0, committing = True, ldev = ROOTDEV, lh_n = 1, lh_block = (\<lambda>_. 50)\<rparr>"

lemma dll_upt: "(\<And>i. i < n \<Longrightarrow> f i = Suc i \<and> g (Suc i) = i) \<Longrightarrow> dll f g [0..<Suc n]"
proof (induction n)
  case (Suc n)
  then have "dll f g ([0..<Suc n] @ [Suc n])" by (subst dll_append) auto
  then show ?case by simp
qed simp

lemma lru_ring: "lru [0..<NBUF] ring_buf"
proof -
  have "dll (\<lambda>i. nxt (ring_buf i)) (\<lambda>i. prev (ring_buf i)) [0..<Suc NBUF]"
    by (rule dll_upt) (auto simp: ring_buf_def)
  moreover have "[0..<Suc NBUF] = [0..<NBUF] @ [HEAD]" by (rule upt_Suc_append) simp
  ultimately have "dll (\<lambda>i. nxt (ring_buf i)) (\<lambda>i. prev (ring_buf i)) (HEAD # [0..<NBUF] @ [HEAD])"
    by (simp add: dll_Cons ring_buf_def hd_append del: upt_Suc)
  then show ?thesis by (simp add: lru_def lessThan_atLeast0)
qed

lemma demo_log_layout: "log_layout demo_log"
proof -
  have "(50 :: u32) \<noteq> 2 + of_nat j" if "j \<le> LOGBLOCKS" for j
  proof -
    have "(of_nat 50 :: u32) \<noteq> of_nat (2 + j)" using that by (subst of_nat_u32_inj) auto
    then show ?thesis by simp
  qed
  then show ?thesis by (auto simp: log_layout_def logged_def demo_log_def log_area_def)
qed

lemma demo_log_inv: "log_inv {} demo_log"
proof -
  have lg: "logged demo_log = {50}" by (simp add: logged_def demo_log_def lessThan_Suc)
  have b: "bufs demo_log i = (if i = 0 then (ring_buf 0)\<lparr>valid := True, dev := ROOTDEV, blockno := 50, brefcnt := 1,
       data := replicate BSIZE 7\<rparr> else ring_buf i)" for i by (simp add: demo_log_def)
  have k: "keys_ok (bufs demo_log)" by (auto simp: keys_ok_def b ring_buf_def)
  have "lru [0..<NBUF] (bufs demo_log)"
    using lru_ring by (simp add: demo_log_def lru_upd)
  moreover have "bc_locks {} demo_log"
    by (simp add: bc_locks_def demo_log_def cpu_ok_def procs_free_def lock_free_def machine_defs)
  moreover have "bc_data {} demo_log"
    using k by (auto simp: bc_data_def b ring_buf_def demo_log_def)
  ultimately have bc: "bc_inv {} demo_log" by (auto simp: bc_inv_def)
  have "cached ROOTDEV 50 demo_log = Some 0" using k by (simp add: cached_Some b)
  then have "pin_inv {} {50} demo_log"
    using bc by (auto simp: pin_inv_def pinned_def b ring_buf_def)
  then show ?thesis by (simp add: log_inv_def lg) (simp add: demo_log_def lock_free_def inj_on_def)
qed

theorem commit_crash_safe_witness:
  "\<exists>t. commit demo_log = Inr t \<and> log_inv {} t \<and> lh_n t = 0 \<and> disk t 50 = replicate BSIZE 7"
proof -
  have h: "hdr_n (disk demo_log (lstart demo_log)) = 0"
    by (simp add: demo_log_def hdr_n_def getw_def)
  have n: "0 < lh_n demo_log" "lh_n demo_log < int LOGBLOCKS" by (simp_all add: demo_log_def)
  have "keys_ok (bufs demo_log)" using bc_invD(1) [OF log_invD(1) [OF demo_log_inv]] .
  then have "cached ROOTDEV 50 demo_log = Some 0" by (simp add: cached_Some) (simp add: demo_log_def)
  then have "view ROOTDEV 50 demo_log = replicate BSIZE 7" by (simp add: view_def) (simp add: demo_log_def)
  moreover have "50 \<notin> log_area (lstart demo_log)"
    using demo_log_layout by (auto simp: log_layout_def logged_def demo_log_def)
  ultimately show ?thesis
    using commit_crash_safe [OF demo_log_inv demo_log_layout n h] by metis
qed

end
