(* ===== verification/Vm.thy ===== *)
theory Vm
  imports Proctab
begin

unbundle bit_operations_syntax

section \<open>Page tables and user memory (kernel/rust\_vm.rs)\<close>

text \<open>
  Sv39 page tables as they lie in physical memory: a table is a page of 512 eight-byte entries, a
  \<open>*mut Pte\<close> is the address of an entry, null is 0.  \<open>etext\<close> and \<open>trampoline\<close>, symbols of the
  linker script, are arguments.  The kernel's side of a copy between kernel and user memory is a byte
  list (the source's \<open>src, len\<close> or the bytes stored from \<open>dst\<close> on): the kernel objects
  involved, buffers and stack variables, are not part of \<open>mem\<close>.

  Loops that step an address by a page take as fuel the number of pages between the bounds, the
  most they can run; \<open>Diverges\<close> would mean that more steps were needed.
\<close>

abbreviation MAXVA :: u64 where "MAXVA \<equiv> 0x4000000000"
abbreviation TRAMPOLINE :: u64 where "TRAMPOLINE \<equiv> MAXVA - PGSIZE"
abbreviation TRAPFRAME :: u64 where "TRAPFRAME \<equiv> TRAMPOLINE - PGSIZE"
abbreviation SATP_SV39 :: u64 where "SATP_SV39 \<equiv> 0x8000000000000000"
abbreviation UART0 :: u64 where "UART0 \<equiv> 0x10000000"
abbreviation VIRTIO0 :: u64 where "VIRTIO0 \<equiv> 0x10001000"
abbreviation PLIC :: u64 where "PLIC \<equiv> 0x0c000000"
abbreviation PTE_V :: u64 where "PTE_V \<equiv> 1"
abbreviation PTE_R :: u64 where "PTE_R \<equiv> 2"
abbreviation PTE_W :: u64 where "PTE_W \<equiv> 4"
abbreviation PTE_X :: u64 where "PTE_X \<equiv> 8"
abbreviation PTE_U :: u64 where "PTE_U \<equiv> 16"
abbreviation PTE_COW :: u64 where "PTE_COW \<equiv> 256"
abbreviation PTE_FLAGS_MASK :: u64 where "PTE_FLAGS_MASK \<equiv> 0x3FF"

definition pgrounddown :: "u64 \<Rightarrow> u64" where
  "pgrounddown a = a AND NOT (PGSIZE - 1)"

definition pte2pa :: "u64 \<Rightarrow> u64" where
  "pte2pa pte = push_bit 12 (drop_bit 10 pte)"

definition pa2pte :: "u64 \<Rightarrow> u64" where
  "pa2pte pa = push_bit 10 (drop_bit 12 pa)"

definition pte_flags :: "u64 \<Rightarrow> u64" where
  "pte_flags pte = pte AND PTE_FLAGS_MASK"

definition px :: "nat \<Rightarrow> u64 \<Rightarrow> u64" where
  "px level va = drop_bit (12 + 9 * level) va AND 0x1ff"

definition make_satp :: "u64 \<Rightarrow> u64" where
  "make_satp pt = SATP_SV39 OR drop_bit 12 pt"

subsection \<open>Walking and mapping\<close>

primrec walk_levels :: "nat list \<Rightarrow> u64 \<Rightarrow> u64 \<Rightarrow> bool \<Rightarrow> 'z kmem_scheme \<Rightarrow> (u64 \<times> 'z kmem_scheme) kres" where
  "walk_levels [] pt va alloc s = Inr (pt + 8 * px 0 va, s)"
| "walk_levels (level # levels) pt va alloc s =
     (let pte = pt + 8 * px level va in
      if load64 (mem s) pte AND PTE_V \<noteq> 0
      then walk_levels levels (pte2pa (load64 (mem s) pte)) va alloc s
      else if \<not> alloc then Inr (0, s)
      else and_then (kalloc s) (\<lambda>(new_pt, s).
        if new_pt = 0 then Inr (0, s)
        else
          let s = s\<lparr>mem := memset new_pt 0 4096 (mem s)\<rparr>;
              s = s\<lparr>mem := store64 (mem s) pte (pa2pte new_pt OR PTE_V)\<rparr>
          in walk_levels levels new_pt va alloc s))"

definition walk :: "u64 \<Rightarrow> u64 \<Rightarrow> bool \<Rightarrow> 'z kmem_scheme \<Rightarrow> (u64 \<times> 'z kmem_scheme) kres" where
  "walk pt va alloc s =
     (if va \<ge> MAXVA then Inl (Panic ''walk'') else walk_levels [2, 1] pt va alloc s)"

definition uvmcreate :: "'z kmem_scheme \<Rightarrow> (u64 \<times> 'z kmem_scheme) kres" where
  "uvmcreate s = and_then (kalloc s) (\<lambda>(pt, s).
     if pt = 0 then Inr (0, s) else Inr (pt, s\<lparr>mem := memset pt 0 4096 (mem s)\<rparr>))"

primrec mappages_loop ::
    "nat \<Rightarrow> u64 \<Rightarrow> u64 \<Rightarrow> u64 \<Rightarrow> u64 \<Rightarrow> u64 \<Rightarrow> 'z kmem_scheme \<Rightarrow> (bool \<times> 'z kmem_scheme) kres" where
  "mappages_loop 0 pt a lim pa perm s = Inl Diverges"
| "mappages_loop (Suc fuel) pt a lim pa perm s =
     and_then (walk pt a True s) (\<lambda>(pte, s).
     if pte = 0 then Inr (False, s)
     else if load64 (mem s) pte AND PTE_V \<noteq> 0 then Inl (Panic ''mappages: remap'')
     else
       let s = s\<lparr>mem := store64 (mem s) pte (pa2pte pa OR perm OR PTE_V)\<rparr> in
       if a = lim then Inr (True, s)
       else mappages_loop fuel pt (a + PGSIZE) lim (pa + PGSIZE) perm s)"

text \<open>\<open>True\<close> is the return value 0, \<open>False\<close> is -1.\<close>

definition mappages :: "u64 \<Rightarrow> u64 \<Rightarrow> u64 \<Rightarrow> u64 \<Rightarrow> u64 \<Rightarrow> 'z kmem_scheme \<Rightarrow> (bool \<times> 'z kmem_scheme) kres" where
  "mappages pt va bytes pa perm s =
     (if va mod PGSIZE \<noteq> 0 then Inl (Panic ''mappages: va not aligned'')
      else if bytes mod PGSIZE \<noteq> 0 then Inl (Panic ''mappages: size not aligned'')
      else if bytes = 0 then Inl (Panic ''mappages: size'')
      else mappages_loop (unat bytes div 4096) pt va (va + bytes - PGSIZE) pa perm s)"

definition kvmmap :: "u64 \<Rightarrow> u64 \<Rightarrow> u64 \<Rightarrow> u64 \<Rightarrow> u64 \<Rightarrow> 'z kmem_scheme \<Rightarrow> 'z kmem_scheme kres" where
  "kvmmap pt va pa bytes perm s = and_then (mappages pt va bytes pa perm s) (\<lambda>(ok, s).
     if \<not> ok then Inl (Panic ''kvmmap'') else Inr s)"

text \<open>\<open>proc_mapstacks\<close> of rust\_proc.rs: one kernel stack page per slot, below the trampoline.\<close>

definition kstack_va :: "nat \<Rightarrow> u64" where
  "kstack_va i = TRAMPOLINE - (of_nat i + 1) * 2 * PGSIZE"

definition proc_mapstacks :: "u64 \<Rightarrow> 'z ptable_scheme \<Rightarrow> 'z ptable_scheme kres" where
  "proc_mapstacks pt s = for_each (\<lambda>i s.
     and_then (kalloc s) (\<lambda>(pa, s).
     if pa = 0 then Inl (Panic ''kalloc'')
     else and_then (kvmmap pt (kstack_va i) pa PGSIZE (PTE_R OR PTE_W) s) (\<lambda>s.
       Inr (upd_proc i (kstack_update (\<lambda>_. kstack_va i)) s)))) [0..<NPROC] s"

definition kvmmake :: "u64 \<Rightarrow> u64 \<Rightarrow> 'z ptable_scheme \<Rightarrow> (u64 \<times> 'z ptable_scheme) kres" where
  "kvmmake etext trampoline s = and_then (kalloc s) (\<lambda>(pt, s).
     let s = s\<lparr>mem := memset pt 0 4096 (mem s)\<rparr> in
     and_then (kvmmap pt UART0 UART0 PGSIZE (PTE_R OR PTE_W) s) (\<lambda>s.
     and_then (kvmmap pt VIRTIO0 VIRTIO0 PGSIZE (PTE_R OR PTE_W) s) (\<lambda>s.
     and_then (kvmmap pt PLIC PLIC 0x4000000 (PTE_R OR PTE_W) s) (\<lambda>s.
     and_then (kvmmap pt KERNBASE KERNBASE (etext - KERNBASE) (PTE_R OR PTE_X) s) (\<lambda>s.
     and_then (kvmmap pt etext etext (PHYSTOP - etext) (PTE_R OR PTE_W) s) (\<lambda>s.
     and_then (kvmmap pt TRAMPOLINE trampoline PGSIZE (PTE_R OR PTE_X) s) (\<lambda>s.
     and_then (proc_mapstacks pt s) (\<lambda>s. Inr (pt, s)))))))))"

definition kvminit :: "u64 \<Rightarrow> u64 \<Rightarrow> 'z ptable_scheme \<Rightarrow> 'z ptable_scheme kres" where
  "kvminit etext trampoline s = and_then (kvmmake etext trampoline s) (\<lambda>(pt, s).
     Inr (s\<lparr>kernel_pagetable := pt\<rparr>))"

definition kvminithart :: "'z ptable_scheme \<Rightarrow> 'z ptable_scheme" where
  "kvminithart s = s\<lparr>satp := (satp s)(hart s := make_satp (kernel_pagetable s))\<rparr>"

subsection \<open>Unmapping and freeing\<close>

primrec uvmunmap_loop :: "nat \<Rightarrow> u64 \<Rightarrow> u64 \<Rightarrow> u64 \<Rightarrow> bool \<Rightarrow> 'z kmem_scheme \<Rightarrow> 'z kmem_scheme kres" where
  "uvmunmap_loop 0 pt a lim do_free s = (if a < lim then Inl Diverges else Inr s)"
| "uvmunmap_loop (Suc fuel) pt a lim do_free s =
     (if a < lim
      then and_then (walk pt a False s) (\<lambda>(pte, s).
        if pte = 0 \<or> load64 (mem s) pte AND PTE_V = 0
        then uvmunmap_loop fuel pt (a + PGSIZE) lim do_free s
        else and_then (if do_free then kfree (pte2pa (load64 (mem s) pte)) s else Inr s) (\<lambda>s.
          uvmunmap_loop fuel pt (a + PGSIZE) lim do_free (s\<lparr>mem := store64 (mem s) pte 0\<rparr>)))
      else Inr s)"

definition uvmunmap :: "u64 \<Rightarrow> u64 \<Rightarrow> u64 \<Rightarrow> bool \<Rightarrow> 'z kmem_scheme \<Rightarrow> 'z kmem_scheme kres" where
  "uvmunmap pt va npages do_free s =
     (if va mod PGSIZE \<noteq> 0 then Inl (Panic ''uvmunmap: not aligned'')
      else let lim = va + npages * PGSIZE in
        uvmunmap_loop (unat (lim - va) div 4096) pt va lim do_free s)"

definition uvmdealloc :: "u64 \<Rightarrow> u64 \<Rightarrow> u64 \<Rightarrow> 'z kmem_scheme \<Rightarrow> (u64 \<times> 'z kmem_scheme) kres" where
  "uvmdealloc pt oldsz newsz s =
     (if newsz \<ge> oldsz then Inr (oldsz, s)
      else
        let up_new = pgroundup newsz; up_old = pgroundup oldsz in
        and_then (if up_new < up_old then uvmunmap pt up_new ((up_old - up_new) div PGSIZE) True s
                  else Inr s) (\<lambda>s.
        Inr (newsz, s)))"

primrec uvmalloc_loop ::
    "nat \<Rightarrow> u64 \<Rightarrow> u64 \<Rightarrow> u64 \<Rightarrow> u64 \<Rightarrow> u64 \<Rightarrow> 'z kmem_scheme \<Rightarrow> (u64 \<times> 'z kmem_scheme) kres" where
  "uvmalloc_loop 0 pt oldsz a newsz xperm s = (if a < newsz then Inl Diverges else Inr (newsz, s))"
| "uvmalloc_loop (Suc fuel) pt oldsz a newsz xperm s =
     (if a < newsz
      then and_then (kalloc s) (\<lambda>(m, s).
        if m = 0 then and_then (uvmdealloc pt a oldsz s) (\<lambda>(_, s). Inr (0, s))
        else
          let s = s\<lparr>mem := memset m 0 4096 (mem s)\<rparr> in
          and_then (mappages pt a PGSIZE m (PTE_R OR PTE_U OR xperm) s) (\<lambda>(ok, s).
          if \<not> ok
          then and_then (kfree m s) (\<lambda>s. and_then (uvmdealloc pt a oldsz s) (\<lambda>(_, s). Inr (0, s)))
          else uvmalloc_loop fuel pt oldsz (a + PGSIZE) newsz xperm s))
      else Inr (newsz, s))"

definition uvmalloc :: "u64 \<Rightarrow> u64 \<Rightarrow> u64 \<Rightarrow> u64 \<Rightarrow> 'z kmem_scheme \<Rightarrow> (u64 \<times> 'z kmem_scheme) kres" where
  "uvmalloc pt oldsz newsz xperm s =
     (if newsz < oldsz then Inr (oldsz, s)
      else let oldsz = pgroundup oldsz in
        uvmalloc_loop (Suc (unat newsz div 4096)) pt oldsz oldsz newsz xperm s)"

text \<open>A table built by \<open>walk\<close> has three levels: the fuel of \<open>freewalk\<close>.\<close>

primrec freewalk_level :: "nat \<Rightarrow> u64 \<Rightarrow> 'z kmem_scheme \<Rightarrow> 'z kmem_scheme kres" where
  "freewalk_level 0 pt s = Inl Diverges"
| "freewalk_level (Suc fuel) pt s =
     and_then (for_each (\<lambda>i s.
       let pte_ptr = pt + 8 * of_nat i; pte = load64 (mem s) pte_ptr in
       if pte AND PTE_V \<noteq> 0 \<and> pte AND (PTE_R OR PTE_W OR PTE_X) = 0
       then and_then (freewalk_level fuel (pte2pa pte) s) (\<lambda>s.
         Inr (s\<lparr>mem := store64 (mem s) pte_ptr 0\<rparr>))
       else if pte AND PTE_V \<noteq> 0 then Inl (Panic ''freewalk: leaf'')
       else Inr s) [0..<512] s) (\<lambda>s.
     kfree pt s)"

definition freewalk :: "u64 \<Rightarrow> 'z kmem_scheme \<Rightarrow> 'z kmem_scheme kres" where
  "freewalk pt s = freewalk_level 3 pt s"

definition uvmfree :: "u64 \<Rightarrow> u64 \<Rightarrow> 'z kmem_scheme \<Rightarrow> 'z kmem_scheme kres" where
  "uvmfree pt bytes s =
     and_then (if bytes > 0 then uvmunmap pt 0 (pgroundup bytes div PGSIZE) True s else Inr s) (\<lambda>s.
     freewalk pt s)"

subsection \<open>Copy-on-write\<close>

primrec uvmcopy_loop :: "nat \<Rightarrow> u64 \<Rightarrow> u64 \<Rightarrow> u64 \<Rightarrow> u64 \<Rightarrow> 'z kmem_scheme \<Rightarrow> (bool \<times> 'z kmem_scheme) kres" where
  "uvmcopy_loop 0 old new i bytes s = (if i < bytes then Inl Diverges else Inr (True, s))"
| "uvmcopy_loop (Suc fuel) old new i bytes s =
     (if i < bytes
      then and_then (walk old i False s) (\<lambda>(pte, s).
        if pte = 0 \<or> load64 (mem s) pte AND PTE_V = 0
        then uvmcopy_loop fuel old new (i + PGSIZE) bytes s
        else
          let pa = pte2pa (load64 (mem s) pte);
              s = (if load64 (mem s) pte AND PTE_W \<noteq> 0
                   then s\<lparr>mem := store64 (mem s) pte ((load64 (mem s) pte AND NOT PTE_W) OR PTE_COW)\<rparr>
                   else s);
              flags = pte_flags (load64 (mem s) pte) in
          and_then (mappages new i PGSIZE pa flags s) (\<lambda>(ok, s).
          if \<not> ok then and_then (uvmunmap new 0 (i div PGSIZE) True s) (\<lambda>s. Inr (False, s))
          else and_then (kref_inc pa s) (\<lambda>s.
            uvmcopy_loop fuel old new (i + PGSIZE) bytes s)))
      else Inr (True, s))"

definition uvmcopy :: "u64 \<Rightarrow> u64 \<Rightarrow> u64 \<Rightarrow> 'z kmem_scheme \<Rightarrow> (bool \<times> 'z kmem_scheme) kres" where
  "uvmcopy old new bytes s = uvmcopy_loop (Suc (unat bytes div 4096)) old new 0 bytes s"

definition cow_resolve :: "u64 \<Rightarrow> u64 \<Rightarrow> 'z kmem_scheme \<Rightarrow> (u64 \<times> 'z kmem_scheme) kres" where
  "cow_resolve pt va s = and_then (walk pt va False s) (\<lambda>(pte, s).
     if pte = 0 then Inr (0, s)
     else
       let entry = load64 (mem s) pte in
       if entry AND PTE_V = 0 \<or> entry AND PTE_COW = 0 then Inr (0, s)
       else
         let old_pa = pte2pa entry in
         and_then (kalloc_page s) (\<lambda>(m, s).
         case m of
           None \<Rightarrow> Inr (0, s)
         | Some new_pa \<Rightarrow>
             let s = s\<lparr>mem := memmove new_pa old_pa 4096 (mem s)\<rparr>;
                 new_flags = (entry AND PTE_FLAGS_MASK AND NOT PTE_COW) OR PTE_W;
                 s = s\<lparr>mem := store64 (mem s) pte (pa2pte new_pa OR new_flags)\<rparr> in
             and_then (kfree old_pa s) (\<lambda>s. Inr (new_pa, s))))"

definition walkaddr :: "u64 \<Rightarrow> u64 \<Rightarrow> 'z kmem_scheme \<Rightarrow> (u64 \<times> 'z kmem_scheme) kres" where
  "walkaddr pt va s =
     (if va \<ge> MAXVA then Inr (0, s)
      else and_then (walk pt va False s) (\<lambda>(pte, s).
        if pte = 0 then Inr (0, s)
        else
          let entry = load64 (mem s) pte in
          if entry AND PTE_V = 0 then Inr (0, s)
          else if entry AND PTE_U = 0 then Inr (0, s)
          else Inr (pte2pa entry, s)))"

definition ismapped :: "u64 \<Rightarrow> u64 \<Rightarrow> 'z kmem_scheme \<Rightarrow> (bool \<times> 'z kmem_scheme) kres" where
  "ismapped pt va s = and_then (walk pt va False s) (\<lambda>(pte, s).
     Inr (pte \<noteq> 0 \<and> load64 (mem s) pte AND PTE_V \<noteq> 0, s))"

definition uvmclear :: "u64 \<Rightarrow> u64 \<Rightarrow> 'z kmem_scheme \<Rightarrow> 'z kmem_scheme kres" where
  "uvmclear pt va s = and_then (walk pt va False s) (\<lambda>(pte, s).
     if pte = 0 then Inl (Panic ''uvmclear'')
     else Inr (s\<lparr>mem := store64 (mem s) pte (load64 (mem s) pte AND NOT PTE_U)\<rparr>))"

text \<open>
  The \<open>KallocPage\<close> of the lazy-allocation path is dropped, and so freed, when \<open>mappages\<close> fails.
\<close>

definition vmfault :: "u64 \<Rightarrow> u64 \<Rightarrow> bool \<Rightarrow> 'z ptable_scheme \<Rightarrow> (u64 \<times> 'z ptable_scheme) kres" where
  "vmfault pt va is_write s =
     and_then (myproc_sz s) (\<lambda>(psz, s).
     and_then (myproc_pagetable s) (\<lambda>(proc_pt, s).
     if proc_pt = 0 then Inr (0, s)
     else if va \<ge> psz then Inr (0, s)
     else
       let va = pgrounddown va in
       and_then (ismapped pt va s) (\<lambda>(mapped, s).
       if mapped then (if is_write then cow_resolve pt va s else Inr (0, s))
       else and_then (kalloc_page s) (\<lambda>(m, s).
         case m of
           None \<Rightarrow> Inr (0, s)
         | Some pa \<Rightarrow>
             let s = s\<lparr>mem := memset pa 0 4096 (mem s)\<rparr> in
             and_then (mappages proc_pt va PGSIZE pa (PTE_W OR PTE_U OR PTE_R) s) (\<lambda>(ok, s).
             if \<not> ok then and_then (drop_page pa s) (\<lambda>s. Inr (0, s)) else Inr (pa, s))))))"

subsection \<open>Copying between kernel and user memory\<close>

text \<open>Each round copies at least one byte: the length is enough fuel.\<close>

primrec copyout_loop :: "nat \<Rightarrow> u64 \<Rightarrow> u64 \<Rightarrow> u8 list \<Rightarrow> 'z ptable_scheme \<Rightarrow> (bool \<times> 'z ptable_scheme) kres" where
  "copyout_loop 0 pt dstva src s = (if src = [] then Inr (True, s) else Inl Diverges)"
| "copyout_loop (Suc fuel) pt dstva src s =
     (if src = [] then Inr (True, s)
      else
        let va0 = pgrounddown dstva in
        if va0 \<ge> MAXVA then Inr (False, s)
        else and_then (walkaddr pt va0 s) (\<lambda>(pa0, s).
          and_then (if pa0 = 0 then vmfault pt va0 True s else Inr (pa0, s)) (\<lambda>(pa0, s).
          if pa0 = 0 then Inr (False, s)
          else and_then (walk pt va0 False s) (\<lambda>(pte, s).
            if pte = 0 then Inr (False, s)
            else and_then
              (if load64 (mem s) pte AND PTE_COW \<noteq> 0 then cow_resolve pt va0 s
               else if load64 (mem s) pte AND PTE_W = 0 then Inr (0, s)
               else Inr (pa0, s)) (\<lambda>(pa0, s).
            if pa0 = 0 then Inr (False, s)
            else
              let n = min (4096 - unat (dstva - va0)) (length src);
                  s = s\<lparr>mem := store_bytes (mem s) (pa0 + (dstva - va0)) (take n src)\<rparr>
              in copyout_loop fuel pt (va0 + PGSIZE) (drop n src) s)))))"

definition copyout :: "u64 \<Rightarrow> u64 \<Rightarrow> u8 list \<Rightarrow> 'z ptable_scheme \<Rightarrow> (bool \<times> 'z ptable_scheme) kres" where
  "copyout pt dstva src s = copyout_loop (length src) pt dstva src s"

primrec copyin_loop ::
    "nat \<Rightarrow> u64 \<Rightarrow> u8 list \<Rightarrow> u64 \<Rightarrow> nat \<Rightarrow> 'z ptable_scheme \<Rightarrow> ((bool \<times> u8 list) \<times> 'z ptable_scheme) kres" where
  "copyin_loop 0 pt dst srcva len s = (if len = 0 then Inr ((True, dst), s) else Inl Diverges)"
| "copyin_loop (Suc fuel) pt dst srcva len s =
     (if len = 0 then Inr ((True, dst), s)
      else
        let va0 = pgrounddown srcva in
        and_then (walkaddr pt va0 s) (\<lambda>(pa0, s).
        and_then (if pa0 = 0 then vmfault pt va0 False s else Inr (pa0, s)) (\<lambda>(pa0, s).
        if pa0 = 0 then Inr ((False, dst), s)
        else
          let n = min (4096 - unat (srcva - va0)) len;
              got = load_bytes (mem s) (pa0 + (srcva - va0)) n
          in copyin_loop fuel pt (dst @ got) (va0 + PGSIZE) (len - n) s)))"

text \<open>
  The flag is \<open>True\<close> for the return value 0 and \<open>False\<close> for -1; the bytes are what has been stored
  from \<open>dst\<close> on, also when the copy stops half way.
\<close>

definition copyin :: "u64 \<Rightarrow> u64 \<Rightarrow> nat \<Rightarrow> 'z ptable_scheme \<Rightarrow> ((bool \<times> u8 list) \<times> 'z ptable_scheme) kres" where
  "copyin pt srcva len s = copyin_loop len pt [] srcva len s"

primrec copyinstr_loop ::
    "nat \<Rightarrow> u64 \<Rightarrow> u8 list \<Rightarrow> u64 \<Rightarrow> nat \<Rightarrow> 'z ptable_scheme \<Rightarrow> (u8 list option \<times> 'z ptable_scheme) kres" where
  "copyinstr_loop 0 pt dst srcva left s = (if left = 0 then Inr (None, s) else Inl Diverges)"
| "copyinstr_loop (Suc fuel) pt dst srcva left s =
     (if left = 0 then Inr (None, s)
      else
        let va0 = pgrounddown srcva in
        and_then (walkaddr pt va0 s) (\<lambda>(pa0, s).
        if pa0 = 0 then Inr (None, s)
        else
          let n = min (4096 - unat (srcva - va0)) left;
              got = load_bytes (mem s) (pa0 + (srcva - va0)) n in
          if 0 \<in> set got then Inr (Some (dst @ takeWhile (\<lambda>c. c \<noteq> 0) got), s)
          else copyinstr_loop fuel pt (dst @ got) (va0 + PGSIZE) (left - n) s))"

text \<open>\<open>Some\<close> of the string without its NUL, or \<open>None\<close> for the return value -1.\<close>

definition copyinstr :: "u64 \<Rightarrow> u64 \<Rightarrow> nat \<Rightarrow> 'z ptable_scheme \<Rightarrow> (u8 list option \<times> 'z ptable_scheme) kres" where
  "copyinstr pt srcva left s = copyinstr_loop left pt [] srcva left s"

text \<open>
  \<open>either_copyout\<close> and \<open>either_copyin\<close> of rust\_proc.rs.  Where the source passes a flag and an
  address, \<open>dest\<close> says where the bytes go: a user address, a physical address, or a variable of the
  calling routine, which then receives the bytes itself; \<open>source\<close> says where they come from.
\<close>

datatype dest = ToUser u64 | ToMem u64 | ToLocal

datatype source = FromUser u64 | FromLocal "u8 list"

definition either_copyout :: "dest \<Rightarrow> u8 list \<Rightarrow> 'z ptable_scheme \<Rightarrow> (bool \<times> 'z ptable_scheme) kres" where
  "either_copyout dst src s = and_then (myproc s) (\<lambda>(p, s).
     case dst of
       ToUser a \<Rightarrow> (case p of None \<Rightarrow> Inl Undefined | Some i \<Rightarrow> copyout (pagetable (procs s i)) a src s)
     | ToMem a \<Rightarrow> Inr (True, s\<lparr>mem := store_bytes (mem s) a src\<rparr>)
     | ToLocal \<Rightarrow> Inr (True, s))"

definition either_copyin :: "source \<Rightarrow> nat \<Rightarrow> 'z ptable_scheme \<Rightarrow> ((bool \<times> u8 list) \<times> 'z ptable_scheme) kres" where
  "either_copyin src len s = and_then (myproc s) (\<lambda>(p, s).
     case src of
       FromUser a \<Rightarrow> (case p of None \<Rightarrow> Inl Undefined | Some i \<Rightarrow> copyin (pagetable (procs s i)) a len s)
     | FromLocal bs \<Rightarrow> Inr ((True, take len bs), s))"

primrec dest_add :: "dest \<Rightarrow> u32 \<Rightarrow> dest" where
  "dest_add (ToUser a) m = ToUser (a + ucast m)"
| "dest_add (ToMem a) m = ToMem (a + ucast m)"
| "dest_add ToLocal m = ToLocal"

primrec source_add :: "source \<Rightarrow> u32 \<Rightarrow> source" where
  "source_add (FromUser a) m = FromUser (a + ucast m)"
| "source_add (FromLocal bs) m = FromLocal (drop (unat m) bs)"

end
