(* ===== verification/Frame.thy ===== *)
theory Frame
  imports Vm
begin

section \<open>What the memory routines leave alone\<close>

text \<open>
  The allocator and everything built on it (page tables, copies between kernel and user memory) change
  only the hart's lock state and the fields of \<open>kmem\<close>.  All other components live in the extension
  of that record, \<open>kmem.more\<close>, so one equation says that they keep their state.
\<close>

named_theorems frame

lemma map_sum_eq_Inr: "map_sum id f x = Inr t \<longleftrightarrow> (\<exists>a. x = Inr a \<and> t = f a)"
  by (cases x) auto

lemma more_push_off [simp]: "machine.more (push_off s) = machine.more s"
  by (simp add: machine_defs)

lemma pop_off_more [frame]: "pop_off s = Inr t \<Longrightarrow> machine.more t = machine.more s"
  by (auto simp: pop_off_def machine_defs split: if_splits)

lemma acquire_more [frame]: "acquire l s = Inr t \<Longrightarrow> machine.more t = machine.more s"
  by (auto simp: acquire_def swap_locked_def set_lcpu_def Let_def split: if_splits)

lemma release_more [frame]: "release l s = Inr t \<Longrightarrow> machine.more t = machine.more s"
  by (auto simp: release_def store_unlocked_def set_lcpu_def split: if_splits dest: pop_off_more)

lemma myproc_more [frame]: "myproc s = Inr (p, t) \<Longrightarrow> machine.more t = machine.more s"
  by (auto simp: myproc_def Let_def dest: pop_off_more)

text \<open>The same for the records above the machine.\<close>

lemma machine_more_kmem:
  assumes "machine.more t = machine.more (s :: 'z kmem_scheme)"
  shows "mem t = mem s" "freelist t = freelist s" "refcnt t = refcnt s" "kend t = kend s"
    "kmem.more t = kmem.more s"
  using assms by (cases s; cases t; simp)+

lemmas acquire_kmem [frame] = machine_more_kmem [OF acquire_more]
lemmas release_kmem [frame] = machine_more_kmem [OF release_more]
lemmas myproc_kmem [frame] = machine_more_kmem [OF myproc_more]

lemma kalloc_more [frame]: "kalloc s = Inr (p, t) \<Longrightarrow> kmem.more t = kmem.more s"
  by (auto simp: kalloc_def Let_def refcnt_set_one_def refcnt_store_def
      dest!: acquire_kmem(5) release_kmem(5) split: if_splits)

lemma kfree_more [frame]: "kfree p s = Inr t \<Longrightarrow> kmem.more t = kmem.more s"
  by (auto simp: kfree_def refcnt_dec_def Let_def refcnt_store_def map_sum_eq_Inr
      dest!: acquire_kmem(5) release_kmem(5) split: if_splits)

lemma kref_inc_more [frame]: "kref_inc p s = Inr t \<Longrightarrow> kmem.more t = kmem.more s"
  by (auto simp: kref_inc_def refcnt_store_def Let_def split: if_splits)

lemma kalloc_page_more [frame]: "kalloc_page s = Inr (p, t) \<Longrightarrow> kmem.more t = kmem.more s"
  by (auto simp: kalloc_page_def dest!: kalloc_more)

lemma drop_page_more [frame]: "drop_page p s = Inr t \<Longrightarrow> kmem.more t = kmem.more s"
  by (auto simp: drop_page_def split: if_splits dest!: kfree_more)

lemma walk_levels_more [frame]:
  "walk_levels ls pt va al s = Inr (p, t) \<Longrightarrow> kmem.more t = kmem.more s"
  by (induction ls arbitrary: pt s) (auto simp: Let_def split: if_splits dest!: kalloc_more)

lemma walk_more [frame]: "walk pt va al s = Inr (p, t) \<Longrightarrow> kmem.more t = kmem.more s"
  by (auto simp: walk_def simp del: walk_levels.simps split: if_splits dest!: walk_levels_more)

text \<open>A walk that may not allocate does not change the state at all.\<close>

lemma walk_levels_pure: "walk_levels ls pt va False s = Inr (p, t) \<Longrightarrow> t = s"
  by (induction ls arbitrary: pt) (auto simp: Let_def split: if_splits)

lemma walk_pure: "walk pt va False s = Inr (p, t) \<Longrightarrow> t = s"
  by (auto simp: walk_def simp del: walk_levels.simps split: if_splits dest!: walk_levels_pure)

lemma walkaddr_pure: "walkaddr pt va s = Inr (p, t) \<Longrightarrow> t = s"
  by (auto simp: walkaddr_def Let_def split: if_splits dest!: walk_pure)

lemma ismapped_pure: "ismapped pt va s = Inr (p, t) \<Longrightarrow> t = s"
  by (auto simp: ismapped_def dest!: walk_pure)

lemma mappages_loop_more [frame]:
  "mappages_loop k pt a lim pa perm s = Inr (r, t) \<Longrightarrow> kmem.more t = kmem.more s"
  by (induction k arbitrary: a pa s) (auto simp: Let_def split: if_splits dest!: walk_more)

lemma mappages_more [frame]: "mappages pt va n pa perm s = Inr (r, t) \<Longrightarrow> kmem.more t = kmem.more s"
  by (auto simp: mappages_def split: if_splits dest!: mappages_loop_more)

lemma cow_resolve_more [frame]: "cow_resolve pt va s = Inr (r, t) \<Longrightarrow> kmem.more t = kmem.more s"
  by (auto simp: cow_resolve_def Let_def split: if_splits option.splits
      dest!: walk_more kalloc_page_more kfree_more)

lemma myproc_sz_more [frame]: "myproc_sz s = Inr (r, t) \<Longrightarrow> kmem.more t = kmem.more s"
  by (auto simp: myproc_sz_def dest!: myproc_kmem(5))

lemma myproc_pagetable_more [frame]: "myproc_pagetable s = Inr (r, t) \<Longrightarrow> kmem.more t = kmem.more s"
  by (auto simp: myproc_pagetable_def dest!: myproc_kmem(5))

lemma vmfault_more [frame]: "vmfault pt va w s = Inr (r, t) \<Longrightarrow> kmem.more t = kmem.more s"
  by (auto simp: vmfault_def Let_def split: if_splits option.splits
      dest!: myproc_sz_more myproc_pagetable_more ismapped_pure cow_resolve_more kalloc_page_more
        mappages_more drop_page_more)

lemma copyout_loop_more [frame]:
  "copyout_loop k pt a src s = Inr (r, t) \<Longrightarrow> kmem.more t = kmem.more s"
proof (induction k arbitrary: a src s)
  case (Suc k)
  show ?case
    using Suc.prems
    by (auto simp: Let_def split: if_splits
        dest!: walkaddr_pure vmfault_more walk_pure cow_resolve_more Suc.IH)
qed (simp split: if_splits)

lemma copyout_more [frame]: "copyout pt a src s = Inr (r, t) \<Longrightarrow> kmem.more t = kmem.more s"
  by (auto simp: copyout_def dest: copyout_loop_more)

lemma copyin_loop_more [frame]:
  "copyin_loop k pt dst a n s = Inr (r, t) \<Longrightarrow> kmem.more t = kmem.more s"
proof (induction k arbitrary: dst a n s)
  case (Suc k)
  show ?case
    using Suc.prems
    by (auto simp: Let_def split: if_splits dest!: walkaddr_pure vmfault_more Suc.IH)
qed (simp split: if_splits)

lemma copyin_more [frame]: "copyin pt a n s = Inr (r, t) \<Longrightarrow> kmem.more t = kmem.more s"
  by (auto simp: copyin_def dest: copyin_loop_more)

lemma copyin_length:
  "copyin_loop k pt dst a n s = Inr ((True, bs), t) \<Longrightarrow> length bs = length dst + n"
proof (induction k arbitrary: dst a n s)
  case (Suc k)
  show ?case
    using Suc.prems
    by (auto simp: Let_def split: if_splits dest!: Suc.IH)
qed (simp split: if_splits)

lemma copyinstr_loop_more [frame]:
  "copyinstr_loop k pt dst a n s = Inr (r, t) \<Longrightarrow> t = s"
proof (induction k arbitrary: dst a n s)
  case (Suc k)
  show ?case
    using Suc.prems by (auto simp: Let_def split: if_splits dest!: walkaddr_pure Suc.IH)
qed (simp split: if_splits)

lemma killed_more [frame]: "killed p s = Inr (k, t) \<Longrightarrow> machine.more t = machine.more s"
  by (auto simp: killed_def Let_def dest!: acquire_more release_more)

lemmas killed_kmem [frame] = machine_more_kmem [OF killed_more]

lemma machine_more_ptable:
  assumes "machine.more t = machine.more (s :: 'z ptable_scheme)"
  shows "procs t = procs s" "ptable.more t = ptable.more s"
  using assms by (cases s; cases t; simp)+

lemma kmem_more_ptable:
  assumes "kmem.more t = kmem.more (s :: 'z ptable_scheme)"
  shows "procs t = procs s" "ptable.more t = ptable.more s"
  using assms by (cases s; cases t; simp)+

lemma upd_proc_more [simp]:
  "ptable.more (upd_proc i f s) = ptable.more s" "mem (upd_proc i f s) = mem s"
  by (simp_all add: upd_proc_def)

lemma lock_ptable:
  fixes s t :: "'z ptable_scheme"
  shows "acquire l s = Inr t \<Longrightarrow> ptable.more t = ptable.more s \<and> mem t = mem s \<and> procs t = procs s"
    and "release l s = Inr t \<Longrightarrow> ptable.more t = ptable.more s \<and> mem t = mem s \<and> procs t = procs s"
    and "myproc s = Inr (p, t) \<Longrightarrow> ptable.more t = ptable.more s \<and> mem t = mem s \<and> procs t = procs s"
    and "killed i s = Inr (k, t) \<Longrightarrow> ptable.more t = ptable.more s \<and> mem t = mem s \<and> procs t = procs s"
  by (auto dest!: acquire_more release_more myproc_more killed_more
      dest: machine_more_ptable machine_more_kmem(1))

lemma wakeup_loop_more [frame]:
  "wakeup_loop ch c is s = Inr t \<Longrightarrow> ptable.more t = ptable.more s \<and> mem t = mem s"
proof (induction "is" arbitrary: s)
  case (Cons i "is")
  then obtain a where a: "(if Some i \<noteq> c
      then and_then (acquire (LProc i) s) (\<lambda>s. release (LProc i) (upd_proc i (rouse ch) s))
      else Inr s) = Inr a" "wakeup_loop ch c is a = Inr t" by auto
  from a(1) have "ptable.more a = ptable.more s \<and> mem a = mem s"
    by (auto split: if_splits dest!: lock_ptable)
  with Cons.IH [OF a(2)] show ?case by simp
qed simp

lemma wakeup_more [frame]: "wakeup ch s = Inr t \<Longrightarrow> ptable.more t = ptable.more s \<and> mem t = mem s"
  by (auto simp: wakeup_def dest!: wakeup_loop_more lock_ptable)

subsection \<open>Reading user memory\<close>

lemma apart_far:
  assumes "n \<le> unat (b - a)" "k \<le> unat (a - b)"
  shows "apart a n b k"
  unfolding apart_def in_range_def
proof (intro allI notI)
  fix x assume "unat (x - a) < n \<and> unat (x - b) < k"
  then have x: "unat (x - a) < n" "unat (x - b) < k" by simp_all
  show False
  proof (cases "x - b \<le> x - a")
    case True
    then have "unat ((x - a) - (x - b)) = unat (x - a) - unat (x - b)" by (rule unat_sub)
    then have "unat (b - a) \<le> unat (x - a)" by simp
    with x assms(1) show False by linarith
  next
    case False
    then have "unat ((x - b) - (x - a)) = unat (x - b) - unat (x - a)" by (intro unat_sub) simp
    then have "unat (a - b) \<le> unat (x - b)" by simp
    with x assms(2) show False by linarith
  qed
qed

text \<open>The byte a process sees at a virtual address, if the page is mapped and accessible to it.\<close>

definition user_byte :: "'z kmem_scheme \<Rightarrow> u64 \<Rightarrow> u64 \<Rightarrow> u8 option" where
  "user_byte s pt a =
     (case walkaddr pt (pgrounddown a) s of
        Inl _ \<Rightarrow> None
      | Inr (pa, _) \<Rightarrow> if pa = 0 then None else Some (mem s (pa + (a - pgrounddown a))))"

lemma walk_levels_mem_cong:
  "walk_levels ls pt va False s = Inr (p, s) \<Longrightarrow> mem t = mem s \<Longrightarrow> walk_levels ls pt va False t = Inr (p, t)"
  by (induction ls arbitrary: pt) (auto simp: Let_def split: if_splits)

lemma walkaddr_mem_cong:
  assumes "walkaddr pt va s = Inr (p, s)" "mem t = mem s"
  shows "walkaddr pt va t = Inr (p, t)"
proof (cases "va \<ge> MAXVA")
  case False
  with assms(1) obtain e where e: "walk_levels [2, 1] pt va False s = Inr (e, s)"
    by (auto simp: walkaddr_def walk_def simp del: walk_levels.simps dest: walk_levels_pure)
  note e' = walk_levels_mem_cong [OF e assms(2)]
  show ?thesis
    using assms False e e'
    by (simp add: walkaddr_def walk_def Let_def del: walk_levels.simps split: if_splits)
qed (use assms in \<open>simp add: walkaddr_def\<close>)

lemma user_byte_walkaddr:
  assumes "user_byte s pt a = Some b"
  obtains pa where "walkaddr pt (pgrounddown a) s = Inr (pa, s)" "pa \<noteq> 0" "b = mem s (pa + (a - pgrounddown a))"
  using assms by (auto simp: user_byte_def split: sum.splits if_splits dest: walkaddr_pure)

lemma user_byte_mem_cong:
  assumes "user_byte s pt a = Some b" "mem t = mem s"
  shows "user_byte t pt a = Some b"
  using assms(1)
proof (rule user_byte_walkaddr)
  fix pa assume "walkaddr pt (pgrounddown a) s = Inr (pa, s)" "pa \<noteq> 0" "b = mem s (pa + (a - pgrounddown a))"
  then show ?thesis using walkaddr_mem_cong [OF _ assms(2)] assms(2) by (simp add: user_byte_def)
qed

lemma page_offset: "a - pgrounddown a = a AND 0xfff"
proof -
  have "(a AND NOT 0xfff) + (a AND 0xfff) = a"
    by (subst disjunctive_add) (auto simp: bit_simps intro: bit_word_eqI)
  then show ?thesis by (simp add: pgrounddown_def algebra_simps)
qed

lemma page_offset_mod: "a - pgrounddown a = a mod PGSIZE"
proof -
  have "(0xfff :: u64) = mask 12" by (simp add: mask_eq_exp_minus_1)
  then have "a AND 0xfff = take_bit 12 a" by (simp add: take_bit_eq_mask)
  also have "\<dots> = a mod PGSIZE" by (simp add: take_bit_eq_mod)
  finally show ?thesis by (simp add: page_offset)
qed

lemma unat_page_offset: "unat (a - pgrounddown a) = unat a mod 4096"
  by (simp add: page_offset_mod unat_mod)

lemma page_offset_less: "unat (a - pgrounddown a) < 4096"
  by (simp add: unat_page_offset)

lemma page_offset_add:
  assumes "unat (a - pgrounddown a) + i < 4096"
  shows "pgrounddown (a + of_nat i) = pgrounddown a"
proof -
  have i: "i < 4096" "unat a mod 4096 + i < 4096" using assms by (simp_all add: unat_page_offset)
  have "unat (a + of_nat i) mod 4096 = (unat a mod 4096 + i) mod 4096"
    using i by (simp add: unat_word_ariths(1) unat_of_nat mod_mod_cancel mod_add_left_eq)
  then have "unat ((a + of_nat i) mod PGSIZE) = unat (a mod PGSIZE + of_nat i)"
    using i by (simp add: unat_mod unat_word_ariths(1) unat_of_nat)
  then have "(a + of_nat i) mod PGSIZE = a mod PGSIZE + of_nat i" by (simp add: word_unat_eq_iff)
  then have "a + of_nat i - pgrounddown (a + of_nat i) = a - pgrounddown a + of_nat i"
    by (simp add: page_offset_mod)
  then show ?thesis by (simp add: algebra_simps)
qed

lemma copyin_loop_correct:
  assumes "n \<le> k" "length bs = n" "\<And>i. i < n \<Longrightarrow> user_byte s pt (a + of_nat i) = Some (bs ! i)"
  shows "copyin_loop k pt dst a n s = Inr ((True, dst @ bs), s)"
  using assms
proof (induction k arbitrary: a n bs dst)
  case (Suc k)
  show ?case
  proof (cases "n = 0")
    case False
    define va0 where "va0 = pgrounddown a"
    define m where "m = min (4096 - unat (a - va0)) n"
    have off: "unat (a - va0) < 4096" by (simp add: va0_def page_offset_less)
    then have m: "0 < m" "m \<le> n" using False by (auto simp: m_def)
    from Suc.prems(3) [of 0] False obtain pa where pa: "walkaddr pt va0 s = Inr (pa, s)" "pa \<noteq> 0"
      unfolding va0_def by (auto elim: user_byte_walkaddr)
    have "bs ! i = mem s (pa + (a - va0) + of_nat i)" if "i < m" for i
    proof -
      have "pgrounddown (a + of_nat i) = va0"
        using that off unfolding va0_def by (intro page_offset_add) (auto simp: m_def va0_def)
      then show ?thesis
        using Suc.prems(3) [of i] that m(2) pa by (auto simp: user_byte_def algebra_simps)
    qed
    then have got: "load_bytes (mem s) (pa + (a - va0)) m = take m bs"
      using m Suc.prems(2) by (intro nth_equalityI) auto
    have "copyin_loop k pt (dst @ take m bs) (va0 + PGSIZE) (n - m) s = Inr ((True, (dst @ take m bs) @ drop m bs), s)"
    proof (rule Suc.IH)
      show "n - m \<le> k" using m Suc.prems(1) by linarith
      show "length (drop m bs) = n - m" using Suc.prems(2) by simp
      fix i assume i: "i < n - m"
      then have "m = 4096 - unat (a - va0)" using m_def by linarith
      then have "(of_nat m :: u64) = 4096 - (a - va0)" using off by simp
      then have "va0 + PGSIZE + of_nat i = a + of_nat (m + i)" by simp
      then show "user_byte s pt (va0 + PGSIZE + of_nat i) = Some (drop m bs ! i)"
        using Suc.prems(2) Suc.prems(3) [of "m + i"] i by (simp add: add.assoc)
    qed
    then show ?thesis using pa False got by (simp add: Let_def va0_def [symmetric] m_def [symmetric])
  qed (use Suc.prems in simp)
qed simp


text \<open>A page table with one user page at virtual address 0, whose byte 5 is 42.\<close>

definition demo_pt :: memory where
  "demo_pt = (store64 (store64 (store64 (\<lambda>_. 0) 0x80201000 (pa2pte 0x80202000 OR PTE_V))
     0x80202000 (pa2pte 0x80203000 OR PTE_V)) 0x80203000 (pa2pte 0x80204000 OR 0x17))(0x80204005 := 42)"

lemma demo_pt_entries:
  "load64 demo_pt 0x80201000 = 0x20080801" "load64 demo_pt 0x80202000 = 0x20080c01"
  "load64 demo_pt 0x80203000 = 0x20081017"
proof -
  have "load64 demo_pt a = load64 (store64 (store64 (store64 (\<lambda>_. 0) 0x80201000 (pa2pte 0x80202000 OR PTE_V))
     0x80202000 (pa2pte 0x80203000 OR PTE_V)) 0x80203000 (pa2pte 0x80204000 OR 0x17)) a"
    if "a \<in> {0x80201000, 0x80202000, 0x80203000}" for a
    using that unfolding demo_pt_def by (intro load64_cong) (auto simp: in_range_def)
  then show "load64 demo_pt 0x80201000 = 0x20080801" "load64 demo_pt 0x80202000 = 0x20080c01"
    "load64 demo_pt 0x80203000 = 0x20081017"
    by (simp_all add: load64_store64_apart apart_far pa2pte_def)
qed

text \<open>A process of size 4096 with that page table runs on hart 0.\<close>

definition demo_user :: ptable where
  "demo_user = demo_idle\<lparr>mem := demo_pt\<rparr>"

lemma demo_user_walkaddr: "mem s = demo_pt \<Longrightarrow> walkaddr 0x80201000 0 s = Inr (0x80204000, s)"
  by (simp add: walkaddr_def walk_def px_def demo_pt_entries pte2pa_def Let_def)

lemma demo_user_byte: "mem s = demo_pt \<Longrightarrow> user_byte s 0x80201000 5 = Some 42"
  by (simp add: user_byte_def pgrounddown_def demo_user_walkaddr) (simp add: demo_pt_def)


end
