(* ===== verification/Fs.thy ===== *)
theory Fs
  imports Commit Frame
begin

unbundle bit_operations_syntax

section \<open>Blocks, inodes and file contents (kernel/rust\_fs.rs)\<close>

text \<open>
  The lower half of the file system: the block bitmap, the in-memory inode table and the inode
  blocks, the block map of a file, reading and writing.  A \<open>*mut Inode\<close> is an index of \<open>itable\<close>;
  \<open>ilock\<close> and \<open>iunlock\<close>, which check for null, take an option.  On-disk structures are read and
  written at their byte offsets in a block.  Messages printed on the console are not modelled.
\<close>

abbreviation NDIRECT :: nat where "NDIRECT \<equiv> 12"
abbreviation NINDIRECT :: nat where "NINDIRECT \<equiv> 256"
abbreviation MAXFILE :: nat where "MAXFILE \<equiv> 268"
abbreviation NINODE :: nat where "NINODE \<equiv> 50"
abbreviation FSMAGIC :: u32 where "FSMAGIC \<equiv> 0x10203040"
abbreviation BPB :: u32 where "BPB \<equiv> 8192"
abbreviation IPB :: u32 where "IPB \<equiv> 16"
abbreviation T_DIR :: u16 where "T_DIR \<equiv> 1"
abbreviation T_FILE :: u16 where "T_FILE \<equiv> 2"
abbreviation T_DEVICE :: u16 where "T_DEVICE \<equiv> 3"

record superblock =
  magic :: u32
  sb_size :: u32
  nblocks :: u32
  ninodes :: u32
  nlog :: u32
  logstart :: u32
  inodestart :: u32
  bmapstart :: u32

record inode =
  idev :: u32
  inum :: u32
  iref :: int
  ivalid :: bool
  itype :: u16
  major :: u16
  minor :: u16
  nlink :: u16
  isize :: u32
  addrs :: "u32 list"

record stat =
  st_dev :: u32
  st_ino :: u32
  st_type :: u16
  st_nlink :: u16
  st_size :: u64

record fsst = logst +
  sb :: superblock
  inodes :: "nat \<Rightarrow> inode"

definition upd_inode :: "nat \<Rightarrow> (inode \<Rightarrow> inode) \<Rightarrow> 'z fsst_scheme \<Rightarrow> 'z fsst_scheme" where
  "upd_inode i f s = s\<lparr>inodes := (inodes s)(i := f (inodes s i))\<rparr>"

definition iblock :: "u32 \<Rightarrow> 'z fsst_scheme \<Rightarrow> u32" where
  "iblock n s = n div IPB + inodestart (sb s)"

definition bblock :: "u32 \<Rightarrow> 'z fsst_scheme \<Rightarrow> u32" where
  "bblock b s = b div BPB + bmapstart (sb s)"

text \<open>The byte offset of the inode in its block.\<close>

definition dinode_ptr :: "u32 \<Rightarrow> nat" where
  "dinode_ptr n = 64 * unat (n mod IPB)"

subsection \<open>Blocks\<close>

definition sb_of :: "u8 list \<Rightarrow> superblock" where
  "sb_of d = \<lparr>magic = getw 4 d 0, sb_size = getw 4 d 4, nblocks = getw 4 d 8, ninodes = getw 4 d 12,
     nlog = getw 4 d 16, logstart = getw 4 d 20, inodestart = getw 4 d 24, bmapstart = getw 4 d 28\<rparr>"

definition readsb :: "u32 \<Rightarrow> 'z fsst_scheme \<Rightarrow> 'z fsst_scheme kres" where
  "readsb d s = and_then (bread d 1 s) (\<lambda>(bp, s).
     brelse bp (s\<lparr>sb := sb_of (data (bufs s bp))\<rparr>))"

definition bzero :: "u32 \<Rightarrow> u32 \<Rightarrow> 'z fsst_scheme \<Rightarrow> 'z fsst_scheme kres" where
  "bzero d bno s = and_then (bread d bno s) (\<lambda>(bp, s).
     and_then (log_write bp (set_data bp (replicate BSIZE 0) s)) (\<lambda>s.
     brelse bp s))"

text \<open>The bit of block \<open>bi\<close> in a bitmap block.\<close>

definition bitmask :: "u32 \<Rightarrow> u8" where
  "bitmask bi = push_bit (unat (bi mod 8)) 1"

definition bit_clear :: "u8 list \<Rightarrow> u32 \<Rightarrow> bool" where
  "bit_clear d bi \<longleftrightarrow> d ! unat (bi div 8) AND bitmask bi = 0"

fun scan_bits :: "nat \<Rightarrow> u8 list \<Rightarrow> u32 \<Rightarrow> u32 \<Rightarrow> u32 \<Rightarrow> u32 option" where
  "scan_bits 0 d b bi lim = None"
| "scan_bits (Suc fuel) d b bi lim =
     (if bi < BPB \<and> b + bi < lim
      then if bit_clear d bi then Some bi else scan_bits fuel d b (bi + 1) lim
      else None)"

primrec balloc_loop :: "nat \<Rightarrow> u32 \<Rightarrow> u32 \<Rightarrow> 'z fsst_scheme \<Rightarrow> (u32 \<times> 'z fsst_scheme) kres" where
  "balloc_loop 0 d b s = (if b < sb_size (sb s) then Inl Diverges else Inr (0, s))"
| "balloc_loop (Suc fuel) d b s =
     (if b < sb_size (sb s)
      then and_then (bread d (bblock b s) s) (\<lambda>(bp, s).
        let x = data (bufs s bp) in
        case scan_bits (unat BPB) x b 0 (sb_size (sb s)) of
          Some bi \<Rightarrow>
            let s = set_data bp (x[unat (bi div 8) := x ! unat (bi div 8) OR bitmask bi]) s in
            and_then (log_write bp s) (\<lambda>s.
            and_then (brelse bp s) (\<lambda>s.
            and_then (bzero d (b + bi) s) (\<lambda>s. Inr (b + bi, s))))
        | None \<Rightarrow> and_then (brelse bp s) (\<lambda>s. balloc_loop fuel d (b + BPB) s))
      else Inr (0, s))"

text \<open>The outer loop visits one bitmap block per round: \<open>size / BPB + 1\<close> rounds cover the disk.\<close>

definition balloc :: "u32 \<Rightarrow> 'z fsst_scheme \<Rightarrow> (u32 \<times> 'z fsst_scheme) kres" where
  "balloc d s = balloc_loop (Suc (unat (sb_size (sb s)) div 8192)) d 0 s"

definition bfree :: "u32 \<Rightarrow> u32 \<Rightarrow> 'z fsst_scheme \<Rightarrow> 'z fsst_scheme kres" where
  "bfree d b s = and_then (bread d (bblock b s) s) (\<lambda>(bp, s).
     let bi = b mod BPB; x = data (bufs s bp) in
     if bit_clear x bi then Inl (Panic ''freeing free block'')
     else
       let s = set_data bp (x[unat (bi div 8) := x ! unat (bi div 8) AND NOT (bitmask bi)]) s in
       and_then (log_write bp s) (\<lambda>s. brelse bp s))"

subsection \<open>Inodes\<close>

definition iinit :: "'z fsst_scheme \<Rightarrow> 'z fsst_scheme" where
  "iinit s = fold (\<lambda>i s. initsleeplock (SInode i) ''inode'' s) [0..<NINODE] (initlock LItable ''itable'' s)"

fun iget_scan :: "u32 \<Rightarrow> u32 \<Rightarrow> (nat \<Rightarrow> inode) \<Rightarrow> nat option \<Rightarrow> nat list \<Rightarrow> nat option \<times> bool" where
  "iget_scan d n ino vacant [] = (vacant, False)"
| "iget_scan d n ino vacant (i # is) =
     (if iref (ino i) > 0 \<and> idev (ino i) = d \<and> inum (ino i) = n then (Some i, True)
      else iget_scan d n ino (if vacant = None \<and> iref (ino i) = 0 then Some i else vacant) is)"

definition iget :: "u32 \<Rightarrow> u32 \<Rightarrow> 'z fsst_scheme \<Rightarrow> (nat \<times> 'z fsst_scheme) kres" where
  "iget d n s = and_then (acquire LItable s) (\<lambda>s.
     case iget_scan d n (inodes s) None [0..<NINODE] of
       (Some i, True) \<Rightarrow>
         and_then (release LItable (upd_inode i (\<lambda>k. k\<lparr>iref := iref k + 1\<rparr>) s)) (\<lambda>s. Inr (i, s))
     | (None, _) \<Rightarrow> Inl (Panic ''iget: no inodes'')
     | (Some i, False) \<Rightarrow>
         and_then (release LItable (upd_inode i (\<lambda>k. k\<lparr>idev := d, inum := n, iref := 1, ivalid := False\<rparr>) s))
           (\<lambda>s. Inr (i, s)))"

primrec ialloc_loop :: "nat \<Rightarrow> u32 \<Rightarrow> u16 \<Rightarrow> u32 \<Rightarrow> 'z fsst_scheme \<Rightarrow> (nat option \<times> 'z fsst_scheme) kres" where
  "ialloc_loop 0 d ty n s = (if n < ninodes (sb s) then Inl Diverges else Inr (None, s))"
| "ialloc_loop (Suc fuel) d ty n s =
     (if n < ninodes (sb s)
      then and_then (bread d (iblock n s) s) (\<lambda>(bp, s).
        let x = data (bufs s bp); off = dinode_ptr n in
        if (getw 2 x off :: u16) = 0
        then
          let x = take off x @ replicate 64 0 @ drop (off + 64) x;
              x = putw 2 x off ty in
          and_then (log_write bp (set_data bp x s)) (\<lambda>s.
          and_then (brelse bp s) (\<lambda>s.
          and_then (iget d n s) (\<lambda>(i, s). Inr (Some i, s))))
        else and_then (brelse bp s) (\<lambda>s. ialloc_loop fuel d ty (n + 1) s))
      else Inr (None, s))"

definition ialloc :: "u32 \<Rightarrow> u16 \<Rightarrow> 'z fsst_scheme \<Rightarrow> (nat option \<times> 'z fsst_scheme) kres" where
  "ialloc d ty s = ialloc_loop (unat (ninodes (sb s))) d ty 1 s"

primrec put_words :: "u8 list \<Rightarrow> nat \<Rightarrow> u32 list \<Rightarrow> u8 list" where
  "put_words x off [] = x"
| "put_words x off (w # ws) = put_words (putw 4 x off w) (off + 4) ws"

definition put_dinode :: "u8 list \<Rightarrow> nat \<Rightarrow> inode \<Rightarrow> u8 list" where
  "put_dinode x off ip =
     (let x = putw 2 x off (itype ip);
          x = putw 2 x (off + 2) (major ip);
          x = putw 2 x (off + 4) (minor ip);
          x = putw 2 x (off + 6) (nlink ip);
          x = putw 4 x (off + 8) (isize ip)
      in put_words x (off + 12) (addrs ip))"

definition get_dinode :: "u8 list \<Rightarrow> nat \<Rightarrow> inode \<Rightarrow> inode" where
  "get_dinode x off ip =
     ip\<lparr>itype := getw 2 x off, major := getw 2 x (off + 2), minor := getw 2 x (off + 4),
        nlink := getw 2 x (off + 6), isize := getw 4 x (off + 8),
        addrs := map (\<lambda>j. getw 4 x (off + 12 + 4 * j)) [0..<NDIRECT + 1]\<rparr>"

definition iupdate :: "nat \<Rightarrow> 'z fsst_scheme \<Rightarrow> 'z fsst_scheme kres" where
  "iupdate i s =
     and_then (bread (idev (inodes s i)) (iblock (inum (inodes s i)) s) s) (\<lambda>(bp, s).
     let x = put_dinode (data (bufs s bp)) (dinode_ptr (inum (inodes s i))) (inodes s i) in
     and_then (log_write bp (set_data bp x s)) (\<lambda>s. brelse bp s))"

definition idup :: "nat \<Rightarrow> 'z fsst_scheme \<Rightarrow> (nat \<times> 'z fsst_scheme) kres" where
  "idup i s = and_then (acquire LItable s) (\<lambda>s.
     and_then (release LItable (upd_inode i (\<lambda>k. k\<lparr>iref := iref k + 1\<rparr>) s)) (\<lambda>s. Inr (i, s)))"

definition ilock :: "nat option \<Rightarrow> 'z fsst_scheme \<Rightarrow> 'z fsst_scheme kres" where
  "ilock ip s =
     (case ip of None \<Rightarrow> Inl (Panic ''ilock'') | Some i \<Rightarrow>
        if iref (inodes s i) < 1 then Inl (Panic ''ilock'')
        else and_then (acquiresleep (SInode i) s) (\<lambda>s.
          if \<not> ivalid (inodes s i)
          then and_then (bread (idev (inodes s i)) (iblock (inum (inodes s i)) s) s) (\<lambda>(bp, s).
            let s = upd_inode i (get_dinode (data (bufs s bp)) (dinode_ptr (inum (inodes s i)))) s in
            and_then (brelse bp s) (\<lambda>s.
            let s = upd_inode i (ivalid_update (\<lambda>_. True)) s in
            if itype (inodes s i) = 0 then Inl (Panic ''ilock: no type'') else Inr s))
          else Inr s))"

definition iunlock :: "nat option \<Rightarrow> 'z fsst_scheme \<Rightarrow> 'z fsst_scheme kres" where
  "iunlock ip s =
     (case ip of None \<Rightarrow> Inl (Panic ''iunlock'') | Some i \<Rightarrow>
        and_then (holdingsleep (SInode i) s) (\<lambda>(h, s).
        if \<not> h \<or> iref (inodes s i) < 1 then Inl (Panic ''iunlock'')
        else releasesleep (SInode i) s))"

definition itrunc :: "nat \<Rightarrow> 'z fsst_scheme \<Rightarrow> 'z fsst_scheme kres" where
  "itrunc i s =
     and_then (for_each (\<lambda>j s.
       if addrs (inodes s i) ! j \<noteq> 0
       then and_then (bfree (idev (inodes s i)) (addrs (inodes s i) ! j) s) (\<lambda>s.
         Inr (upd_inode i (\<lambda>k. k\<lparr>addrs := (addrs k)[j := 0]\<rparr>) s))
       else Inr s) [0..<NDIRECT] s) (\<lambda>s.
     and_then (if addrs (inodes s i) ! NDIRECT \<noteq> 0
       then and_then (bread (idev (inodes s i)) (addrs (inodes s i) ! NDIRECT) s) (\<lambda>(bp, s).
         and_then (for_each (\<lambda>j s.
           let a = getw 4 (data (bufs s bp)) (4 * j) in
           if a \<noteq> 0 then bfree (idev (inodes s i)) a s else Inr s) [0..<NINDIRECT] s) (\<lambda>s.
         and_then (brelse bp s) (\<lambda>s.
         and_then (bfree (idev (inodes s i)) (addrs (inodes s i) ! NDIRECT) s) (\<lambda>s.
         Inr (upd_inode i (\<lambda>k. k\<lparr>addrs := (addrs k)[NDIRECT := 0]\<rparr>) s)))))
       else Inr s) (\<lambda>s.
     iupdate i (upd_inode i (isize_update (\<lambda>_. 0)) s)))"

definition iput :: "nat \<Rightarrow> 'z fsst_scheme \<Rightarrow> 'z fsst_scheme kres" where
  "iput i s = and_then (acquire LItable s) (\<lambda>s.
     and_then (if iref (inodes s i) = 1 \<and> ivalid (inodes s i) \<and> nlink (inodes s i) = 0
       then and_then (acquiresleep (SInode i) s) (\<lambda>s.
         and_then (release LItable s) (\<lambda>s.
         and_then (itrunc i s) (\<lambda>s.
         and_then (iupdate i (upd_inode i (itype_update (\<lambda>_. 0)) s)) (\<lambda>s.
         and_then (releasesleep (SInode i) (upd_inode i (ivalid_update (\<lambda>_. False)) s)) (\<lambda>s.
         acquire LItable s)))))
       else Inr s) (\<lambda>s.
     release LItable (upd_inode i (\<lambda>k. k\<lparr>iref := iref k - 1\<rparr>) s)))"

definition iunlockput :: "nat \<Rightarrow> 'z fsst_scheme \<Rightarrow> 'z fsst_scheme kres" where
  "iunlockput i s = and_then (iunlock (Some i) s) (\<lambda>s. iput i s)"

definition ireclaim :: "u32 \<Rightarrow> 'z fsst_scheme \<Rightarrow> 'z fsst_scheme kres" where
  "ireclaim d s = for_each (\<lambda>n s.
     and_then (bread d (iblock (of_nat n) s) s) (\<lambda>(bp, s).
     let x = data (bufs s bp); off = dinode_ptr (of_nat n) in
     and_then (if (getw 2 x off :: u16) \<noteq> 0 \<and> (getw 2 x (off + 6) :: u16) = 0
               then and_then (iget d (of_nat n) s) (\<lambda>(i, s). Inr (Some i, s)) else Inr (None, s)) (\<lambda>(ip, s).
     and_then (brelse bp s) (\<lambda>s.
     case ip of
       None \<Rightarrow> Inr s
     | Some i \<Rightarrow>
         and_then (begin_op s) (\<lambda>s.
         and_then (ilock (Some i) s) (\<lambda>s.
         and_then (iunlock (Some i) s) (\<lambda>s.
         and_then (iput i s) (\<lambda>s. end_op s)))))))) [1..<nat (sint (ninodes (sb s)))] s"

definition fsinit :: "u32 \<Rightarrow> 'z fsst_scheme \<Rightarrow> 'z fsst_scheme kres" where
  "fsinit d s = and_then (readsb d s) (\<lambda>s.
     if magic (sb s) \<noteq> FSMAGIC then Inl (Panic ''invalid file system'')
     else and_then (initlog d (logstart (sb s)) s) (\<lambda>s. ireclaim d s))"

subsection \<open>File contents\<close>

definition bmap :: "nat \<Rightarrow> u32 \<Rightarrow> 'z fsst_scheme \<Rightarrow> (u32 \<times> 'z fsst_scheme) kres" where
  "bmap i bn s =
     (if unat bn < NDIRECT
      then if addrs (inodes s i) ! unat bn = 0
        then and_then (balloc (idev (inodes s i)) s) (\<lambda>(addr, s).
          if addr = 0 then Inr (0, s)
          else Inr (addr, upd_inode i (\<lambda>k. k\<lparr>addrs := (addrs k)[unat bn := addr]\<rparr>) s))
        else Inr (addrs (inodes s i) ! unat bn, s)
      else
        let bn = bn - 12 in
        if unat bn < NINDIRECT
        then and_then (if addrs (inodes s i) ! NDIRECT = 0
            then and_then (balloc (idev (inodes s i)) s) (\<lambda>(addr, s).
              if addr = 0 then Inr (False, s)
              else Inr (True, upd_inode i (\<lambda>k. k\<lparr>addrs := (addrs k)[NDIRECT := addr]\<rparr>) s))
            else Inr (True, s)) (\<lambda>(ok, s).
          if \<not> ok then Inr (0, s)
          else and_then (bread (idev (inodes s i)) (addrs (inodes s i) ! NDIRECT) s) (\<lambda>(bp, s).
            and_then (if (getw 4 (data (bufs s bp)) (4 * unat bn) :: u32) = 0
              then and_then (balloc (idev (inodes s i)) s) (\<lambda>(addr, s).
                if addr \<noteq> 0
                then log_write bp (set_data bp (putw 4 (data (bufs s bp)) (4 * unat bn) addr) s)
                else Inr s)
              else Inr s) (\<lambda>s.
            let out = getw 4 (data (bufs s bp)) (4 * unat bn) in
            and_then (brelse bp s) (\<lambda>s. Inr (out, s)))))
        else Inl (Panic ''bmap: out of range''))"

definition stati :: "nat \<Rightarrow> 'z fsst_scheme \<Rightarrow> stat" where
  "stati i s = \<lparr>st_dev = idev (inodes s i), st_ino = inum (inodes s i), st_type = itype (inodes s i),
     st_nlink = nlink (inodes s i), st_size = ucast (isize (inodes s i))\<rparr>"

definition min_u :: "u32 \<Rightarrow> u32 \<Rightarrow> u32" where
  "min_u a b = (if a < b then a else b)"

text \<open>
  The result of \<open>readi\<close> is the return value and the bytes that went to a local variable.  Each round
  of the loops moves at least one byte, so \<open>n\<close> is enough fuel.
\<close>

primrec readi_loop :: "nat \<Rightarrow> nat \<Rightarrow> dest \<Rightarrow> u32 \<Rightarrow> u32 \<Rightarrow> u32 \<Rightarrow> u8 list \<Rightarrow> 'z fsst_scheme \<Rightarrow>
    ((int \<times> u8 list) \<times> 'z fsst_scheme) kres" where
  "readi_loop 0 i dst off n tot out s = (if tot < n then Inl Diverges else Inr ((sint tot, out), s))"
| "readi_loop (Suc fuel) i dst off n tot out s =
     (if tot < n
      then and_then (bmap i (off div 1024) s) (\<lambda>(addr, s).
        if addr = 0 then Inr ((sint tot, out), s)
        else and_then (bread (idev (inodes s i)) addr s) (\<lambda>(bp, s).
          let m = min_u (n - tot) (1024 - off mod 1024);
              chunk = take (unat m) (drop (unat (off mod 1024)) (data (bufs s bp))) in
          and_then (either_copyout dst chunk s) (\<lambda>(ok, s).
          if \<not> ok then and_then (brelse bp s) (\<lambda>s. Inr ((- 1, out), s))
          else and_then (brelse bp s) (\<lambda>s.
            readi_loop fuel i (dest_add dst m) (off + m) n (tot + m) (out @ chunk) s))))
      else Inr ((sint tot, out), s))"

definition readi :: "nat \<Rightarrow> dest \<Rightarrow> u32 \<Rightarrow> u32 \<Rightarrow> 'z fsst_scheme \<Rightarrow> ((int \<times> u8 list) \<times> 'z fsst_scheme) kres" where
  "readi i dst off n s =
     (if off > isize (inodes s i) \<or> off + n < off then Inr ((0, []), s)
      else
        let n = (if off + n > isize (inodes s i) then isize (inodes s i) - off else n) in
        readi_loop (unat n) i dst off n 0 [] s)"

definition splice :: "u8 list \<Rightarrow> nat \<Rightarrow> u8 list \<Rightarrow> u8 list" where
  "splice x off bs = take off x @ bs @ drop (off + length bs) x"

primrec writei_loop :: "nat \<Rightarrow> nat \<Rightarrow> source \<Rightarrow> u32 \<Rightarrow> u32 \<Rightarrow> u32 \<Rightarrow> 'z fsst_scheme \<Rightarrow>
    ((u32 \<times> u32) \<times> 'z fsst_scheme) kres" where
  "writei_loop 0 i src off n tot s = (if tot < n then Inl Diverges else Inr ((off, tot), s))"
| "writei_loop (Suc fuel) i src off n tot s =
     (if tot < n
      then and_then (bmap i (off div 1024) s) (\<lambda>(addr, s).
        if addr = 0 then Inr ((off, tot), s)
        else and_then (bread (idev (inodes s i)) addr s) (\<lambda>(bp, s).
          let m = min_u (n - tot) (1024 - off mod 1024) in
          and_then (either_copyin src (unat m) s) (\<lambda>((ok, bs), s).
          let s = set_data bp (splice (data (bufs s bp)) (unat (off mod 1024)) bs) s in
          if \<not> ok then and_then (brelse bp s) (\<lambda>s. Inr ((off, tot), s))
          else and_then (log_write bp s) (\<lambda>s.
            and_then (brelse bp s) (\<lambda>s.
            writei_loop fuel i (source_add src m) (off + m) n (tot + m) s)))))
      else Inr ((off, tot), s))"

definition writei :: "nat \<Rightarrow> source \<Rightarrow> u32 \<Rightarrow> u32 \<Rightarrow> 'z fsst_scheme \<Rightarrow> (int \<times> 'z fsst_scheme) kres" where
  "writei i src off n s =
     (if off > isize (inodes s i) \<or> off + n < off then Inr (- 1, s)
      else if off + n > of_nat (MAXFILE * BSIZE) then Inr (- 1, s)
      else and_then (writei_loop (unat n) i src off n 0 s) (\<lambda>((off, tot), s).
        let s = (if off > isize (inodes s i) then upd_inode i (isize_update (\<lambda>_. off)) s else s) in
        and_then (iupdate i s) (\<lambda>s. Inr (sint tot, s))))"

subsection \<open>Lock operations leave the inode table alone\<close>

lemma fsst_acquired [simp]:
  "sb (acquired l s) = sb s"
  "inodes (acquired l s) = inodes s"
  by (simp_all add: acquired_def machine_defs)

lemma fsst_crit [simp]:
  "sb (crit s) = sb s"
  "inodes (crit s) = inodes s"
  by (simp_all add: crit_def machine_defs)

lemma fsst_initlock [simp]:
  "sb (initlock l nm s) = sb s"
  "inodes (initlock l nm s) = inodes s"
  by (simp_all add: initlock_def)

lemma release_fsst_upd [simp]:
  "release l (s\<lparr>sb := x0\<rparr>) = map_sum id (\<lambda>t. t\<lparr>sb := x0\<rparr>) (release l s)"
  "release l (s\<lparr>inodes := x1\<rparr>) = map_sum id (\<lambda>t. t\<lparr>inodes := x1\<rparr>) (release l s)"
  by (simp_all add: release_unfold)

lemma acquire_fsst_upd [simp]:
  "acquire l (s\<lparr>sb := x0\<rparr>) = map_sum id (\<lambda>t. t\<lparr>sb := x0\<rparr>) (acquire l s)"
  "acquire l (s\<lparr>inodes := x1\<rparr>) = map_sum id (\<lambda>t. t\<lparr>inodes := x1\<rparr>) (acquire l s)"
  by (simp_all add: acquire_unfold)

lemma acquired_fsst_upd [simp]:
  "acquired l (s\<lparr>sb := x0\<rparr>) = (acquired l s)\<lparr>sb := x0\<rparr>"
  "acquired l (s\<lparr>inodes := x1\<rparr>) = (acquired l s)\<lparr>inodes := x1\<rparr>"
  by (simp_all add: acquired_def machine_defs)

lemma crit_fsst_upd [simp]:
  "crit (s\<lparr>sb := x0\<rparr>) = (crit s)\<lparr>sb := x0\<rparr>"
  "crit (s\<lparr>inodes := x1\<rparr>) = (crit s)\<lparr>inodes := x1\<rparr>"
  by (simp_all add: crit_def machine_defs)

lemma lock_free_fsst_upd [simp]:
  "lock_free l (s\<lparr>sb := x0\<rparr>) = lock_free l s"
  "lock_free l (s\<lparr>inodes := x1\<rparr>) = lock_free l s"
  by (simp_all add: lock_free_def)

lemma cpu_ok_fsst_upd [simp]:
  "cpu_ok (s\<lparr>sb := x0\<rparr>) = cpu_ok s"
  "cpu_ok (s\<lparr>inodes := x1\<rparr>) = cpu_ok s"
  by (simp_all add: cpu_ok_def machine_defs)

lemma mycpu_fsst_upd [simp]:
  "mycpu (s\<lparr>sb := x0\<rparr>) = mycpu s"
  "mycpu (s\<lparr>inodes := x1\<rparr>) = mycpu s"
  by (simp_all add: mycpu_def)

lemma my_pid_fsst_upd [simp]:
  "my_pid (s\<lparr>sb := x0\<rparr>) = my_pid s"
  "my_pid (s\<lparr>inodes := x1\<rparr>) = my_pid s"
  by (simp_all add: my_pid_def split: option.split)

lemma procs_free_fsst_upd [simp]:
  "procs_free (s\<lparr>sb := x0\<rparr>) = procs_free s"
  "procs_free (s\<lparr>inodes := x1\<rparr>) = procs_free s"
  by (simp_all add: procs_free_def)

lemma cached_fsst_upd [simp]:
  "cached d bn (s\<lparr>sb := x0\<rparr>) = cached d bn s"
  "cached d bn (s\<lparr>inodes := x1\<rparr>) = cached d bn s"
  by (simp_all add: cached_def)

lemma view_fsst_upd [simp]:
  "view d bn (s\<lparr>sb := x0\<rparr>) = view d bn s"
  "view d bn (s\<lparr>inodes := x1\<rparr>) = view d bn s"
  by (simp_all add: view_def split: option.split)

lemma bc_inv_fsst_upd [simp]:
  "bc_inv H (s\<lparr>sb := x0\<rparr>) = bc_inv H s"
  "bc_inv H (s\<lparr>inodes := x1\<rparr>) = bc_inv H s"
  by (simp_all add: bc_inv_def bc_locks_def bc_data_def)

end
