(* ===== verification/Dir.thy ===== *)
theory Dir
  imports Fs
begin

section \<open>Directories and path names (kernel/rust\_fs.rs)\<close>

text \<open>
  The upper half of the file system.  A path is the list of its bytes up to the terminating NUL, so
  \<open>*path == 0\<close> is \<open>path = []\<close>; a name is a buffer of \<open>DIRSIZ\<close> bytes, NUL-padded or full.  The
  string routines that the source calls on names run here on a scratch memory holding the two buffers,
  \<open>names_mem\<close>.
\<close>

abbreviation DIRSIZ :: nat where "DIRSIZ \<equiv> 14"
abbreviation ROOTDEV :: u32 where "ROOTDEV \<equiv> 1"
abbreviation ROOTINO :: u32 where "ROOTINO \<equiv> 1"
abbreviation SLASH :: u8 where "SLASH \<equiv> 47"

definition names_mem :: "u8 list \<Rightarrow> u8 list \<Rightarrow> memory" where
  "names_mem s t = store_bytes (store_bytes (\<lambda>_. 0) 0x1000 s) 0x2000 t"

definition namecmp :: "u8 list \<Rightarrow> u8 list \<Rightarrow> int" where
  "namecmp s t = strncmp (names_mem s t) 0x1000 0x2000 14"

definition copy_name :: "u8 list \<Rightarrow> u8 list" where
  "copy_name s = load_bytes (strncpy 0x2000 0x1000 14 (names_mem s [])) 0x2000 14"

text \<open>Skip slashes, copy the next path element into \<open>name\<close>, skip slashes.\<close>

definition skipelem :: "u8 list \<Rightarrow> u8 list \<Rightarrow> (u8 list \<times> u8 list) option" where
  "skipelem path name =
     (let path = dropWhile (\<lambda>c. c = SLASH) path in
      if path = [] then None
      else
        let elem = takeWhile (\<lambda>c. c \<noteq> SLASH) path;
            path = dropWhile (\<lambda>c. c \<noteq> SLASH) path;
            name = (if length elem \<ge> DIRSIZ then splice name 0 (take DIRSIZ elem)
                    else splice name 0 (elem @ [0])) in
        Some (dropWhile (\<lambda>c. c = SLASH) path, name))"

definition de_inum :: "u8 list \<Rightarrow> u16" where
  "de_inum de = getw 2 de 0"

definition de_name :: "u8 list \<Rightarrow> u8 list" where
  "de_name de = take DIRSIZ (drop 2 de)"

primrec dirlookup_loop :: "nat \<Rightarrow> nat \<Rightarrow> u8 list \<Rightarrow> u32 \<Rightarrow> 'z fsst_scheme \<Rightarrow>
    ((nat \<times> u32) option \<times> 'z fsst_scheme) kres" where
  "dirlookup_loop 0 dp name off s =
     (if off < isize (inodes s dp) then Inl Diverges else Inr (None, s))"
| "dirlookup_loop (Suc fuel) dp name off s =
     (if off < isize (inodes s dp)
      then and_then (readi dp ToLocal off 16 s) (\<lambda>((n, de), s).
        if n \<noteq> 16 then Inl (Panic ''dirlookup read'')
        else if de_inum de \<noteq> 0 \<and> namecmp name (de_name de) = 0
        then and_then (iget (idev (inodes s dp)) (ucast (de_inum de)) s) (\<lambda>(i, s). Inr (Some (i, off), s))
        else dirlookup_loop fuel dp name (off + 16) s)
      else Inr (None, s))"

text \<open>The inode found and the offset of its entry, which the source stores through \<open>poff\<close>.\<close>

definition dirlookup :: "nat \<Rightarrow> u8 list \<Rightarrow> 'z fsst_scheme \<Rightarrow> ((nat \<times> u32) option \<times> 'z fsst_scheme) kres" where
  "dirlookup dp name s =
     (if itype (inodes s dp) \<noteq> T_DIR then Inl (Panic ''dirlookup not DIR'')
      else dirlookup_loop (Suc (unat (isize (inodes s dp)) div 16)) dp name 0 s)"

primrec dirlink_scan :: "nat \<Rightarrow> nat \<Rightarrow> u32 \<Rightarrow> 'z fsst_scheme \<Rightarrow> (u32 \<times> 'z fsst_scheme) kres" where
  "dirlink_scan 0 dp off s = (if off < isize (inodes s dp) then Inl Diverges else Inr (off, s))"
| "dirlink_scan (Suc fuel) dp off s =
     (if off < isize (inodes s dp)
      then and_then (readi dp ToLocal off 16 s) (\<lambda>((n, de), s).
        if n \<noteq> 16 then Inl (Panic ''dirlink read'')
        else if de_inum de = 0 then Inr (off, s)
        else dirlink_scan fuel dp (off + 16) s)
      else Inr (off, s))"

definition dirent_bytes :: "u16 \<Rightarrow> u8 list \<Rightarrow> u8 list" where
  "dirent_bytes n name = le_bytes 2 n @ name"

definition dirlink :: "nat \<Rightarrow> u8 list \<Rightarrow> u32 \<Rightarrow> 'z fsst_scheme \<Rightarrow> (int \<times> 'z fsst_scheme) kres" where
  "dirlink dp name n s = and_then (dirlookup dp name s) (\<lambda>(r, s).
     case r of
       Some (ip, _) \<Rightarrow> and_then (iput ip s) (\<lambda>s. Inr (- 1, s))
     | None \<Rightarrow>
         and_then (dirlink_scan (Suc (unat (isize (inodes s dp)) div 16)) dp 0 s) (\<lambda>(off, s).
         let de = dirent_bytes (ucast n) (copy_name name) in
         and_then (writei dp (FromLocal de) off 16 s) (\<lambda>(r, s).
         Inr (if r \<noteq> 16 then - 1 else 0, s))))"

text \<open>
  Every round consumes a path element, so \<open>length path + 1\<close> rounds are enough.  The result is the
  inode and the name buffer as the walk left it.
\<close>

primrec namex_loop :: "nat \<Rightarrow> nat \<Rightarrow> u8 list \<Rightarrow> bool \<Rightarrow> u8 list \<Rightarrow> 'z fsst_scheme \<Rightarrow>
    ((nat option \<times> u8 list) \<times> 'z fsst_scheme) kres" where
  "namex_loop 0 ip path parentp name s = Inl Diverges"
| "namex_loop (Suc fuel) ip path parentp name s =
     (case skipelem path name of
        None \<Rightarrow>
          if parentp then and_then (iput ip s) (\<lambda>s. Inr ((None, name), s)) else Inr ((Some ip, name), s)
      | Some (path, name) \<Rightarrow>
          and_then (ilock (Some ip) s) (\<lambda>s.
          if itype (inodes s ip) \<noteq> T_DIR
          then and_then (iunlockput ip s) (\<lambda>s. Inr ((None, name), s))
          else if parentp \<and> path = []
          then and_then (iunlock (Some ip) s) (\<lambda>s. Inr ((Some ip, name), s))
          else and_then (dirlookup ip name s) (\<lambda>(r, s).
            case r of
              None \<Rightarrow> and_then (iunlockput ip s) (\<lambda>s. Inr ((None, name), s))
            | Some (nextp, _) \<Rightarrow>
                and_then (iunlockput ip s) (\<lambda>s. namex_loop fuel nextp path parentp name s))))"

definition namex :: "u8 list \<Rightarrow> bool \<Rightarrow> u8 list \<Rightarrow> 'z fsst_scheme \<Rightarrow>
    ((nat option \<times> u8 list) \<times> 'z fsst_scheme) kres" where
  "namex path parentp name s =
     and_then (if path \<noteq> [] \<and> hd path = SLASH then iget ROOTDEV ROOTINO s
               else and_then (myproc_cwd s) (\<lambda>(d, s).
                 case d of None \<Rightarrow> Inl Undefined | Some i \<Rightarrow> idup i s)) (\<lambda>(ip, s).
     namex_loop (Suc (length path)) ip path parentp name s)"

definition namei :: "u8 list \<Rightarrow> 'z fsst_scheme \<Rightarrow> (nat option \<times> 'z fsst_scheme) kres" where
  "namei path s = and_then (namex path False (replicate DIRSIZ 0) s) (\<lambda>((ip, _), s). Inr (ip, s))"

definition nameiparent :: "u8 list \<Rightarrow> u8 list \<Rightarrow> 'z fsst_scheme \<Rightarrow>
    ((nat option \<times> u8 list) \<times> 'z fsst_scheme) kres" where
  "nameiparent path name s = namex path True name s"

end
