(* ===== verification/Txn.thy ===== *)
theory Txn
  imports Dir
begin

unbundle bit_operations_syntax

section \<open>Blocks inside a transaction\<close>

text \<open>
  What the file system does between \<open>begin_op\<close> and \<open>end_op\<close>, seen as changes of blocks: \<open>view\<close> gives
  the current contents of every block, whether it sits in the cache, in the log or on the disk.
  \<open>txn H k s\<close> says that the process holds the buffers \<open>H\<close> and that \<open>k\<close> more can be read or logged.
\<close>

definition txn :: "nat set \<Rightarrow> nat \<Rightarrow> 'z logst_scheme \<Rightarrow> bool" where
  "txn H k s \<longleftrightarrow> log_inv H s \<and> 1 \<le> outstanding s \<and> lh_n s + int (card H) + int k \<le> int NBUF"

abbreviation blk :: "u32 \<Rightarrow> 'z logst_scheme \<Rightarrow> u8 list" where
  "blk bn s \<equiv> view ROOTDEV bn s"

lemma log_calm_calm: "calm s t \<Longrightarrow> log_calm s t"
  unfolding log_calm_def by (rule exI [of _ "lh_n s"], rule exI [of _ "lh_block s"]) simp

lemma log_calm_trans [trans]:
  assumes "log_calm s t" "log_calm t u"
  shows "log_calm s u"
proof -
  obtain n b where 1: "calm (s\<lparr>lh_n := n, lh_block := b\<rparr>) t" using assms(1) by (auto simp: log_calm_def)
  obtain m c where 2: "calm (t\<lparr>lh_n := m, lh_block := c\<rparr>) u" using assms(2) by (auto simp: log_calm_def)
  have "calm (s\<lparr>lh_n := n, lh_block := b, lh_n := m, lh_block := c\<rparr>) (t\<lparr>lh_n := m, lh_block := c\<rparr>)"
    by (rule calm_lh_upd [OF 1])
  from calm_trans [OF this 2] show ?thesis by (auto simp: log_calm_def)
qed

text \<open>A step that changes blocks only keeps everything above the block layer.\<close>

lemma log_calmD:
  fixes s t :: "'z fsst_scheme"
  assumes "log_calm s t"
  shows "inodes t = inodes s" "sb t = sb s" "mem t = mem s" "outstanding t = outstanding s" "disk t = disk s"
    "\<And>j. slocks t (SInode j) = slocks s (SInode j)" "lock_free lk t = lock_free lk s" "my_pid t = my_pid s"
    "cproc (mycpu t) = cproc (mycpu s)" "\<And>q. pagetable (procs t q) = pagetable (procs s q)"
proof -
  obtain n b where c: "calm (s\<lparr>lh_n := n, lh_block := b\<rparr>) t" using assms by (auto simp: log_calm_def)
  obtain c' p l b' where t: "t = s\<lparr>lh_n := n, lh_block := b, cpus := c', procs := p, slocks := l, bufs := b'\<rparr>"
    and l: "\<And>j. l (SInode j) = slocks s (SInode j)" and pl: "\<And>q. proc_le (procs s q) (p q)"
    using c unfolding calm_def by auto
  from t show "inodes t = inodes s" "sb t = sb s" by simp_all
  from t pl proc_le_fields show "\<And>q. pagetable (procs t q) = pagetable (procs s q)" by simp
  show "my_pid t = my_pid s" "cproc (mycpu t) = cproc (mycpu s)" "mem t = mem s" "disk t = disk s"
    using calmD [OF c] by simp_all
  show "outstanding t = outstanding s" "lock_free lk t = lock_free lk s" using calm_log [OF c] by simp_all
  show "\<And>j. slocks t (SInode j) = slocks s (SInode j)" using t l by simp
qed

lemma txnD:
  assumes "txn H k s"
  shows "log_inv H s" "pin_inv H (logged s) s" "finite H" "H \<subseteq> {..<NBUF}" "1 \<le> outstanding s"
    "nat (lh_n s) + card H + k \<le> NBUF"
proof -
  show 1: "log_inv H s" "1 \<le> outstanding s" using assms by (simp_all add: txn_def)
  show "pin_inv H (logged s) s" using log_invD(9) [OF 1(1)] .
  show "H \<subseteq> {..<NBUF}" using bc_invD(7) [OF log_invD(1) [OF 1(1)]] .
  then show "finite H" by (rule finite_subset) simp
  show "nat (lh_n s) + card H + k \<le> NBUF" using assms log_invD(3) [OF 1(1)] unfolding txn_def by linarith
qed

lemma held_blocks_cong: "(\<And>i. i \<in> H \<Longrightarrow> blockno (bufs t i) = blockno (bufs s i)) \<Longrightarrow> held_blocks H t = held_blocks H s"
  unfolding held_blocks_def by (rule image_cong) simp_all

lemma txn_mono: "txn H k s \<Longrightarrow> j \<le> k \<Longrightarrow> txn H j s"
  by (auto simp: txn_def)

lemma txn_read:
  assumes "txn H (Suc k) s" "bn \<notin> held_blocks H s"
  shows "\<exists>b t. bread ROOTDEV bn s = Inr (b, t) \<and> calm s t \<and> txn (insert b H) k t \<and> b \<notin> H \<and>
    blockno (bufs t b) = bn \<and> data (bufs t b) = blk bn s \<and> (\<forall>x. blk x t = blk x s) \<and>
    (\<forall>i. i \<noteq> b \<longrightarrow> bufs t i = bufs s i)"
proof -
  note s = txnD [OF assms(1)]
  have "can_read H (logged s) bn s"
    using assms(2) s(6) card_logged [OF s(1)] by (simp add: can_read_def)
  then obtain b t where t: "bread ROOTDEV bn s = Inr (b, t)" "calm s t" "pin_inv (insert b H) (logged s) t" "b \<notin> H"
      "blockno (bufs t b) = bn" "data (bufs t b) = blk bn s" "\<forall>x. blk x t = blk x s"
      "\<forall>i. i \<noteq> b \<longrightarrow> bufs t i = bufs s i"
    using bread_pin [OF s(2)] by blast
  have "txn (insert b H) k t"
    using log_inv_calm [OF s(1) t(2,3)] calm_log [OF t(2)] assms(1) t(4) s(3) by (simp add: txn_def)
  with t show ?thesis by blast
qed

lemma txn_release:
  assumes "txn (insert b H) k t" "b \<notin> H" "data (bufs t b) = disk t (blockno (bufs t b)) \<or> blockno (bufs t b) \<in> logged t"
  shows "\<exists>u. brelse b t = Inr u \<and> calm t u \<and> txn H (Suc k) u \<and> (\<forall>x. blk x u = blk x t) \<and>
    (\<forall>i. blockno (bufs u i) = blockno (bufs t i) \<and> data (bufs u i) = data (bufs t i))"
proof -
  note t = txnD [OF assms(1)]
  have "insert b H - {b} = H" using assms(2) by auto
  then obtain u where u: "brelse b t = Inr u" "calm t u" "pin_inv H (logged t) u" "\<forall>x. blk x u = blk x t"
      "\<forall>i. blockno (bufs u i) = blockno (bufs t i) \<and> data (bufs u i) = data (bufs t i)"
    using brelse_pin [OF t(2), of b] assms(3) by auto
  have "txn H (Suc k) u"
    using log_inv_calm [OF t(1) u(2,3)] calm_log [OF u(2)] assms(1,2) t(3) by (simp add: txn_def)
  with u show ?thesis by blast
qed

text \<open>Reading a block and giving it back.\<close>

lemma txn_peek:
  assumes "txn H (Suc k) s" "bn \<notin> held_blocks H s"
  shows "\<exists>b t u. bread ROOTDEV bn s = Inr (b, t) \<and> data (bufs t b) = blk bn s \<and> calm s t \<and> brelse b t = Inr u \<and>
    calm s u \<and> txn H (Suc k) u \<and> (\<forall>x. blk x u = blk x s) \<and> held_blocks H u = held_blocks H s"
proof -
  note s = txnD [OF assms(1)]
  obtain b t where t: "bread ROOTDEV bn s = Inr (b, t)" "calm s t" "txn (insert b H) k t" "b \<notin> H"
      "blockno (bufs t b) = bn" "data (bufs t b) = blk bn s" "\<forall>x. blk x t = blk x s"
      "\<forall>i. i \<noteq> b \<longrightarrow> bufs t i = bufs s i"
    using txn_read [OF assms] by blast
  have "data (bufs t b) = disk t (blockno (bufs t b)) \<or> blockno (bufs t b) \<in> logged t"
    using view_clean [OF s(2) _ assms(2)] t(5,6) calmD [OF t(2)] calm_log [OF t(2)] by auto
  then obtain u where u: "brelse b t = Inr u" "calm t u" "txn H (Suc k) u" "\<forall>x. blk x u = blk x t"
      "\<forall>i. blockno (bufs u i) = blockno (bufs t i) \<and> data (bufs u i) = data (bufs t i)"
    using txn_release [OF t(3,4)] by blast
  have "held_blocks H u = held_blocks H s" by (rule held_blocks_cong) (use u(5) t(4,8) in \<open>metis\<close>)
  then show ?thesis using t u calm_trans [OF t(2) u(2)] by (intro exI [of _ b] exI [of _ t] exI [of _ u]) simp
qed

text \<open>Logging new contents of a held buffer and giving it back.\<close>

lemma txn_store:
  assumes "txn (insert b H) k t" "b \<notin> H" "length x = BSIZE"
  shows "\<exists>u v. log_write b (set_data b x t) = Inr u \<and> log_calm t u \<and> data (bufs u b) = x \<and> brelse b u = Inr v \<and> log_calm t v \<and> txn H k v \<and>
    (\<forall>y. blk y v = (if y = blockno (bufs t b) then x else blk y t)) \<and>
    (\<forall>i. blockno (bufs v i) = blockno (bufs t i) \<and> (i \<noteq> b \<longrightarrow> data (bufs v i) = data (bufs t i))) \<and>
    logged v = insert (blockno (bufs t b)) (logged t)"
proof -
  note t = txnD [OF assms(1)]
  let ?s = "set_data b x t"
  note sp = set_data_pin [OF t(2) _ assms(3), of b]
  have log_upd: "logged ?s = logged t" "lh_n ?s = lh_n t" "lh_block ?s = lh_block t" "outstanding ?s = outstanding t"
    using calm_log [OF calm_set_data] by simp_all
  have "log_inv (insert b H) ?s"
    using t(1) sp(1) log_upd by (simp add: log_inv_def)
  moreover have "lh_n ?s < int LOGBLOCKS" using assms(1,2) t(3) log_upd by (simp add: txn_def)
  ultimately obtain u where u: "log_write b ?s = Inr u" "log_calm ?s u" "log_inv (insert b H) u" "outstanding u = outstanding ?s"
      "log_list u = (if blockno (bufs ?s b) \<in> logged ?s then log_list ?s else log_list ?s @ [blockno (bufs ?s b)])"
      "disk u = disk ?s" "\<forall>x. blk x u = blk x ?s" "\<forall>i. blockno (bufs u i) = blockno (bufs ?s i) \<and> data (bufs u i) = data (bufs ?s i)"
    using log_write_log [of "insert b H" ?s b] t(5) log_upd by auto
  have lg: "logged u = insert (blockno (bufs t b)) (logged t)"
    using u(5) log_upd(1) by (auto simp flip: set_log_list split: if_splits)
  have n: "nat (lh_n u) \<le> Suc (nat (lh_n t))"
    using arg_cong [OF u(5), of length] log_upd by (auto split: if_splits)
  have cu: "log_calm t u" using log_calm_trans [OF log_calm_calm [OF calm_set_data] u(2)] .
  have "blockno (bufs u b) \<in> logged u" using lg u(8) by simp
  moreover have "insert b H - {b} = H" using assms(2) by auto
  ultimately obtain v where v: "brelse b u = Inr v" "calm u v" "pin_inv H (logged u) v" "\<forall>x. blk x v = blk x u"
      "\<forall>i. blockno (bufs v i) = blockno (bufs u i) \<and> data (bufs v i) = data (bufs u i)"
    using brelse_pin [OF log_invD(9) [OF u(3)], of b] by auto
  have "txn H k v"
    using log_inv_calm [OF u(3) v(2,3)] calm_log [OF v(2)] n t(5,6) assms(2) t(3) u(4) log_upd log_invD(3) [OF u(3)]
    by (auto simp: txn_def)
  moreover have "log_calm t v" using log_calm_trans [OF cu log_calm_calm [OF v(2)]] .
  moreover have "logged v = logged u" using calm_log [OF v(2)] by simp
  ultimately show ?thesis
    using u v cu lg sp(2) by (intro exI [of _ u] exI [of _ v]) simp
qed

lemma txn_modify:
  assumes "txn H (Suc k) s" "bn \<notin> held_blocks H s" "length (f (blk bn s)) = BSIZE"
  shows "\<exists>b t u v. bread ROOTDEV bn s = Inr (b, t) \<and> data (bufs t b) = blk bn s \<and> calm s t \<and>
    log_write b (set_data b (f (blk bn s)) t) = Inr u \<and> brelse b u = Inr v \<and> log_calm s u \<and> log_calm s v \<and> txn H k v \<and>
    (\<forall>y. blk y v = (if y = bn then f (blk bn s) else blk y s)) \<and> held_blocks H v = held_blocks H s \<and>
    logged v = insert bn (logged s)"
proof -
  obtain b t where t: "bread ROOTDEV bn s = Inr (b, t)" "calm s t" "txn (insert b H) k t" "b \<notin> H"
      "blockno (bufs t b) = bn" "data (bufs t b) = blk bn s" "\<forall>x. blk x t = blk x s"
      "\<forall>i. i \<noteq> b \<longrightarrow> bufs t i = bufs s i"
    using txn_read [OF assms(1,2)] by blast
  obtain u v where u: "log_write b (set_data b (f (blk bn s)) t) = Inr u" "log_calm t u" "brelse b u = Inr v" "log_calm t v"
      "txn H k v" "\<forall>y. blk y v = (if y = blockno (bufs t b) then f (blk bn s) else blk y t)"
      "\<forall>i. blockno (bufs v i) = blockno (bufs t i) \<and> (i \<noteq> b \<longrightarrow> data (bufs v i) = data (bufs t i))"
      "logged v = insert (blockno (bufs t b)) (logged t)"
    using txn_store [OF t(3,4) assms(3)] by blast
  have "held_blocks H v = held_blocks H s" by (rule held_blocks_cong) (use u(7) t(4,8) in \<open>metis\<close>)
  then show ?thesis
    using t u log_calm_trans [OF log_calm_calm [OF t(2)]] calm_log [OF t(2)]
    by (intro exI [of _ b] exI [of _ t] exI [of _ u] exI [of _ v]) simp
qed

subsection \<open>The block bitmap\<close>

text \<open>The blocks that the bitmap marks as in use.\<close>

definition used :: "'z fsst_scheme \<Rightarrow> u32 set" where
  "used s = {b. b < sb_size (sb s) \<and> \<not> bit_clear (blk (bblock b s) s) (b mod BPB)}"

lemma bit_clear_iff: "bit_clear d bi \<longleftrightarrow> \<not> bit (d ! unat (bi div 8)) (unat (bi mod 8))"
  by (simp add: bit_clear_def bitmask_def push_bit_of_1 and_exp_eq_0_iff_not_bit)

lemma bi_lt:
  assumes "bi < BPB"
  shows "unat (bi div 8) < BSIZE" "unat (bi mod 8) < 8"
  using assms by (simp_all add: unat_div unat_mod word_less_nat_alt)

lemma bi_eq_iff: "bi = (bj :: u32) \<longleftrightarrow> unat (bi div 8) = unat (bj div 8) \<and> unat (bi mod 8) = unat (bj mod 8)"
proof
  assume "unat (bi div 8) = unat (bj div 8) \<and> unat (bi mod 8) = unat (bj mod 8)"
  then have "unat bi div 8 = unat bj div 8" "unat bi mod 8 = unat bj mod 8" by (simp_all add: unat_div unat_mod)
  then have "unat bi = unat bj" by (metis div_mult_mod_eq)
  then show "bi = bj" by (simp add: word_unat_eq_iff)
qed simp

lemma bit_mask_ops:
  assumes "j < 8" "n < 8"
  shows "bit (w OR 2 ^ j :: u8) n \<longleftrightarrow> bit w n \<or> n = j" "bit (w AND NOT (2 ^ j) :: u8) n \<longleftrightarrow> bit w n \<and> n \<noteq> j"
  using assms by (auto simp: bit_simps)

lemma bit_set_spec:
  assumes "length x = BSIZE" "bi < BPB" "bj < BPB"
  shows "bit_clear (x[unat (bi div 8) := x ! unat (bi div 8) OR bitmask bi]) bj \<longleftrightarrow> bj \<noteq> bi \<and> bit_clear x bj"
    and "bit_clear (x[unat (bi div 8) := x ! unat (bi div 8) AND NOT (bitmask bi)]) bj \<longleftrightarrow> bj = bi \<or> bit_clear x bj"
  using bi_lt [OF assms(2)] bi_lt [OF assms(3)] assms(1) bi_eq_iff [of bi bj]
  by (auto simp: bit_clear_iff bitmask_def bit_mask_ops nth_list_update)

lemma bblock_eq: "bblock b s = bblock c s \<longleftrightarrow> b div BPB = c div BPB"
  by (simp add: bblock_def)

lemma mod_BPB: "b mod BPB < BPB"
  by (simp add: word_less_nat_alt unat_mod)

lemma div_mod_BPB: "b = (c :: u32) \<longleftrightarrow> b div BPB = c div BPB \<and> b mod BPB = c mod BPB"
proof
  assume "b div BPB = c div BPB \<and> b mod BPB = c mod BPB"
  then have "unat b div 8192 = unat c div 8192" "unat b mod 8192 = unat c mod 8192"
    using unat_div [of b BPB] unat_div [of c BPB] unat_mod [of b BPB] unat_mod [of c BPB] by simp_all
  then have "unat b = unat c" by (metis div_mult_mod_eq)
  then show "b = c" by (simp add: word_unat_eq_iff)
qed simp

lemma calm_fs: "calm s t \<Longrightarrow> inodes t = inodes s \<and> sb t = sb s"
  using log_calmD [OF log_calm_calm] by blast

lemma bblock_cong: "sb t = sb s \<Longrightarrow> bblock b t = bblock b s" "sb t = sb s \<Longrightarrow> iblock b t = iblock b s"
  by (simp_all add: bblock_def iblock_def)

lemma length_blk: "txn H k s \<Longrightarrow> length (blk bn s) = BSIZE"
  using length_view [OF log_invD(1) [OF txnD(1)], of H k s ROOTDEV bn] by simp

text \<open>The bitmap after one of its bits has been changed.\<close>

lemma used_change:
  assumes "sb t = sb s" "b < sb_size (sb s)" "\<forall>y. y \<noteq> bblock b s \<longrightarrow> blk y t = blk y s"
    and "\<And>c. c < BPB \<Longrightarrow> bit_clear (blk (bblock b s) t) c \<longleftrightarrow> (if c = b mod BPB then v else bit_clear (blk (bblock b s) s) c)"
  shows "used t = (if v then used s - {b} else insert b (used s))"
proof -
  have "bit_clear (blk (bblock c s) t) (c mod BPB) \<longleftrightarrow> (if c = b then v else bit_clear (blk (bblock c s) s) (c mod BPB))" for c
  proof (cases "bblock c s = bblock b s")
    case True
    then have "c = b \<longleftrightarrow> c mod BPB = b mod BPB" using div_mod_BPB [of c b] bblock_eq [of c s b] by blast
    then show ?thesis using assms(4) [OF mod_BPB, of c] True by simp
  next
    case False
    then show ?thesis using assms(3) by auto
  qed
  then show ?thesis using assms(1,2) by (auto simp: used_def bblock_cong [OF assms(1)])
qed

lemma bfree_spec:
  assumes "txn H (Suc k) s" "bblock b s \<notin> held_blocks H s" "b \<in> used s"
  shows "\<exists>t. bfree ROOTDEV b s = Inr t \<and> txn H k t \<and> log_calm s t \<and> used t = used s - {b} \<and>
    (\<forall>y. y \<noteq> bblock b s \<longrightarrow> blk y t = blk y s) \<and> held_blocks H t = held_blocks H s"
proof -
  let ?bn = "bblock b s" and ?bi = "b mod BPB"
  define f where "f x = x[unat (?bi div 8) := x ! unat (?bi div 8) AND NOT (bitmask ?bi)]" for x :: "u8 list"
  note len = length_blk [OF assms(1), of ?bn]
  obtain c t u v where m: "bread ROOTDEV ?bn s = Inr (c, t)" "data (bufs t c) = blk ?bn s" "calm s t"
    "log_write c (set_data c (f (blk ?bn s)) t) = Inr u" "brelse c u = Inr v" "log_calm s v" "txn H k v"
    "\<forall>y. blk y v = (if y = ?bn then f (blk ?bn s) else blk y s)" "held_blocks H v = held_blocks H s"
    using txn_modify [OF assms(1,2), of f] len by (auto simp: f_def)
  have set: "\<not> bit_clear (blk ?bn s) ?bi" "b < sb_size (sb s)" using assms(3) by (simp_all add: used_def)
  have "bfree ROOTDEV b s = Inr v"
    using m set(1) by (simp add: bfree_def Let_def f_def)
  moreover have "used v = used s - {b}"
    using used_change [of v s b True] log_calmD(2) [OF m(6)] set(2) m(8) bit_set_spec(2) [OF len mod_BPB]
    by (auto simp: f_def)
  ultimately show ?thesis using m by auto
qed

lemma bfree_free:
  assumes "txn H (Suc k) s" "bblock b s \<notin> held_blocks H s" "b < sb_size (sb s)" "b \<notin> used s"
  shows "bfree ROOTDEV b s = Inl (Panic ''freeing free block'')"
  using txn_read [OF assms(1,2)] assms(3,4) by (auto simp: bfree_def used_def)

lemma bzero_spec:
  assumes "txn H (Suc k) s" "bn \<notin> held_blocks H s"
  shows "\<exists>t. bzero ROOTDEV bn s = Inr t \<and> txn H k t \<and> log_calm s t \<and> held_blocks H t = held_blocks H s \<and>
    (\<forall>y. blk y t = (if y = bn then replicate BSIZE 0 else blk y s))"
  using txn_modify [OF assms, of "\<lambda>_. replicate BSIZE 0"] by (auto simp: bzero_def)

lemma scan_bits_Some: "scan_bits fuel d b bi lim = Some x \<Longrightarrow> x < BPB \<and> b + x < lim \<and> bit_clear d x"
  by (induction fuel d b bi lim rule: scan_bits.induct) (auto split: if_splits)

lemma scan_bits_None:
  assumes "scan_bits fuel d b bi lim = None" "unat b + 8192 \<le> 2 ^ 32" "8192 \<le> unat bi + fuel"
  shows "\<forall>x. bi \<le> x \<longrightarrow> x < BPB \<longrightarrow> b + x < lim \<longrightarrow> \<not> bit_clear d x"
  using assms
proof (induction fuel d b bi lim rule: scan_bits.induct)
  case (1 d b bi lim)
  then show ?case by (auto simp: word_le_nat_alt word_less_nat_alt)
next
  case (2 fuel d b bi lim)
  show ?case
  proof (cases "bi < BPB \<and> b + bi < lim")
    case True
    then have bi: "unat (bi + 1) = Suc (unat bi)" by (simp add: word_less_nat_alt unat_word_ariths(1))
    have nc: "\<not> bit_clear d bi" using 2(2) True by (simp split: if_splits)
    then have "\<forall>x. bi + 1 \<le> x \<longrightarrow> x < BPB \<longrightarrow> b + x < lim \<longrightarrow> \<not> bit_clear d x"
      using 2 True bi by simp
    moreover have "x = bi \<or> bi + 1 \<le> x" if "bi \<le> x" for x
      using that bi by (auto simp: word_le_nat_alt word_unat_eq_iff)
    ultimately show ?thesis using nc by blast
  next
    case False
    have "\<not> b + x < lim" if "bi \<le> x" "x < BPB" for x
    proof -
      have "unat (b + bi) = unat b + unat bi" "unat (b + x) = unat b + unat x"
        using that 2(3) by (simp_all add: word_less_nat_alt word_le_nat_alt unat_word_ariths(1))
      then show ?thesis using False that by (auto simp: word_less_nat_alt word_le_nat_alt)
    qed
    then show ?thesis by blast
  qed
qed

text \<open>
  What the allocator relies on: block 0 and the bitmap itself are marked as in use, the buffers the process
  holds are not free blocks, and the end of the disk is not within one bitmap block of \<open>2 ^ 32\<close>.
\<close>

definition bitmap_ok :: "nat set \<Rightarrow> 'z fsst_scheme \<Rightarrow> bool" where
  "bitmap_ok H s \<longleftrightarrow> 0 \<in> used s \<and> (\<forall>c < sb_size (sb s). bblock c s \<in> used s \<and> bblock c s \<notin> held_blocks H s) \<and>
     (\<forall>c \<in> held_blocks H s. c < sb_size (sb s) \<longrightarrow> c \<in> used s) \<and> unat (sb_size (sb s)) + 8192 \<le> 2 ^ 32"

lemma bitmap_ok_cong:
  assumes "sb t = sb s" "\<forall>x. blk x t = blk x s" "held_blocks H t = held_blocks H s"
  shows "bitmap_ok H t = bitmap_ok H s" "used t = used s"
  using assms by (simp_all add: bitmap_ok_def used_def bblock_def)

text \<open>The result of an allocation: a free block, now in use and zero, or 0 when there is none.\<close>

definition balloc_post :: "nat set \<Rightarrow> nat \<Rightarrow> 'z fsst_scheme \<Rightarrow> u32 \<Rightarrow> 'z fsst_scheme \<Rightarrow> bool" where
  "balloc_post H k s b t \<longleftrightarrow> log_calm s t \<and> txn H k t \<and> held_blocks H t = held_blocks H s \<and>
     (if b = 0 then {..<sb_size (sb s)} \<subseteq> used s \<and> (\<forall>y. blk y t = blk y s) \<and> calm s t
      else b < sb_size (sb s) \<and> b \<notin> used s \<and> used t = insert b (used s) \<and> blk b t = replicate BSIZE 0 \<and>
        (\<forall>y. y \<noteq> b \<longrightarrow> y \<noteq> bblock b s \<longrightarrow> blk y t = blk y s))"

lemma block_of_bitmap:
  assumes "unat b = 8192 * j" "unat b + 8192 \<le> 2 ^ 32" "bi < BPB"
  shows "bblock (b + bi) s = bblock b s" "(b + bi) mod BPB = bi"
proof -
  have "unat (b + bi) = 8192 * j + unat bi" using assms by (simp add: word_less_nat_alt unat_word_ariths(1))
  moreover have "unat bi < 8192" using assms(3) by (simp add: word_less_nat_alt)
  ultimately have "unat ((b + bi) div BPB) = unat (b div BPB)" "unat ((b + bi) mod BPB) = unat bi"
    using assms(1) by (simp_all add: unat_div unat_mod)
  then show "bblock (b + bi) s = bblock b s" "(b + bi) mod BPB = bi"
    unfolding bblock_eq by (simp_all add: word_unat_eq_iff)
qed

lemma balloc_take:
  assumes "txn H (Suc (Suc k)) s" "bitmap_ok H s" "unat b = 8192 * j" "unat b + 8192 \<le> 2 ^ 32"
    and "bi < BPB" "b + bi < sb_size (sb s)" "bit_clear (blk (bblock b s) s) bi" "b < sb_size (sb s)"
    and "scan_bits (unat BPB) (blk (bblock b s) s) b 0 (sb_size (sb s)) = Some bi"
  shows "\<exists>t. balloc_loop (Suc fuel) ROOTDEV b s = Inr (b + bi, t) \<and> balloc_post H k s (b + bi) t \<and> b + bi \<noteq> 0"
proof -
  let ?bn = "bblock b s" and ?c = "b + bi"
  note bb = block_of_bitmap(1) [OF assms(3-5), of s] block_of_bitmap(2) [OF assms(3-5)]
  define f where "f x = x[unat (bi div 8) := x ! unat (bi div 8) OR bitmask bi]" for x :: "u8 list"
  note len = length_blk [OF assms(1), of ?bn]
  have bn: "?bn \<notin> held_blocks H s" "?bn \<in> used s" using assms(2,8) by (simp_all add: bitmap_ok_def)
  obtain p t u v where m: "bread ROOTDEV ?bn s = Inr (p, t)" "data (bufs t p) = blk ?bn s" "calm s t"
    "log_write p (set_data p (f (blk ?bn s)) t) = Inr u" "brelse p u = Inr v" "log_calm s v" "txn H (Suc k) v"
    "\<forall>y. blk y v = (if y = ?bn then f (blk ?bn s) else blk y s)" "held_blocks H v = held_blocks H s"
    using txn_modify [OF assms(1) bn(1), of f] len by (auto simp: f_def)
  have free: "?c \<notin> used s" using assms(6,7) bb by (simp add: used_def)
  then have nh: "?c \<notin> held_blocks H v" "?c \<noteq> 0" "?c \<noteq> ?bn"
    using assms(2,6) m(9) bn(2) by (auto simp: bitmap_ok_def)
  obtain w where w: "bzero ROOTDEV ?c v = Inr w" "txn H k w" "log_calm v w" "held_blocks H w = held_blocks H v"
    "\<forall>y. blk y w = (if y = ?c then replicate BSIZE 0 else blk y v)"
    using bzero_spec [OF m(7) nh(1)] by blast
  have cw: "log_calm s w" using log_calm_trans [OF m(6) w(3)] .
  have bw: "blk y w = (if y = ?c then replicate BSIZE 0 else if y = ?bn then f (blk ?bn s) else blk y s)" for y
    using m(8) w(5) by simp
  have "used v = insert ?c (used s)"
    using used_change [of v s ?c False] log_calmD(2) [OF m(6)] assms(6) m(8) bit_set_spec(1) [OF len assms(5)] bb
    by (auto simp: f_def)
  moreover have "used w = used v"
  proof -
    have "bblock c s \<noteq> ?c" if "c < sb_size (sb s)" for c using that assms(2) free by (auto simp: bitmap_ok_def)
    then show ?thesis
      using w(5) log_calmD(2) [OF w(3)] log_calmD(2) [OF m(6)] by (auto simp: used_def bblock_def)
  qed
  ultimately have "balloc_post H k s ?c w"
    using cw w(2,4) m(9) free assms(6) bw nh bb by (auto simp: balloc_post_def)
  moreover have "balloc_loop (Suc fuel) ROOTDEV b s = Inr (?c, w)"
    using assms(8,9) m(1,2,4,5) w(1) calm_fs [OF m(3)] by (simp add: f_def)
  ultimately show ?thesis using nh(2) by blast
qed

lemma balloc_loop_spec:
  assumes "txn H (Suc (Suc k)) s" "bitmap_ok H s" "unat b = 8192 * j" "unat b + 8192 * fuel \<ge> unat (sb_size (sb s))"
    and "\<forall>c < b. c < sb_size (sb s) \<longrightarrow> c \<in> used s"
  shows "\<exists>c t. balloc_loop fuel ROOTDEV b s = Inr (c, t) \<and> balloc_post H k s c t"
  using assms
proof (induction fuel arbitrary: b j s)
  case 0
  then have "\<not> b < sb_size (sb s)" by (simp add: word_less_nat_alt)
  moreover from this have "{..<sb_size (sb s)} \<subseteq> used s" using "0.prems"(5) by (auto simp: not_less dest: less_le_trans)
  ultimately show ?case
    using "0.prems"(1) by (auto simp: balloc_post_def log_calm_calm intro: txn_mono)
next
  case (Suc fuel)
  show ?case
  proof (cases "b < sb_size (sb s)")
    case False
    then have "{..<sb_size (sb s)} \<subseteq> used s" using Suc.prems(5) by (auto simp: not_less dest: less_le_trans)
    then show ?thesis
      using False Suc.prems(1) by (auto simp: balloc_post_def log_calm_calm intro: txn_mono)
  next
    case True
    let ?bn = "bblock b s"
    have hi: "unat b + 8192 \<le> 2 ^ 32" using True Suc.prems(2) by (simp add: bitmap_ok_def word_less_nat_alt)
    show ?thesis
    proof (cases "scan_bits (unat BPB) (blk ?bn s) b 0 (sb_size (sb s))")
      case (Some bi)
      from balloc_take [OF Suc.prems(1-3) hi _ _ _ True Some] scan_bits_Some [OF Some] show ?thesis by blast
    next
      case None
      have nh: "?bn \<notin> held_blocks H s" using True Suc.prems(2) by (simp add: bitmap_ok_def)
      obtain p t u where m: "bread ROOTDEV ?bn s = Inr (p, t)" "data (bufs t p) = blk ?bn s" "calm s t"
        "brelse p t = Inr u" "calm s u" "txn H (Suc (Suc k)) u" "\<forall>x. blk x u = blk x s" "held_blocks H u = held_blocks H s"
        using txn_peek [OF Suc.prems(1) nh] by blast
      have sb: "sb u = sb s" "sb t = sb s" using calm_fs [OF m(5)] calm_fs [OF m(3)] by simp_all
      have b': "unat (b + BPB) = 8192 * Suc j"
      proof -
        have "unat b + 8192 < 2 ^ 32" using True Suc.prems(2) by (simp add: bitmap_ok_def word_less_nat_alt)
        then show ?thesis using Suc.prems(3) by (simp add: unat_word_ariths(1))
      qed
      have "c \<in> used s" if "c < b + BPB" "c < sb_size (sb s)" for c
      proof (cases "c < b")
        case False
        define x where "x = c - b"
        have "unat x = unat c - unat b" using False by (simp add: x_def unat_sub word_le_nat_alt not_less)
        then have x: "x < BPB" "c = b + x" using that(1) b' False Suc.prems(3) by (simp_all add: x_def word_less_nat_alt not_less)
        have "\<not> bit_clear (blk ?bn s) x"
          using scan_bits_None [OF None hi] x that(2) by simp
        then show ?thesis using block_of_bitmap(1) [OF Suc.prems(3) hi x(1), of s] block_of_bitmap(2) [OF Suc.prems(3) hi x(1)] that(2) x(2) by (simp add: used_def)
      qed (use that Suc.prems(5) in simp)
      then have "\<exists>c t. balloc_loop fuel ROOTDEV (b + BPB) u = Inr (c, t) \<and> balloc_post H k u c t"
        using Suc.IH [OF m(6), of "b + BPB" "Suc j"] bitmap_ok_cong [OF sb(1) m(7,8)] Suc.prems(2-4) b' sb by simp
      moreover have "balloc_loop (Suc fuel) ROOTDEV b s = balloc_loop fuel ROOTDEV (b + BPB) u"
        using True None m(1,2,4) sb by simp
      moreover have "balloc_post H k s c t" if "balloc_post H k u c t" for c t
        using that log_calm_trans [OF log_calm_calm [OF m(5)]] calm_trans [OF m(5)] bitmap_ok_cong [OF sb(1) m(7,8)] m(7,8) sb
        by (auto simp: balloc_post_def bblock_cong [OF sb(1)])
      ultimately show ?thesis by auto
    qed
  qed
qed

lemma balloc_spec:
  assumes "txn H (Suc (Suc k)) s" "bitmap_ok H s"
  obtains b t where "balloc ROOTDEV s = Inr (b, t)" "balloc_post H k s b t"
proof -
  have "unat (sb_size (sb s)) \<le> unat (0 :: u32) + 8192 * Suc (unat (sb_size (sb s)) div 8192)"
    by simp
  from balloc_loop_spec [OF assms, of 0 0, OF _ this] that show thesis
    unfolding balloc_def by auto
qed

subsection \<open>A concrete file system\<close>

text \<open>
  A disk of 2000 blocks in the middle of an empty transaction: the first 48 blocks are in use, the cache is
  empty, the locks are free.  The witnesses of this and later theories start here.
\<close>

definition demo_inode :: inode where
  "demo_inode = \<lparr>idev = 0, inum = 0, iref = 0, ivalid = False, itype = 0, major = 0, minor = 0, nlink = 0,
     isize = 0, addrs = replicate 13 0\<rparr>"

definition demo_fs :: fsst where
  "demo_fs = logst.extend (bcache.extend (sltable.extend
     (ptable.extend demo_user (sltable.fields (\<lambda>_. \<lparr>sl_locked = 0, sl_name = [], sl_pid = 0\<rparr>)))
     (bcache.fields ring_buf ((\<lambda>_. replicate BSIZE 0)(45 := replicate 6 255 @ replicate 1018 0)) []))
     (logst.fields 2 1 False ROOTDEV 0 (\<lambda>_. 0)))
     (fsst.fields \<lparr>magic = FSMAGIC, sb_size = 2000, nblocks = 1954, ninodes = 200, nlog = 30, logstart = 2,
        inodestart = 32, bmapstart = 45\<rparr> (\<lambda>_. demo_inode))"

lemmas demo_fs_defs = demo_fs_def demo_user_def demo_idle_def ptable.defs sltable.defs bcache.defs logst.defs fsst.defs

lemma demo_fs_sel [simp]:
  "mem demo_fs = demo_pt" "procs demo_fs = (\<lambda>_. demo_proc)" "hart demo_fs = 0"
  "sie demo_fs = (\<lambda>_. True)" "cpus demo_fs = (\<lambda>_. \<lparr>cproc = Some 0, noff = 0, intena = False\<rparr>)"
  "locks demo_fs = (\<lambda>_. \<lparr>locked = 0, lname = [], lcpu = None\<rparr>)"
  "slocks demo_fs = (\<lambda>_. \<lparr>sl_locked = 0, sl_name = [], sl_pid = 0\<rparr>)" "bufs demo_fs = ring_buf"
  "disk demo_fs = (\<lambda>_. replicate BSIZE 0)(45 := replicate 6 255 @ replicate 1018 0)"
  "lh_n demo_fs = 0" "outstanding demo_fs = 1" "lh_block demo_fs = (\<lambda>_. 0)" "ldev demo_fs = ROOTDEV" "lstart demo_fs = 2"
  "sb_size (sb demo_fs) = 2000" "inodestart (sb demo_fs) = 32" "bmapstart (sb demo_fs) = 45" "ninodes (sb demo_fs) = 200"
  "inodes demo_fs = (\<lambda>_. demo_inode)"
  by (simp_all add: demo_fs_defs)

lemma demo_fs_quiet [simp]: "cpu_ok demo_fs" "procs_free demo_fs" "lock_free l demo_fs" "held_blocks {} s = {}"
  by (simp_all add: cpu_ok_def procs_free_def lock_free_def machine_defs held_blocks_def)

lemma demo_fs_txn: "k \<le> 30 \<Longrightarrow> txn {} k demo_fs"
proof -
  assume k: "k \<le> 30"
  have "bc_locks {} demo_fs" by (simp add: bc_locks_def)
  moreover have "bc_data {} demo_fs" by (simp add: bc_data_def keys_ok_def ring_buf_def)
  ultimately have "bc_inv {} demo_fs" using lru_ring by (auto simp: bc_inv_def)
  moreover have lg: "logged demo_fs = {}" by (simp add: logged_def)
  ultimately have "pin_inv {} {} demo_fs" by (simp add: pin_inv_def pinned_def ring_buf_def)
  then show ?thesis using k by (simp add: txn_def log_inv_def lg)
qed

lemma demo_fs_blk [simp]: "blk b demo_fs = disk demo_fs b"
  using view_clean [OF txnD(2) [OF demo_fs_txn [of 0]], of b] by (simp add: logged_def)

lemma demo_fs_used: "b \<in> used demo_fs \<longleftrightarrow> b < 48"
proof -
  have "b \<in> used demo_fs \<longleftrightarrow> b < 2000 \<and> bit ((replicate 6 255 @ replicate 1018 0 :: u8 list) ! (unat b div 8)) (unat b mod 8)"
    if "b < 2000"
  proof -
    have "unat b < 2000" using that by (simp add: word_less_nat_alt)
    then have "b div BPB = 0" "b mod BPB = b" "unat b mod 8192 = unat b"
      by (simp_all add: word_unat_eq_iff unat_div unat_mod)
    then show ?thesis using that by (simp add: used_def bit_clear_iff bblock_def unat_div unat_mod)
  qed
  moreover have "bit ((replicate 6 255 @ replicate 1018 0 :: u8 list) ! (n div 8)) (n mod 8) \<longleftrightarrow> n < 48" if "n < 2000" for n
  proof (cases "n < 48")
    case True
    then have "n div 8 < 6" by simp
    moreover have "(255 :: u8) = - 1" by simp
    then have "bit (255 :: u8) (n mod 8)" by (simp only: bit_minus_1_iff) simp
    ultimately show ?thesis using True by (simp add: nth_append)
  qed (use that in \<open>simp add: nth_append\<close>)
  ultimately show ?thesis by (auto simp: used_def word_less_nat_alt)
qed

lemma demo_fs_bitmap: "bitmap_ok {} demo_fs"
proof -
  have "bblock c demo_fs = 45" if "c < 2000" for c
  proof -
    have "c div BPB = 0" using that by (simp add: word_unat_eq_iff unat_div word_less_nat_alt)
    then show ?thesis by (simp add: bblock_def)
  qed
  then show ?thesis by (simp add: bitmap_ok_def demo_fs_used)
qed

subsection \<open>Allocating and freeing blocks\<close>

text \<open>
  C17: inside a transaction with room for two more blocks, \<open>balloc\<close> always returns.  It hands out a
  block that the bitmap had as free, marks it, zeroes it, and changes no other block but the bitmap block; it
  returns 0 only when every block is in use.  So no block is ever handed out twice.
\<close>

theorem balloc_correct:
  assumes "txn H (Suc (Suc k)) s" "bitmap_ok H s"
  shows "\<exists>b t. balloc ROOTDEV s = Inr (b, t) \<and> log_calm s t \<and> txn H k t \<and>
    (if b = 0 then {..<sb_size (sb s)} \<subseteq> used s \<and> (\<forall>y. blk y t = blk y s)
     else b < sb_size (sb s) \<and> b \<notin> used s \<and> used t = insert b (used s) \<and> blk b t = replicate BSIZE 0 \<and>
       (\<forall>y. y \<noteq> b \<longrightarrow> y \<noteq> bblock b s \<longrightarrow> blk y t = blk y s))"
  using balloc_spec [OF assms] unfolding balloc_post_def by metis

theorem balloc_correct_witness:
  "\<exists>b t. balloc ROOTDEV demo_fs = Inr (b, t) \<and> (b \<noteq> 0 \<longrightarrow> 48 \<le> b \<and> b < 2000 \<and> used t = insert b {..<48})"
proof -
  have u: "used demo_fs = {..<48}" by (auto simp: demo_fs_used)
  show ?thesis
    using balloc_correct [OF demo_fs_txn demo_fs_bitmap, of 0] by (auto simp: u not_less split: if_splits)
qed

text \<open>
  \<open>bfree\<close> of a block in use takes it out of the bitmap and changes no block but the bitmap block;
  freeing a free block panics.
\<close>

theorem bfree_correct:
  assumes "txn H (Suc k) s" "bblock b s \<notin> held_blocks H s" "b < sb_size (sb s)"
  shows "if b \<in> used s
    then \<exists>t. bfree ROOTDEV b s = Inr t \<and> txn H k t \<and> log_calm s t \<and> used t = used s - {b} \<and>
      (\<forall>y. y \<noteq> bblock b s \<longrightarrow> blk y t = blk y s)
    else bfree ROOTDEV b s = Inl (Panic ''freeing free block'')"
  using bfree_spec [OF assms(1,2)] bfree_free [OF assms] by auto

theorem bfree_correct_witness:
  "(\<exists>t. bfree ROOTDEV 47 demo_fs = Inr t \<and> used t = {..<47}) \<and>
   bfree ROOTDEV 48 demo_fs = Inl (Panic ''freeing free block'')"
proof -
  have "used demo_fs - {47} = {..<47}"
    by (auto simp: demo_fs_used word_less_nat_alt word_unat_eq_iff)
  then show ?thesis
    using bfree_correct [OF demo_fs_txn, of 0 47] bfree_correct [OF demo_fs_txn, of 0 48] by (auto simp: demo_fs_used)
qed

end
