(* ===== verification/Ring.thy ===== *)
theory Ring
  imports Prelude
begin

section \<open>Ring buffers with free-running counters\<close>

text \<open>
  Pipes, the console and the UART keep bytes in an array of a power-of-two size that is indexed by
  two machine words modulo the size: one counts the bytes put in, the other the bytes taken out, and
  both wrap around.  \<open>ring_list\<close> reads off the bytes between the counters.  The locale
  \<open>bounded_fifo\<close> is what the users of such a ring rely on.
\<close>

definition ring_list :: "nat \<Rightarrow> 'a list \<Rightarrow> 'c::len word \<Rightarrow> 'c word \<Rightarrow> 'a list" where
  "ring_list cap b w r = map (\<lambda>i. b ! (unat (r + of_nat i) mod cap)) [0..<unat (w - r)]"

lemma length_ring_list [simp]: "length (ring_list cap b w r) = unat (w - r)"
  by (simp add: ring_list_def)

lemma ring_list_empty [simp]: "ring_list cap b w r = [] \<longleftrightarrow> w = r"
  by (simp add: ring_list_def unat_eq_zero)

lemma unat_add_of_nat_mod:
  assumes "cap dvd 2 ^ LENGTH('c)"
  shows "unat ((r :: 'c::len word) + of_nat i) mod cap = (unat r + i) mod cap"
  using assms by (simp add: unat_word_ariths(1) unat_of_nat mod_mod_cancel mod_add_right_eq)

text \<open>Two positions less than the size apart use different cells, also across the wrap-around.\<close>

lemma ring_cell_inj:
  assumes "cap dvd 2 ^ LENGTH('c)" "i < j" "j - i < cap"
  shows "unat ((r :: 'c::len word) + of_nat i) mod cap \<noteq> unat (r + of_nat j) mod cap"
proof
  assume "unat (r + of_nat i) mod cap = unat (r + of_nat j) mod cap"
  then have "(unat r + i) mod cap = (unat r + j) mod cap"
    by (simp add: unat_add_of_nat_mod [OF assms(1)])
  then have "cap dvd (unat r + j) - (unat r + i)"
    using assms(2) mod_eq_dvd_iff_nat [of "unat r + i" "unat r + j" cap] by simp
  then show False using assms(2,3) by (auto dest: dvd_imp_le)
qed

lemma unat_plus_one:
  assumes "unat (d :: 'c::len word) < cap" "cap < 2 ^ LENGTH('c)"
  shows "unat (d + 1) = Suc (unat d)"
  using assms by (simp add: unat_word_ariths(1))

lemma ring_put:
  fixes w r :: "'c::len word"
  assumes cap: "cap dvd 2 ^ LENGTH('c)" "cap < 2 ^ LENGTH('c)"
    and b: "length b = cap" "unat (w - r) < cap"
  shows "ring_list cap (b[unat w mod cap := x]) (w + 1) r = ring_list cap b w r @ [x]"
proof -
  have n: "unat (w + 1 - r) = Suc (unat (w - r))"
    using unat_plus_one [OF b(2) cap(2)] by (simp add: add.commute add_diff_eq)
  have w: "r + of_nat (unat (w - r)) = w" by simp
  have "unat (r + of_nat i) mod cap \<noteq> unat w mod cap" if "i < unat (w - r)" for i
    using ring_cell_inj [OF cap(1) that, of r] that b(2) w by simp
  then have "b[unat w mod cap := x] ! (unat (r + of_nat i) mod cap) = b ! (unat (r + of_nat i) mod cap)"
    if "i < unat (w - r)" for i
    using that by (metis nth_list_update_neq)
  moreover have "unat w mod cap < cap" using b(2) by simp
  ultimately show ?thesis
    using b w by (auto simp: ring_list_def n)
qed

lemma ring_head: "w \<noteq> r \<Longrightarrow> b ! (unat r mod cap) = hd (ring_list cap b w r)"
  by (simp add: ring_list_def hd_map unat_gt_0 upt_conv_Cons)

lemma ring_drop:
  fixes w r :: "'c::len word"
  assumes "w \<noteq> r"
  shows "ring_list cap b w (r + 1) = tl (ring_list cap b w r)"
proof -
  have "w - r \<noteq> 0" using assms by simp
  then have n: "unat (w - r) = Suc (unat (w - (r + 1)))"
    using unat_minus_one [of "w - r"] unat_gt_0 [of "w - r"] by (simp add: diff_diff_add)
  show ?thesis
  proof (rule nth_equalityI)
    show "length (ring_list cap b w (r + 1)) = length (tl (ring_list cap b w r))"
      using n by simp
    fix i assume "i < length (ring_list cap b w (r + 1))"
    then show "ring_list cap b w (r + 1) ! i = tl (ring_list cap b w r) ! i"
      using n by (simp add: nth_tl) (simp add: ring_list_def add.assoc del: upt_Suc)
  qed
qed

subsection \<open>The contract of a bounded queue\<close>

datatype 'a fifo_op = Put 'a | Get

locale bounded_fifo =
  fixes invar :: "'q \<Rightarrow> bool"
    and contents :: "'q \<Rightarrow> 'a list"
    and put :: "'a \<Rightarrow> 'q \<Rightarrow> 'q"
    and front :: "'q \<Rightarrow> 'a"
    and remove :: "'q \<Rightarrow> 'q"
    and full :: "'q \<Rightarrow> bool"
    and vacant :: "'q \<Rightarrow> bool"
    and cap :: nat
  assumes full_law: "invar q \<Longrightarrow> full q \<longleftrightarrow> length (contents q) = cap"
    and vacant_law: "invar q \<Longrightarrow> vacant q \<longleftrightarrow> contents q = []"
    and bound_law: "invar q \<Longrightarrow> length (contents q) \<le> cap"
    and put_law: "invar q \<Longrightarrow> \<not> full q \<Longrightarrow> invar (put x q) \<and> contents (put x q) = contents q @ [x]"
    and front_law: "invar q \<Longrightarrow> \<not> vacant q \<Longrightarrow> front q = hd (contents q)"
    and remove_law: "invar q \<Longrightarrow> \<not> vacant q \<Longrightarrow> invar (remove q) \<and> contents (remove q) = tl (contents q)"
begin

text \<open>Any interleaving of puts into a queue with room and of gets from a queue that is not empty.\<close>

inductive traffic :: "'q \<Rightarrow> 'a list \<Rightarrow> 'a list \<Rightarrow> 'q \<Rightarrow> bool" for q\<^sub>0 where
  start: "traffic q\<^sub>0 [] [] q\<^sub>0"
| put: "traffic q\<^sub>0 ins outs q \<Longrightarrow> \<not> full q \<Longrightarrow> traffic q\<^sub>0 (ins @ [x]) outs (put x q)"
| get: "traffic q\<^sub>0 ins outs q \<Longrightarrow> \<not> vacant q \<Longrightarrow> traffic q\<^sub>0 ins (outs @ [front q]) (remove q)"

lemma traffic_fifo:
  assumes "traffic q\<^sub>0 ins outs q" "invar q\<^sub>0"
  shows "invar q \<and> contents q\<^sub>0 @ ins = outs @ contents q"
  using assms
proof (induction rule: traffic.induct)
  case (get ins outs q)
  then have "contents q \<noteq> []" by (simp add: vacant_law)
  then have "contents q = front q # contents (remove q)"
    using get by (simp add: front_law remove_law)
  with get show ?case by (simp add: remove_law)
qed (auto simp: put_law simp flip: append_assoc)

lemma traffic_bounded:
  assumes "traffic q\<^sub>0 ins outs q" "invar q\<^sub>0"
  shows "length (contents q) \<le> cap"
  using traffic_fifo [OF assms] bound_law by blast

lemma put_many:
  assumes "invar q" "length (contents q) + length xs \<le> cap"
  shows "invar (fold put xs q) \<and> contents (fold put xs q) = contents q @ xs"
  using assms
proof (induction xs arbitrary: q)
  case (Cons x xs)
  then have "\<not> full q" by (simp add: full_law)
  then have "invar (put x q)" "contents (put x q) = contents q @ [x]"
    using Cons.prems(1) put_law by blast+
  then show ?case using Cons.IH [of "put x q"] Cons.prems(2) by simp
qed simp

end

end
