(* ===== verification/Uart.thy ===== *)
theory Uart
  imports Txn Ring
begin

unbundle bit_operations_syntax

section \<open>The UART driver (kernel/rust\_uart.rs)\<close>

text \<open>
  The 16550a is an environment: \<open>uart_dev\<close> says what the n-th read of a device register returns,
  \<open>uart_reads\<close> counts the reads done, \<open>uart_writes\<close> records the register writes.  \<open>tx\<close> is
  the transmit ring that \<open>uartwrite\<close> fills and the device drains.

  \<open>uartputc_sync\<close> polls the device: if it never becomes idle the routine does not come back.
\<close>

abbreviation TX_BUF_SIZE :: nat where "TX_BUF_SIZE \<equiv> 256"
abbreviation RHR :: nat where "RHR \<equiv> 0"
abbreviation THR :: nat where "THR \<equiv> 0"
abbreviation IER :: nat where "IER \<equiv> 1"
abbreviation FCR :: nat where "FCR \<equiv> 2"
abbreviation LCR :: nat where "LCR \<equiv> 3"
abbreviation LSR :: nat where "LSR \<equiv> 5"
abbreviation LSR_RX_READY :: u8 where "LSR_RX_READY \<equiv> 1"
abbreviation LSR_TX_IDLE :: u8 where "LSR_TX_IDLE \<equiv> 32"

record uart_tx =
  tx_buf :: "u8 list"
  tx_w :: u64
  tx_r :: u64

record uartst = fsst +
  tx :: uart_tx
  uart_init_done :: bool
  uart_dev :: "nat \<Rightarrow> nat \<Rightarrow> u8"
  uart_reads :: nat
  uart_writes :: "(nat \<times> u8) list"
  panicking :: bool
  panicked :: bool

definition read_reg :: "nat \<Rightarrow> 'z uartst_scheme \<Rightarrow> u8 \<times> 'z uartst_scheme" where
  "read_reg r s = (uart_dev s (uart_reads s) r, s\<lparr>uart_reads := Suc (uart_reads s)\<rparr>)"

definition write_reg :: "nat \<Rightarrow> u8 \<Rightarrow> 'z uartst_scheme \<Rightarrow> 'z uartst_scheme" where
  "write_reg r v s = s\<lparr>uart_writes := uart_writes s @ [(r, v)]\<rparr>"

definition uart_init :: "'z uartst_scheme \<Rightarrow> 'z uartst_scheme" where
  "uart_init s =
     (if \<not> uart_init_done s then (initlock LUart ''uart'' s)\<lparr>uart_init_done := True\<rparr> else s)"

definition uart_lock :: "'z uartst_scheme \<Rightarrow> 'z uartst_scheme kres" where
  "uart_lock s = acquire LUart (uart_init s)"

definition uartinit :: "'z uartst_scheme \<Rightarrow> 'z uartst_scheme" where
  "uartinit s = uart_init
     (write_reg IER 3 (write_reg FCR 7 (write_reg LCR 3 (write_reg 1 0 (write_reg 0 3
       (write_reg LCR 128 (write_reg IER 0 s)))))))"

text \<open>Every round sends one byte of the ring: the number of bytes in it is enough fuel.\<close>

primrec start_tx_loop :: "nat \<Rightarrow> 'z uartst_scheme \<Rightarrow> 'z uartst_scheme kres" where
  "start_tx_loop 0 s = (if tx_w (tx s) = tx_r (tx s) then Inr s else Inl Diverges)"
| "start_tx_loop (Suc fuel) s =
     (if tx_w (tx s) = tx_r (tx s) then Inr s
      else
        let (v, s) = read_reg LSR s in
        if v AND LSR_TX_IDLE = 0 then Inr s
        else
          let c = tx_buf (tx s) ! (unat (tx_r (tx s)) mod TX_BUF_SIZE);
              s = s\<lparr>tx := (tx s)\<lparr>tx_r := tx_r (tx s) + 1\<rparr>\<rparr> in
          and_then (wakeup ChUart s) (\<lambda>s. start_tx_loop fuel (write_reg THR c s)))"

definition start_tx_locked :: "'z uartst_scheme \<Rightarrow> 'z uartst_scheme kres" where
  "start_tx_locked s = start_tx_loop (unat (tx_w (tx s) - tx_r (tx s))) s"

definition tx_put :: "u8 \<Rightarrow> uart_tx \<Rightarrow> uart_tx" where
  "tx_put c t = t\<lparr>tx_buf := (tx_buf t)[unat (tx_w t) mod TX_BUF_SIZE := c], tx_w := tx_w t + 1\<rparr>"

text \<open>
  A full ring: drain what the device takes and sleep until a byte has been sent.
\<close>

primrec uartwrite_loop :: "u8 list \<Rightarrow> 'z uartst_scheme \<Rightarrow> 'z uartst_scheme kres" where
  "uartwrite_loop [] s = Inr s"
| "uartwrite_loop (c # cs) s =
     (if tx_w (tx s) - tx_r (tx s) = of_nat TX_BUF_SIZE
      then and_then (start_tx_locked s) (\<lambda>s. sleep ChUart LUart s)
      else uartwrite_loop cs (s\<lparr>tx := tx_put c (tx s)\<rparr>))"

definition uartwrite :: "u8 list \<Rightarrow> 'z uartst_scheme \<Rightarrow> 'z uartst_scheme kres" where
  "uartwrite buf s = and_then (uart_lock s) (\<lambda>s.
     and_then (uartwrite_loop buf s) (\<lambda>s.
     and_then (start_tx_locked s) (\<lambda>s. release LUart s)))"

text \<open>The number of the first read of LSR, from the n-th on, that finds the transmitter idle.\<close>

partial_function (option) poll_idle :: "(nat \<Rightarrow> nat \<Rightarrow> u8) \<Rightarrow> nat \<Rightarrow> nat option" where
  "poll_idle d n = (if d n LSR AND LSR_TX_IDLE \<noteq> 0 then Some n else poll_idle d (Suc n))"

declare poll_idle.simps [code]

definition uartputc_sync :: "u32 \<Rightarrow> 'z uartst_scheme \<Rightarrow> 'z uartst_scheme kres" where
  "uartputc_sync c s =
     (let guard = \<not> panicking s;
          s = (if guard then push_off s else s) in
      if panicked s then Inl Diverges
      else case poll_idle (uart_dev s) (uart_reads s) of
        None \<Rightarrow> Inl Diverges
      | Some n \<Rightarrow>
          let s = write_reg THR (ucast c) (s\<lparr>uart_reads := Suc n\<rparr>) in
          if guard then pop_off s else Inr s)"

definition uartgetc :: "'z uartst_scheme \<Rightarrow> int \<times> 'z uartst_scheme" where
  "uartgetc s =
     (let (v, s) = read_reg LSR s in
      if v AND LSR_RX_READY \<noteq> 0 then let (c, s) = read_reg RHR s in (uint c, s) else (- 1, s))"

text \<open>\<open>consputc\<close> of rust\_console.rs.\<close>

abbreviation BACKSPACE :: u32 where "BACKSPACE \<equiv> 0x100"

definition consputc :: "u32 \<Rightarrow> 'z uartst_scheme \<Rightarrow> 'z uartst_scheme kres" where
  "consputc c s =
     (if c = BACKSPACE
      then and_then (uartputc_sync 8 s) (\<lambda>s. and_then (uartputc_sync 32 s) (\<lambda>s. uartputc_sync 8 s))
      else uartputc_sync c s)"

subsection \<open>Lock operations leave the device state alone\<close>

lemma uartst_acquired [simp]:
  "tx (acquired l s) = tx s"
  "uart_init_done (acquired l s) = uart_init_done s"
  "uart_dev (acquired l s) = uart_dev s"
  "uart_reads (acquired l s) = uart_reads s"
  "uart_writes (acquired l s) = uart_writes s"
  "panicking (acquired l s) = panicking s"
  "panicked (acquired l s) = panicked s"
  by (simp_all add: acquired_def machine_defs)

lemma uartst_crit [simp]:
  "tx (crit s) = tx s"
  "uart_init_done (crit s) = uart_init_done s"
  "uart_dev (crit s) = uart_dev s"
  "uart_reads (crit s) = uart_reads s"
  "uart_writes (crit s) = uart_writes s"
  "panicking (crit s) = panicking s"
  "panicked (crit s) = panicked s"
  by (simp_all add: crit_def machine_defs)

lemma uartst_initlock [simp]:
  "tx (initlock l nm s) = tx s"
  "uart_init_done (initlock l nm s) = uart_init_done s"
  "uart_dev (initlock l nm s) = uart_dev s"
  "uart_reads (initlock l nm s) = uart_reads s"
  "uart_writes (initlock l nm s) = uart_writes s"
  "panicking (initlock l nm s) = panicking s"
  "panicked (initlock l nm s) = panicked s"
  by (simp_all add: initlock_def)

lemma release_uartst_upd [simp]:
  "release l (s\<lparr>tx := x0\<rparr>) = map_sum id (\<lambda>t. t\<lparr>tx := x0\<rparr>) (release l s)"
  "release l (s\<lparr>uart_init_done := x1\<rparr>) = map_sum id (\<lambda>t. t\<lparr>uart_init_done := x1\<rparr>) (release l s)"
  "release l (s\<lparr>uart_dev := x2\<rparr>) = map_sum id (\<lambda>t. t\<lparr>uart_dev := x2\<rparr>) (release l s)"
  "release l (s\<lparr>uart_reads := x3\<rparr>) = map_sum id (\<lambda>t. t\<lparr>uart_reads := x3\<rparr>) (release l s)"
  "release l (s\<lparr>uart_writes := x4\<rparr>) = map_sum id (\<lambda>t. t\<lparr>uart_writes := x4\<rparr>) (release l s)"
  "release l (s\<lparr>panicking := x5\<rparr>) = map_sum id (\<lambda>t. t\<lparr>panicking := x5\<rparr>) (release l s)"
  "release l (s\<lparr>panicked := x6\<rparr>) = map_sum id (\<lambda>t. t\<lparr>panicked := x6\<rparr>) (release l s)"
  by (simp_all add: release_unfold)

lemma acquire_uartst_upd [simp]:
  "acquire l (s\<lparr>tx := x0\<rparr>) = map_sum id (\<lambda>t. t\<lparr>tx := x0\<rparr>) (acquire l s)"
  "acquire l (s\<lparr>uart_init_done := x1\<rparr>) = map_sum id (\<lambda>t. t\<lparr>uart_init_done := x1\<rparr>) (acquire l s)"
  "acquire l (s\<lparr>uart_dev := x2\<rparr>) = map_sum id (\<lambda>t. t\<lparr>uart_dev := x2\<rparr>) (acquire l s)"
  "acquire l (s\<lparr>uart_reads := x3\<rparr>) = map_sum id (\<lambda>t. t\<lparr>uart_reads := x3\<rparr>) (acquire l s)"
  "acquire l (s\<lparr>uart_writes := x4\<rparr>) = map_sum id (\<lambda>t. t\<lparr>uart_writes := x4\<rparr>) (acquire l s)"
  "acquire l (s\<lparr>panicking := x5\<rparr>) = map_sum id (\<lambda>t. t\<lparr>panicking := x5\<rparr>) (acquire l s)"
  "acquire l (s\<lparr>panicked := x6\<rparr>) = map_sum id (\<lambda>t. t\<lparr>panicked := x6\<rparr>) (acquire l s)"
  by (simp_all add: acquire_unfold)

lemma acquired_uartst_upd [simp]:
  "acquired l (s\<lparr>tx := x0\<rparr>) = (acquired l s)\<lparr>tx := x0\<rparr>"
  "acquired l (s\<lparr>uart_init_done := x1\<rparr>) = (acquired l s)\<lparr>uart_init_done := x1\<rparr>"
  "acquired l (s\<lparr>uart_dev := x2\<rparr>) = (acquired l s)\<lparr>uart_dev := x2\<rparr>"
  "acquired l (s\<lparr>uart_reads := x3\<rparr>) = (acquired l s)\<lparr>uart_reads := x3\<rparr>"
  "acquired l (s\<lparr>uart_writes := x4\<rparr>) = (acquired l s)\<lparr>uart_writes := x4\<rparr>"
  "acquired l (s\<lparr>panicking := x5\<rparr>) = (acquired l s)\<lparr>panicking := x5\<rparr>"
  "acquired l (s\<lparr>panicked := x6\<rparr>) = (acquired l s)\<lparr>panicked := x6\<rparr>"
  by (simp_all add: acquired_def machine_defs)

lemma crit_uartst_upd [simp]:
  "crit (s\<lparr>tx := x0\<rparr>) = (crit s)\<lparr>tx := x0\<rparr>"
  "crit (s\<lparr>uart_init_done := x1\<rparr>) = (crit s)\<lparr>uart_init_done := x1\<rparr>"
  "crit (s\<lparr>uart_dev := x2\<rparr>) = (crit s)\<lparr>uart_dev := x2\<rparr>"
  "crit (s\<lparr>uart_reads := x3\<rparr>) = (crit s)\<lparr>uart_reads := x3\<rparr>"
  "crit (s\<lparr>uart_writes := x4\<rparr>) = (crit s)\<lparr>uart_writes := x4\<rparr>"
  "crit (s\<lparr>panicking := x5\<rparr>) = (crit s)\<lparr>panicking := x5\<rparr>"
  "crit (s\<lparr>panicked := x6\<rparr>) = (crit s)\<lparr>panicked := x6\<rparr>"
  by (simp_all add: crit_def machine_defs)

lemma lock_free_uartst_upd [simp]:
  "lock_free l (s\<lparr>tx := x0\<rparr>) = lock_free l s"
  "lock_free l (s\<lparr>uart_init_done := x1\<rparr>) = lock_free l s"
  "lock_free l (s\<lparr>uart_dev := x2\<rparr>) = lock_free l s"
  "lock_free l (s\<lparr>uart_reads := x3\<rparr>) = lock_free l s"
  "lock_free l (s\<lparr>uart_writes := x4\<rparr>) = lock_free l s"
  "lock_free l (s\<lparr>panicking := x5\<rparr>) = lock_free l s"
  "lock_free l (s\<lparr>panicked := x6\<rparr>) = lock_free l s"
  by (simp_all add: lock_free_def)

lemma cpu_ok_uartst_upd [simp]:
  "cpu_ok (s\<lparr>tx := x0\<rparr>) = cpu_ok s"
  "cpu_ok (s\<lparr>uart_init_done := x1\<rparr>) = cpu_ok s"
  "cpu_ok (s\<lparr>uart_dev := x2\<rparr>) = cpu_ok s"
  "cpu_ok (s\<lparr>uart_reads := x3\<rparr>) = cpu_ok s"
  "cpu_ok (s\<lparr>uart_writes := x4\<rparr>) = cpu_ok s"
  "cpu_ok (s\<lparr>panicking := x5\<rparr>) = cpu_ok s"
  "cpu_ok (s\<lparr>panicked := x6\<rparr>) = cpu_ok s"
  by (simp_all add: cpu_ok_def machine_defs)

lemma mycpu_uartst_upd [simp]:
  "mycpu (s\<lparr>tx := x0\<rparr>) = mycpu s"
  "mycpu (s\<lparr>uart_init_done := x1\<rparr>) = mycpu s"
  "mycpu (s\<lparr>uart_dev := x2\<rparr>) = mycpu s"
  "mycpu (s\<lparr>uart_reads := x3\<rparr>) = mycpu s"
  "mycpu (s\<lparr>uart_writes := x4\<rparr>) = mycpu s"
  "mycpu (s\<lparr>panicking := x5\<rparr>) = mycpu s"
  "mycpu (s\<lparr>panicked := x6\<rparr>) = mycpu s"
  by (simp_all add: mycpu_def)

lemma my_pid_uartst_upd [simp]:
  "my_pid (s\<lparr>tx := x0\<rparr>) = my_pid s"
  "my_pid (s\<lparr>uart_init_done := x1\<rparr>) = my_pid s"
  "my_pid (s\<lparr>uart_dev := x2\<rparr>) = my_pid s"
  "my_pid (s\<lparr>uart_reads := x3\<rparr>) = my_pid s"
  "my_pid (s\<lparr>uart_writes := x4\<rparr>) = my_pid s"
  "my_pid (s\<lparr>panicking := x5\<rparr>) = my_pid s"
  "my_pid (s\<lparr>panicked := x6\<rparr>) = my_pid s"
  by (simp_all add: my_pid_def split: option.split)

lemma procs_free_uartst_upd [simp]:
  "procs_free (s\<lparr>tx := x0\<rparr>) = procs_free s"
  "procs_free (s\<lparr>uart_init_done := x1\<rparr>) = procs_free s"
  "procs_free (s\<lparr>uart_dev := x2\<rparr>) = procs_free s"
  "procs_free (s\<lparr>uart_reads := x3\<rparr>) = procs_free s"
  "procs_free (s\<lparr>uart_writes := x4\<rparr>) = procs_free s"
  "procs_free (s\<lparr>panicking := x5\<rparr>) = procs_free s"
  "procs_free (s\<lparr>panicked := x6\<rparr>) = procs_free s"
  by (simp_all add: procs_free_def)

subsection \<open>The transmit ring is a queue\<close>

definition tx_inv :: "uart_tx \<Rightarrow> bool" where
  "tx_inv t \<longleftrightarrow> length (tx_buf t) = TX_BUF_SIZE \<and> unat (tx_w t - tx_r t) \<le> TX_BUF_SIZE"

definition tx_contents :: "uart_tx \<Rightarrow> u8 list" where
  "tx_contents t = ring_list TX_BUF_SIZE (tx_buf t) (tx_w t) (tx_r t)"

definition tx_full :: "uart_tx \<Rightarrow> bool" where
  "tx_full t \<longleftrightarrow> tx_w t - tx_r t = of_nat TX_BUF_SIZE"

definition tx_vacant :: "uart_tx \<Rightarrow> bool" where
  "tx_vacant t \<longleftrightarrow> tx_w t = tx_r t"

definition tx_head :: "uart_tx \<Rightarrow> u8" where
  "tx_head t = tx_buf t ! (unat (tx_r t) mod TX_BUF_SIZE)"

definition tx_drop :: "uart_tx \<Rightarrow> uart_tx" where
  "tx_drop t = t\<lparr>tx_r := tx_r t + 1\<rparr>"

lemma tx_full_iff: "tx_inv t \<Longrightarrow> tx_full t \<longleftrightarrow> unat (tx_w t - tx_r t) = TX_BUF_SIZE"
  using word_unat_eq_iff [of "tx_w t - tx_r t" "256"] by (simp add: tx_full_def)

interpretation txq: bounded_fifo tx_inv tx_contents tx_put tx_head tx_drop tx_full tx_vacant TX_BUF_SIZE
proof
  fix t x
  show "tx_inv t \<Longrightarrow> tx_full t = (length (tx_contents t) = TX_BUF_SIZE)"
    by (simp add: tx_full_iff tx_contents_def)
  show "tx_inv t \<Longrightarrow> tx_vacant t = (tx_contents t = [])"
    by (auto simp: tx_vacant_def tx_contents_def)
  show "tx_inv t \<Longrightarrow> length (tx_contents t) \<le> TX_BUF_SIZE"
    by (simp add: tx_inv_def tx_contents_def)
  show "tx_inv (tx_put x t) \<and> tx_contents (tx_put x t) = tx_contents t @ [x]"
    if "tx_inv t" "\<not> tx_full t"
  proof -
    have lt: "length (tx_buf t) = TX_BUF_SIZE" "unat (tx_w t - tx_r t) < TX_BUF_SIZE"
      using that tx_full_iff [OF that(1)] by (auto simp: tx_inv_def)
    have eq: "tx_contents (tx_put x t) = tx_contents t @ [x]"
      using ring_put [OF _ _ lt] by (simp add: tx_contents_def tx_put_def)
    from arg_cong [OF eq, of length] have "tx_inv (tx_put x t)"
      using lt by (simp add: tx_inv_def tx_contents_def) (simp add: tx_put_def)
    with eq show ?thesis by blast
  qed
  show "tx_inv t \<Longrightarrow> \<not> tx_vacant t \<Longrightarrow> tx_head t = hd (tx_contents t)"
    using ring_head [of "tx_w t" "tx_r t" "tx_buf t" TX_BUF_SIZE]
    by (simp add: tx_vacant_def tx_head_def tx_contents_def)
  show "tx_inv (tx_drop t) \<and> tx_contents (tx_drop t) = tl (tx_contents t)"
    if "tx_inv t" "\<not> tx_vacant t"
  proof -
    have eq: "tx_contents (tx_drop t) = tl (tx_contents t)"
      using ring_drop [of "tx_w t" "tx_r t" TX_BUF_SIZE "tx_buf t"] that
      by (simp add: tx_contents_def tx_drop_def tx_vacant_def)
    from arg_cong [OF eq, of length] have "length (tx_contents (tx_drop t)) \<le> length (tx_contents t)" by simp
    then have "tx_inv (tx_drop t)"
      using that by (simp add: tx_inv_def tx_contents_def) (simp add: tx_drop_def)
    with eq show ?thesis by blast
  qed
qed

subsection \<open>What the device has been given\<close>

text \<open>The bytes written to the transmit register, oldest first.\<close>

definition sent :: "'z uartst_scheme \<Rightarrow> u8 list" where
  "sent s = map snd (filter (\<lambda>(r, v). r = THR) (uart_writes s))"

lemma sent_upd [simp]:
  "sent (s\<lparr>tx := t\<rparr>) = sent s" "sent (s\<lparr>procs := p\<rparr>) = sent s" "sent (s\<lparr>uart_reads := n\<rparr>) = sent s"
  "sent (acquired l s) = sent s" "sent (crit s) = sent s"
  by (simp_all add: sent_def)

lemma sent_write_reg [simp]: "sent (s\<lparr>uart_writes := uart_writes s @ [(THR, c)]\<rparr>) = sent s @ [c]"
  by (simp add: sent_def)

definition always_idle :: "'z uartst_scheme \<Rightarrow> bool" where
  "always_idle s \<longleftrightarrow> (\<forall>n. uart_dev s n LSR AND LSR_TX_IDLE \<noteq> 0)"

lemma procs_free_procs_upd [simp]: "procs_free (s\<lparr>procs := p\<rparr>) = procs_free s"
  by (simp add: procs_free_def)

lemma start_tx_loop_spec:
  assumes "cpu_ok s" "crit s = s" "procs_free s" "tx_inv (tx s)" "length (tx_contents (tx s)) \<le> fuel"
  shows "\<exists>ps q n ws. start_tx_loop fuel s = Inr (s\<lparr>procs := ps, tx := q, uart_reads := n, uart_writes := ws\<rparr>) \<and>
    tx_inv q \<and> sent (s\<lparr>uart_writes := ws\<rparr>) @ tx_contents q = sent s @ tx_contents (tx s) \<and>
    (always_idle s \<longrightarrow> tx_contents q = [])"
  using assms
proof (induction fuel arbitrary: s)
  case 0
  then have "tx_w (tx s) = tx_r (tx s)" "tx_contents (tx s) = []" by (simp_all add: tx_contents_def unat_eq_zero)
  then show ?case using 0
    by (auto intro!: exI [of _ "procs s"] exI [of _ "tx s"] exI [of _ "uart_reads s"] exI [of _ "uart_writes s"])
next
  case (Suc fuel)
  show ?case
  proof (cases "tx_w (tx s) = tx_r (tx s)")
    case True
    then have "tx_contents (tx s) = []" by (simp add: tx_contents_def)
    with True Suc.prems show ?thesis
      by (auto intro!: exI [of _ "procs s"] exI [of _ "tx s"] exI [of _ "uart_reads s"] exI [of _ "uart_writes s"])
  next
    case ne: False
    show ?thesis
    proof (cases "uart_dev s (uart_reads s) LSR AND LSR_TX_IDLE = 0")
      case True
      then have "\<not> always_idle s" by (auto simp: always_idle_def)
      with True ne Suc.prems show ?thesis
        by (auto simp: read_reg_def
            intro!: exI [of _ "procs s"] exI [of _ "tx s"] exI [of _ "Suc (uart_reads s)"] exI [of _ "uart_writes s"])
    next
      case False
      have v: "\<not> tx_vacant (tx s)" using ne by (simp add: tx_vacant_def)
      note drop = txq.remove_law [OF Suc.prems(4) v] and head = txq.front_law [OF Suc.prems(4) v]
      have c: "tx_contents (tx s) = tx_head (tx s) # tx_contents (tx_drop (tx s))"
        using drop head v txq.vacant_law [OF Suc.prems(4)] by (metis list.exhaust_sel)
      let ?u = "s\<lparr>procs := roused ChUart (cproc (mycpu s)) {..<NPROC} (procs s), tx := tx_drop (tx s),
        uart_reads := Suc (uart_reads s), uart_writes := uart_writes s @ [(THR, tx_head (tx s))]\<rparr>"
      have u: "s\<lparr>uart_reads := Suc (uart_reads s), tx := tx_drop (tx s),
          procs := roused ChUart (cproc (mycpu s)) {..<NPROC} (procs s),
          uart_writes := uart_writes s @ [(THR, tx_head (tx s))]\<rparr> = ?u"
        by (cases s) simp
      have run: "start_tx_loop (Suc fuel) s = start_tx_loop fuel ?u"
        using ne False Suc.prems unfolding u [symmetric]
        by (simp add: read_reg_def write_reg_def flow tx_head_def tx_drop_def)
      have "crit ?u = ?u" using Suc.prems(2) by simp
      moreover have "cpu_ok ?u" "procs_free ?u" "tx_inv (tx ?u)" "length (tx_contents (tx ?u)) \<le> fuel"
        using Suc.prems(1,3,5) drop by simp_all
      ultimately obtain ps q n ws where ih:
        "start_tx_loop fuel ?u = Inr (?u\<lparr>procs := ps, tx := q, uart_reads := n, uart_writes := ws\<rparr>)" "tx_inv q"
        "sent (?u\<lparr>uart_writes := ws\<rparr>) @ tx_contents q = sent ?u @ tx_contents (tx ?u)"
        "always_idle ?u \<longrightarrow> tx_contents q = []"
        using Suc.IH [of ?u] by blast
      have "?u\<lparr>procs := ps, tx := q, uart_reads := n, uart_writes := ws\<rparr> =
          s\<lparr>procs := ps, tx := q, uart_reads := n, uart_writes := ws\<rparr>" by (cases s) simp
      moreover have "sent (?u\<lparr>uart_writes := ws\<rparr>) = sent (s\<lparr>uart_writes := ws\<rparr>)" "sent ?u = sent s @ [tx_head (tx s)]"
        "always_idle ?u = always_idle s" by (simp_all add: sent_def always_idle_def)
      ultimately show ?thesis
        using run c ih by (intro exI [of _ ps] exI [of _ q] exI [of _ n] exI [of _ ws]) simp
    qed
  qed
qed

lemma uartwrite_loop_room:
  assumes "tx_inv (tx s)" "length (tx_contents (tx s)) + length buf \<le> TX_BUF_SIZE"
  shows "uartwrite_loop buf s = Inr (s\<lparr>tx := fold tx_put buf (tx s)\<rparr>)"
  using assms
proof (induction buf arbitrary: s)
  case (Cons c cs)
  have nf: "\<not> tx_full (tx s)" using txq.full_law [OF Cons.prems(1)] Cons.prems(2) by simp
  then show ?case
    using Cons.IH [of "s\<lparr>tx := tx_put c (tx s)\<rparr>"] txq.put_law [OF Cons.prems(1) nf, of c] Cons.prems(2)
    by (simp add: tx_full_def)
qed simp

text \<open>No lock the driver needs is taken and the ring is a good queue.\<close>

definition uart_ready :: "'z uartst_scheme \<Rightarrow> bool" where
  "uart_ready s \<longleftrightarrow> cpu_ok s \<and> procs_free s \<and> lock_free LUart s \<and> uart_init_done s \<and> tx_inv (tx s)"


text \<open>An idle machine with a file system and an idle UART, used in the witnesses of this and later theories.\<close>

definition demo_uart :: uartst where
  "demo_uart = fsst.extend demo_fs
     (uartst.fields \<lparr>tx_buf = replicate TX_BUF_SIZE 0, tx_w = 0, tx_r = 0\<rparr> True (\<lambda>_ _. 32) 0 [] False False)"

lemmas demo_uart_defs = demo_uart_def demo_fs_defs uartst.defs

lemma demo_uart_sel [simp]:
  "mem demo_uart = demo_pt" "procs demo_uart = (\<lambda>_. demo_proc)" "hart demo_uart = 0"
  "sie demo_uart = (\<lambda>_. True)" "cpus demo_uart = (\<lambda>_. \<lparr>cproc = Some 0, noff = 0, intena = False\<rparr>)"
  "locks demo_uart = (\<lambda>_. \<lparr>locked = 0, lname = [], lcpu = None\<rparr>)"
  "tx demo_uart = \<lparr>tx_buf = replicate TX_BUF_SIZE 0, tx_w = 0, tx_r = 0\<rparr>" "uart_init_done demo_uart"
  "uart_dev demo_uart = (\<lambda>_ _. 32)" "uart_reads demo_uart = 0" "uart_writes demo_uart = []"
  "\<not> panicking demo_uart" "\<not> panicked demo_uart"
  by (simp_all add: demo_uart_defs)


end
