(* ===== verification/Printf.thy ===== *)
theory Printf
  imports Uart
begin

unbundle bit_operations_syntax

section \<open>Kernel printing (kernel/rust\_printf.rs)\<close>

text \<open>
  \<open>printf\<close> walks the format string and prints every character through \<open>consputc\<close>.  The model
  computes the characters first (\<open>printf_chars\<close>) and prints them in order.  A format or a string is the
  list of its bytes before the NUL; \<open>cstr\<close> gives the string a pointer argument points at.  The digit
  buffer of \<open>rust_printint\<close> has 20 bytes and is written through a raw pointer, \<open>DIGITS\<close> has 16
  bytes and is read through one: an index beyond either is undefined.
\<close>

definition DIGITS :: "u8 list" where
  "DIGITS = [48, 49, 50, 51, 52, 53, 54, 55, 56, 57, 97, 98, 99, 100, 101, 102]"

function digit_loop :: "u64 \<Rightarrow> u64 \<Rightarrow> nat list" where
  "digit_loop base x =
     (if base \<le> 1 then []
      else unat (x mod base) # (if x div base = 0 then [] else digit_loop base (x div base)))"
  by pat_completeness auto

lemma div_base_less:
  assumes "1 < (base :: u64)" "x div base \<noteq> 0"
  shows "unat (x div base) < unat x"
proof -
  have "1 < unat base" using assms(1) by (simp add: word_less_nat_alt)
  moreover have "unat x \<noteq> 0" using assms(2) by (auto simp: unat_eq_zero)
  ultimately show ?thesis by (simp add: unat_div)
qed

termination digit_loop
  by (relation "measure (\<lambda>(base, x). unat x)") (auto simp: div_base_less not_le)

declare digit_loop.simps [simp del]

definition printint_chars :: "u64 \<Rightarrow> int \<Rightarrow> bool \<Rightarrow> u32 list kres" where
  "printint_chars xx base sign =
     (if base \<le> 1 then Inr []
      else
        let neg = (sign \<and> sint xx < 0);
            x = (if neg then - xx else xx);
            ds = digit_loop (of_int base) x;
            buf = ds @ (if neg then [16] else []) in
        if length buf > 20 \<or> (\<exists>d \<in> set ds. d \<ge> 16) then Inl Undefined
        else Inr (rev (map (\<lambda>d. if d < 16 then ucast (DIGITS ! d) else 45) buf)))"

definition printptr_chars :: "u64 \<Rightarrow> u32 list" where
  "printptr_chars x = [48, 120] @ map (\<lambda>i. ucast (DIGITS ! unat (drop_bit 60 (push_bit (4 * i) x)))) [0..<16]"

definition next_arg :: "u64 list \<Rightarrow> u64 \<times> u64 list" where
  "next_arg args = (case args of [] \<Rightarrow> (0, []) | a # as \<Rightarrow> (a, as))"

definition byte_at :: "u8 list \<Rightarrow> nat \<Rightarrow> u8" where
  "byte_at bs i = (if i < length bs then bs ! i else 0)"

text \<open>
  What follows a percent sign: the conversion and how many bytes of the format it takes.  \<open>Stop\<close> is
  the end of the format.
\<close>

datatype directive = Int64 int bool | Int32 bool | UInt32 int | Ptr | Chr | Str | Percent | Stop | Other u8

definition directive_at :: "u8 list \<Rightarrow> directive \<times> nat" where
  "directive_at fmt =
     (let c0 = byte_at fmt 0;
          c1 = (if c0 \<noteq> 0 then byte_at fmt 1 else 0);
          c2 = (if c1 \<noteq> 0 then byte_at fmt 2 else 0) in
      if c0 = 100 then (Int32 True, 1)
      else if c0 = 108 \<and> c1 = 100 then (Int64 10 True, 2)
      else if c0 = 108 \<and> c1 = 108 \<and> c2 = 100 then (Int64 10 True, 3)
      else if c0 = 117 then (UInt32 10, 1)
      else if c0 = 108 \<and> c1 = 117 then (Int64 10 False, 2)
      else if c0 = 108 \<and> c1 = 108 \<and> c2 = 117 then (Int64 10 False, 3)
      else if c0 = 120 then (UInt32 16, 1)
      else if c0 = 108 \<and> c1 = 120 then (Int64 16 False, 2)
      else if c0 = 108 \<and> c1 = 108 \<and> c2 = 120 then (Int64 16 False, 3)
      else if c0 = 112 then (Ptr, 1)
      else if c0 = 99 then (Chr, 1)
      else if c0 = 115 then (Str, 1)
      else if c0 = 37 then (Percent, 1)
      else if c0 = 0 then (Stop, 0)
      else (Other c0, 1))"

definition print_cstr :: "(u64 \<Rightarrow> u8 list) \<Rightarrow> u64 \<Rightarrow> u32 list" where
  "print_cstr cstr a = map ucast (if a = 0 then [40, 110, 117, 108, 108, 41] else cstr a)"

definition render :: "(u64 \<Rightarrow> u8 list) \<Rightarrow> directive \<Rightarrow> u64 list \<Rightarrow> u32 list kres \<times> u64 list" where
  "render cstr d args =
     (let (a, rest) = next_arg args in
      case d of
        Int64 base sign \<Rightarrow> (printint_chars a base sign, rest)
      | Int32 sign \<Rightarrow> (printint_chars (scast (ucast a :: u32)) 10 sign, rest)
      | UInt32 base \<Rightarrow> (printint_chars (ucast (ucast a :: u32)) base False, rest)
      | Ptr \<Rightarrow> (Inr (printptr_chars a), rest)
      | Chr \<Rightarrow> (Inr [ucast a], rest)
      | Str \<Rightarrow> (Inr (print_cstr cstr a), rest)
      | Percent \<Rightarrow> (Inr [37], args)
      | Stop \<Rightarrow> (Inr [], args)
      | Other c \<Rightarrow> (Inr [37, ucast c], args))"

function printf_chars :: "(u64 \<Rightarrow> u8 list) \<Rightarrow> u8 list \<Rightarrow> u64 list \<Rightarrow> u32 list kres" where
  "printf_chars cstr fmt args =
     (case fmt of
        [] \<Rightarrow> Inr []
      | cx # fmt \<Rightarrow>
          if cx \<noteq> 37 then and_then (printf_chars cstr fmt args) (\<lambda>out. Inr (ucast cx # out))
          else if fst (directive_at fmt) = Stop then Inr []
          else and_then (fst (render cstr (fst (directive_at fmt)) args)) (\<lambda>cs.
            and_then (printf_chars cstr (drop (snd (directive_at fmt)) fmt)
                (snd (render cstr (fst (directive_at fmt)) args))) (\<lambda>out.
            Inr (cs @ out))))"
  by pat_completeness auto
termination printf_chars
  by (relation "measure (\<lambda>(cstr, fmt, args). length fmt)") auto

declare printf_chars.simps [simp del]

definition print_chars :: "u32 list \<Rightarrow> 'z uartst_scheme \<Rightarrow> 'z uartst_scheme kres" where
  "print_chars cs s = for_each consputc cs s"

definition rust_printint :: "u64 \<Rightarrow> int \<Rightarrow> bool \<Rightarrow> 'z uartst_scheme \<Rightarrow> 'z uartst_scheme kres" where
  "rust_printint xx base sign s = and_then (printint_chars xx base sign) (\<lambda>cs. print_chars cs s)"

definition rust_printptr :: "u64 \<Rightarrow> 'z uartst_scheme \<Rightarrow> 'z uartst_scheme kres" where
  "rust_printptr x s = print_chars (printptr_chars x) s"

definition printf :: "(u64 \<Rightarrow> u8 list) \<Rightarrow> u8 list \<Rightarrow> u64 list \<Rightarrow> 'z uartst_scheme \<Rightarrow> 'z uartst_scheme kres" where
  "printf cstr fmt args s =
     and_then (if panicking s then Inr s else acquire LPr s) (\<lambda>s.
     and_then (printf_chars cstr fmt (take 16 args)) (\<lambda>cs.
     and_then (print_chars cs s) (\<lambda>s.
     if panicking s then Inr s else release LPr s)))"

text \<open>
  \<open>panic\<close> prints its message and stops; a model routine that panics has the outcome \<open>Panic\<close>,
  and \<open>panic_state\<close> is what it leaves behind for the other harts.
\<close>

definition panic_state :: "u8 list \<Rightarrow> 'z uartst_scheme \<Rightarrow> 'z uartst_scheme kres" where
  "panic_state msg s =
     and_then (print_chars (map ucast [112, 97, 110, 105, 99, 58, 32] @ map ucast msg @ [10])
       (s\<lparr>panicking := True\<rparr>)) (\<lambda>s. Inr (s\<lparr>panicked := True\<rparr>))"

definition printfinit :: "'z uartst_scheme \<Rightarrow> 'z uartst_scheme" where
  "printfinit s = initlock LPr ''pr'' s"

subsection \<open>Number conversion\<close>

primrec of_digits :: "nat \<Rightarrow> nat list \<Rightarrow> nat" where
  "of_digits base [] = 0"
| "of_digits base (d # ds) = d + base * of_digits base ds"

lemma digit_loop_facts:
  assumes "1 < base"
  shows "of_digits (unat base) (digit_loop base x) = unat x \<and> (\<forall>d \<in> set (digit_loop base x). d < unat base) \<and>
    unat base ^ (length (digit_loop base x) - 1) \<le> max 1 (unat x) \<and> digit_loop base x \<noteq> []"
  using assms
proof (induction base x rule: digit_loop.induct)
  case (1 base x)
  have b: "1 < unat base" using 1(2) by (simp add: word_less_nat_alt)
  have mod: "unat (x mod base) = unat x mod unat base" "unat x mod unat base < unat base"
    "unat (x div base) = unat x div unat base"
    using b by (simp_all add: unat_mod unat_div)
  show ?case
  proof (cases "x div base = 0")
    case True
    then have "unat x div unat base = 0" using mod(3) by (simp add: unat_eq_zero)
    then have "unat x mod unat base = unat x" using mod_div_mult_eq [of "unat x" "unat base"] by simp
    then show ?thesis using 1(2) True mod by (simp add: digit_loop.simps [of base x] not_le)
  next
    case False
    define ds where "ds = digit_loop base (x div base)"
    have ih: "of_digits (unat base) ds = unat x div unat base" "\<forall>d \<in> set ds. d < unat base"
      "unat base ^ (length ds - 1) \<le> max 1 (unat x div unat base)" "ds \<noteq> []"
      using 1(1) [OF _ False] 1(2) mod(3) by (simp_all add: ds_def not_le)
    have pos: "0 < unat x div unat base" using False mod(3) by (metis gr0I unat_eq_zero)
    have "unat base ^ length ds = unat base * unat base ^ (length ds - 1)"
      using ih(4) by (cases ds) simp_all
    also have "\<dots> \<le> unat base * (unat x div unat base)" using ih(3) pos by (simp add: max_def)
    also have "\<dots> \<le> unat x" by simp
    finally show ?thesis
      using 1(2) False mod ih by (simp add: digit_loop.simps [of base x] not_le ds_def [symmetric])
  qed
qed

lemma digit_loop_length:
  assumes "10 \<le> base"
  shows "length (digit_loop base x) \<le> 20"
proof (rule ccontr)
  have b: "1 < base" "10 \<le> unat base" using assms by (simp_all add: word_le_nat_alt word_less_nat_alt)
  assume "\<not> ?thesis"
  then have "(10 :: nat) ^ 20 \<le> 10 ^ (length (digit_loop base x) - 1)" by (intro power_increasing) auto
  also have "\<dots> \<le> unat base ^ (length (digit_loop base x) - 1)" using b(2) by (rule power_mono) simp
  also have "\<dots> \<le> max 1 (unat x)" using digit_loop_facts [OF b(1)] by blast
  also have "\<dots> < 2 ^ 64" using unat_u64_less [of x] by simp
  finally show False by simp
qed

lemma digit_loop_length_neg:
  assumes "unat x \<le> 2 ^ 63"
  shows "length (digit_loop 10 x) \<le> 19"
proof (rule ccontr)
  assume "\<not> ?thesis"
  then have "(10 :: nat) ^ 19 \<le> 10 ^ (length (digit_loop 10 x) - 1)" by (intro power_increasing) auto
  also have "\<dots> \<le> max 1 (unat x)" using digit_loop_facts [of 10 x] by simp
  also have "\<dots> \<le> 2 ^ 63" using assms by simp
  finally show False by simp
qed

text \<open>Reading a printed number back.\<close>

definition digit_val :: "u32 \<Rightarrow> int" where
  "digit_val c = (if c \<le> 57 then uint c - 48 else uint c - 87)"

definition read_digits :: "int \<Rightarrow> u32 list \<Rightarrow> int" where
  "read_digits base cs = foldl (\<lambda>a c. a * base + digit_val c) 0 cs"

definition read_int :: "int \<Rightarrow> u32 list \<Rightarrow> int" where
  "read_int base cs = (case cs of c # cs' \<Rightarrow> if c = 45 then - read_digits base cs' else read_digits base cs | [] \<Rightarrow> 0)"

lemma digit_val_DIGITS:
  assumes "d < 16"
  shows "digit_val (ucast (DIGITS ! d)) = int d" "ucast (DIGITS ! d) \<noteq> (45 :: u32)"
proof -
  have "d \<in> set [0..<16]" using assms by simp
  then have "digit_val (ucast (DIGITS ! d)) = int d \<and> ucast (DIGITS ! d) \<noteq> (45 :: u32)"
    by (simp add: upt_rec DIGITS_def digit_val_def) auto
  then show "digit_val (ucast (DIGITS ! d)) = int d" "ucast (DIGITS ! d) \<noteq> (45 :: u32)" by simp_all
qed

lemma read_digits_rev:
  "\<forall>d \<in> set ds. d < 16 \<Longrightarrow> read_digits (int base) (rev (map (\<lambda>d. ucast (DIGITS ! d)) ds)) = int (of_digits base ds)"
  by (induction ds) (auto simp: read_digits_def digit_val_DIGITS algebra_simps)

lemma read_int_rev:
  assumes "\<forall>d \<in> set ds. d < 16" "ds \<noteq> []"
  shows "read_int (int base) (rev (map (\<lambda>d. ucast (DIGITS ! d)) ds)) = int (of_digits base ds)"
proof -
  obtain es d where ds: "ds = es @ [d]" using assms(2) by (cases ds rule: rev_cases) auto
  then have "ucast (DIGITS ! d) \<noteq> (45 :: u32)" using assms(1) by (simp add: digit_val_DIGITS)
  then show ?thesis using read_digits_rev [OF assms(1), of base] ds by (simp add: read_int_def)
qed

lemma unat_neg: "sint (x :: u64) < 0 \<Longrightarrow> int (unat (- x)) = - sint x \<and> unat (- x) \<le> 2 ^ 63"
proof -
  assume neg: "sint x < 0"
  have lo: "- (2 ^ 63) \<le> sint x" using sint_ge [of x] by simp
  have "- x = word_of_int (- sint x)" by simp
  then have "uint (- x) = (- sint x) mod 2 ^ 64"
    using uint_word_of_int [of "- sint x", where 'a = 64] by simp
  also have "\<dots> = - sint x" using neg lo by simp
  finally show ?thesis using lo neg by (simp flip: nat_uint_eq)
qed

lemma sint_nonneg: "\<not> sint (x :: u64) < 0 \<Longrightarrow> int (unat x) = sint x"
  using uint_word_of_int [of "sint x", where 'a = 64] sint_lt [of x] by simp

text \<open>
  Printing a number in base 10 or 16 stays inside the 20-byte digit buffer and the digit
  table, and the characters read back as the number: as a signed 64-bit integer when the sign is asked
  for (also for the most negative one, whose negation wraps around), as an unsigned one otherwise.
\<close>

theorem printint_correct:
  assumes "base = 10 \<or> base = 16 \<and> \<not> sign"
  shows "\<exists>cs. printint_chars xx base sign = Inr cs \<and> length cs \<le> 20 \<and>
    read_int base cs = (if sign then sint xx else uint xx)"
proof -
  define neg where "neg = (sign \<and> sint xx < 0)"
  define x where "x = (if neg then - xx else xx)"
  define ds where "ds = digit_loop (of_int base) x"
  have b: "1 < (of_int base :: u64)" "unat (of_int base :: u64) = nat base" "(10 :: u64) \<le> of_int base"
    using assms by auto
  have ds: "of_digits (nat base) ds = unat x" "\<forall>d \<in> set ds. d < 16" "ds \<noteq> []"
    using digit_loop_facts [OF b(1), of x] assms by (auto simp: ds_def)
  have len: "length (ds @ (if neg then [16] else [])) \<le> 20"
    using digit_loop_length [OF b(3), of x] digit_loop_length_neg [of x] unat_neg [of xx] assms
    by (auto simp: ds_def x_def neg_def)
  have m: "map (\<lambda>d. if d < 16 then ucast (DIGITS ! d) else (45 :: u32)) ds = map (\<lambda>d. ucast (DIGITS ! d)) ds"
    using ds(2) by simp
  have run: "printint_chars xx base sign =
      Inr (rev (map (\<lambda>d. if d < 16 then ucast (DIGITS ! d) else 45) (ds @ (if neg then [16] else []))))"
    using len ds(2) assms by (auto simp: printint_chars_def neg_def [symmetric] x_def [symmetric] ds_def [symmetric] Let_def)
  have "int (nat base) = base" using assms by auto
  then have rd: "read_int base (rev (map (\<lambda>d. ucast (DIGITS ! d)) ds)) = int (unat x)"
    "read_digits base (rev (map (\<lambda>d. ucast (DIGITS ! d)) ds)) = int (unat x)"
    using read_int_rev [OF ds(2,3), of "nat base"] read_digits_rev [OF ds(2), of "nat base"] ds(1) by simp_all
  have "neg \<or> int (unat x) = (if sign then sint xx else uint xx)"
    using sint_nonneg [of xx] by (auto simp: x_def neg_def)
  moreover have "neg \<Longrightarrow> - int (unat x) = sint xx \<and> sign"
    using unat_neg [of xx] by (simp add: x_def neg_def)
  ultimately show ?thesis using len rd run m by (cases neg) (auto simp: read_int_def)
qed

theorem printint_correct_witness:
  "\<exists>cs. printint_chars 0x8000000000000000 10 True = Inr cs \<and> length cs \<le> 20 \<and>
     read_int 10 cs = - 9223372036854775808"
  using printint_correct [of 10 True "0x8000000000000000"] by simp

subsection \<open>Printing through a device that keeps becoming idle\<close>

definition echo :: "u32 \<Rightarrow> u8 list" where
  "echo c = (if c = BACKSPACE then [8, 32, 8] else [ucast c])"

definition fair_device :: "'z uartst_scheme \<Rightarrow> bool" where
  "fair_device s \<longleftrightarrow> (\<forall>n. \<exists>m \<ge> n. uart_dev s m LSR AND LSR_TX_IDLE \<noteq> 0)"

text \<open>A routine that holds a lock, or runs at depth 0 with \<open>intena\<close> up to date, can print.\<close>

definition print_ready :: "'z uartst_scheme \<Rightarrow> bool" where
  "print_ready s \<longleftrightarrow> cpu_ok s \<and> crit s = s \<and> \<not> panicked s \<and> fair_device s"

definition printed :: "u8 list \<Rightarrow> 'z uartst_scheme \<Rightarrow> 'z uartst_scheme \<Rightarrow> bool" where
  "printed out s t \<longleftrightarrow> (\<exists>n. t = s\<lparr>uart_reads := n, uart_writes := uart_writes s @ map (Pair THR) out\<rparr>)"

lemma poll_idle_returns:
  "d (n + k) LSR AND LSR_TX_IDLE \<noteq> 0 \<Longrightarrow> \<exists>m. poll_idle d n = Some m"
proof (induction k arbitrary: n)
  case 0
  then show ?case by (subst poll_idle.simps) simp
next
  case (Suc k)
  then show ?case by (subst poll_idle.simps) simp
qed

lemma printed_trans: "printed a s t \<Longrightarrow> printed b t u \<Longrightarrow> printed (a @ b) s u"
  by (auto simp: printed_def)

lemma printed_Nil [simp]: "printed [] s s"
  by (auto simp: printed_def intro!: exI [of _ "uart_reads s"])

lemma printed_ready: "printed out s t \<Longrightarrow> print_ready t = print_ready s"
  by (cases s) (auto simp: printed_def print_ready_def fair_device_def crit_def machine_defs cpu_ok_def)

lemma sent_printed: "printed out s t \<Longrightarrow> sent t = sent s @ out"
  by (auto simp: printed_def sent_def comp_def filter_map)

lemma uartputc_sync_eq:
  assumes "print_ready s"
  shows "\<exists>t. uartputc_sync c s = Inr t \<and> printed [ucast c] s t"
proof -
  note s = assms [unfolded print_ready_def fair_device_def]
  have dev: "uart_dev (push_off s) = uart_dev s" "uart_reads (push_off s) = uart_reads s" "panicked (push_off s) = panicked s"
    "uart_writes (push_off s) = uart_writes s"
    by (simp_all add: machine_defs)
  obtain m where "uart_reads s \<le> m" "uart_dev s m LSR AND LSR_TX_IDLE \<noteq> 0" using s by blast
  then obtain n where n: "poll_idle (uart_dev s) (uart_reads s) = Some n"
    using poll_idle_returns [of "uart_dev s" "uart_reads s" "m - uart_reads s"] by auto
  have "pop_off ((push_off s)\<lparr>uart_reads := a, uart_writes := b\<rparr>) = Inr (s\<lparr>uart_reads := a, uart_writes := b\<rparr>)" for a b
  proof -
    have "(push_off s)\<lparr>uart_reads := a, uart_writes := b\<rparr> = push_off (s\<lparr>uart_reads := a, uart_writes := b\<rparr>)"
      by (simp add: machine_defs)
    then show ?thesis using s by (simp add: pop_off_push_off)
  qed
  then have "uartputc_sync c s = Inr (s\<lparr>uart_reads := Suc n, uart_writes := uart_writes s @ [(THR, ucast c)]\<rparr>)"
    using n dev s by (simp add: uartputc_sync_def write_reg_def Let_def)
  then show ?thesis by (auto simp: printed_def)
qed

lemma consputc_eq:
  assumes "print_ready s"
  shows "\<exists>t. consputc c s = Inr t \<and> printed (echo c) s t"
proof (cases "c = BACKSPACE")
  case True
  obtain a where a: "uartputc_sync 8 s = Inr a" "printed [8] s a" using uartputc_sync_eq [OF assms, of 8] by auto
  obtain b where b: "uartputc_sync 32 a = Inr b" "printed [32] a b"
    using uartputc_sync_eq [of a 32] assms printed_ready [OF a(2)] by auto
  obtain d where d: "uartputc_sync 8 b = Inr d" "printed [8] b d"
    using uartputc_sync_eq [of b 8] assms printed_ready [OF a(2)] printed_ready [OF b(2)] by auto
  have "printed [8, 32, 8] s d" using printed_trans [OF printed_trans [OF a(2) b(2)] d(2)] by simp
  then show ?thesis using True a(1) b(1) d(1) by (simp add: consputc_def echo_def)
qed (use uartputc_sync_eq [OF assms, of c] in \<open>auto simp: consputc_def echo_def\<close>)

lemma print_chars_eq:
  assumes "print_ready s"
  shows "\<exists>t. print_chars cs s = Inr t \<and> printed (concat (map echo cs)) s t"
  using assms
proof (induction cs arbitrary: s)
  case (Cons c cs)
  obtain t where t: "consputc c s = Inr t" "printed (echo c) s t" using consputc_eq [OF Cons.prems] by auto
  obtain u where "print_chars cs t = Inr u" "printed (concat (map echo cs)) t u"
    using Cons printed_ready [OF t(2)] by blast
  then show ?case using t printed_trans by (auto simp: print_chars_def)
qed (simp add: print_chars_def)

subsection \<open>Every format can be printed\<close>

lemma printint_total:
  assumes "base = 10 \<or> base = 16 \<and> \<not> sign"
  shows "\<exists>cs. printint_chars xx base sign = Inr cs"
proof -
  define neg where "neg = (sign \<and> sint xx < 0)"
  define ds where "ds = digit_loop (of_int base) (if neg then - xx else xx)"
  have b: "1 < (of_int base :: u64)" "(10 :: u64) \<le> of_int base" using assms by auto
  have "length (ds @ (if neg then [16] else [])) \<le> 20"
    using digit_loop_length [OF b(2)] digit_loop_length_neg [of "- xx"] unat_neg [of xx] assms
    by (auto simp: ds_def neg_def)
  moreover have "\<forall>d \<in> set ds. d < unat (of_int base :: u64)"
    using digit_loop_facts [OF b(1)] unfolding ds_def by blast
  then have "\<forall>d \<in> set ds. d < 16" using assms by fastforce
  ultimately show ?thesis
    using assms by (auto simp: printint_chars_def neg_def [symmetric] ds_def [symmetric] Let_def)
qed

lemma render_total: "\<exists>cs. fst (render cstr (fst (directive_at fmt)) args) = Inr cs"
proof -
  have "fst (directive_at fmt) \<in> {Int64 10 True, Int64 10 False, Int64 16 False, Int32 True, UInt32 10, UInt32 16,
      Ptr, Chr, Str, Percent, Stop} \<union> range Other"
    by (simp add: directive_at_def Let_def)
  then show ?thesis
    using printint_total by (auto simp: render_def split: prod.split)
qed

lemma printf_chars_total: "\<exists>cs. printf_chars cstr fmt args = Inr cs"
proof (induction cstr fmt args rule: printf_chars.induct)
  case (1 cstr fmt args)
  show ?case
  proof (cases fmt)
    case (Cons cx f)
    obtain cs where "fst (render cstr (fst (directive_at f)) args) = Inr cs" using render_total by blast
    with 1 Cons show ?thesis by (subst printf_chars.simps) (fastforce simp: and_then_def split: sum.split)
  qed (simp add: printf_chars.simps)
qed



end
