(* ===== verification/Console.thy ===== *)
theory Console
  imports Printf
begin

section \<open>The console line discipline (kernel/rust\_console.rs)\<close>

text \<open>
  Typed bytes go into a ring of 128 bytes with three counters: \<open>c_r\<close> up to which a reader has
  consumed, \<open>c_w\<close> up to which lines are committed, \<open>c_e\<close> up to which bytes have been typed.
  A reader that finds no committed byte sleeps on the console's channel.
\<close>

abbreviation INPUT_BUF_SIZE :: nat where "INPUT_BUF_SIZE \<equiv> 128"

record consring =
  c_buf :: "u8 list"
  c_r :: u32
  c_w :: u32
  c_e :: u32

record consst = uartst +
  cons :: consring
  cons_init_done :: bool

definition cons_init :: "'z consst_scheme \<Rightarrow> 'z consst_scheme" where
  "cons_init s =
     (if \<not> cons_init_done s then (initlock LCons ''cons'' s)\<lparr>cons_init_done := True\<rparr> else s)"

definition cons_lock :: "'z consst_scheme \<Rightarrow> 'z consst_scheme kres" where
  "cons_lock s = acquire LCons (cons_init s)"

definition ctrl :: "u8 \<Rightarrow> u32" where
  "ctrl x = ucast x - 64"

text \<open>Each round sends 32 bytes or the rest: \<open>n\<close> rounds are enough.\<close>

primrec consolewrite_loop :: "nat \<Rightarrow> source \<Rightarrow> int \<Rightarrow> int \<Rightarrow> 'z consst_scheme \<Rightarrow> (int \<times> 'z consst_scheme) kres" where
  "consolewrite_loop 0 src i n s = (if i < n then Inl Diverges else Inr (i, s))"
| "consolewrite_loop (Suc fuel) src i n s =
     (if i < n
      then let nn = (if 32 > n - i then n - i else 32) in
        and_then (either_copyin src (nat nn) s) (\<lambda>((ok, bs), s).
        if \<not> ok then Inr (i, s)
        else and_then (uartwrite bs s) (\<lambda>s.
          consolewrite_loop fuel (source_add src (of_int nn)) (i + nn) n s))
      else Inr (i, s))"

definition consolewrite :: "source \<Rightarrow> int \<Rightarrow> 'z consst_scheme \<Rightarrow> (int \<times> 'z consst_scheme) kres" where
  "consolewrite src n s = consolewrite_loop (nat n) src 0 n s"

text \<open>
  The loop of \<open>consoleread\<close>, with the lock held: the result is the return value.  Every round that
  goes on has copied one byte, so \<open>n\<close> rounds are enough.
\<close>

primrec consoleread_loop :: "nat \<Rightarrow> dest \<Rightarrow> int \<Rightarrow> int \<Rightarrow> 'z consst_scheme \<Rightarrow> (int \<times> 'z consst_scheme) kres" where
  "consoleread_loop 0 dst n target s = (if n > 0 then Inl Diverges else Inr (target - n, s))"
| "consoleread_loop (Suc fuel) dst n target s =
     (if n > 0
      then if c_r (cons s) = c_w (cons s)
        then and_then (myproc s) (\<lambda>(p, s).
          case p of
            None \<Rightarrow> Inl Undefined
          | Some i \<Rightarrow> and_then (killed i s) (\<lambda>(k, s).
              if k \<noteq> 0 then Inr (- 1, s) else sleep ChCons LCons s))
        else
          let c = c_buf (cons s) ! (unat (c_r (cons s)) mod INPUT_BUF_SIZE);
              s = s\<lparr>cons := (cons s)\<lparr>c_r := c_r (cons s) + 1\<rparr>\<rparr> in
          if ucast c = ctrl 68
          then Inr (target - n,
            if n < target then s\<lparr>cons := (cons s)\<lparr>c_r := c_r (cons s) - 1\<rparr>\<rparr> else s)
          else and_then (either_copyout dst [c] s) (\<lambda>(ok, s).
            if \<not> ok then Inr (target - n, s)
            else if c = 10 then Inr (target - (n - 1), s)
            else consoleread_loop fuel (dest_add dst 1) (n - 1) target s)
      else Inr (target - n, s))"

definition consoleread :: "dest \<Rightarrow> int \<Rightarrow> 'z consst_scheme \<Rightarrow> (int \<times> 'z consst_scheme) kres" where
  "consoleread dst n s = and_then (cons_lock s) (\<lambda>s.
     and_then (consoleread_loop (nat n) dst n n s) (\<lambda>(r, s).
     and_then (release LCons s) (\<lambda>s. Inr (r, s))))"

subsection \<open>Typing\<close>

definition state_name :: "procstate \<Rightarrow> u8 list" where
  "state_name st = map (\<lambda>c. of_char c) (case st of
     UNUSED \<Rightarrow> ''unused'' | USED \<Rightarrow> ''used'' | SLEEPING \<Rightarrow> ''sleep '' | RUNNABLE \<Rightarrow> ''runble''
   | RUNNING \<Rightarrow> ''run   '' | ZOMBIE \<Rightarrow> ''zombie'')"

definition procdump :: "'z consst_scheme \<Rightarrow> 'z consst_scheme kres" where
  "procdump s = and_then (consputc 10 s) (\<lambda>s.
     for_each (\<lambda>i s.
       if state (procs s i) \<noteq> UNUSED
       then and_then (rust_printint (scast (pid (procs s i))) 10 True s) (\<lambda>s.
         and_then (consputc 32 s) (\<lambda>s.
         and_then (print_chars (map ucast (state_name (state (procs s i)))) s) (\<lambda>s.
         and_then (consputc 32 s) (\<lambda>s.
         and_then (print_chars (map ucast (name_of (pname (procs s i)))) s) (\<lambda>s.
         consputc 10 s)))))
       else Inr s) [0..<NPROC] s)"

text \<open>\<^bold>\<open>Control-U\<close>: every round takes back one typed byte.\<close>

primrec erase_line :: "nat \<Rightarrow> 'z consst_scheme \<Rightarrow> 'z consst_scheme kres" where
  "erase_line 0 s = (if c_e (cons s) \<noteq> c_w (cons s) \<and>
       c_buf (cons s) ! (unat (c_e (cons s) - 1) mod INPUT_BUF_SIZE) \<noteq> 10 then Inl Diverges else Inr s)"
| "erase_line (Suc fuel) s =
     (if c_e (cons s) \<noteq> c_w (cons s) \<and>
         c_buf (cons s) ! (unat (c_e (cons s) - 1) mod INPUT_BUF_SIZE) \<noteq> 10
      then and_then (consputc BACKSPACE (s\<lparr>cons := (cons s)\<lparr>c_e := c_e (cons s) - 1\<rparr>\<rparr>)) (erase_line fuel)
      else Inr s)"

definition cons_put :: "u8 \<Rightarrow> consring \<Rightarrow> consring" where
  "cons_put c k = k\<lparr>c_buf := (c_buf k)[unat (c_e k) mod INPUT_BUF_SIZE := c], c_e := c_e k + 1\<rparr>"

text \<open>The effect of a typed byte other than \<^bold>\<open>Control-P\<close>, with the lock held.\<close>

definition edit_step :: "u32 \<Rightarrow> 'z consst_scheme \<Rightarrow> 'z consst_scheme kres" where
  "edit_step c s =
     (if c = ctrl 85 then erase_line (unat (c_e (cons s) - c_w (cons s))) s
      else if c = ctrl 72 \<or> c = 0x7f
      then if c_e (cons s) \<noteq> c_w (cons s)
        then consputc BACKSPACE (s\<lparr>cons := (cons s)\<lparr>c_e := c_e (cons s) - 1\<rparr>\<rparr>)
        else Inr s
      else if c \<noteq> 0 \<and> c_e (cons s) - c_r (cons s) < of_nat INPUT_BUF_SIZE
      then let c = (if c = 13 then 10 else c) in
        and_then (consputc c s) (\<lambda>s.
        let s = s\<lparr>cons := cons_put (ucast c) (cons s)\<rparr> in
        if c = 10 \<or> c = ctrl 68 \<or> c_e (cons s) - c_r (cons s) = of_nat INPUT_BUF_SIZE
        then wakeup ChCons (s\<lparr>cons := (cons s)\<lparr>c_w := c_e (cons s)\<rparr>\<rparr>)
        else Inr s)
      else Inr s)"

definition consoleintr :: "u32 \<Rightarrow> 'z consst_scheme \<Rightarrow> 'z consst_scheme kres" where
  "consoleintr c s = and_then (cons_lock s) (\<lambda>s.
     and_then (if c = ctrl 80 then procdump s else edit_step c s) (\<lambda>s. release LCons s))"

text \<open>
  \<open>uartintr\<close> of rust\_uart.rs: hand every received byte to the console, then refill the device.  The
  first loop ends when the device has no byte left; \<open>None\<close> is a device that always has one.
\<close>

partial_function (option) drain_rx :: "'z consst_scheme \<Rightarrow> 'z consst_scheme kres option" where
  "drain_rx s =
     (if fst (uartgetc s) = - 1 then Some (Inr (snd (uartgetc s)))
      else if isl (consoleintr (of_int (fst (uartgetc s))) (snd (uartgetc s)))
      then Some (consoleintr (of_int (fst (uartgetc s))) (snd (uartgetc s)))
      else drain_rx (projr (consoleintr (of_int (fst (uartgetc s))) (snd (uartgetc s)))))"

declare drain_rx.simps [code]

definition uartintr :: "'z consst_scheme \<Rightarrow> 'z consst_scheme kres" where
  "uartintr s =
     (case drain_rx s of
        None \<Rightarrow> Inl Diverges
      | Some r \<Rightarrow> and_then r (\<lambda>s. and_then (uart_lock s) (\<lambda>s.
          and_then (start_tx_locked s) (\<lambda>s. release LUart s))))"

subsection \<open>Lock operations leave the console alone\<close>

lemma consst_acquired [simp]:
  "cons (acquired l s) = cons s"
  "cons_init_done (acquired l s) = cons_init_done s"
  by (simp_all add: acquired_def machine_defs)

lemma consst_crit [simp]:
  "cons (crit s) = cons s"
  "cons_init_done (crit s) = cons_init_done s"
  by (simp_all add: crit_def machine_defs)

lemma consst_initlock [simp]:
  "cons (initlock l nm s) = cons s"
  "cons_init_done (initlock l nm s) = cons_init_done s"
  by (simp_all add: initlock_def)

lemma release_consst_upd [simp]:
  "release l (s\<lparr>cons := x0\<rparr>) = map_sum id (\<lambda>t. t\<lparr>cons := x0\<rparr>) (release l s)"
  "release l (s\<lparr>cons_init_done := x1\<rparr>) = map_sum id (\<lambda>t. t\<lparr>cons_init_done := x1\<rparr>) (release l s)"
  by (simp_all add: release_unfold)

lemma acquire_consst_upd [simp]:
  "acquire l (s\<lparr>cons := x0\<rparr>) = map_sum id (\<lambda>t. t\<lparr>cons := x0\<rparr>) (acquire l s)"
  "acquire l (s\<lparr>cons_init_done := x1\<rparr>) = map_sum id (\<lambda>t. t\<lparr>cons_init_done := x1\<rparr>) (acquire l s)"
  by (simp_all add: acquire_unfold)

lemma acquired_consst_upd [simp]:
  "acquired l (s\<lparr>cons := x0\<rparr>) = (acquired l s)\<lparr>cons := x0\<rparr>"
  "acquired l (s\<lparr>cons_init_done := x1\<rparr>) = (acquired l s)\<lparr>cons_init_done := x1\<rparr>"
  by (simp_all add: acquired_def machine_defs)

lemma crit_consst_upd [simp]:
  "crit (s\<lparr>cons := x0\<rparr>) = (crit s)\<lparr>cons := x0\<rparr>"
  "crit (s\<lparr>cons_init_done := x1\<rparr>) = (crit s)\<lparr>cons_init_done := x1\<rparr>"
  by (simp_all add: crit_def machine_defs)

lemma lock_free_consst_upd [simp]:
  "lock_free l (s\<lparr>cons := x0\<rparr>) = lock_free l s"
  "lock_free l (s\<lparr>cons_init_done := x1\<rparr>) = lock_free l s"
  by (simp_all add: lock_free_def)

lemma cpu_ok_consst_upd [simp]:
  "cpu_ok (s\<lparr>cons := x0\<rparr>) = cpu_ok s"
  "cpu_ok (s\<lparr>cons_init_done := x1\<rparr>) = cpu_ok s"
  by (simp_all add: cpu_ok_def machine_defs)

lemma mycpu_consst_upd [simp]:
  "mycpu (s\<lparr>cons := x0\<rparr>) = mycpu s"
  "mycpu (s\<lparr>cons_init_done := x1\<rparr>) = mycpu s"
  by (simp_all add: mycpu_def)

lemma my_pid_consst_upd [simp]:
  "my_pid (s\<lparr>cons := x0\<rparr>) = my_pid s"
  "my_pid (s\<lparr>cons_init_done := x1\<rparr>) = my_pid s"
  by (simp_all add: my_pid_def split: option.split)

lemma procs_free_consst_upd [simp]:
  "procs_free (s\<lparr>cons := x0\<rparr>) = procs_free s"
  "procs_free (s\<lparr>cons_init_done := x1\<rparr>) = procs_free s"
  by (simp_all add: procs_free_def)

text \<open>An idle machine with an empty console, used in the witnesses of this and later theories.\<close>

definition demo_cons :: consst where
  "demo_cons = uartst.extend demo_uart
     (consst.fields \<lparr>c_buf = replicate INPUT_BUF_SIZE 0, c_r = 0, c_w = 0, c_e = 0\<rparr> True)"

lemmas demo_cons_defs = demo_cons_def demo_uart_defs consst.defs

lemma demo_cons_sel [simp]:
  "mem demo_cons = demo_pt" "procs demo_cons = (\<lambda>_. demo_proc)" "hart demo_cons = 0"
  "sie demo_cons = (\<lambda>_. True)" "cpus demo_cons = (\<lambda>_. \<lparr>cproc = Some 0, noff = 0, intena = False\<rparr>)"
  "locks demo_cons = (\<lambda>_. \<lparr>locked = 0, lname = [], lcpu = None\<rparr>)"
  "uart_dev demo_cons = (\<lambda>_ _. 32)" "uart_writes demo_cons = []" "\<not> panicking demo_cons" "\<not> panicked demo_cons"
  "cons demo_cons = \<lparr>c_buf = replicate INPUT_BUF_SIZE 0, c_r = 0, c_w = 0, c_e = 0\<rparr>" "cons_init_done demo_cons"
  by (simp_all add: demo_cons_defs)

subsection \<open>Three counters: committed bytes and the line being edited\<close>

definition cons_inv :: "consring \<Rightarrow> bool" where
  "cons_inv k \<longleftrightarrow> length (c_buf k) = INPUT_BUF_SIZE \<and> unat (c_e k - c_r k) \<le> INPUT_BUF_SIZE \<and>
     unat (c_w k - c_r k) \<le> unat (c_e k - c_r k)"

definition committed :: "consring \<Rightarrow> u8 list" where
  "committed k = ring_list INPUT_BUF_SIZE (c_buf k) (c_w k) (c_r k)"

definition pending :: "consring \<Rightarrow> u8 list" where
  "pending k = ring_list INPUT_BUF_SIZE (c_buf k) (c_e k) (c_w k)"

lemma word_diff_split:
  fixes e w r :: "'c::len word"
  assumes "unat (w - r) \<le> unat (e - r)"
  shows "unat (e - r) = unat (w - r) + unat (e - w)"
proof -
  have "e - w = (e - r) - (w - r)" by simp
  then have "unat (e - w) = unat (e - r) - unat (w - r)"
    using assms by (metis unat_sub word_le_nat_alt)
  with assms show ?thesis by simp
qed

lemma ring_append:
  fixes e w r :: "'c::len word"
  assumes "unat (w - r) \<le> unat (e - r)"
  shows "ring_list cap b e r = ring_list cap b w r @ ring_list cap b e w"
proof (rule nth_equalityI)
  note l = word_diff_split [OF assms]
  show "length (ring_list cap b e r) = length (ring_list cap b w r @ ring_list cap b e w)" using l by simp
  fix i assume i: "i < length (ring_list cap b e r)"
  have "r + of_nat i = w + of_nat (i - unat (w - r))" if "\<not> i < unat (w - r)"
  proof -
    have "(of_nat i :: 'c word) = of_nat (unat (w - r) + (i - unat (w - r)))" using that by simp
    also have "\<dots> = (w - r) + of_nat (i - unat (w - r))" by (simp only: of_nat_add) simp
    finally show ?thesis by simp
  qed
  then show "ring_list cap b e r ! i = (ring_list cap b w r @ ring_list cap b e w) ! i"
    using i l by (auto simp: ring_list_def nth_append add.commute)
qed

lemma unat_minus_1_diff:
  assumes "e \<noteq> (w :: 'c::len word)"
  shows "unat (e - 1 - w) = unat (e - w) - 1"
proof -
  have "e - w \<noteq> 0" using assms by simp
  then show ?thesis by (metis diff_right_commute unat_minus_one)
qed

lemma ring_unput:
  assumes "e \<noteq> (w :: 'c::len word)"
  shows "ring_list cap b (e - 1) w = butlast (ring_list cap b e w)"
    "b ! (unat (e - 1) mod cap) = last (ring_list cap b e w)"
proof -
  have pos: "0 < unat (e - w)" using assms by (simp add: unat_gt_0)
  then have up: "[0..<unat (e - w)] = [0..<unat (e - w) - 1] @ [unat (e - w) - 1]"
    using upt_Suc_append [of 0 "unat (e - w) - 1"] by simp
  show "ring_list cap b (e - 1) w = butlast (ring_list cap b e w)"
    by (simp add: ring_list_def unat_minus_1_diff [OF assms] up)
  have "w + of_nat (unat (e - w) - 1) = e - 1"
    using pos by (simp add: of_nat_diff)
  then show "b ! (unat (e - 1) mod cap) = last (ring_list cap b e w)"
    by (simp add: ring_list_def up)
qed

lemma typed_eq: "cons_inv k \<Longrightarrow>
  ring_list INPUT_BUF_SIZE (c_buf k) (c_e k) (c_r k) = committed k @ pending k"
  by (simp add: cons_inv_def committed_def pending_def ring_append)

lemma typed_length: "cons_inv k \<Longrightarrow> unat (c_e k - c_r k) = length (committed k) + length (pending k)"
  using arg_cong [OF typed_eq, of k length] by simp

lemma cons_put_spec:
  assumes "cons_inv k" "length (committed k) + length (pending k) < INPUT_BUF_SIZE"
  shows "cons_inv (cons_put c k)" "committed (cons_put c k) = committed k"
    "pending (cons_put c k) = pending k @ [c]"
proof -
  have k: "length (c_buf k) = INPUT_BUF_SIZE" "unat (c_e k - c_r k) < INPUT_BUF_SIZE"
    "unat (c_w k - c_r k) \<le> unat (c_e k - c_r k)"
    using assms typed_length [OF assms(1)] by (simp_all add: cons_inv_def)
  then have w: "unat (c_e k - c_w k) < INPUT_BUF_SIZE" using word_diff_split [OF k(3)] by simp
  show pend: "pending (cons_put c k) = pending k @ [c]"
    using ring_put [OF _ _ k(1) w] by (simp add: pending_def cons_put_def)
  have all: "ring_list INPUT_BUF_SIZE (c_buf (cons_put c k)) (c_e k + 1) (c_r k) = (committed k @ pending k) @ [c]"
    using ring_put [OF _ _ k(1,2)] typed_eq [OF assms(1)] by (simp add: cons_put_def)
  have n: "unat (c_e k + 1 - c_r k) = Suc (unat (c_e k - c_r k))" using arg_cong [OF all, of length] typed_length [OF assms(1)] by simp
  show inv: "cons_inv (cons_put c k)"
    using k n by (simp add: cons_inv_def cons_put_def)
  show "committed (cons_put c k) = committed k"
    using typed_eq [OF inv] all pend by (simp add: cons_put_def)
qed

lemma cons_unput_spec:
  assumes "cons_inv k" "c_e k \<noteq> c_w k"
  shows "cons_inv (k\<lparr>c_e := c_e k - 1\<rparr>)" "committed (k\<lparr>c_e := c_e k - 1\<rparr>) = committed k"
    "pending (k\<lparr>c_e := c_e k - 1\<rparr>) = butlast (pending k)"
    "c_buf k ! (unat (c_e k - 1) mod INPUT_BUF_SIZE) = last (pending k)"
proof -
  have k: "unat (c_w k - c_r k) \<le> unat (c_e k - c_r k)" using assms(1) by (simp add: cons_inv_def)
  have "unat (c_e k - c_w k) \<noteq> 0" using assms(2) by (simp add: unat_eq_zero)
  then have "c_e k \<noteq> c_r k" "unat (c_w k - c_r k) < unat (c_e k - c_r k)" using word_diff_split [OF k] by auto
  then show "cons_inv (k\<lparr>c_e := c_e k - 1\<rparr>)"
    using assms(1) unat_minus_1_diff [of "c_e k" "c_r k"] by (simp add: cons_inv_def) linarith
qed (use ring_unput [OF assms(2)] in \<open>simp_all add: committed_def pending_def\<close>)

lemma cons_commit_spec:
  assumes "cons_inv k"
  shows "cons_inv (k\<lparr>c_w := c_e k\<rparr>)" "committed (k\<lparr>c_w := c_e k\<rparr>) = committed k @ pending k" "pending (k\<lparr>c_w := c_e k\<rparr>) = []"
  using assms typed_eq [OF assms] by (simp_all add: cons_inv_def committed_def pending_def)

lemma pending_empty: "c_e k = c_w k \<longleftrightarrow> pending k = []"
  by (simp add: pending_def)

subsection \<open>The line editor\<close>

text \<open>
  What a typed byte does to the committed bytes and to the line being edited, and what the terminal
  shows: a list-level reading of the line discipline, without ring or counters.
\<close>

definition line_edit :: "u32 \<Rightarrow> u8 list \<times> u8 list \<Rightarrow> (u8 list \<times> u8 list) \<times> u32 list" where
  "line_edit c = (\<lambda>(com, pend).
     if c = ctrl 85 then ((com, []), replicate (length pend) BACKSPACE)
     else if c = ctrl 72 \<or> c = 0x7f
       then ((com, butlast pend), if pend = [] then [] else [BACKSPACE])
     else if c \<noteq> 0 \<and> length com + length pend < INPUT_BUF_SIZE
       then let c = (if c = 13 then 10 else c); pend = pend @ [ucast c] in
         (if c = 10 \<or> c = ctrl 68 \<or> length com + length pend = INPUT_BUF_SIZE then (com @ pend, []) else (com, pend), [c])
     else ((com, pend), []))"

definition cons_ready :: "'z consst_scheme \<Rightarrow> bool" where
  "cons_ready s \<longleftrightarrow> cpu_ok s \<and> procs_free s \<and> lock_free LCons s \<and> cons_init_done s \<and> \<not> panicked s \<and> fair_device s \<and>
     cons_inv (cons s) \<and> 10 \<notin> set (pending (cons s))"

lemma print_ready_cons_upd [simp]: "print_ready s \<Longrightarrow> print_ready (s\<lparr>cons := k\<rparr>)"
  by (simp add: print_ready_def fair_device_def)

lemma printed_cons: "printed out s t \<Longrightarrow> cons t = cons s"
  by (auto simp: printed_def)

text \<open>A state that differs from \<open>s\<close> in what was printed and in the console ring.\<close>

definition edited :: "u8 list \<Rightarrow> consring \<Rightarrow> 'z consst_scheme \<Rightarrow> 'z consst_scheme \<Rightarrow> bool" where
  "edited out k s t \<longleftrightarrow> (\<exists>n. t = s\<lparr>uart_reads := n, uart_writes := uart_writes s @ map (Pair THR) out, cons := k\<rparr>)"

lemma printed_edited: "printed out (s\<lparr>cons := k\<rparr>) t \<Longrightarrow> edited out k s t"
  by (cases s) (auto simp: printed_def edited_def)

lemma edited_refl: "edited [] (cons s) s s"
  by (auto simp: edited_def intro!: exI [of _ "uart_reads s"])

lemma edited_trans: "edited a k s t \<Longrightarrow> edited b j t u \<Longrightarrow> edited (a @ b) j s u"
  by (cases s) (auto simp: edited_def)

lemma edited_ready: "edited out k s t \<Longrightarrow> print_ready s \<Longrightarrow> print_ready t"
  by (cases s) (auto simp: edited_def print_ready_def fair_device_def crit_def machine_defs cpu_ok_def)

lemma erase_line_spec:
  assumes "print_ready s" "cons_inv (cons s)" "10 \<notin> set (pending (cons s))" "length (pending (cons s)) \<le> fuel"
  shows "\<exists>t k. erase_line fuel s = Inr t \<and> edited (concat (map echo (replicate (length (pending (cons s))) BACKSPACE))) k s t \<and>
    cons_inv k \<and> committed k = committed (cons s) \<and> pending k = []"
  using assms
proof (induction fuel arbitrary: s)
  case 0
  then have "c_e (cons s) = c_w (cons s)" "pending (cons s) = []" by (simp_all add: pending_empty)
  then show ?case using 0(2) edited_refl [of s] by (intro exI [of _ s] exI [of _ "cons s"]) simp
next
  case (Suc fuel)
  show ?case
  proof (cases "c_e (cons s) = c_w (cons s)")
    case True
    then have "pending (cons s) = []" by (simp add: pending_empty)
    then show ?thesis using True Suc.prems(2) edited_refl [of s] by (intro exI [of _ s] exI [of _ "cons s"]) simp
  next
    case False
    define k where "k = (cons s)\<lparr>c_e := c_e (cons s) - 1\<rparr>"
    note un = cons_unput_spec [OF Suc.prems(2) False, folded k_def]
    have ne: "pending (cons s) \<noteq> []" using False by (simp add: pending_empty)
    then have l: "c_buf (cons s) ! (unat (c_e (cons s) - 1) mod INPUT_BUF_SIZE) \<noteq> 10"
      using un(4) Suc.prems(3) last_in_set by metis
    obtain u where u: "consputc BACKSPACE (s\<lparr>cons := k\<rparr>) = Inr u" "printed (echo BACKSPACE) (s\<lparr>cons := k\<rparr>) u"
      using consputc_eq [of "s\<lparr>cons := k\<rparr>"] Suc.prems(1) by fastforce
    have eu: "edited (echo BACKSPACE) k s u" using u(2) by (rule printed_edited)
    have ku: "cons u = k" using eu by (auto simp: edited_def)
    have "10 \<notin> set (pending k)" using un(3) Suc.prems(3) by (auto dest: in_set_butlastD)
    moreover have "length (pending k) \<le> fuel" using un(3) Suc.prems(4) by simp
    ultimately obtain t j where t: "erase_line fuel u = Inr t"
      "edited (concat (map echo (replicate (length (pending k)) BACKSPACE))) j u t"
      "cons_inv j" "committed j = committed k" "pending j = []"
      using Suc.IH [of u] edited_ready [OF eu Suc.prems(1)] ku un(1) by blast
    have "length (pending (cons s)) = Suc (length (pending k))" using ne un(3) by (cases "pending (cons s)") auto
    then have "edited (concat (map echo (replicate (length (pending (cons s))) BACKSPACE))) j s t"
      using edited_trans [OF eu t(2)] by simp
    moreover have "erase_line (Suc fuel) s = Inr t" using False l u(1) t(1) by (simp add: k_def)
    ultimately show ?thesis using t(3-5) un(2) by auto
  qed
qed

lemma ctrl_sel [simp]: "ctrl 80 = 16" "ctrl 85 = 21" "ctrl 72 = 8" "ctrl 68 = 4"
  by (simp_all add: ctrl_def)

lemma ucast_10: "c < 256 \<Longrightarrow> ucast (c :: u32) = (10 :: u8) \<longleftrightarrow> c = 10"
proof
  assume c: "c < 256" "ucast c = (10 :: u8)"
  then have "unat c < 256" by (simp add: word_less_nat_alt)
  moreover have "unat c mod 256 = 10" using arg_cong [OF c(2), of unat] by (simp add: unsigned_ucast_eq take_bit_eq_mod)
  ultimately show "c = 10" by (simp add: word_unat_eq_iff)
qed simp

lemma edit_step_spec:
  assumes "print_ready s" "procs_free s" "cons_inv (cons s)" "10 \<notin> set (pending (cons s))" "c < 256"
  shows "\<exists>t u k. edit_step c s = Inr t \<and> edited (concat (map echo (snd (line_edit c (committed (cons s), pending (cons s)))))) k s u \<and>
    cons_inv k \<and> 10 \<notin> set (pending k) \<and>
    (committed k, pending k) = fst (line_edit c (committed (cons s), pending (cons s))) \<and>
    t = (if committed k = committed (cons s) then u
         else u\<lparr>procs := roused ChCons (cproc (mycpu s)) {..<NPROC} (procs s)\<rparr>)"
proof -
  let ?k = "cons s"
  consider (kill) "c = ctrl 85" | (bksp) "c \<noteq> ctrl 85" "c = ctrl 72 \<or> c = 0x7f"
    | (ins) "c \<noteq> ctrl 85" "c \<noteq> ctrl 72" "c \<noteq> 0x7f" "c \<noteq> 0" "length (committed ?k) + length (pending ?k) < INPUT_BUF_SIZE"
    | (drop) "c \<noteq> ctrl 85" "c \<noteq> ctrl 72" "c \<noteq> 0x7f" "c = 0 \<or> \<not> length (committed ?k) + length (pending ?k) < INPUT_BUF_SIZE"
    by blast
  then show ?thesis
  proof cases
    case kill
    have "length (pending ?k) \<le> unat (c_e ?k - c_w ?k)" by (simp add: pending_def)
    from erase_line_spec [OF assms(1,3,4) this] kill show ?thesis
      by (fastforce simp: edit_step_def line_edit_def)
  next
    case bksp
    show ?thesis
    proof (cases "c_e ?k = c_w ?k")
      case True
      then have "pending ?k = []" by (simp add: pending_empty)
      with True bksp assms(3,4) edited_refl [of s] show ?thesis
        by (intro exI [of _ s] exI [of _ ?k]) (simp add: edit_step_def line_edit_def)
    next
      case False
      note un = cons_unput_spec [OF assms(3) False]
      obtain u where u: "consputc BACKSPACE (s\<lparr>cons := ?k\<lparr>c_e := c_e ?k - 1\<rparr>\<rparr>) = Inr u"
        "printed (echo BACKSPACE) (s\<lparr>cons := ?k\<lparr>c_e := c_e ?k - 1\<rparr>\<rparr>) u"
        using consputc_eq [of "s\<lparr>cons := ?k\<lparr>c_e := c_e ?k - 1\<rparr>\<rparr>" BACKSPACE] assms(1) by auto
      have "pending ?k \<noteq> []" using False by (simp add: pending_empty)
      moreover have "10 \<notin> set (butlast (pending ?k))" using assms(4) by (auto dest: in_set_butlastD)
      moreover have "edited (echo BACKSPACE) (?k\<lparr>c_e := c_e ?k - 1\<rparr>) s u" using u(2) by (rule printed_edited)
      ultimately show ?thesis
        using bksp False u(1) un by (intro exI [of _ u] exI [of _ "?k\<lparr>c_e := c_e ?k - 1\<rparr>"]) (simp add: edit_step_def line_edit_def)
    qed
  next
    case drop
    then have "\<not> (c \<noteq> 0 \<and> c_e ?k - c_r ?k < 128)"
      using typed_length [OF assms(3)] by (auto simp: word_less_nat_alt)
    with drop assms(3,4) edited_refl [of s] show ?thesis
      by (intro exI [of _ s] exI [of _ ?k]) (auto simp: edit_step_def line_edit_def)
  next
    case ins
    define d where "d = (if c = 13 then 10 else c)"
    define k where "k = cons_put (ucast d) ?k"
    note put = cons_put_spec [OF assms(3) ins(5), of "ucast d", folded k_def]
    have d: "d < 256" "ucast d = (10 :: u8) \<longleftrightarrow> d = 10" using assms(5) ucast_10 by (auto simp: d_def)
    have lt: "c_e ?k - c_r ?k < 128" using ins(5) typed_length [OF assms(3)] by (simp add: word_less_nat_alt)
    have full: "c_e k - c_r k = 128 \<longleftrightarrow> length (committed ?k) + length (pending ?k) + 1 = INPUT_BUF_SIZE"
      using typed_length [OF put(1)] put(2,3) by (simp add: word_unat_eq_iff)
    obtain u where u: "consputc d s = Inr u" "printed (echo d) s u" using consputc_eq [OF assms(1)] by blast
    have cu: "cons u = ?k" using printed_cons [OF u(2)] .
    have ed: "edited (echo d) j s (u\<lparr>cons := j\<rparr>)" for j
      using u(2) by (auto simp: printed_def edited_def)
    show ?thesis
    proof (cases "d = 10 \<or> d = ctrl 68 \<or> c_e k - c_r k = 128")
      case True
      note com = cons_commit_spec [OF put(1)]
      let ?v = "u\<lparr>cons := k\<lparr>c_w := c_e k\<rparr>\<rparr>"
      have v: "cpu_ok ?v" "crit ?v = ?v" "procs_free ?v" "procs ?v = procs s" "mycpu ?v = mycpu s"
        using u(2) assms(1,2) by (auto simp: printed_def print_ready_def)
      have "edit_step c s = Inr (?v\<lparr>procs := roused ChCons (cproc (mycpu s)) {..<NPROC} (procs s)\<rparr>)"
        using ins lt u(1) cu True wakeup_eq [OF v(1,3), of ChCons] v(2,4,5)
        by (simp add: edit_step_def d_def [symmetric] k_def [symmetric] Let_def)
      moreover have "line_edit c (committed ?k, pending ?k) = ((committed ?k @ pending ?k @ [ucast d], []), [d])"
        using ins True full by (auto simp: line_edit_def d_def [symmetric] Let_def)
      ultimately show ?thesis
        using ed [of "k\<lparr>c_w := c_e k\<rparr>"] com put by (intro exI conjI) auto
    next
      case False
      have "edit_step c s = Inr (u\<lparr>cons := k\<rparr>)"
        using ins lt u(1) cu False by (simp add: edit_step_def d_def [symmetric] k_def [symmetric] Let_def)
      moreover have "line_edit c (committed ?k, pending ?k) = ((committed ?k, pending ?k @ [ucast d]), [d])"
        using ins False full by (auto simp: line_edit_def d_def [symmetric] Let_def)
      ultimately show ?thesis
        using ed [of k] put assms(4) d(2) False by (intro exI [of _ "u\<lparr>cons := k\<rparr>"] exI [of _ k]) auto
    qed
  qed
qed


text \<open>
  C19: the interrupt side of the console implements the list-level line editor: for every byte but
  \<^bold>\<open>Control-P\<close> the routine returns, the committed bytes and the line being edited change as
  \<open>line_edit\<close> says, the terminal shows exactly the echo it says, and readers are woken just when bytes
  are committed.  The ring and its three wrapping counters do not show.
\<close>

theorem consoleintr_edits_line:
  assumes "cons_ready s" "c < 256" "c \<noteq> ctrl 80"
  shows "\<exists>t. consoleintr c s = Inr t \<and> cons_ready t \<and>
    (committed (cons t), pending (cons t)) = fst (line_edit c (committed (cons s), pending (cons s))) \<and>
    sent t = sent s @ concat (map echo (snd (line_edit c (committed (cons s), pending (cons s))))) \<and>
    procs t = (if committed (cons t) = committed (cons s) then procs s
               else roused ChCons (cproc (mycpu s)) {..<NPROC} (procs s))"
proof -
  note s = assms(1) [unfolded cons_ready_def]
  let ?a = "acquired LCons s"
  have a: "print_ready ?a" "procs_free ?a" "cons_inv (cons ?a)" "10 \<notin> set (pending (cons ?a))"
    using s by (simp_all add: print_ready_def fair_device_def procs_free_def lock_free_acquired)
  define out where "out = concat (map echo (snd (line_edit c (committed (cons s), pending (cons s)))))"
  obtain t u k where t: "edit_step c ?a = Inr t" "edited out k ?a u" "cons_inv k" "10 \<notin> set (pending k)"
    "(committed k, pending k) = fst (line_edit c (committed (cons s), pending (cons s)))"
    "t = (if committed k = committed (cons s) then u else u\<lparr>procs := roused ChCons (cproc (mycpu s)) {..<NPROC} (procs s)\<rparr>)"
    using edit_step_spec [OF a assms(2)]
    by (simp only: consst_acquired ptable_acquired cproc_acquired out_def) blast
  obtain n where n: "u = ?a\<lparr>uart_reads := n, uart_writes := uart_writes s @ map (Pair THR) out, cons := k\<rparr>"
    using t(2) by (auto simp: edited_def)
  define ps where "ps = (if committed k = committed (cons s) then procs s else roused ChCons (cproc (mycpu s)) {..<NPROC} (procs s))"
  define v where "v = (crit s)\<lparr>uart_reads := n, uart_writes := uart_writes s @ map (Pair THR) out, cons := k, procs := ps\<rparr>"
  have t': "t = u\<lparr>procs := ps\<rparr>" using t(6) n by (simp add: ps_def)
  have "consoleintr c s = Inr v"
    using s assms(3) t(1) by (simp add: consoleintr_def cons_lock_def cons_init_def flow t' n v_def)
  moreover have "cons_ready v"
    using s t(3,4) by (simp add: cons_ready_def v_def fair_device_def procs_free_def)
  moreover have "sent v = sent s @ out" by (simp add: v_def sent_def comp_def filter_map)
  ultimately show ?thesis using t(5) by (intro exI [of _ v]) (simp add: v_def ps_def out_def)
qed

theorem consoleintr_edits_line_witness:
  "\<exists>t. consoleintr 10 (demo_cons\<lparr>cons := cons_put 97 (cons demo_cons)\<rparr>) = Inr t \<and> committed (cons t) = [97, 10]"
proof -
  let ?s = "demo_cons\<lparr>cons := cons_put 97 (cons demo_cons)\<rparr>"
  have c: "cons_inv (cons demo_cons)" "committed (cons demo_cons) = []" "pending (cons demo_cons) = []"
    by (simp_all add: cons_inv_def committed_def pending_def)
  note p = cons_put_spec [OF c(1), of 97] c(2,3)
  have "cons_ready ?s"
    using p by (auto simp: cons_ready_def cpu_ok_def procs_free_def lock_free_def machine_defs fair_device_def)
  from consoleintr_edits_line [OF this, of 10] p show ?thesis by (auto simp: line_edit_def)
qed

subsection \<open>Reading\<close>

lemma consst_more_cong:
  fixes s t :: "'z consst_scheme"
  shows "kmem.more t = kmem.more s \<Longrightarrow> cons t = cons s" and "machine.more t = machine.more s \<Longrightarrow> cons t = cons s"
    and "ptable.more t = ptable.more s \<Longrightarrow> cons t = cons s"
  by (cases s; cases t; simp)+

lemma cons_take_spec:
  assumes "cons_inv k" "c_r k \<noteq> c_w k"
  shows "cons_inv (k\<lparr>c_r := c_r k + 1\<rparr>)" "committed k = c_buf k ! (unat (c_r k) mod INPUT_BUF_SIZE) # committed (k\<lparr>c_r := c_r k + 1\<rparr>)"
    "pending (k\<lparr>c_r := c_r k + 1\<rparr>) = pending k"
proof -
  have w: "c_w k \<noteq> c_r k" using assms(2) by simp
  then have pos: "0 < unat (c_w k - c_r k)" by (simp add: unat_gt_0)
  have le: "unat (c_w k - c_r k) \<le> unat (c_e k - c_r k)" using assms(1) by (simp add: cons_inv_def)
  then have e: "c_e k \<noteq> c_r k" using pos by auto
  have one: "unat (x - (c_r k + 1)) = unat (x - c_r k) - 1" if "x \<noteq> c_r k" for x
    using that by (metis diff_diff_add right_minus_eq unat_minus_one)
  show "cons_inv (k\<lparr>c_r := c_r k + 1\<rparr>)"
    using assms(1) le one [OF w] one [OF e] by (simp add: cons_inv_def diff_le_mono) linarith
  show "committed k = c_buf k ! (unat (c_r k) mod INPUT_BUF_SIZE) # committed (k\<lparr>c_r := c_r k + 1\<rparr>)"
    using ring_drop [OF w, of INPUT_BUF_SIZE "c_buf k"] ring_head [OF w, of "c_buf k" INPUT_BUF_SIZE] pos
    by (simp add: committed_def) (metis ring_list_empty w list.exhaust_sel)
  show "pending (k\<lparr>c_r := c_r k + 1\<rparr>) = pending k" by (simp add: pending_def)
qed

lemma either_copyout_more [frame]: "either_copyout dst src s = Inr (ok, t) \<Longrightarrow> kmem.more t = kmem.more s"
  by (auto simp: either_copyout_def split: dest.splits option.splits dest!: copyout_more myproc_more machine_more_kmem)

lemma consoleread_loop_spec:
  assumes "consoleread_loop fuel dst n target s = Inr (r, t)" "cons_inv (cons s)"
  shows "cons_inv (cons t) \<and> pending (cons t) = pending (cons s) \<and>
    (\<exists>bs. committed (cons s) = bs @ committed (cons t) \<and> 10 \<notin> set (butlast bs) \<and>
       (r = - 1 \<or> r = target - n + int (length bs) \<or> r + 1 = target - n + int (length bs)))"
  using assms
proof (induction fuel arbitrary: dst n s)
  case 0
  then show ?case by (auto split: if_splits)
next
  case (Suc fuel)
  show ?case
  proof (cases "0 < n \<and> c_r (cons s) \<noteq> c_w (cons s)")
    case False
    then show ?thesis using Suc.prems
      by (auto simp: sleep_def split: if_splits option.splits
          dest!: consst_more_cong(2) [OF myproc_more] consst_more_cong(2) [OF killed_more])
  next
    case True
    define c where "c = c_buf (cons s) ! (unat (c_r (cons s)) mod INPUT_BUF_SIZE)"
    define k where "k = (cons s)\<lparr>c_r := c_r (cons s) + 1\<rparr>"
    note tk = cons_take_spec [OF Suc.prems(2), folded c_def k_def]
    show ?thesis
    proof (cases "ucast c = ctrl 68")
      case eof: True
      then have "t = (if n < target then s\<lparr>cons := cons s\<rparr> else s\<lparr>cons := k\<rparr>)" "r = target - n"
        using Suc.prems(1) True by (auto simp: c_def [symmetric] k_def Let_def split: if_splits)
      then show ?thesis using tk True Suc.prems(2) by (auto intro: exI [of _ "[]"] exI [of _ "[c]"])
    next
      case False
      then obtain ok u where cp: "either_copyout dst [c] (s\<lparr>cons := k\<rparr>) = Inr (ok, u)" and
        rest: "(if \<not> ok then Inr (target - n, u) else if c = 10 then Inr (target - (n - 1), u)
          else consoleread_loop fuel (dest_add dst 1) (n - 1) target u) = Inr (r, t)"
        using Suc.prems(1) True by (auto simp: c_def [symmetric] k_def [symmetric])
      have u: "cons u = k" using consst_more_cong(1) [OF either_copyout_more [OF cp]] by simp
      show ?thesis
      proof (cases "ok \<and> c \<noteq> 10")
        case True
        with rest have "consoleread_loop fuel (dest_add dst 1) (n - 1) target u = Inr (r, t)" by simp
        from Suc.IH [OF this] u tk \<open>0 < n \<and> _\<close> obtain bs where
          "cons_inv (cons t)" "pending (cons t) = pending (cons s)" "committed k = bs @ committed (cons t)"
          "10 \<notin> set (butlast bs)" "r = - 1 \<or> r = target - (n - 1) + int (length bs) \<or> r + 1 = target - (n - 1) + int (length bs)"
          by auto
        then show ?thesis
          using tk \<open>0 < n \<and> _\<close> True by (intro conjI exI [of _ "c # bs"]) auto
      next
        case False
        then show ?thesis
          using rest u tk \<open>0 < n \<and> _\<close> by (auto intro!: exI [of _ "[c]"] split: if_splits)
      qed
    qed
  qed
qed

text \<open>
  the reading side takes bytes from the front of the committed ones and never past a newline.
  When \<open>consoleread\<close> returns a count \<open>r\<close>, it has taken \<open>r\<close> bytes, or one more: an end-of-file mark
  that opens a read, or a byte whose copy to the user failed.  The line being edited is untouched.
\<close>

theorem consoleread_takes_front:
  assumes "consoleread dst n s = Inr (r, t)" "cons_init_done s" "cons_inv (cons s)"
  shows "cons_inv (cons t) \<and> pending (cons t) = pending (cons s) \<and>
    (\<exists>bs. committed (cons s) = bs @ committed (cons t) \<and> 10 \<notin> set (butlast bs) \<and>
       (r = - 1 \<or> r = int (length bs) \<or> r + 1 = int (length bs)))"
proof -
  obtain u v where u: "acquire LCons s = Inr u" "consoleread_loop (nat n) dst n n u = Inr (r, v)" "release LCons v = Inr t"
    using assms(1,2) by (auto simp: consoleread_def cons_lock_def cons_init_def)
  have "cons u = cons s" "cons t = cons v"
    using consst_more_cong(2) [OF acquire_more [OF u(1)]] consst_more_cong(2) [OF release_more [OF u(3)]] by simp_all
  then show ?thesis using consoleread_loop_spec [OF u(2)] assms(3) by auto
qed

theorem consoleread_takes_front_witness:
  "\<exists>(s :: consst) t. consoleread ToLocal 5 s = Inr (2, t) \<and> committed (cons s) = [97, 10] \<and> committed (cons t) = []"
proof -
  define s where "s = demo_cons\<lparr>cons := \<lparr>c_buf = [97, 10] @ replicate 126 0, c_r = 0, c_w = 2, c_e = 2\<rparr>\<rparr>"
  have q: "cpu_ok demo_cons" "lock_free LCons demo_cons"
    by (simp_all add: cpu_ok_def lock_free_def machine_defs)
  have i: "cons_inv (cons s)" "cons_init_done s" "committed (cons s) = [97, 10]"
    by (simp_all add: s_def cons_inv_def committed_def ring_list_def upt_rec)
  have "\<exists>t. consoleread ToLocal 5 s = Inr (2, t)"
  proof -
    obtain f where n: "nat 5 = Suc (Suc f)" by simp
    show ?thesis
      unfolding consoleread_def n
      using q by (simp add: s_def cons_lock_def cons_init_def flow either_copyout_def ctrl_def)
  qed
  then obtain t where t: "consoleread ToLocal 5 s = Inr (2, t)" by blast
  from consoleread_takes_front [OF t i(2,1)] i(3) obtain bs where
    "[97, 10] = bs @ committed (cons t)" "2 = int (length bs) \<or> 3 = int (length bs)" by auto
  then have "committed (cons t) = []" by (auto dest!: arg_cong [of _ _ length])
  with t i(3) show ?thesis by blast
qed

end
