(* ===== verification/Pipe.thy ===== *)
theory Pipe
  imports Console
begin

section \<open>The file table and pipes (kernel/rust\_file.rs, kernel/rust\_pipe.rs)\<close>

text \<open>
  The table of open files, and the pipes they may refer to.  A \<open>*mut File\<close> is an index of the table, a
  pipe is named by the address of the page \<open>kalloc\<close> gave it; the layout of a \<open>SpinMutex\<close> in its page
  is left to the Rust compiler, so the contents of a pipe are a record and not bytes of \<open>mem\<close>.

  A reader or writer that has to wait ends with \<open>Sleeps\<close> on the pipe's read or write channel.
\<close>

abbreviation PIPESIZE :: nat where "PIPESIZE \<equiv> 512"
abbreviation NFILE :: nat where "NFILE \<equiv> 100"
abbreviation NDEV :: nat where "NDEV \<equiv> 10"
abbreviation CONSOLE :: nat where "CONSOLE \<equiv> 1"

datatype filetype = FD_NONE | FD_PIPE | FD_INODE | FD_DEVICE

record file_entry =
  file_type :: filetype
  fref :: int
  readable :: bool
  writable :: bool
  fpipe :: u64
  fip :: "nat option"
  foff :: u32
  fmajor :: u16

record pipe_state =
  p_data :: "u8 list"
  nread :: u32
  nwrite :: u32
  readopen :: bool
  writeopen :: bool
  p_init_done :: bool

text \<open>The functions a device may register: the console is the only device that does.\<close>

datatype devread = Consoleread
datatype devwrite = Consolewrite

record devsw_entry =
  dread :: "devread option"
  dwrite :: "devwrite option"

record filest = consst +
  ftab :: "nat \<Rightarrow> file_entry"
  pipes :: "u64 \<Rightarrow> pipe_state"
  devsw :: "nat \<Rightarrow> devsw_entry"

definition upd_file :: "nat \<Rightarrow> (file_entry \<Rightarrow> file_entry) \<Rightarrow> 'z filest_scheme \<Rightarrow> 'z filest_scheme" where
  "upd_file f g s = s\<lparr>ftab := (ftab s)(f := g (ftab s f))\<rparr>"

definition upd_pipe :: "u64 \<Rightarrow> (pipe_state \<Rightarrow> pipe_state) \<Rightarrow> 'z filest_scheme \<Rightarrow> 'z filest_scheme" where
  "upd_pipe pi g s = s\<lparr>pipes := (pipes s)(pi := g (pipes s pi))\<rparr>"

definition consoleinit :: "'z filest_scheme \<Rightarrow> 'z filest_scheme" where
  "consoleinit s = (let s = uartinit (cons_init s) in
     s\<lparr>devsw := (devsw s)(CONSOLE := \<lparr>dread = Some Consoleread, dwrite = Some Consolewrite\<rparr>)\<rparr>)"

subsection \<open>Entries of the file table\<close>

definition fileinit :: "'z filest_scheme \<Rightarrow> 'z filest_scheme" where
  "fileinit s = initlock LFtable ''ftable'' s"

definition filealloc :: "'z filest_scheme \<Rightarrow> (nat option \<times> 'z filest_scheme) kres" where
  "filealloc s = and_then (acquire LFtable s) (\<lambda>s.
     case find (\<lambda>i. fref (ftab s i) = 0) [0..<NFILE] of
       Some f \<Rightarrow> and_then (release LFtable (upd_file f (fref_update (\<lambda>_. 1)) s)) (\<lambda>s. Inr (Some f, s))
     | None \<Rightarrow> and_then (release LFtable s) (\<lambda>s. Inr (None, s)))"

definition filedup :: "nat \<Rightarrow> 'z filest_scheme \<Rightarrow> (nat \<times> 'z filest_scheme) kres" where
  "filedup f s = and_then (acquire LFtable s) (\<lambda>s.
     if fref (ftab s f) < 1 then Inl (Panic ''filedup'')
     else and_then (release LFtable (upd_file f (\<lambda>k. k\<lparr>fref := fref k + 1\<rparr>) s)) (\<lambda>s. Inr (f, s)))"

subsection \<open>Pipes\<close>

definition pipe_init :: "u64 \<Rightarrow> 'z filest_scheme \<Rightarrow> 'z filest_scheme" where
  "pipe_init pi s =
     (if \<not> p_init_done (pipes s pi)
      then upd_pipe pi (p_init_done_update (\<lambda>_. True)) (initlock (LPipe pi) ''pipe'' s) else s)"

definition pipe_lock :: "u64 \<Rightarrow> 'z filest_scheme \<Rightarrow> 'z filest_scheme kres" where
  "pipe_lock pi s = acquire (LPipe pi) (pipe_init pi s)"

definition new_pipe :: pipe_state where
  "new_pipe = \<lparr>p_data = replicate PIPESIZE 0, nread = 0, nwrite = 0, readopen = True, writeopen = True,
     p_init_done = False\<rparr>"

definition pipeclose :: "u64 \<Rightarrow> bool \<Rightarrow> 'z filest_scheme \<Rightarrow> 'z filest_scheme kres" where
  "pipeclose pi writer s = and_then (pipe_lock pi s) (\<lambda>s.
     and_then (if writer then wakeup (ChPipeRead pi) (upd_pipe pi (writeopen_update (\<lambda>_. False)) s)
               else wakeup (ChPipeWrite pi) (upd_pipe pi (readopen_update (\<lambda>_. False)) s)) (\<lambda>s.
     let should_free = (\<not> readopen (pipes s pi) \<and> \<not> writeopen (pipes s pi)) in
     and_then (release (LPipe pi) s) (\<lambda>s.
     if should_free then kfree pi s else Inr s)))"

definition pipe_full :: "pipe_state \<Rightarrow> bool" where
  "pipe_full p \<longleftrightarrow> nwrite p = nread p + of_nat PIPESIZE"

definition pipe_put :: "u8 \<Rightarrow> pipe_state \<Rightarrow> pipe_state" where
  "pipe_put ch p = p\<lparr>p_data := (p_data p)[unat (nwrite p) mod PIPESIZE := ch], nwrite := nwrite p + 1\<rparr>"

definition pipe_head :: "pipe_state \<Rightarrow> u8" where
  "pipe_head p = p_data p ! (unat (nread p) mod PIPESIZE)"

definition pipe_drop :: "pipe_state \<Rightarrow> pipe_state" where
  "pipe_drop p = p\<lparr>nread := nread p + 1\<rparr>"

text \<open>
  The loop of \<open>pipewrite\<close>, with the lock held: the byte count, and whether the readers are to be
  woken, which the early return on a closed pipe or a killed process does not do.
\<close>

primrec pipewrite_loop :: "nat \<Rightarrow> u64 \<Rightarrow> nat option \<Rightarrow> u64 \<Rightarrow> u64 \<Rightarrow> int \<Rightarrow> int \<Rightarrow> 'z filest_scheme \<Rightarrow>
    ((int \<times> bool) \<times> 'z filest_scheme) kres" where
  "pipewrite_loop 0 pi pr pt addr i n s = (if i < n then Inl Diverges else Inr ((i, True), s))"
| "pipewrite_loop (Suc fuel) pi pr pt addr i n s =
     (if i < n
      then if \<not> readopen (pipes s pi) then Inr ((- 1, False), s)
        else case pr of None \<Rightarrow> Inl Undefined | Some p \<Rightarrow> and_then (killed p s) (\<lambda>(k, s).
          if k \<noteq> 0 then Inr ((- 1, False), s)
          else if pipe_full (pipes s pi)
          then and_then (wakeup (ChPipeRead pi) s) (\<lambda>s. sleep (ChPipeWrite pi) (LPipe pi) s)
          else and_then (copyin pt (addr + of_int i) 1 s) (\<lambda>((ok, bs), s).
            if \<not> ok then Inr ((i, True), s)
            else pipewrite_loop fuel pi pr pt addr (i + 1) n (upd_pipe pi (pipe_put (hd bs)) s)))
      else Inr ((i, True), s))"

definition pipewrite :: "u64 \<Rightarrow> u64 \<Rightarrow> int \<Rightarrow> 'z filest_scheme \<Rightarrow> (int \<times> 'z filest_scheme) kres" where
  "pipewrite pi addr n s =
     and_then (myproc s) (\<lambda>(pr, s).
     and_then (myproc_pagetable s) (\<lambda>(pt, s).
     and_then (pipe_lock pi s) (\<lambda>s.
     and_then (pipewrite_loop (nat n) pi pr pt addr 0 n s) (\<lambda>((i, wake), s).
     and_then (if wake then wakeup (ChPipeRead pi) s else Inr s) (\<lambda>s.
     and_then (release (LPipe pi) s) (\<lambda>s. Inr (i, s)))))))"

primrec piperead_loop :: "nat \<Rightarrow> u64 \<Rightarrow> u64 \<Rightarrow> u64 \<Rightarrow> int \<Rightarrow> int \<Rightarrow> 'z filest_scheme \<Rightarrow> (int \<times> 'z filest_scheme) kres" where
  "piperead_loop 0 pi pt addr i n s = (if i < n then Inl Diverges else Inr (i, s))"
| "piperead_loop (Suc fuel) pi pt addr i n s =
     (if i < n
      then if nread (pipes s pi) = nwrite (pipes s pi) then Inr (i, s)
        else and_then (copyout pt (addr + of_int i) [pipe_head (pipes s pi)] s) (\<lambda>(ok, s).
          if \<not> ok then Inr (if i = 0 then - 1 else i, s)
          else piperead_loop fuel pi pt addr (i + 1) n (upd_pipe pi pipe_drop s))
      else Inr (i, s))"

definition piperead :: "u64 \<Rightarrow> u64 \<Rightarrow> int \<Rightarrow> 'z filest_scheme \<Rightarrow> (int \<times> 'z filest_scheme) kres" where
  "piperead pi addr n s =
     and_then (myproc s) (\<lambda>(pr, s).
     and_then (myproc_pagetable s) (\<lambda>(pt, s).
     and_then (pipe_lock pi s) (\<lambda>s.
     if nread (pipes s pi) = nwrite (pipes s pi) \<and> writeopen (pipes s pi)
     then case pr of None \<Rightarrow> Inl Undefined | Some p \<Rightarrow> and_then (killed p s) (\<lambda>(k, s).
       if k \<noteq> 0 then and_then (release (LPipe pi) s) (\<lambda>s. Inr (- 1, s))
       else sleep (ChPipeRead pi) (LPipe pi) s)
     else and_then (piperead_loop (nat n) pi pt addr 0 n s) (\<lambda>(i, s).
       and_then (wakeup (ChPipeWrite pi) s) (\<lambda>s.
       and_then (release (LPipe pi) s) (\<lambda>s. Inr (i, s)))))))"

subsection \<open>Lock operations leave files and pipes alone\<close>

lemma filest_acquired [simp]:
  "ftab (acquired l s) = ftab s"
  "pipes (acquired l s) = pipes s"
  "devsw (acquired l s) = devsw s"
  by (simp_all add: acquired_def machine_defs)

lemma filest_crit [simp]:
  "ftab (crit s) = ftab s"
  "pipes (crit s) = pipes s"
  "devsw (crit s) = devsw s"
  by (simp_all add: crit_def machine_defs)

lemma filest_initlock [simp]:
  "ftab (initlock l nm s) = ftab s"
  "pipes (initlock l nm s) = pipes s"
  "devsw (initlock l nm s) = devsw s"
  by (simp_all add: initlock_def)

lemma release_filest_upd [simp]:
  "release l (s\<lparr>ftab := x0\<rparr>) = map_sum id (\<lambda>t. t\<lparr>ftab := x0\<rparr>) (release l s)"
  "release l (s\<lparr>pipes := x1\<rparr>) = map_sum id (\<lambda>t. t\<lparr>pipes := x1\<rparr>) (release l s)"
  "release l (s\<lparr>devsw := x2\<rparr>) = map_sum id (\<lambda>t. t\<lparr>devsw := x2\<rparr>) (release l s)"
  by (simp_all add: release_unfold)

lemma acquire_filest_upd [simp]:
  "acquire l (s\<lparr>ftab := x0\<rparr>) = map_sum id (\<lambda>t. t\<lparr>ftab := x0\<rparr>) (acquire l s)"
  "acquire l (s\<lparr>pipes := x1\<rparr>) = map_sum id (\<lambda>t. t\<lparr>pipes := x1\<rparr>) (acquire l s)"
  "acquire l (s\<lparr>devsw := x2\<rparr>) = map_sum id (\<lambda>t. t\<lparr>devsw := x2\<rparr>) (acquire l s)"
  by (simp_all add: acquire_unfold)

lemma acquired_filest_upd [simp]:
  "acquired l (s\<lparr>ftab := x0\<rparr>) = (acquired l s)\<lparr>ftab := x0\<rparr>"
  "acquired l (s\<lparr>pipes := x1\<rparr>) = (acquired l s)\<lparr>pipes := x1\<rparr>"
  "acquired l (s\<lparr>devsw := x2\<rparr>) = (acquired l s)\<lparr>devsw := x2\<rparr>"
  by (simp_all add: acquired_def machine_defs)

lemma crit_filest_upd [simp]:
  "crit (s\<lparr>ftab := x0\<rparr>) = (crit s)\<lparr>ftab := x0\<rparr>"
  "crit (s\<lparr>pipes := x1\<rparr>) = (crit s)\<lparr>pipes := x1\<rparr>"
  "crit (s\<lparr>devsw := x2\<rparr>) = (crit s)\<lparr>devsw := x2\<rparr>"
  by (simp_all add: crit_def machine_defs)

lemma lock_free_filest_upd [simp]:
  "lock_free l (s\<lparr>ftab := x0\<rparr>) = lock_free l s"
  "lock_free l (s\<lparr>pipes := x1\<rparr>) = lock_free l s"
  "lock_free l (s\<lparr>devsw := x2\<rparr>) = lock_free l s"
  by (simp_all add: lock_free_def)

lemma cpu_ok_filest_upd [simp]:
  "cpu_ok (s\<lparr>ftab := x0\<rparr>) = cpu_ok s"
  "cpu_ok (s\<lparr>pipes := x1\<rparr>) = cpu_ok s"
  "cpu_ok (s\<lparr>devsw := x2\<rparr>) = cpu_ok s"
  by (simp_all add: cpu_ok_def machine_defs)

lemma mycpu_filest_upd [simp]:
  "mycpu (s\<lparr>ftab := x0\<rparr>) = mycpu s"
  "mycpu (s\<lparr>pipes := x1\<rparr>) = mycpu s"
  "mycpu (s\<lparr>devsw := x2\<rparr>) = mycpu s"
  by (simp_all add: mycpu_def)

lemma my_pid_filest_upd [simp]:
  "my_pid (s\<lparr>ftab := x0\<rparr>) = my_pid s"
  "my_pid (s\<lparr>pipes := x1\<rparr>) = my_pid s"
  "my_pid (s\<lparr>devsw := x2\<rparr>) = my_pid s"
  by (simp_all add: my_pid_def split: option.split)

lemma procs_free_filest_upd [simp]:
  "procs_free (s\<lparr>ftab := x0\<rparr>) = procs_free s"
  "procs_free (s\<lparr>pipes := x1\<rparr>) = procs_free s"
  "procs_free (s\<lparr>devsw := x2\<rparr>) = procs_free s"
  by (simp_all add: procs_free_def)

subsection \<open>A pipe is a queue of bytes\<close>

definition pipe_contents :: "pipe_state \<Rightarrow> u8 list" where
  "pipe_contents p = ring_list PIPESIZE (p_data p) (nwrite p) (nread p)"

definition pipe_inv :: "pipe_state \<Rightarrow> bool" where
  "pipe_inv p \<longleftrightarrow> length (p_data p) = PIPESIZE \<and> unat (nwrite p - nread p) \<le> PIPESIZE"

definition pipe_vacant :: "pipe_state \<Rightarrow> bool" where
  "pipe_vacant p \<longleftrightarrow> nread p = nwrite p"

lemma pipe_full_iff: "pipe_inv p \<Longrightarrow> pipe_full p \<longleftrightarrow> unat (nwrite p - nread p) = PIPESIZE"
proof -
  have "pipe_full p \<longleftrightarrow> nwrite p - nread p = 512" by (auto simp: pipe_full_def diff_eq_eq add.commute)
  then show ?thesis by (simp add: word_unat_eq_iff)
qed

interpretation pipe: bounded_fifo pipe_inv pipe_contents pipe_put pipe_head pipe_drop pipe_full pipe_vacant PIPESIZE
proof
  fix p x
  show "pipe_inv p \<Longrightarrow> pipe_full p = (length (pipe_contents p) = PIPESIZE)"
    by (simp add: pipe_full_iff pipe_contents_def)
  show "pipe_inv p \<Longrightarrow> pipe_vacant p = (pipe_contents p = [])"
    by (auto simp: pipe_vacant_def pipe_contents_def)
  show "pipe_inv p \<Longrightarrow> length (pipe_contents p) \<le> PIPESIZE"
    by (simp add: pipe_inv_def pipe_contents_def)
  show "pipe_inv (pipe_put x p) \<and> pipe_contents (pipe_put x p) = pipe_contents p @ [x]"
    if "pipe_inv p" "\<not> pipe_full p"
  proof -
    have lt: "length (p_data p) = PIPESIZE" "unat (nwrite p - nread p) < PIPESIZE"
      using that pipe_full_iff [OF that(1)] by (auto simp: pipe_inv_def)
    have "pipe_contents (pipe_put x p) = pipe_contents p @ [x]"
      using ring_put [OF _ _ lt] by (simp add: pipe_contents_def pipe_put_def)
    moreover from this have "length (pipe_contents (pipe_put x p)) = Suc (length (pipe_contents p))" by simp
    then have "pipe_inv (pipe_put x p)"
      using lt by (simp add: pipe_inv_def pipe_contents_def) (simp add: pipe_put_def)
    ultimately show ?thesis by blast
  qed
  show "pipe_inv p \<Longrightarrow> \<not> pipe_vacant p \<Longrightarrow> pipe_head p = hd (pipe_contents p)"
    using ring_head [of "nwrite p" "nread p" "p_data p" PIPESIZE]
    by (simp add: pipe_vacant_def pipe_head_def pipe_contents_def)
  show "pipe_inv (pipe_drop p) \<and> pipe_contents (pipe_drop p) = tl (pipe_contents p)"
    if "pipe_inv p" "\<not> pipe_vacant p"
  proof -
    have "pipe_contents (pipe_drop p) = tl (pipe_contents p)"
      using ring_drop [of "nwrite p" "nread p" PIPESIZE "p_data p"] that
      by (simp add: pipe_contents_def pipe_drop_def pipe_vacant_def)
    moreover from this have "length (pipe_contents (pipe_drop p)) \<le> length (pipe_contents p)" by simp
    then have "pipe_inv (pipe_drop p)"
      using that by (simp add: pipe_inv_def pipe_contents_def) (simp add: pipe_drop_def)
    ultimately show ?thesis by blast
  qed
qed

lemma filest_more_cong:
  fixes s t :: "'z filest_scheme"
  shows "kmem.more t = kmem.more s \<Longrightarrow> pipes t = pipes s"
    and "ptable.more t = ptable.more s \<Longrightarrow> pipes t = pipes s"
    and "machine.more t = machine.more s \<Longrightarrow> pipes t = pipes s"
  by (cases s; cases t; simp)+

lemma pipes_upd_pipe [simp]:
  "pipes (upd_pipe pi f s) = (pipes s)(pi := f (pipes s pi))" "mem (upd_pipe pi f s) = mem s"
  by (simp_all add: upd_pipe_def)

lemma pipewrite_loop_spec:
  assumes "pipewrite_loop k pi pr pt addr i n s = Inr ((r, w), t)" "pipe_inv (pipes s pi)"
  shows "pipe_inv (pipes t pi) \<and> (\<forall>q. q \<noteq> pi \<longrightarrow> pipes t q = pipes s q) \<and>
    (\<exists>bs. pipe_contents (pipes t pi) = pipe_contents (pipes s pi) @ bs \<and> (r = i + int (length bs) \<or> r = - 1))"
  using assms
proof (induction k arbitrary: i s)
  case (Suc k)
  show ?case
  proof (cases "i < n \<and> readopen (pipes s pi)")
    case False
    then show ?thesis using Suc.prems by (auto split: if_splits)
  next
    case True
    with Suc.prems(1) obtain p k' s1 where p: "pr = Some p" "killed p s = Inr (k', s1)" and
      rest: "(if k' \<noteq> 0 then Inr ((- 1, False), s1)
          else if pipe_full (pipes s1 pi)
          then and_then (wakeup (ChPipeRead pi) s1) (\<lambda>s. sleep (ChPipeWrite pi) (LPipe pi) s)
          else and_then (copyin pt (addr + of_int i) 1 s1) (\<lambda>((ok, bs), s).
            if \<not> ok then Inr ((i, True), s)
            else pipewrite_loop k pi pr pt addr (i + 1) n (upd_pipe pi (pipe_put (hd bs)) s))) = Inr ((r, w), t)"
      by (auto split: option.splits)
    have s1: "pipes s1 = pipes s" using filest_more_cong(3) [OF killed_more [OF p(2)]] .
    show ?thesis
    proof (cases "k' \<noteq> 0 \<or> pipe_full (pipes s pi)")
      case True
      then show ?thesis using rest s1 Suc.prems(2) by (auto simp: sleep_def split: if_splits)
    next
      case False
      with rest s1 obtain ok bs s2 where c: "copyin pt (addr + of_int i) 1 s1 = Inr ((ok, bs), s2)" and
        r: "(if \<not> ok then Inr ((i, True), s2)
          else pipewrite_loop k pi pr pt addr (i + 1) n (upd_pipe pi (pipe_put (hd bs)) s2)) = Inr ((r, w), t)"
        by (auto split: if_splits)
      have s2: "pipes s2 = pipes s" using filest_more_cong(1) [OF copyin_more [OF c]] s1 by simp
      show ?thesis
      proof (cases ok)
        case False
        then show ?thesis using r s2 Suc.prems(2) by auto
      next
        case True
        have put: "pipe_inv (pipe_put (hd bs) (pipes s pi))"
          "pipe_contents (pipe_put (hd bs) (pipes s pi)) = pipe_contents (pipes s pi) @ [hd bs]"
          using pipe.put_law [OF Suc.prems(2)] \<open>\<not> (k' \<noteq> 0 \<or> pipe_full (pipes s pi))\<close> by auto
        from r True have "pipewrite_loop k pi pr pt addr (i + 1) n (upd_pipe pi (pipe_put (hd bs)) s2) = Inr ((r, w), t)"
          by simp
        from Suc.IH [OF this] put s2 obtain bs' where
          "pipe_inv (pipes t pi)" "\<forall>q. q \<noteq> pi \<longrightarrow> pipes t q = pipes s q"
          "pipe_contents (pipes t pi) = pipe_contents (pipes s pi) @ hd bs # bs'"
          "r = i + 1 + int (length bs') \<or> r = - 1"
          by auto
        then show ?thesis by (intro conjI exI [of _ "hd bs # bs'"]) auto
      qed
    qed
  qed
qed (auto split: if_splits)

lemma piperead_loop_spec:
  assumes "piperead_loop k pi pt addr i n s = Inr (r, t)" "pipe_inv (pipes s pi)" "0 \<le> i"
  shows "pipe_inv (pipes t pi) \<and> (\<forall>q. q \<noteq> pi \<longrightarrow> pipes t q = pipes s q) \<and>
    (\<exists>bs. pipe_contents (pipes s pi) = bs @ pipe_contents (pipes t pi) \<and>
       (r = i + int (length bs) \<or> (r = - 1 \<and> i = 0 \<and> bs = [])))"
  using assms
proof (induction k arbitrary: i s)
  case (Suc k)
  show ?case
  proof (cases "i < n \<and> nread (pipes s pi) \<noteq> nwrite (pipes s pi)")
    case False
    then show ?thesis using Suc.prems by (auto split: if_splits)
  next
    case True
    with Suc.prems(1) obtain ok s1 where c: "copyout pt (addr + of_int i) [pipe_head (pipes s pi)] s = Inr (ok, s1)" and
      r: "(if \<not> ok then Inr (if i = 0 then - 1 else i, s1)
        else piperead_loop k pi pt addr (i + 1) n (upd_pipe pi pipe_drop s1)) = Inr (r, t)"
      by auto
    have s1: "pipes s1 = pipes s" using filest_more_cong(1) [OF copyout_more [OF c]] .
    have v: "\<not> pipe_vacant (pipes s pi)" using True by (simp add: pipe_vacant_def)
    have d: "pipe_inv (pipe_drop (pipes s pi))"
      "pipe_contents (pipes s pi) = pipe_head (pipes s pi) # pipe_contents (pipe_drop (pipes s pi))"
      using pipe.remove_law [OF Suc.prems(2) v] pipe.front_law [OF Suc.prems(2) v] v
        pipe.vacant_law [OF Suc.prems(2)] by auto
    show ?thesis
    proof (cases ok)
      case False
      then show ?thesis using r s1 Suc.prems by (auto split: if_splits)
    next
      case True
      with r have "piperead_loop k pi pt addr (i + 1) n (upd_pipe pi pipe_drop s1) = Inr (r, t)" by simp
      from Suc.IH [OF this] d s1 Suc.prems(3) obtain bs where
        "pipe_inv (pipes t pi)" "\<forall>q. q \<noteq> pi \<longrightarrow> pipes t q = pipes s q"
        "pipe_contents (pipe_drop (pipes s pi)) = bs @ pipe_contents (pipes t pi)" "r = i + 1 + int (length bs)"
        by auto
      then show ?thesis using d(2) by (intro conjI exI [of _ "pipe_head (pipes s pi) # bs"]) auto
    qed
  qed
qed (auto split: if_splits)

subsection \<open>Writing with room in the pipe\<close>

lemma killed_eq [flow]:
  "cpu_ok s \<Longrightarrow> lock_free (LProc p) s \<Longrightarrow> killed p s = Inr (pkilled (procs s p), crit s)"
  by (simp add: killed_def flow Let_def)

lemma filest_upd_pipe [simp]:
  "cpu_ok (upd_pipe pi f s) = cpu_ok s" "crit (upd_pipe pi f s) = upd_pipe pi f (crit s)"
  "lock_free l (upd_pipe pi f s) = lock_free l s" "procs (upd_pipe pi f s) = procs s"
  by (simp_all add: upd_pipe_def)

lemma pipewrite_loop_room:
  assumes "cpu_ok s" "crit s = s" "lock_free (LProc p) s" "pkilled (procs s p) = 0" "readopen (pipes s pi)"
    and "pipe_inv (pipes s pi)" "length (pipe_contents (pipes s pi)) + length bs \<le> PIPESIZE"
    and "length bs = nat (n - i)" "length bs \<le> k" "0 \<le> i" "i \<le> n"
    and "\<And>j. j < length bs \<Longrightarrow> user_byte s pt (addr + of_int i + of_nat j) = Some (bs ! j)"
  shows "pipewrite_loop k pi (Some p) pt addr i n s = Inr ((n, True), upd_pipe pi (fold pipe_put bs) s)"
  using assms
proof (induction bs arbitrary: k i s)
  case Nil
  then show ?case by (cases k) (auto simp: upd_pipe_def)
next
  case (Cons b bs)
  then obtain k' where k: "k = Suc k'" by (cases k) auto
  have i: "i < n" using Cons.prems(8) by auto
  have nf: "\<not> pipe_full (pipes s pi)" using pipe.full_law [OF Cons.prems(6)] Cons.prems(7) by simp
  note put = pipe.put_law [OF Cons.prems(6) nf, of b]
  have cp: "copyin pt (addr + of_int i) 1 s = Inr ((True, [b]), s)"
    using copyin_loop_correct [of 1 1 "[b]" s pt "addr + of_int i" "[]"] Cons.prems(12) [of 0]
    by (simp add: copyin_def)
  define u where "u = upd_pipe pi (pipe_put b) s"
  have "pipewrite_loop k' pi (Some p) pt addr (i + 1) n u = Inr ((n, True), upd_pipe pi (fold pipe_put bs) u)"
  proof (rule Cons.IH)
    show "readopen (pipes u pi)" using Cons.prems(5) by (simp add: u_def pipe_put_def)
    show "pipe_inv (pipes u pi)" "length (pipe_contents (pipes u pi)) + length bs \<le> PIPESIZE"
      using put Cons.prems(7) by (simp_all add: u_def)
    show "user_byte u pt (addr + of_int (i + 1) + of_nat j) = Some (bs ! j)" if "j < length bs" for j
      using user_byte_mem_cong [OF Cons.prems(12) [of "Suc j"], of u] that by (simp add: u_def algebra_simps)
  qed (use Cons.prems i k in \<open>auto simp: u_def\<close>)
  then show ?case
    using i nf cp Cons.prems(1-5) unfolding k by (simp add: flow u_def upd_pipe_def comp_def)
qed

text \<open>
  The state in which process \<open>p\<close> enters a pipe operation undisturbed: no lock it needs is taken, it has
  not been killed, and the pipe is a good queue.
\<close>

definition pipe_ready :: "u64 \<Rightarrow> nat \<Rightarrow> 'z filest_scheme \<Rightarrow> bool" where
  "pipe_ready pi p s \<longleftrightarrow> cpu_ok s \<and> procs_free s \<and> lock_free (LPipe pi) s \<and> cproc (mycpu s) = Some p \<and>
     p < NPROC \<and> pkilled (procs s p) = 0 \<and> p_init_done (pipes s pi) \<and> pipe_inv (pipes s pi)"

lemma pipe_enter:
  assumes "pipe_ready pi p s"
  shows "myproc s = Inr (Some p, crit s)" "myproc_pagetable (crit s) = Inr (pagetable (procs s p), crit s)"
    and "pipe_lock pi (crit s) = Inr (acquired (LPipe pi) (crit s))"
    and "cpu_ok (acquired (LPipe pi) (crit s))" "crit (acquired (LPipe pi) (crit s)) = acquired (LPipe pi) (crit s)"
    and "lock_free (LProc p) (acquired (LPipe pi) (crit s))" "procs_free (acquired (LPipe pi) (crit s))"
    and "cproc (mycpu (acquired (LPipe pi) (crit s))) = Some p"
  using assms by (auto simp: pipe_ready_def myproc_pagetable_def pipe_lock_def pipe_init_def procs_free_def lock_free_acquired flow)

lemma user_byte_cong: "mem t = mem s \<Longrightarrow> user_byte s pt a = Some b \<Longrightarrow> user_byte t pt a = Some b"
  by (rule user_byte_mem_cong)

text \<open>
  Writing \<open>n\<close> bytes to a pipe with room for them returns \<open>n\<close>, appends exactly the bytes of the
  user's buffer in order, wakes the readers and touches no other pipe and no memory.
\<close>

theorem pipewrite_room:
  assumes "pipe_ready pi p s" "readopen (pipes s pi)" "0 \<le> n" "length bs = nat n"
    and "length (pipe_contents (pipes s pi)) + nat n \<le> PIPESIZE"
    and "\<forall>j < nat n. user_byte s (pagetable (procs s p)) (addr + of_nat j) = Some (bs ! j)"
  shows "\<exists>t. pipewrite pi addr n s = Inr (n, t) \<and> pipe_inv (pipes t pi) \<and>
    pipe_contents (pipes t pi) = pipe_contents (pipes s pi) @ bs \<and>
    procs t = roused (ChPipeRead pi) (Some p) {..<NPROC} (procs s) \<and> mem t = mem s \<and>
    (\<forall>q. q \<noteq> pi \<longrightarrow> pipes t q = pipes s q)"
proof -
  note e = pipe_enter [OF assms(1)]
  define a where "a = acquired (LPipe pi) (crit s)"
  note ea = e [folded a_def]
  have a: "procs a = procs s" "pipes a = pipes s" "mem a = mem s" by (simp_all add: a_def)
  have inv: "pipe_inv (pipes s pi)" "pkilled (procs s p) = 0" using assms(1) by (simp_all add: pipe_ready_def)
  have "pipewrite_loop (nat n) pi (Some p) (pagetable (procs s p)) addr 0 n a =
      Inr ((n, True), upd_pipe pi (fold pipe_put bs) a)"
    by (rule pipewrite_loop_room)
      (use ea a inv assms in \<open>auto intro: user_byte_cong [OF a(3)]\<close>)
  moreover have "wakeup (ChPipeRead pi) (upd_pipe pi (fold pipe_put bs) a) =
      Inr ((upd_pipe pi (fold pipe_put bs) a)\<lparr>procs := roused (ChPipeRead pi) (Some p) {..<NPROC} (procs s)\<rparr>)"
    using wakeup_eq [of "upd_pipe pi (fold pipe_put bs) a" "ChPipeRead pi"] ea a
    by (simp add: upd_pipe_def)
  moreover have "release (LPipe pi) a = Inr (crit s)"
    using assms(1) by (simp add: a_def pipe_ready_def release_acquired)
  ultimately have "pipewrite pi addr n s = Inr (n,
      (upd_pipe pi (fold pipe_put bs) (crit s))\<lparr>procs := roused (ChPipeRead pi) (Some p) {..<NPROC} (procs s)\<rparr>)"
    using ea a by (simp add: pipewrite_def upd_pipe_def a_def)
  then show ?thesis
    using pipe.put_many [OF inv(1), of bs] assms(4,5) by simp
qed

text \<open>A process on hart 0 with a fresh pipe at the address of some page.\<close>

definition demo_files :: filest where
  "demo_files = consst.extend demo_cons
     (filest.fields (\<lambda>_. \<lparr>file_type = FD_NONE, fref = 0, readable = False, writable = False, fpipe = 0,
        fip = None, foff = 0, fmajor = 0\<rparr>) (\<lambda>_. new_pipe\<lparr>p_init_done := True\<rparr>) (\<lambda>_. \<lparr>dread = None, dwrite = None\<rparr>))"

lemmas demo_files_defs = demo_files_def demo_cons_defs filest.defs

lemma demo_files_sel [simp]:
  "mem demo_files = demo_pt" "procs demo_files = (\<lambda>_. demo_proc)" "hart demo_files = 0"
  "sie demo_files = (\<lambda>_. True)" "cpus demo_files = (\<lambda>_. \<lparr>cproc = Some 0, noff = 0, intena = False\<rparr>)"
  "locks demo_files = (\<lambda>_. \<lparr>locked = 0, lname = [], lcpu = None\<rparr>)"
  "pipes demo_files = (\<lambda>_. new_pipe\<lparr>p_init_done := True\<rparr>)"
  by (simp_all add: demo_files_defs)

lemma demo_files_quiet [simp]:
  "cpu_ok demo_files" "procs_free demo_files" "lock_free l demo_files" "mycpu demo_files = \<lparr>cproc = Some 0, noff = 0, intena = False\<rparr>"
  by (simp_all add: cpu_ok_def procs_free_def lock_free_def mycpu_def)

lemma new_pipe_empty [simp]: "pipe_inv (new_pipe\<lparr>p_init_done := b\<rparr>)" "pipe_contents (new_pipe\<lparr>p_init_done := b\<rparr>) = []"
  by (simp_all add: new_pipe_def pipe_inv_def pipe_contents_def)

lemma demo_files_ready: "pipe_ready 0x80300000 0 demo_files"
  by (simp add: pipe_ready_def demo_proc_def)

theorem pipewrite_room_witness:
  "\<exists>t. pipewrite 0x80300000 5 1 demo_files = Inr (1, t) \<and> pipe_contents (pipes t 0x80300000) = [42]"
proof -
  have "readopen (pipes demo_files 0x80300000)" "pagetable (procs demo_files 0) = 0x80201000"
    by (simp_all add: new_pipe_def demo_proc_def)
  then show ?thesis
    using pipewrite_room [OF demo_files_ready, of 1 "[42]" 5] demo_user_byte [of demo_files] by auto
qed

text \<open>
  The steps of writers and readers on one pipe, in any order: each is the part of a loop round of
  \<open>pipewrite\<close> or \<open>piperead\<close> that touches the pipe.  It starts from an empty pipe, with the
  counters anywhere.
\<close>

inductive pipe_traffic :: "u8 list \<Rightarrow> u8 list \<Rightarrow> pipe_state \<Rightarrow> bool" where
  fresh: "pipe_inv p \<Longrightarrow> nread p = nwrite p \<Longrightarrow> pipe_traffic [] [] p"
| put: "pipe_traffic ins outs p \<Longrightarrow> \<not> pipe_full p \<Longrightarrow> pipe_traffic (ins @ [x]) outs (pipe_put x p)"
| take: "pipe_traffic ins outs p \<Longrightarrow> nread p \<noteq> nwrite p \<Longrightarrow> pipe_traffic ins (outs @ [pipe_head p]) (pipe_drop p)"

lemma pipe_traffic_queue: "pipe_traffic ins outs p \<Longrightarrow> \<exists>q. pipe_inv q \<and> pipe_contents q = [] \<and> pipe.traffic q ins outs p"
proof (induction rule: pipe_traffic.induct)
  case (fresh p)
  then show ?case by (auto simp: pipe_contents_def intro: pipe.traffic.start)
next
  case (put ins outs p x)
  then show ?case by (blast intro: pipe.traffic.put)
next
  case (take ins outs p)
  then have "\<not> pipe_vacant p" by (simp add: pipe_vacant_def)
  then show ?case using take(3) by (blast intro: pipe.traffic.get)
qed

text \<open>
  C4: bytes come out of a pipe in the order they went in, none lost and none repeated, under any
  interleaving of the writers' and the readers' steps and across the wrap-around of the 32-bit
  counters; never more than 512 are in it.
\<close>

theorem pipe_fifo:
  assumes "pipe_traffic ins outs p"
  shows "ins = outs @ pipe_contents p \<and> length (pipe_contents p) \<le> PIPESIZE"
proof -
  obtain q where q: "pipe_inv q" "pipe_contents q = []" "pipe.traffic q ins outs p"
    using pipe_traffic_queue [OF assms] by blast
  then show ?thesis using pipe.traffic_fifo [OF q(3,1)] pipe.traffic_bounded [OF q(3,1)] by simp
qed

theorem pipe_fifo_witness:
  "\<exists>p. nread p = 0 \<and> nwrite p = 1 \<and> pipe_contents p = [8] \<and> pipe_traffic [7, 8] [7] p"
proof -
  define p where "p = new_pipe\<lparr>nread := - 1, nwrite := - 1\<rparr>"
  have p: "pipe_inv p" "nread p = nwrite p" by (simp_all add: p_def new_pipe_def pipe_inv_def)
  have "pipe_traffic ([] @ [7]) [] (pipe_put 7 p)"
    by (rule pipe_traffic.put [OF pipe_traffic.fresh [OF p]]) (simp add: pipe_full_def p_def new_pipe_def)
  then have "pipe_traffic ([] @ [7]) ([] @ [pipe_head (pipe_put 7 p)]) (pipe_drop (pipe_put 7 p))"
    by (rule pipe_traffic.take) (simp add: pipe_put_def p_def)
  then have "pipe_traffic (([] @ [7]) @ [8]) ([] @ [pipe_head (pipe_put 7 p)]) (pipe_put 8 (pipe_drop (pipe_put 7 p)))"
    by (rule pipe_traffic.put) (simp add: pipe_full_def pipe_drop_def pipe_put_def p_def)
  moreover have "pipe_head (pipe_put 7 p) = 7"
    by (simp add: pipe_head_def pipe_put_def p_def new_pipe_def unsigned_minus_1_eq_mask mask_eq_exp_minus_1)
  ultimately have t: "pipe_traffic [7, 8] [7] (pipe_put 8 (pipe_drop (pipe_put 7 p)))" by simp
  then show ?thesis
    using pipe_fifo [OF t] by (intro exI [of _ "pipe_put 8 (pipe_drop (pipe_put 7 p))"])
      (simp add: pipe_put_def pipe_drop_def p_def)
qed

lemma pipe_corner:
  assumes "pipe_ready pi p s" "noff (mycpu s) = 0" "0 < n"
  shows "(\<not> readopen (pipes s pi) \<longrightarrow> (\<exists>t. pipewrite pi addr n s = Inr (- 1, t) \<and> pipes t = pipes s)) \<and>
    (readopen (pipes s pi) \<and> length (pipe_contents (pipes s pi)) = PIPESIZE \<longrightarrow>
       pipewrite pi addr n s = Inl (Sleeps (ChPipeWrite pi))) \<and>
    (pipe_contents (pipes s pi) = [] \<and> \<not> writeopen (pipes s pi) \<longrightarrow>
       (\<exists>t. piperead pi addr n s = Inr (0, t) \<and> pipes t = pipes s)) \<and>
    (pipe_contents (pipes s pi) = [] \<and> writeopen (pipes s pi) \<longrightarrow>
       piperead pi addr n s = Inl (Sleeps (ChPipeRead pi)))"
proof -
  note e = pipe_enter [OF assms(1)]
  define a where "a = acquired (LPipe pi) (crit s)"
  note ea = e [folded a_def]
  have a: "procs a = procs s" "pipes a = pipes s" by (simp_all add: a_def)
  have s: "cpu_ok (crit s)" "noff (mycpu (crit s)) = 0" "lock_free (LPipe pi) (crit s)" "lock_free (LProc p) (crit s)"
    "cproc (mycpu (crit s)) = Some p" "pkilled (procs s p) = 0" "pipe_inv (pipes s pi)" "p < NPROC"
    using assms(1,2) by (auto simp: pipe_ready_def procs_free_def)
  obtain k where k: "nat n = Suc k" using assms(3) by (metis gr0_implies_Suc zero_less_nat_eq)
  have rel: "release (LPipe pi) a = Inr (crit s)" using s by (simp add: a_def release_acquired)
  have sl: "sleep ch (LPipe pi) (a\<lparr>procs := ps\<rparr>) = Inl (Sleeps ch)" for ch ps and f :: "proc \<Rightarrow> proc"
    using sleep_enter_eq [of "(crit s)\<lparr>procs := ps\<rparr>" "LPipe pi" p ch] s by (simp add: sleep_def a_def)
  then have sl': "sleep ch (LPipe pi) a = Inl (Sleeps ch)" for ch
    using sl [of ch "procs a"] by simp
  have vac: "pipe_contents (pipes s pi) = [] \<longleftrightarrow> nread (pipes s pi) = nwrite (pipes s pi)"
    using pipe.vacant_law [OF s(7)] by (simp add: pipe_vacant_def)
  have kl: "killed p a = Inr (0, a)" using ea s(6) a by (simp add: killed_eq)
  have "pipewrite_loop (nat n) pi (Some p) (pagetable (procs s p)) addr 0 n a = Inr ((- 1, False), a)"
    if "\<not> readopen (pipes s pi)" using that assms(3) a k by simp
  moreover have "pipewrite_loop (nat n) pi (Some p) (pagetable (procs s p)) addr 0 n a = Inl (Sleeps (ChPipeWrite pi))"
    if "readopen (pipes s pi)" "length (pipe_contents (pipes s pi)) = PIPESIZE"
    using that assms(3) a k kl pipe.full_law [OF s(7)] sl ea by (simp add: wakeup_eq)
  moreover have "piperead_loop (nat n) pi (pagetable (procs s p)) addr 0 n a = Inr (0, a)"
    if "pipe_contents (pipes s pi) = []" using that vac a k assms(3) by simp
  moreover have "\<exists>t. and_then (wakeup (ChPipeWrite pi) a) (\<lambda>s. and_then (release (LPipe pi) s) (\<lambda>s. Inr (0 :: int, s))) =
      Inr (0, t) \<and> pipes t = pipes s"
    using ea rel a by (simp add: wakeup_eq)
  ultimately show ?thesis
    using ea a rel vac kl sl' by (auto simp: pipewrite_def piperead_def)
qed

text \<open>
  \<open>piperead\<close> takes bytes from the front only: when it returns \<open>r\<close>, the first \<open>r\<close> bytes are
  gone and the rest is as before; -1 takes nothing.  No other pipe changes.
\<close>

theorem piperead_takes_front:
  assumes "piperead pi addr n s = Inr (r, t)" "p_init_done (pipes s pi)" "pipe_inv (pipes s pi)"
  shows "pipe_inv (pipes t pi) \<and> (\<forall>q. q \<noteq> pi \<longrightarrow> pipes t q = pipes s q) \<and>
    (\<exists>bs. pipe_contents (pipes s pi) = bs @ pipe_contents (pipes t pi) \<and>
       (r = int (length bs) \<or> (r = - 1 \<and> bs = [])))"
proof -
  obtain pr s1 where s1: "myproc s = Inr (pr, s1)" using assms(1) by (auto simp: piperead_def)
  then obtain pt s2 where s2: "myproc_pagetable s1 = Inr (pt, s2)" using assms(1) by (auto simp: piperead_def)
  then obtain s3 where s3: "pipe_lock pi s2 = Inr s3" using assms(1) s1 by (auto simp: piperead_def)
  have p: "pipes s3 = pipes s"
    using filest_more_cong(3) [OF myproc_more [OF s1]] filest_more_cong(1) [OF myproc_pagetable_more [OF s2]] s3 assms(2)
    by (auto simp: pipe_lock_def pipe_init_def dest!: acquire_more filest_more_cong(3))
  have rel: "pipes t = pipes u" if "release l u = Inr t" for l u
    using filest_more_cong(3) [OF release_more [OF that]] .
  show ?thesis
  proof (cases "nread (pipes s3 pi) = nwrite (pipes s3 pi) \<and> writeopen (pipes s3 pi)")
    case True
    with assms(1) s1 s2 s3 obtain i k u where "killed i s3 = Inr (k, u)" "r = - 1" "release (LPipe pi) u = Inr t"
      by (auto simp: piperead_def sleep_def split: option.splits if_splits)
    then have "pipes t = pipes s" using rel p filest_more_cong(3) [OF killed_more] by metis
    with \<open>r = - 1\<close> assms(3) show ?thesis by simp
  next
    case False
    with assms(1) s1 s2 s3 obtain i u v where l: "piperead_loop (nat n) pi pt addr 0 n s3 = Inr (r, u)"
      and w: "wakeup (ChPipeWrite pi) u = Inr v" "release (LPipe pi) v = Inr t"
      by (auto simp: piperead_def)
    have "pipes t = pipes u" using rel [OF w(2)] filest_more_cong(2) wakeup_more [OF w(1)] by metis
    then show ?thesis using piperead_loop_spec [OF l] assms(3) p by auto
  qed
qed

theorem piperead_takes_front_witness:
  "\<exists>t. piperead 0x80300000 5 1 (demo_files\<lparr>pipes := (\<lambda>_. new_pipe\<lparr>p_init_done := True, writeopen := False\<rparr>)\<rparr>) = Inr (0, t)
     \<and> pipe_contents (pipes t 0x80300000) = []"
proof -
  define p where "p = new_pipe\<lparr>p_init_done := True, writeopen := False\<rparr>"
  define s where "s = demo_files\<lparr>pipes := (\<lambda>_. p)\<rparr>"
  have p: "pipe_inv p" "pipe_contents p = []" "\<not> writeopen p" "p_init_done p"
    by (simp_all add: p_def new_pipe_def pipe_inv_def pipe_contents_def)
  have "pipe_ready 0x80300000 0 s" using p by (simp add: s_def pipe_ready_def demo_proc_def)
  then obtain t where t: "piperead 0x80300000 5 1 s = Inr (0, t)"
    using pipe_corner [of "0x80300000" 0 s 1 5] p by (auto simp: s_def)
  then show ?thesis
    using piperead_takes_front [OF t] p by (auto simp: s_def p_def)
qed

text \<open>
  C10: the corner cases of a pipe.  Writing to a pipe nobody reads returns -1; writing to a full one
  sleeps on the writers' channel; reading from an empty pipe returns 0 if no writer is left and sleeps
  on the readers' channel otherwise.  The pipe is not changed in any of them.
\<close>

theorem pipe_corner_cases:
  assumes "pipe_ready pi p s" "noff (mycpu s) = 0" "0 < n"
  shows "(\<not> readopen (pipes s pi) \<longrightarrow> (\<exists>t. pipewrite pi addr n s = Inr (- 1, t) \<and> pipes t = pipes s)) \<and>
    (readopen (pipes s pi) \<and> length (pipe_contents (pipes s pi)) = PIPESIZE \<longrightarrow>
       pipewrite pi addr n s = Inl (Sleeps (ChPipeWrite pi))) \<and>
    (pipe_contents (pipes s pi) = [] \<and> \<not> writeopen (pipes s pi) \<longrightarrow>
       (\<exists>t. piperead pi addr n s = Inr (0, t) \<and> pipes t = pipes s)) \<and>
    (pipe_contents (pipes s pi) = [] \<and> writeopen (pipes s pi) \<longrightarrow>
       piperead pi addr n s = Inl (Sleeps (ChPipeRead pi)))"
  by (rule pipe_corner [OF assms])

theorem pipe_corner_cases_witness:
  "piperead 0x80300000 5 1 demo_files = Inl (Sleeps (ChPipeRead 0x80300000))"
proof -
  have "writeopen (pipes demo_files 0x80300000)" by (simp add: new_pipe_def)
  then show ?thesis using pipe_corner_cases [OF demo_files_ready, of 1 5] by simp
qed

end
