(* ===== verification/File.thy ===== *)
theory File
  imports Pipe
begin

section \<open>Open files (kernel/rust\_file.rs)\<close>

text \<open>
  The operations on an open file: they dispatch on its type to the pipe, the device or the inode, and
  keep the file offset.  A \<open>TxnGuard\<close> and an \<open>InodeGuard\<close> of the source are the pairs
  \<open>begin_op\<close>/\<open>end_op\<close> and \<open>ilock\<close>/\<open>iunlock\<close>, the latter released first.
\<close>

definition fileclose :: "nat \<Rightarrow> 'z filest_scheme \<Rightarrow> 'z filest_scheme kres" where
  "fileclose f s = and_then (acquire LFtable s) (\<lambda>s.
     if fref (ftab s f) < 1 then Inl (Panic ''fileclose'')
     else
       let s = upd_file f (\<lambda>k. k\<lparr>fref := fref k - 1\<rparr>) s in
       if fref (ftab s f) > 0 then release LFtable s
       else
         let ff = ftab s f in
         and_then (release LFtable (upd_file f (\<lambda>k. k\<lparr>fref := 0, file_type := FD_NONE\<rparr>) s)) (\<lambda>s.
         case file_type ff of
           FD_PIPE \<Rightarrow> pipeclose (fpipe ff) (writable ff) s
         | FD_NONE \<Rightarrow> Inr s
         | _ \<Rightarrow> and_then (begin_op s) (\<lambda>s.
             case fip ff of None \<Rightarrow> Inl Undefined | Some i \<Rightarrow> and_then (iput i s) (\<lambda>s. end_op s))))"

text \<open>The bytes of a \<open>Stat\<close>; the four bytes before the size are padding, indeterminate in the source.\<close>

definition stat_bytes :: "stat \<Rightarrow> u8 list" where
  "stat_bytes st = le_bytes 4 (st_dev st) @ le_bytes 4 (st_ino st) @ le_bytes 2 (st_type st) @
     le_bytes 2 (st_nlink st) @ replicate 4 0 @ le_bytes 8 (st_size st)"

definition filestat :: "nat \<Rightarrow> u64 \<Rightarrow> 'z filest_scheme \<Rightarrow> (int \<times> 'z filest_scheme) kres" where
  "filestat f addr s =
     (if file_type (ftab s f) = FD_INODE \<or> file_type (ftab s f) = FD_DEVICE
      then and_then (ilock (fip (ftab s f)) s) (\<lambda>s.
        let st = stati (the (fip (ftab s f))) s in
        and_then (myproc_pagetable s) (\<lambda>(pt, s).
        and_then (copyout pt addr (stat_bytes st) s) (\<lambda>(ok, s).
        and_then (iunlock (fip (ftab s f)) s) (\<lambda>s. Inr (if ok then 0 else - 1, s)))))
      else Inr (- 1, s))"

definition fileread :: "nat \<Rightarrow> u64 \<Rightarrow> int \<Rightarrow> 'z filest_scheme \<Rightarrow> (int \<times> 'z filest_scheme) kres" where
  "fileread f addr n s =
     (if \<not> readable (ftab s f) then Inr (- 1, s)
      else case file_type (ftab s f) of
        FD_PIPE \<Rightarrow> piperead (fpipe (ftab s f)) addr n s
      | FD_DEVICE \<Rightarrow>
          let m = sint (fmajor (ftab s f)) in
          if m < 0 \<or> m \<ge> int NDEV then Inr (- 1, s)
          else (case dread (devsw s (nat m)) of
              None \<Rightarrow> Inr (- 1, s)
            | Some Consoleread \<Rightarrow> consoleread (ToUser addr) n s)
      | FD_INODE \<Rightarrow> and_then (ilock (fip (ftab s f)) s) (\<lambda>s.
          and_then (readi (the (fip (ftab s f))) (ToUser addr) (foff (ftab s f)) (of_int n) s) (\<lambda>((r, _), s).
          let s = (if r > 0 then upd_file f (\<lambda>k. k\<lparr>foff := foff k + of_int r\<rparr>) s else s) in
          and_then (iunlock (fip (ftab s f)) s) (\<lambda>s. Inr (r, s))))
      | FD_NONE \<Rightarrow> Inl (Panic ''fileread''))"

text \<open>
  A write goes out in transactions of at most three blocks, \<open>((MAXOPBLOCKS - 1 - 1 - 2) / 2) * BSIZE\<close>
  bytes.  A round that goes on has written at least one byte, so \<open>n\<close> rounds are enough.
\<close>

abbreviation max_txn :: int where "max_txn \<equiv> 3 * 1024"

primrec filewrite_loop :: "nat \<Rightarrow> nat \<Rightarrow> u64 \<Rightarrow> int \<Rightarrow> int \<Rightarrow> 'z filest_scheme \<Rightarrow> (int \<times> 'z filest_scheme) kres" where
  "filewrite_loop 0 f addr i n s = (if i < n then Inl Diverges else Inr (i, s))"
| "filewrite_loop (Suc fuel) f addr i n s =
     (if i < n
      then let n1 = (if n - i > max_txn then max_txn else n - i) in
        and_then (begin_op s) (\<lambda>s.
        and_then (ilock (fip (ftab s f)) s) (\<lambda>s.
        and_then (writei (the (fip (ftab s f))) (FromUser (addr + of_int i)) (foff (ftab s f)) (of_int n1) s) (\<lambda>(r, s).
        let s = (if r > 0 then upd_file f (\<lambda>k. k\<lparr>foff := foff k + of_int r\<rparr>) s else s) in
        and_then (iunlock (fip (ftab s f)) s) (\<lambda>s.
        and_then (end_op s) (\<lambda>s.
        if r \<noteq> n1 then Inr (i, s) else filewrite_loop fuel f addr (i + r) n s)))))
      else Inr (i, s))"

definition filewrite :: "nat \<Rightarrow> u64 \<Rightarrow> int \<Rightarrow> 'z filest_scheme \<Rightarrow> (int \<times> 'z filest_scheme) kres" where
  "filewrite f addr n s =
     (if \<not> writable (ftab s f) then Inr (- 1, s)
      else case file_type (ftab s f) of
        FD_PIPE \<Rightarrow> pipewrite (fpipe (ftab s f)) addr n s
      | FD_DEVICE \<Rightarrow>
          let m = sint (fmajor (ftab s f)) in
          if m < 0 \<or> m \<ge> int NDEV then Inr (- 1, s)
          else (case dwrite (devsw s (nat m)) of
              None \<Rightarrow> Inr (- 1, s)
            | Some Consolewrite \<Rightarrow> consolewrite (FromUser addr) n s)
      | FD_INODE \<Rightarrow> and_then (filewrite_loop (nat n) f addr 0 n s) (\<lambda>(i, s).
          Inr (if i = n then n else - 1, s))
      | FD_NONE \<Rightarrow> Inl (Panic ''filewrite''))"

text \<open>\<open>pipealloc\<close> of rust\_pipe.rs: two files on one fresh pipe, or \<open>None\<close> for -1.\<close>

definition pipealloc :: "'z filest_scheme \<Rightarrow> ((nat \<times> nat) option \<times> 'z filest_scheme) kres" where
  "pipealloc s = and_then (filealloc s) (\<lambda>(f0, s).
     case f0 of
       None \<Rightarrow> Inr (None, s)
     | Some f0 \<Rightarrow> and_then (filealloc s) (\<lambda>(f1, s).
         case f1 of
           None \<Rightarrow> and_then (fileclose f0 s) (\<lambda>s. Inr (None, s))
         | Some f1 \<Rightarrow> and_then (kalloc s) (\<lambda>(pi, s).
             if pi = 0
             then and_then (fileclose f0 s) (\<lambda>s. and_then (fileclose f1 s) (\<lambda>s. Inr (None, s)))
             else
               let s = pipe_init pi (upd_pipe pi (\<lambda>_. new_pipe) s);
                   s = upd_file f0 (\<lambda>k. k\<lparr>file_type := FD_PIPE, readable := True, writable := False, fpipe := pi\<rparr>) s;
                   s = upd_file f1 (\<lambda>k. k\<lparr>file_type := FD_PIPE, readable := False, writable := True, fpipe := pi\<rparr>) s
               in Inr (Some (f0, f1), s))))"

end
