(* ===== verification/Proc.thy ===== *)
theory Proc
  imports File
begin

unbundle bit_operations_syntax

section \<open>Processes (kernel/rust\_proc.rs, kernel/rust\_syscall.rs)\<close>

text \<open>
  Creating, forking, ending and scheduling processes.  The trap frame of a process is the page
  \<open>trapframe\<close> points at: \<open>tf_get\<close> and \<open>tf_set\<close> access its k-th eight-byte field.
  \<open>ldsyms\<close> holds the addresses the linker assigns.

  Where a routine hands the hart to the scheduler it is split: \<open>yield_enter\<close> and \<open>kexit_enter\<close> run up
  to the switch, and the routine's own outcome is \<open>Yields\<close> or \<open>Exits\<close>.
\<close>

record ldsyms =
  ld_trampoline :: u64
  ld_uservec :: u64
  ld_userret :: u64
  ld_forkret :: u64
  ld_kernelvec :: u64
  ld_usertrap :: u64

abbreviation TF_KERNEL_SATP :: nat where "TF_KERNEL_SATP \<equiv> 0"
abbreviation TF_KERNEL_SP :: nat where "TF_KERNEL_SP \<equiv> 1"
abbreviation TF_KERNEL_TRAP :: nat where "TF_KERNEL_TRAP \<equiv> 2"
abbreviation TF_EPC :: nat where "TF_EPC \<equiv> 3"
abbreviation TF_KERNEL_HARTID :: nat where "TF_KERNEL_HARTID \<equiv> 4"
abbreviation TF_SP :: nat where "TF_SP \<equiv> 6"
abbreviation TF_A0 :: nat where "TF_A0 \<equiv> 14"
abbreviation TF_A1 :: nat where "TF_A1 \<equiv> 15"
abbreviation TF_A7 :: nat where "TF_A7 \<equiv> 21"

definition tf_get :: "u64 \<Rightarrow> nat \<Rightarrow> 'z kmem_scheme \<Rightarrow> u64" where
  "tf_get tf k s = load64 (mem s) (tf + 8 * of_nat k)"

definition tf_set :: "u64 \<Rightarrow> nat \<Rightarrow> u64 \<Rightarrow> 'z kmem_scheme \<Rightarrow> 'z kmem_scheme" where
  "tf_set tf k v s = s\<lparr>mem := store64 (mem s) (tf + 8 * of_nat k) v\<rparr>"

text \<open>The process that runs; a null pointer would be dereferenced.\<close>

definition curproc :: "'z machine_scheme \<Rightarrow> (nat \<times> 'z machine_scheme) kres" where
  "curproc s = and_then (myproc s) (\<lambda>(p, s). case p of None \<Rightarrow> Inl Undefined | Some i \<Rightarrow> Inr (i, s))"

subsection \<open>Address spaces and slots\<close>

definition proc_pagetable :: "ldsyms \<Rightarrow> nat \<Rightarrow> 'z ptable_scheme \<Rightarrow> (u64 \<times> 'z ptable_scheme) kres" where
  "proc_pagetable ld p s = and_then (uvmcreate s) (\<lambda>(pt, s).
     if pt = 0 then Inr (0, s)
     else and_then (mappages pt TRAMPOLINE PGSIZE (ld_trampoline ld) (PTE_R OR PTE_X) s) (\<lambda>(ok, s).
       if \<not> ok then and_then (uvmfree pt 0 s) (\<lambda>s. Inr (0, s))
       else and_then (mappages pt TRAPFRAME PGSIZE (trapframe (procs s p)) (PTE_R OR PTE_W) s) (\<lambda>(ok, s).
         if \<not> ok
         then and_then (uvmunmap pt TRAMPOLINE 1 False s) (\<lambda>s. and_then (uvmfree pt 0 s) (\<lambda>s. Inr (0, s)))
         else Inr (pt, s))))"

definition proc_freepagetable :: "u64 \<Rightarrow> u64 \<Rightarrow> 'z kmem_scheme \<Rightarrow> 'z kmem_scheme kres" where
  "proc_freepagetable pt bytes s =
     and_then (uvmunmap pt TRAMPOLINE 1 False s) (\<lambda>s.
     and_then (uvmunmap pt TRAPFRAME 1 False s) (\<lambda>s.
     uvmfree pt bytes s))"

definition freeproc_locked :: "nat \<Rightarrow> 'z ptable_scheme \<Rightarrow> 'z ptable_scheme kres" where
  "freeproc_locked p s =
     and_then (if trapframe (procs s p) \<noteq> 0 then kfree (trapframe (procs s p)) s else Inr s) (\<lambda>s.
     let s = upd_proc p (trapframe_update (\<lambda>_. 0)) s in
     and_then (if pagetable (procs s p) \<noteq> 0
               then proc_freepagetable (pagetable (procs s p)) (sz (procs s p)) s else Inr s) (\<lambda>s.
     Inr (upd_proc p (\<lambda>q. q\<lparr>pagetable := 0, sz := 0, pid := 0, parent := None, pname := (pname q)[0 := 0],
       pchan := None, pkilled := 0, xstate := 0, state := UNUSED\<rparr>) s)))"

text \<open>The search keeps the lock of the slot it found; \<open>None\<close> is the null pointer.\<close>

primrec allocproc_from :: "ldsyms \<Rightarrow> nat list \<Rightarrow> 'z ptable_scheme \<Rightarrow> (nat option \<times> 'z ptable_scheme) kres" where
  "allocproc_from ld [] s = Inr (None, s)"
| "allocproc_from ld (i # is) s = and_then (acquire (LProc i) s) (\<lambda>s.
     if state (procs s i) = UNUSED
     then and_then (allocpid s) (\<lambda>(n, s).
       let s = upd_proc i (\<lambda>q. q\<lparr>pid := n, state := USED\<rparr>) s in
       and_then (kalloc s) (\<lambda>(tf, s).
       let s = upd_proc i (trapframe_update (\<lambda>_. tf)) s in
       if tf = 0
       then and_then (freeproc_locked i s) (\<lambda>s. and_then (release (LProc i) s) (\<lambda>s. Inr (None, s)))
       else and_then (proc_pagetable ld i s) (\<lambda>(pt, s).
         let s = upd_proc i (pagetable_update (\<lambda>_. pt)) s in
         if pt = 0
         then and_then (freeproc_locked i s) (\<lambda>s. and_then (release (LProc i) s) (\<lambda>s. Inr (None, s)))
         else Inr (Some i, upd_proc i (\<lambda>q. q\<lparr>ctx_ra := ld_forkret ld, ctx_sp := kstack q + PGSIZE\<rparr>) s))))
     else and_then (release (LProc i) s) (\<lambda>s. allocproc_from ld is s))"

definition allocproc :: "ldsyms \<Rightarrow> 'z ptable_scheme \<Rightarrow> (nat option \<times> 'z ptable_scheme) kres" where
  "allocproc ld s = allocproc_from ld [0..<NPROC] s"

text \<open>\<open>pid_lock\<close>, which \<open>procinit\<close> also initialises, is taken nowhere and has no place in the model.\<close>

definition procinit :: "'z ptable_scheme \<Rightarrow> 'z ptable_scheme" where
  "procinit s = fold (\<lambda>i s. upd_proc i (\<lambda>q. q\<lparr>state := UNUSED, kstack := kstack_va i\<rparr>) (initlock (LProc i) ''proc'' s))
     [0..<NPROC] (initlock LWait ''wait_lock'' s)"

definition userinit :: "ldsyms \<Rightarrow> 'z fsst_scheme \<Rightarrow> 'z fsst_scheme kres" where
  "userinit ld s = and_then (allocproc ld s) (\<lambda>(p, s).
     let s = s\<lparr>initproc := p\<rparr> in
     and_then (namei [SLASH] s) (\<lambda>(ip, s).
     case p of
       None \<Rightarrow> Inl Undefined
     | Some i \<Rightarrow> release (LProc i) (upd_proc i (\<lambda>q. q\<lparr>cwd := ip, state := RUNNABLE\<rparr>) s)))"

text \<open>\<open>growproc\<close>: \<open>True\<close> is the return value 0, \<open>False\<close> is -1.\<close>

definition growproc :: "int \<Rightarrow> 'z ptable_scheme \<Rightarrow> (bool \<times> 'z ptable_scheme) kres" where
  "growproc n s = and_then (curproc s) (\<lambda>(p, s).
     let old = sz (procs s p) in
     if n > 0
     then if old + of_int n > TRAPFRAME then Inr (False, s)
       else and_then (uvmalloc (pagetable (procs s p)) old (old + of_int n) PTE_W s) (\<lambda>(new, s).
         if new = 0 then Inr (False, s) else Inr (True, upd_proc p (sz_update (\<lambda>_. new)) s))
     else if n < 0
     then and_then (uvmdealloc (pagetable (procs s p)) old (old + of_int n) s) (\<lambda>(new, s).
       Inr (True, upd_proc p (sz_update (\<lambda>_. new)) s))
     else Inr (True, upd_proc p (sz_update (\<lambda>_. old)) s))"

subsection \<open>Fork, exit, wait, kill\<close>

definition copy_string :: "int \<Rightarrow> u8 list \<Rightarrow> u8 list \<Rightarrow> u8 list" where
  "copy_string n dst src = load_bytes (safestrcpy 0x2000 0x1000 n (names_mem src dst)) 0x2000 (length dst)"

definition kfork :: "ldsyms \<Rightarrow> 'z filest_scheme \<Rightarrow> (u32 \<times> 'z filest_scheme) kres" where
  "kfork ld s = and_then (curproc s) (\<lambda>(p, s).
     and_then (allocproc ld s) (\<lambda>(np, s).
     case np of
       None \<Rightarrow> Inr (- 1, s)
     | Some np \<Rightarrow>
         and_then (uvmcopy (pagetable (procs s p)) (pagetable (procs s np)) (sz (procs s p)) s) (\<lambda>(ok, s).
         if \<not> ok
         then and_then (freeproc_locked np s) (\<lambda>s. and_then (release (LProc np) s) (\<lambda>s. Inr (- 1, s)))
         else
           let s = upd_proc np (sz_update (\<lambda>_. sz (procs s p))) s;
               s = s\<lparr>mem := store_bytes (mem s) (trapframe (procs s np))
                 (load_bytes (mem s) (trapframe (procs s p)) 288)\<rparr>;
               s = tf_set (trapframe (procs s np)) TF_A0 0 s in
           and_then (for_each (\<lambda>i s.
             case ofile (procs s p) ! i of
               None \<Rightarrow> Inr s
             | Some f \<Rightarrow> and_then (filedup f s) (\<lambda>(f, s).
                 Inr (upd_proc np (\<lambda>q. q\<lparr>ofile := (ofile q)[i := Some f]\<rparr>) s))) [0..<NOFILE] s) (\<lambda>s.
           case cwd (procs s p) of None \<Rightarrow> Inl Undefined | Some d \<Rightarrow>
           and_then (idup d s) (\<lambda>(d, s).
           let s = upd_proc np (\<lambda>q. q\<lparr>cwd := Some d, pname := copy_string 16 (pname q) (pname (procs s p))\<rparr>) s;
               n = pid (procs s np) in
           and_then (release (LProc np) s) (\<lambda>s.
           and_then (acquire LWait s) (\<lambda>s.
           and_then (release LWait (upd_proc np (parent_update (\<lambda>_. Some p)) s)) (\<lambda>s.
           and_then (acquire (LProc np) s) (\<lambda>s.
           and_then (release (LProc np) (upd_proc np (state_update (\<lambda>_. RUNNABLE)) s)) (\<lambda>s.
           Inr (n, s)))))))))))"

text \<open>\<open>wakeup\<close> on a \<open>*mut Proc\<close>; no process sleeps on the null channel.\<close>

definition wakeup_proc :: "nat option \<Rightarrow> 'z ptable_scheme \<Rightarrow> 'z ptable_scheme kres" where
  "wakeup_proc q s = (case q of None \<Rightarrow> Inr s | Some i \<Rightarrow> wakeup (ChProc i) s)"

definition reparent_locked :: "nat \<Rightarrow> 'z ptable_scheme \<Rightarrow> 'z ptable_scheme kres" where
  "reparent_locked p s = for_each (\<lambda>i s.
     if parent (procs s i) = Some p
     then wakeup_proc (initproc s) (upd_proc i (parent_update (\<lambda>_. initproc s)) s)
     else Inr s) [0..<NPROC] s"

definition kexit_enter :: "u32 \<Rightarrow> 'z filest_scheme \<Rightarrow> 'z filest_scheme kres" where
  "kexit_enter status s = and_then (curproc s) (\<lambda>(p, s).
     if Some p = initproc s then Inl (Panic ''init exiting'')
     else and_then (for_each (\<lambda>fd s.
         case ofile (procs s p) ! fd of
           None \<Rightarrow> Inr s
         | Some f \<Rightarrow> and_then (fileclose f s) (\<lambda>s. Inr (upd_proc p (\<lambda>q. q\<lparr>ofile := (ofile q)[fd := None]\<rparr>) s)))
         [0..<NOFILE] s) (\<lambda>s.
       and_then (begin_op s) (\<lambda>s.
       case cwd (procs s p) of None \<Rightarrow> Inl Undefined | Some d \<Rightarrow>
       and_then (iput d s) (\<lambda>s.
       and_then (end_op s) (\<lambda>s.
       let s = upd_proc p (cwd_update (\<lambda>_. None)) s in
       and_then (acquire LWait s) (\<lambda>s.
       and_then (reparent_locked p s) (\<lambda>s.
       and_then (wakeup_proc (parent (procs s p)) s) (\<lambda>s.
       and_then (acquire (LProc p) s) (\<lambda>s.
       let s = upd_proc p (\<lambda>q. q\<lparr>xstate := status, state := ZOMBIE\<rparr>) s in
       and_then (release LWait s) (\<lambda>s.
       sched_enter s))))))))))"

definition kexit :: "u32 \<Rightarrow> 'z filest_scheme \<Rightarrow> 'b kres" where
  "kexit status s = and_then (kexit_enter status s) (\<lambda>_. Inl Exits)"

text \<open>
  One pass of \<open>kwait\<close> over the table, with \<open>wait_lock\<close> held: the result of a reaped (or not
  copyable) child, or whether there are children at all.
\<close>

primrec kwait_scan :: "nat \<Rightarrow> u64 \<Rightarrow> nat list \<Rightarrow> bool \<Rightarrow> 'z ptable_scheme \<Rightarrow>
    ((u32 + bool) \<times> 'z ptable_scheme) kres" where
  "kwait_scan p addr [] havekids s = Inr (Inr havekids, s)"
| "kwait_scan p addr (i # is) havekids s =
     (if parent (procs s i) = Some p
      then and_then (acquire (LProc i) s) (\<lambda>s.
        if state (procs s i) = ZOMBIE
        then let n = pid (procs s i) in
          and_then (if addr \<noteq> 0 then copyout (pagetable (procs s p)) addr (le_bytes 4 (xstate (procs s i))) s
                    else Inr (True, s)) (\<lambda>(ok, s).
          if \<not> ok then and_then (release (LProc i) s) (\<lambda>s. Inr (Inl (- 1), s))
          else and_then (freeproc_locked i s) (\<lambda>s.
            and_then (release (LProc i) s) (\<lambda>s. Inr (Inl n, s))))
        else and_then (release (LProc i) s) (\<lambda>s. kwait_scan p addr is True s))
      else kwait_scan p addr is havekids s)"

definition kwait :: "u64 \<Rightarrow> 'z ptable_scheme \<Rightarrow> (u32 \<times> 'z ptable_scheme) kres" where
  "kwait addr s = and_then (curproc s) (\<lambda>(p, s).
     and_then (acquire LWait s) (\<lambda>s.
     and_then (kwait_scan p addr [0..<NPROC] False s) (\<lambda>(r, s).
     case r of
       Inl n \<Rightarrow> and_then (release LWait s) (\<lambda>s. Inr (n, s))
     | Inr havekids \<Rightarrow>
         and_then (if \<not> havekids then Inr (1, s) else killed p s) (\<lambda>(k, s).
         if k \<noteq> 0 then and_then (release LWait s) (\<lambda>s. Inr (- 1, s))
         else sleep (ChProc p) LWait s))))"

primrec kkill_from :: "u32 \<Rightarrow> nat list \<Rightarrow> 'z ptable_scheme \<Rightarrow> (bool \<times> 'z ptable_scheme) kres" where
  "kkill_from n [] s = Inr (False, s)"
| "kkill_from n (i # is) s = and_then (acquire (LProc i) s) (\<lambda>s.
     if pid (procs s i) = n
     then let s = upd_proc i (\<lambda>q. q\<lparr>pkilled := 1, state := if state q = SLEEPING then RUNNABLE else state q\<rparr>) s in
       and_then (release (LProc i) s) (\<lambda>s. Inr (True, s))
     else and_then (release (LProc i) s) (\<lambda>s. kkill_from n is s))"

text \<open>\<open>True\<close> is the return value 0.\<close>

definition kkill :: "u32 \<Rightarrow> 'z ptable_scheme \<Rightarrow> (bool \<times> 'z ptable_scheme) kres" where
  "kkill n s = kkill_from n [0..<NPROC] s"

subsection \<open>Scheduling\<close>

definition yield_enter :: "'z ptable_scheme \<Rightarrow> 'z ptable_scheme kres" where
  "yield_enter s = and_then (curproc s) (\<lambda>(p, s).
     and_then (acquire (LProc p) s) (\<lambda>s. sched_enter (upd_proc p (state_update (\<lambda>_. RUNNABLE)) s)))"

definition yield :: "'z ptable_scheme \<Rightarrow> 'b kres" where
  "yield s = and_then (yield_enter s) (\<lambda>_. Inl Yields)"

text \<open>
  \<open>run i\<close> stands for the switch into process \<open>i\<close>: the state when that process, or another routine it
  ran, switches back.  The result says whether a process was found; then the hart does not wait for
  an interrupt.
\<close>

definition sched_slot :: "(nat \<Rightarrow> 'z ptable_scheme \<Rightarrow> 'z ptable_scheme kres) \<Rightarrow> nat \<Rightarrow> bool \<times> 'z ptable_scheme \<Rightarrow>
    (bool \<times> 'z ptable_scheme) kres" where
  "sched_slot run i = (\<lambda>(found, s). and_then (acquire (LProc i) s) (\<lambda>s.
     and_then (if state (procs s i) = RUNNABLE
       then let s = upd_proc i (state_update (\<lambda>_. RUNNING)) s;
                s = set_mycpu ((mycpu s)\<lparr>cproc := Some i\<rparr>) s in
         and_then (run i s) (\<lambda>s. Inr (True, set_mycpu ((mycpu s)\<lparr>cproc := None\<rparr>) s))
       else Inr (found, s)) (\<lambda>(found, s).
     and_then (release (LProc i) s) (\<lambda>s. Inr (found, s)))))"

definition scheduler_round :: "(nat \<Rightarrow> 'z ptable_scheme \<Rightarrow> 'z ptable_scheme kres) \<Rightarrow> 'z ptable_scheme \<Rightarrow>
    (bool \<times> 'z ptable_scheme) kres" where
  "scheduler_round run s = for_each (sched_slot run) [0..<NPROC] (False, intr_off (intr_on s))"

text \<open>The scheduler's loop, for a number of rounds.\<close>

primrec scheduler :: "nat \<Rightarrow> (nat \<Rightarrow> 'z ptable_scheme \<Rightarrow> 'z ptable_scheme kres) \<Rightarrow> 'z ptable_scheme \<Rightarrow>
    'z ptable_scheme kres" where
  "scheduler 0 run s = Inr (set_mycpu ((mycpu s)\<lparr>cproc := None\<rparr>) s)"
| "scheduler (Suc n) run s = and_then (scheduler n run s) (\<lambda>s. and_then (scheduler_round run s) (\<lambda>(_, s). Inr s))"

subsection \<open>Arguments of system calls (kernel/rust\_syscall.rs)\<close>

definition argraw :: "nat \<Rightarrow> 'z ptable_scheme \<Rightarrow> (u64 \<times> 'z ptable_scheme) kres" where
  "argraw n s = and_then (curproc s) (\<lambda>(p, s).
     if n < 6 then Inr (tf_get (trapframe (procs s p)) (TF_A0 + n) s, s) else Inl (Panic ''argraw''))"

definition argint :: "nat \<Rightarrow> 'z ptable_scheme \<Rightarrow> (int \<times> 'z ptable_scheme) kres" where
  "argint n s = and_then (argraw n s) (\<lambda>(a, s). Inr (sint (ucast a :: u32), s))"

definition argaddr :: "nat \<Rightarrow> 'z ptable_scheme \<Rightarrow> (u64 \<times> 'z ptable_scheme) kres" where
  "argaddr n s = argraw n s"

definition fetchaddr :: "u64 \<Rightarrow> 'z ptable_scheme \<Rightarrow> (u64 option \<times> 'z ptable_scheme) kres" where
  "fetchaddr addr s = and_then (curproc s) (\<lambda>(p, s).
     if addr \<ge> sz (procs s p) then Inr (None, s)
     else if unat addr + 8 \<ge> 2 ^ 64 \<or> addr + 8 > sz (procs s p) then Inr (None, s)
     else and_then (copyin (pagetable (procs s p)) addr 8 s) (\<lambda>((ok, bs), s).
       Inr (if ok then Some (of_le bs) else None, s)))"

definition fetchstr :: "u64 \<Rightarrow> nat \<Rightarrow> 'z ptable_scheme \<Rightarrow> (u8 list option \<times> 'z ptable_scheme) kres" where
  "fetchstr addr mx s = and_then (curproc s) (\<lambda>(p, s). copyinstr (pagetable (procs s p)) addr mx s)"

definition argstr :: "nat \<Rightarrow> nat \<Rightarrow> 'z ptable_scheme \<Rightarrow> (u8 list option \<times> 'z ptable_scheme) kres" where
  "argstr n mx s = and_then (argaddr n s) (\<lambda>(a, s). fetchstr a mx s)"

end
