(* ===== verification/Exec.thy ===== *)
theory Exec
  imports Proc
begin

unbundle bit_operations_syntax

section \<open>Loading a program (kernel/rust\_exec.rs)\<close>

text \<open>
  \<open>kexec\<close> reads the ELF header and the program headers at their byte offsets, builds a new address
  space, pushes the arguments on its stack and then gives it to the process.  Every way out before
  that is \<open>exec_bad\<close>, the code after the source's loop: free the new address space, and unlock and
  put the inode and end the transaction if that is still to be done.
\<close>

abbreviation MAXARG :: nat where "MAXARG \<equiv> 32"
abbreviation ELF_MAGIC :: u32 where "ELF_MAGIC \<equiv> 0x464c457f"
abbreviation ELF_PROG_LOAD :: u32 where "ELF_PROG_LOAD \<equiv> 1"

record elfhdr =
  e_magic :: u32
  e_entry :: u64
  e_phoff :: u64
  e_phnum :: u16

record proghdr =
  ph_type :: u32
  ph_flags :: u32
  ph_off :: u64
  ph_vaddr :: u64
  ph_filesz :: u64
  ph_memsz :: u64

definition elfhdr_of :: "u8 list \<Rightarrow> elfhdr" where
  "elfhdr_of b = \<lparr>e_magic = getw 4 b 0, e_entry = getw 8 b 24, e_phoff = getw 8 b 32, e_phnum = getw 2 b 56\<rparr>"

definition proghdr_of :: "u8 list \<Rightarrow> proghdr" where
  "proghdr_of b = \<lparr>ph_type = getw 4 b 0, ph_flags = getw 4 b 4, ph_off = getw 8 b 8, ph_vaddr = getw 8 b 16,
     ph_filesz = getw 8 b 32, ph_memsz = getw 8 b 40\<rparr>"

definition flags2perm :: "u32 \<Rightarrow> u64" where
  "flags2perm flags =
     (let perm = (if flags AND 1 \<noteq> 0 then PTE_X else 0) in
      if flags AND 2 \<noteq> 0 then perm OR PTE_W else perm)"

text \<open>One page per round; \<open>True\<close> is the return value 0.\<close>

primrec loadseg_loop :: "nat \<Rightarrow> u64 \<Rightarrow> u64 \<Rightarrow> nat \<Rightarrow> u32 \<Rightarrow> u32 \<Rightarrow> u32 \<Rightarrow> 'z fsst_scheme \<Rightarrow> (bool \<times> 'z fsst_scheme) kres" where
  "loadseg_loop 0 pt va ip off n i s = (if i < n then Inl Diverges else Inr (True, s))"
| "loadseg_loop (Suc fuel) pt va ip off n i s =
     (if i < n
      then and_then (walkaddr pt (va + ucast i) s) (\<lambda>(pa, s).
        if pa = 0 then Inl (Panic ''loadseg: address should exist'')
        else
          let k = (if n - i < 4096 then n - i else 4096) in
          and_then (readi ip (ToMem pa) (off + i) k s) (\<lambda>((r, _), s).
          if r \<noteq> sint k then Inr (False, s)
          else loadseg_loop fuel pt va ip off n (i + 4096) s))
      else Inr (True, s))"

definition loadseg :: "u64 \<Rightarrow> u64 \<Rightarrow> nat \<Rightarrow> u32 \<Rightarrow> u32 \<Rightarrow> 'z fsst_scheme \<Rightarrow> (bool \<times> 'z fsst_scheme) kres" where
  "loadseg pt va ip off n s = loadseg_loop (Suc (unat n div 4096)) pt va ip off n 0 s"

text \<open>
  The loop over the \<open>k\<close> program headers that are left; the result says whether all were loaded, and
  is the size reached.
\<close>

primrec load_segments :: "nat \<Rightarrow> u64 \<Rightarrow> nat \<Rightarrow> u32 \<Rightarrow> u64 \<Rightarrow> 'z fsst_scheme \<Rightarrow> ((bool \<times> u64) \<times> 'z fsst_scheme) kres" where
  "load_segments 0 pt ip off bytes s = Inr ((True, bytes), s)"
| "load_segments (Suc k) pt ip off bytes s =
     and_then (readi ip ToLocal off 56 s) (\<lambda>((r, b), s).
     if r \<noteq> 56 then Inr ((False, bytes), s)
     else
       let ph = proghdr_of b in
       if ph_type ph \<noteq> ELF_PROG_LOAD then load_segments k pt ip (off + 56) bytes s
       else if ph_memsz ph < ph_filesz ph then Inr ((False, bytes), s)
       else if ph_vaddr ph + ph_memsz ph < ph_vaddr ph then Inr ((False, bytes), s)
       else if ph_vaddr ph mod PGSIZE \<noteq> 0 then Inr ((False, bytes), s)
       else and_then (uvmalloc pt bytes (ph_vaddr ph + ph_memsz ph) (flags2perm (ph_flags ph)) s) (\<lambda>(sz1, s).
         if sz1 = 0 then Inr ((False, bytes), s)
         else and_then (loadseg pt (ph_vaddr ph) ip (ucast (ph_off ph)) (ucast (ph_filesz ph)) s) (\<lambda>(ok, s).
           if \<not> ok then Inr ((False, sz1), s)
           else load_segments k pt ip (off + 56) sz1 s)))"

text \<open>
  Pushing the argument strings: the stack pointer, their addresses, and the strings that were not
  pushed because the loop was left.
\<close>

primrec push_args :: "u64 \<Rightarrow> u64 \<Rightarrow> u8 list list \<Rightarrow> u64 \<Rightarrow> u64 list \<Rightarrow> 'z ptable_scheme \<Rightarrow>
    ((u64 \<times> u64 list \<times> u8 list list) \<times> 'z ptable_scheme) kres" where
  "push_args pt stackbase [] sp ustack s = Inr ((sp, ustack, []), s)"
| "push_args pt stackbase (arg # args) sp ustack s =
     (if length ustack \<ge> MAXARG then Inr ((sp, ustack, arg # args), s)
      else
        let sp = sp - of_nat (length arg + 1); sp = sp - sp mod 16 in
        if sp < stackbase then Inr ((sp, ustack, arg # args), s)
        else and_then (copyout pt sp (arg @ [0]) s) (\<lambda>(ok, s).
          if \<not> ok then Inr ((sp, ustack, arg # args), s)
          else push_args pt stackbase args sp (ustack @ [sp]) s))"

definition exec_bad :: "u64 \<Rightarrow> u64 \<Rightarrow> nat option \<Rightarrow> 'z fsst_scheme \<Rightarrow> (int \<times> 'z fsst_scheme) kres" where
  "exec_bad pt bytes ip s =
     and_then (if pt \<noteq> 0 then proc_freepagetable pt bytes s else Inr s) (\<lambda>s.
     and_then (case ip of None \<Rightarrow> Inr s | Some i \<Rightarrow> and_then (iunlockput i s) (\<lambda>s. end_op s)) (\<lambda>s.
     Inr (- 1, s)))"

definition last_elem :: "u8 list \<Rightarrow> u8 list" where
  "last_elem path = rev (takeWhile (\<lambda>c. c \<noteq> SLASH) (rev path))"

text \<open>The second half of \<open>kexec\<close>: the stack, the arguments, and the switch to the new image.\<close>

definition exec_commit :: "u64 \<Rightarrow> u64 \<Rightarrow> u64 \<Rightarrow> u8 list \<Rightarrow> u8 list list \<Rightarrow> 'z fsst_scheme \<Rightarrow> (int \<times> 'z fsst_scheme) kres" where
  "exec_commit pt bytes entry path argv s =
     and_then (curproc s) (\<lambda>(p, s).
     let oldsz = sz (procs s p); bytes = pgroundup bytes in
     and_then (uvmalloc pt bytes (bytes + 2 * PGSIZE) PTE_W s) (\<lambda>(sz1, s).
     if sz1 = 0 then exec_bad pt bytes None s
     else and_then (uvmclear pt (sz1 - 2 * PGSIZE) s) (\<lambda>s.
       let stackbase = sz1 - PGSIZE in
       and_then (push_args pt stackbase argv sz1 [] s) (\<lambda>((sp, ustack, left), s).
       if left \<noteq> [] then exec_bad pt sz1 None s
       else
         let argc = length ustack; sp = sp - of_nat ((argc + 1) * 8); sp = sp - sp mod 16 in
         if sp < stackbase then exec_bad pt sz1 None s
         else and_then (copyout pt sp (concat (map (le_bytes 8) (ustack @ [0]))) s) (\<lambda>(ok, s).
           if \<not> ok then exec_bad pt sz1 None s
           else
             let s = tf_set (trapframe (procs s p)) TF_A1 sp s;
                 oldpt = pagetable (procs s p);
                 s = upd_proc p (\<lambda>q. q\<lparr>pname := copy_string 16 (pname q) (last_elem path), pagetable := pt, sz := sz1\<rparr>) s;
                 s = tf_set (trapframe (procs s p)) TF_EPC entry s;
                 s = tf_set (trapframe (procs s p)) TF_SP sp s in
             and_then (proc_freepagetable oldpt oldsz s) (\<lambda>s. Inr (int argc, s)))))))"

definition kexec :: "ldsyms \<Rightarrow> u8 list \<Rightarrow> u8 list list \<Rightarrow> 'z fsst_scheme \<Rightarrow> (int \<times> 'z fsst_scheme) kres" where
  "kexec ld path argv s =
     and_then (curproc s) (\<lambda>(p, s).
     and_then (begin_op s) (\<lambda>s.
     and_then (namei path s) (\<lambda>(ip, s).
     case ip of
       None \<Rightarrow> and_then (end_op s) (\<lambda>s. Inr (- 1, s))
     | Some ip \<Rightarrow>
         and_then (ilock (Some ip) s) (\<lambda>s.
         and_then (readi ip ToLocal 0 64 s) (\<lambda>((r, b), s).
         if r \<noteq> 64 then exec_bad 0 0 (Some ip) s
         else if e_magic (elfhdr_of b) \<noteq> ELF_MAGIC then exec_bad 0 0 (Some ip) s
         else and_then (proc_pagetable ld p s) (\<lambda>(pt, s).
           if pt = 0 then exec_bad 0 0 (Some ip) s
           else and_then (load_segments (unat (e_phnum (elfhdr_of b))) pt ip (ucast (e_phoff (elfhdr_of b))) 0 s)
             (\<lambda>((ok, bytes), s).
             if \<not> ok then exec_bad pt bytes (Some ip) s
             else and_then (iunlockput ip s) (\<lambda>s.
               and_then (end_op s) (\<lambda>s.
               exec_commit pt bytes (e_entry (elfhdr_of b)) path argv s)))))))))"

end
