(* ===== verification/Sysfile.thy ===== *)
theory Sysfile
  imports Exec
begin

unbundle bit_operations_syntax

section \<open>File system calls (kernel/rust\_sysfile.rs)\<close>

text \<open>
  The system calls on files.  The arguments come from the trap frame of the process that runs, the
  result is the 64-bit value that goes back in \<open>a0\<close>: -1, \<open>u64::MAX\<close>, for an error.
\<close>

abbreviation MAXPATH :: nat where "MAXPATH \<equiv> 128"
abbreviation O_RDONLY :: int where "O_RDONLY \<equiv> 0"
abbreviation O_WRONLY :: u32 where "O_WRONLY \<equiv> 1"
abbreviation O_RDWR :: u32 where "O_RDWR \<equiv> 2"
abbreviation O_CREATE :: u32 where "O_CREATE \<equiv> 0x200"
abbreviation O_TRUNC :: u32 where "O_TRUNC \<equiv> 0x400"

definition argfd :: "nat \<Rightarrow> 'z filest_scheme \<Rightarrow> ((nat \<times> nat) option \<times> 'z filest_scheme) kres" where
  "argfd n s = and_then (argint n s) (\<lambda>(fd, s).
     if fd < 0 \<or> fd \<ge> int NOFILE then Inr (None, s)
     else and_then (curproc s) (\<lambda>(p, s).
       Inr (case ofile (procs s p) ! nat fd of None \<Rightarrow> None | Some f \<Rightarrow> Some (nat fd, f), s)))"

definition fdalloc :: "nat \<Rightarrow> 'z filest_scheme \<Rightarrow> (nat option \<times> 'z filest_scheme) kres" where
  "fdalloc f s = and_then (curproc s) (\<lambda>(p, s).
     case find (\<lambda>fd. ofile (procs s p) ! fd = None) [0..<NOFILE] of
       Some fd \<Rightarrow> Inr (Some fd, upd_proc p (\<lambda>q. q\<lparr>ofile := (ofile q)[fd := Some f]\<rparr>) s)
     | None \<Rightarrow> Inr (None, s))"

primrec isdirempty_loop :: "nat \<Rightarrow> nat \<Rightarrow> u32 \<Rightarrow> 'z fsst_scheme \<Rightarrow> (bool \<times> 'z fsst_scheme) kres" where
  "isdirempty_loop 0 dp off s = (if off < isize (inodes s dp) then Inl Diverges else Inr (True, s))"
| "isdirempty_loop (Suc fuel) dp off s =
     (if off < isize (inodes s dp)
      then and_then (readi dp ToLocal off 16 s) (\<lambda>((n, de), s).
        if n \<noteq> 16 then Inl (Panic ''isdirempty: readi'')
        else if de_inum de \<noteq> 0 then Inr (False, s)
        else isdirempty_loop fuel dp (off + 16) s)
      else Inr (True, s))"

definition isdirempty :: "nat \<Rightarrow> 'z fsst_scheme \<Rightarrow> (bool \<times> 'z fsst_scheme) kres" where
  "isdirempty dp s = isdirempty_loop (Suc (unat (isize (inodes s dp)) div 16)) dp 32 s"

definition goto_fail :: "nat \<Rightarrow> nat \<Rightarrow> 'z fsst_scheme \<Rightarrow> 'z fsst_scheme kres" where
  "goto_fail ip dp s =
     and_then (iupdate ip (upd_inode ip (nlink_update (\<lambda>_. 0)) s)) (\<lambda>s.
     and_then (iunlockput ip s) (\<lambda>s. iunlockput dp s))"

definition create :: "u8 list \<Rightarrow> u16 \<Rightarrow> u16 \<Rightarrow> u16 \<Rightarrow> 'z fsst_scheme \<Rightarrow> (nat option \<times> 'z fsst_scheme) kres" where
  "create path ty maj mnr s = and_then (nameiparent path (replicate DIRSIZ 0) s) (\<lambda>((dp, name), s).
     case dp of None \<Rightarrow> Inr (None, s) | Some dp \<Rightarrow>
     and_then (ilock (Some dp) s) (\<lambda>s.
     and_then (dirlookup dp name s) (\<lambda>(r, s).
     case r of
       Some (ip, _) \<Rightarrow>
         and_then (iunlockput dp s) (\<lambda>s.
         and_then (ilock (Some ip) s) (\<lambda>s.
         if ty = T_FILE \<and> (itype (inodes s ip) = T_FILE \<or> itype (inodes s ip) = T_DEVICE) then Inr (Some ip, s)
         else and_then (iunlockput ip s) (\<lambda>s. Inr (None, s))))
     | None \<Rightarrow>
         and_then (ialloc (idev (inodes s dp)) ty s) (\<lambda>(ip, s).
         case ip of None \<Rightarrow> and_then (iunlockput dp s) (\<lambda>s. Inr (None, s)) | Some ip \<Rightarrow>
         and_then (ilock (Some ip) s) (\<lambda>s.
         and_then (iupdate ip (upd_inode ip (\<lambda>k. k\<lparr>major := maj, minor := mnr, nlink := 1\<rparr>) s)) (\<lambda>s.
         and_then (if ty = T_DIR
           then and_then (dirlink ip [46, 0] (inum (inodes s ip)) s) (\<lambda>(r, s).
             if r < 0 then Inr (False, s)
             else and_then (dirlink ip [46, 46, 0] (inum (inodes s dp)) s) (\<lambda>(r, s). Inr (\<not> r < 0, s)))
           else Inr (True, s)) (\<lambda>(ok, s).
         if \<not> ok then and_then (goto_fail ip dp s) (\<lambda>s. Inr (None, s))
         else and_then (dirlink dp name (inum (inodes s ip)) s) (\<lambda>(r, s).
           if r < 0 then and_then (goto_fail ip dp s) (\<lambda>s. Inr (None, s))
           else and_then (if ty = T_DIR
               then iupdate dp (upd_inode dp (\<lambda>k. k\<lparr>nlink := nlink k + 1\<rparr>) s) else Inr s) (\<lambda>s.
             and_then (iunlockput dp s) (\<lambda>s. Inr (Some ip, s))))))))))) "

definition sys_dup :: "'z filest_scheme \<Rightarrow> (u64 \<times> 'z filest_scheme) kres" where
  "sys_dup s = and_then (argfd 0 s) (\<lambda>(r, s).
     case r of None \<Rightarrow> Inr (- 1, s) | Some (_, f) \<Rightarrow>
     and_then (fdalloc f s) (\<lambda>(fd, s).
     case fd of None \<Rightarrow> Inr (- 1, s) | Some fd \<Rightarrow>
     and_then (filedup f s) (\<lambda>(_, s). Inr (of_nat fd, s))))"

definition sys_read :: "'z filest_scheme \<Rightarrow> (u64 \<times> 'z filest_scheme) kres" where
  "sys_read s = and_then (argaddr 1 s) (\<lambda>(a, s). and_then (argint 2 s) (\<lambda>(n, s).
     and_then (argfd 0 s) (\<lambda>(r, s).
     case r of None \<Rightarrow> Inr (- 1, s) | Some (_, f) \<Rightarrow>
     and_then (fileread f a n s) (\<lambda>(r, s). Inr (of_int r, s)))))"

definition sys_write :: "'z filest_scheme \<Rightarrow> (u64 \<times> 'z filest_scheme) kres" where
  "sys_write s = and_then (argaddr 1 s) (\<lambda>(a, s). and_then (argint 2 s) (\<lambda>(n, s).
     and_then (argfd 0 s) (\<lambda>(r, s).
     case r of None \<Rightarrow> Inr (- 1, s) | Some (_, f) \<Rightarrow>
     and_then (filewrite f a n s) (\<lambda>(r, s). Inr (of_int r, s)))))"

definition sys_close :: "'z filest_scheme \<Rightarrow> (u64 \<times> 'z filest_scheme) kres" where
  "sys_close s = and_then (argfd 0 s) (\<lambda>(r, s).
     case r of None \<Rightarrow> Inr (- 1, s) | Some (fd, f) \<Rightarrow>
     and_then (curproc s) (\<lambda>(p, s).
     and_then (fileclose f (upd_proc p (\<lambda>q. q\<lparr>ofile := (ofile q)[fd := None]\<rparr>) s)) (\<lambda>s. Inr (0, s))))"

definition sys_fstat :: "'z filest_scheme \<Rightarrow> (u64 \<times> 'z filest_scheme) kres" where
  "sys_fstat s = and_then (argaddr 1 s) (\<lambda>(a, s).
     and_then (argfd 0 s) (\<lambda>(r, s).
     case r of None \<Rightarrow> Inr (- 1, s) | Some (_, f) \<Rightarrow>
     and_then (filestat f a s) (\<lambda>(r, s). Inr (of_int r, s))))"

text \<open>The way out of \<open>sys_link\<close> once the link count has been raised.\<close>

definition link_undo :: "nat \<Rightarrow> 'z fsst_scheme \<Rightarrow> (u64 \<times> 'z fsst_scheme) kres" where
  "link_undo ip s =
     and_then (ilock (Some ip) s) (\<lambda>s.
     and_then (iupdate ip (upd_inode ip (\<lambda>k. k\<lparr>nlink := nlink k - 1\<rparr>) s)) (\<lambda>s.
     and_then (iunlockput ip s) (\<lambda>s.
     and_then (end_op s) (\<lambda>s. Inr (- 1, s)))))"

definition fail_op :: "nat list \<Rightarrow> 'z fsst_scheme \<Rightarrow> (u64 \<times> 'z fsst_scheme) kres" where
  "fail_op ips s = and_then (for_each iunlockput ips s) (\<lambda>s. and_then (end_op s) (\<lambda>s. Inr (- 1, s)))"

definition sys_link :: "'z fsst_scheme \<Rightarrow> (u64 \<times> 'z fsst_scheme) kres" where
  "sys_link s = and_then (argstr 0 MAXPATH s) (\<lambda>(old, s).
     case old of None \<Rightarrow> Inr (- 1, s) | Some old \<Rightarrow>
     and_then (argstr 1 MAXPATH s) (\<lambda>(new, s).
     case new of None \<Rightarrow> Inr (- 1, s) | Some new \<Rightarrow>
     and_then (begin_op s) (\<lambda>s.
     and_then (namei old s) (\<lambda>(ip, s).
     case ip of None \<Rightarrow> fail_op [] s | Some ip \<Rightarrow>
     and_then (ilock (Some ip) s) (\<lambda>s.
     if itype (inodes s ip) = T_DIR then fail_op [ip] s
     else and_then (iupdate ip (upd_inode ip (\<lambda>k. k\<lparr>nlink := nlink k + 1\<rparr>) s)) (\<lambda>s.
       and_then (iunlock (Some ip) s) (\<lambda>s.
       and_then (nameiparent new (replicate DIRSIZ 0) s) (\<lambda>((dp, name), s).
       case dp of None \<Rightarrow> link_undo ip s | Some dp \<Rightarrow>
       and_then (ilock (Some dp) s) (\<lambda>s.
       and_then (if idev (inodes s dp) \<noteq> idev (inodes s ip) then Inr (- 1, s)
                 else dirlink dp name (inum (inodes s ip)) s) (\<lambda>(r, s).
       if r < 0 then and_then (iunlockput dp s) (\<lambda>s. link_undo ip s)
       else and_then (iunlockput dp s) (\<lambda>s.
         and_then (iput ip s) (\<lambda>s.
         and_then (end_op s) (\<lambda>s. Inr (0, s))))))))))))))"

definition sys_unlink :: "'z fsst_scheme \<Rightarrow> (u64 \<times> 'z fsst_scheme) kres" where
  "sys_unlink s = and_then (argstr 0 MAXPATH s) (\<lambda>(path, s).
     case path of None \<Rightarrow> Inr (- 1, s) | Some path \<Rightarrow>
     and_then (begin_op s) (\<lambda>s.
     and_then (nameiparent path (replicate DIRSIZ 0) s) (\<lambda>((dp, name), s).
     case dp of None \<Rightarrow> fail_op [] s | Some dp \<Rightarrow>
     and_then (ilock (Some dp) s) (\<lambda>s.
     if namecmp name [46, 0] = 0 \<or> namecmp name [46, 46, 0] = 0 then fail_op [dp] s
     else and_then (dirlookup dp name s) (\<lambda>(r, s).
       case r of None \<Rightarrow> fail_op [dp] s | Some (ip, off) \<Rightarrow>
       and_then (ilock (Some ip) s) (\<lambda>s.
       if sint (nlink (inodes s ip)) < 1 then Inl (Panic ''unlink: nlink < 1'')
       else and_then (if itype (inodes s ip) = T_DIR then isdirempty ip s else Inr (True, s)) (\<lambda>(e, s).
         if \<not> e then fail_op [ip, dp] s
         else and_then (writei dp (FromLocal (replicate 16 0)) off 16 s) (\<lambda>(r, s).
           if r \<noteq> 16 then Inl (Panic ''unlink: writei'')
           else and_then (if itype (inodes s ip) = T_DIR
               then iupdate dp (upd_inode dp (\<lambda>k. k\<lparr>nlink := nlink k - 1\<rparr>) s) else Inr s) (\<lambda>s.
             and_then (iunlockput dp s) (\<lambda>s.
             and_then (iupdate ip (upd_inode ip (\<lambda>k. k\<lparr>nlink := nlink k - 1\<rparr>) s)) (\<lambda>s.
             and_then (iunlockput ip s) (\<lambda>s.
             and_then (end_op s) (\<lambda>s. Inr (0, s))))))))))))))"

definition sys_open :: "'z filest_scheme \<Rightarrow> (u64 \<times> 'z filest_scheme) kres" where
  "sys_open s = and_then (argint 1 s) (\<lambda>(omode, s).
     and_then (argstr 0 MAXPATH s) (\<lambda>(path, s).
     case path of None \<Rightarrow> Inr (- 1, s) | Some path \<Rightarrow>
     let om = (of_int omode :: u32) in
     and_then (begin_op s) (\<lambda>s.
     and_then (if om AND O_CREATE \<noteq> 0 then create path T_FILE 0 0 s
       else and_then (namei path s) (\<lambda>(ip, s).
         case ip of None \<Rightarrow> Inr (None, s) | Some ip \<Rightarrow>
         and_then (ilock (Some ip) s) (\<lambda>s.
         if itype (inodes s ip) = T_DIR \<and> omode \<noteq> O_RDONLY
         then and_then (iunlockput ip s) (\<lambda>s. Inr (None, s)) else Inr (Some ip, s)))) (\<lambda>(ip, s).
     case ip of None \<Rightarrow> fail_op [] s | Some ip \<Rightarrow>
     if itype (inodes s ip) = T_DEVICE \<and> (sint (major (inodes s ip)) < 0 \<or> sint (major (inodes s ip)) \<ge> int NDEV)
     then fail_op [ip] s
     else and_then (filealloc s) (\<lambda>(f, s).
       case f of None \<Rightarrow> fail_op [ip] s | Some f \<Rightarrow>
       and_then (fdalloc f s) (\<lambda>(fd, s).
       case fd of None \<Rightarrow> and_then (fileclose f s) (\<lambda>s. fail_op [ip] s) | Some fd \<Rightarrow>
       let s = (if itype (inodes s ip) = T_DEVICE
                then upd_file f (\<lambda>k. k\<lparr>file_type := FD_DEVICE, fmajor := major (inodes s ip)\<rparr>) s
                else upd_file f (\<lambda>k. k\<lparr>file_type := FD_INODE, foff := 0\<rparr>) s);
           s = upd_file f (\<lambda>k. k\<lparr>fip := Some ip, readable := (om AND O_WRONLY = 0),
                 writable := (om AND O_WRONLY \<noteq> 0 \<or> om AND O_RDWR \<noteq> 0)\<rparr>) s in
       and_then (if om AND O_TRUNC \<noteq> 0 \<and> itype (inodes s ip) = T_FILE then itrunc ip s else Inr s) (\<lambda>s.
       and_then (iunlock (Some ip) s) (\<lambda>s.
       and_then (end_op s) (\<lambda>s. Inr (of_nat fd, s))))))))))"

definition sys_mkdir :: "'z fsst_scheme \<Rightarrow> (u64 \<times> 'z fsst_scheme) kres" where
  "sys_mkdir s = and_then (begin_op s) (\<lambda>s.
     and_then (argstr 0 MAXPATH s) (\<lambda>(path, s).
     and_then (case path of None \<Rightarrow> Inr (None, s) | Some path \<Rightarrow> create path T_DIR 0 0 s) (\<lambda>(ip, s).
     case ip of None \<Rightarrow> fail_op [] s | Some ip \<Rightarrow>
     and_then (iunlockput ip s) (\<lambda>s. and_then (end_op s) (\<lambda>s. Inr (0, s))))))"

definition sys_mknod :: "'z fsst_scheme \<Rightarrow> (u64 \<times> 'z fsst_scheme) kres" where
  "sys_mknod s = and_then (begin_op s) (\<lambda>s.
     and_then (argint 1 s) (\<lambda>(maj, s).
     and_then (argint 2 s) (\<lambda>(mnr, s).
     and_then (argstr 0 MAXPATH s) (\<lambda>(path, s).
     and_then (case path of None \<Rightarrow> Inr (None, s)
               | Some path \<Rightarrow> create path T_DEVICE (of_int maj) (of_int mnr) s) (\<lambda>(ip, s).
     case ip of None \<Rightarrow> fail_op [] s | Some ip \<Rightarrow>
     and_then (iunlockput ip s) (\<lambda>s. and_then (end_op s) (\<lambda>s. Inr (0, s))))))))"

definition sys_chdir :: "'z fsst_scheme \<Rightarrow> (u64 \<times> 'z fsst_scheme) kres" where
  "sys_chdir s = and_then (curproc s) (\<lambda>(p, s).
     and_then (begin_op s) (\<lambda>s.
     and_then (argstr 0 MAXPATH s) (\<lambda>(path, s).
     and_then (case path of None \<Rightarrow> Inr (None, s) | Some path \<Rightarrow> namei path s) (\<lambda>(ip, s).
     case ip of None \<Rightarrow> fail_op [] s | Some ip \<Rightarrow>
     and_then (ilock (Some ip) s) (\<lambda>s.
     if itype (inodes s ip) \<noteq> T_DIR then fail_op [ip] s
     else and_then (iunlock (Some ip) s) (\<lambda>s.
       case cwd (procs s p) of None \<Rightarrow> Inl Undefined | Some d \<Rightarrow>
       and_then (iput d s) (\<lambda>s.
       and_then (end_op s) (\<lambda>s.
       Inr (0, upd_proc p (cwd_update (\<lambda>_. Some ip)) s)))))))))"

text \<open>\<open>argv\<close> is the list of the pages filled so far, with the strings in them.\<close>

definition free_argv :: "(u64 \<times> u8 list) list \<Rightarrow> 'z kmem_scheme \<Rightarrow> 'z kmem_scheme kres" where
  "free_argv argv s = for_each (\<lambda>a s. kfree (fst a) s) argv s"

definition exec_fail :: "(u64 \<times> u8 list) list \<Rightarrow> 'z kmem_scheme \<Rightarrow> (u64 \<times> 'z kmem_scheme) kres" where
  "exec_fail argv s = and_then (free_argv argv s) (\<lambda>s. Inr (- 1, s))"

primrec sys_exec_loop :: "nat \<Rightarrow> ldsyms \<Rightarrow> u8 list \<Rightarrow> u64 \<Rightarrow> (u64 \<times> u8 list) list \<Rightarrow> 'z fsst_scheme \<Rightarrow>
    (u64 \<times> 'z fsst_scheme) kres" where
  "sys_exec_loop 0 ld path uargv argv s = exec_fail argv s"
| "sys_exec_loop (Suc left) ld path uargv argv s =
     and_then (fetchaddr (uargv + of_nat (8 * length argv)) s) (\<lambda>(r, s).
     case r of None \<Rightarrow> exec_fail argv s | Some uarg \<Rightarrow>
     if uarg = 0
     then and_then (kexec ld path (map snd argv) s) (\<lambda>(r, s).
       and_then (free_argv argv s) (\<lambda>s. Inr (of_int r, s)))
     else and_then (kalloc s) (\<lambda>(pg, s).
       if pg = 0 then exec_fail argv s
       else and_then (fetchstr uarg 4096 s) (\<lambda>(str, s).
         case str of
           None \<Rightarrow> exec_fail (argv @ [(pg, [])]) s
         | Some bs \<Rightarrow> sys_exec_loop left ld path uargv (argv @ [(pg, bs)])
             (s\<lparr>mem := store_bytes (mem s) pg (bs @ [0])\<rparr>))))"

definition sys_exec :: "ldsyms \<Rightarrow> 'z fsst_scheme \<Rightarrow> (u64 \<times> 'z fsst_scheme) kres" where
  "sys_exec ld s = and_then (argaddr 1 s) (\<lambda>(uargv, s).
     and_then (argstr 0 MAXPATH s) (\<lambda>(path, s).
     case path of None \<Rightarrow> Inr (- 1, s) | Some path \<Rightarrow> sys_exec_loop MAXARG ld path uargv [] s))"

definition sys_pipe :: "'z filest_scheme \<Rightarrow> (u64 \<times> 'z filest_scheme) kres" where
  "sys_pipe s = and_then (argaddr 0 s) (\<lambda>(fdarray, s).
     and_then (pipealloc s) (\<lambda>(r, s).
     case r of None \<Rightarrow> Inr (- 1, s) | Some (rfile, wfile) \<Rightarrow>
     and_then (curproc s) (\<lambda>(p, s).
     and_then (fdalloc rfile s) (\<lambda>(fd0, s).
     let close_both = (\<lambda>s. and_then (fileclose rfile s) (\<lambda>s. and_then (fileclose wfile s) (\<lambda>s. Inr (- 1, s)))) in
     case fd0 of None \<Rightarrow> close_both s | Some fd0 \<Rightarrow>
     and_then (fdalloc wfile s) (\<lambda>(fd1, s).
     case fd1 of None \<Rightarrow> close_both (upd_proc p (\<lambda>q. q\<lparr>ofile := (ofile q)[fd0 := None]\<rparr>) s) | Some fd1 \<Rightarrow>
     and_then (copyout (pagetable (procs s p)) fdarray (le_bytes 4 (of_nat fd0 :: u32)) s) (\<lambda>(ok, s).
     and_then (if ok then copyout (pagetable (procs s p)) (fdarray + 4) (le_bytes 4 (of_nat fd1 :: u32)) s
               else Inr (False, s)) (\<lambda>(ok, s).
     if ok then Inr (0, s)
     else close_both (upd_proc p (\<lambda>q. q\<lparr>ofile := (ofile q)[fd0 := None, fd1 := None]\<rparr>) s))))))))"

end
