(* ===== verification/Virtio.thy ===== *)
theory Virtio
  imports Sysfile
begin

unbundle bit_operations_syntax

section \<open>The virtio disk driver (kernel/rust\_virtio\_disk.rs)\<close>

text \<open>
  The driver's queue: a table of eight descriptors, the ring of available requests, the ring of used
  ones, and the driver's own bookkeeping.  An address in a descriptor names one of the three
  kinds of objects the driver points the device at: a request header \<open>ops[i]\<close>, the data of a buffer, a
  status byte \<open>info[i].status\<close>.  \<open>b_disk\<close> is the buffers' \<open>disk\<close> field.

  The device's registers are an environment as for the UART.  \<open>virtio_disk_rw\<close> is cut where it
  sleeps: \<open>rw_submit\<close> runs from the lock to the first test of \<open>b.disk\<close>, \<open>rw_finish\<close> from the end of
  that wait to the release.
\<close>

abbreviation NUM :: nat where "NUM \<equiv> 8"
abbreviation VRING_DESC_F_NEXT :: u16 where "VRING_DESC_F_NEXT \<equiv> 1"
abbreviation VRING_DESC_F_WRITE :: u16 where "VRING_DESC_F_WRITE \<equiv> 2"
abbreviation VIRTIO_BLK_T_IN :: u32 where "VIRTIO_BLK_T_IN \<equiv> 0"
abbreviation VIRTIO_BLK_T_OUT :: u32 where "VIRTIO_BLK_T_OUT \<equiv> 1"

datatype daddr = ANull | AOp nat | ABuf nat | AStatus nat

record vdesc =
  d_addr :: daddr
  d_len :: u32
  d_flags :: u16
  d_next :: u16

record blkreq =
  req_type :: u32
  reserved :: u32
  sector :: u64

record vdisk =
  desc :: "vdesc list"
  avail_idx :: u16
  avail_ring :: "u16 list"
  used_dev_idx :: u16
  used_ring :: "u32 list"
  dfree :: "bool list"
  used_idx :: u16
  info_b :: "nat option list"
  info_status :: "u8 list"
  ops :: "blkreq list"
  b_disk :: "nat \<Rightarrow> bool"
  d_desc :: u64
  d_avail :: u64
  d_used :: u64

record vdst = filest +
  vd :: vdisk
  mmio_dev :: "nat \<Rightarrow> nat \<Rightarrow> u32"
  mmio_reads :: nat
  mmio_writes :: "(nat \<times> u32) list"

definition mmio_read :: "nat \<Rightarrow> 'z vdst_scheme \<Rightarrow> u32 \<times> 'z vdst_scheme" where
  "mmio_read r s = (mmio_dev s (mmio_reads s) r, s\<lparr>mmio_reads := Suc (mmio_reads s)\<rparr>)"

definition mmio_write :: "nat \<Rightarrow> u32 \<Rightarrow> 'z vdst_scheme \<Rightarrow> 'z vdst_scheme" where
  "mmio_write r v s = s\<lparr>mmio_writes := mmio_writes s @ [(r, v)]\<rparr>"

definition upd_vd :: "(vdisk \<Rightarrow> vdisk) \<Rightarrow> 'z vdst_scheme \<Rightarrow> 'z vdst_scheme" where
  "upd_vd f s = s\<lparr>vd := f (vd s)\<rparr>"

subsection \<open>Descriptors\<close>

definition alloc_desc :: "vdisk \<Rightarrow> nat option \<times> vdisk" where
  "alloc_desc v =
     (case find (\<lambda>i. dfree v ! i) [0..<NUM] of
        Some i \<Rightarrow> (Some i, v\<lparr>dfree := (dfree v)[i := False]\<rparr>)
      | None \<Rightarrow> (None, v))"

definition free_desc :: "nat \<Rightarrow> 'z vdst_scheme \<Rightarrow> 'z vdst_scheme kres" where
  "free_desc i s =
     (if i \<ge> NUM then Inl (Panic ''free_desc 1'')
      else if dfree (vd s) ! i then Inl (Panic ''free_desc 2'')
      else wakeup ChDiskFree (upd_vd (\<lambda>v. v\<lparr>
        desc := (desc v)[i := \<lparr>d_addr = ANull, d_len = 0, d_flags = 0, d_next = 0\<rparr>],
        dfree := (dfree v)[i := True]\<rparr>) s))"

text \<open>
  A chain that does not repeat a descriptor has at most eight; freeing one twice panics, so the loop
  cannot run longer than nine rounds.
\<close>

primrec free_chain_loop :: "nat \<Rightarrow> nat \<Rightarrow> 'z vdst_scheme \<Rightarrow> 'z vdst_scheme kres" where
  "free_chain_loop 0 i s = Inl Diverges"
| "free_chain_loop (Suc fuel) i s =
     (let flag = d_flags (desc (vd s) ! i); follow = unat (d_next (desc (vd s) ! i)) in
      and_then (free_desc i s) (\<lambda>s.
      if flag AND VRING_DESC_F_NEXT \<noteq> 0 then free_chain_loop fuel follow s else Inr s))"

definition free_chain :: "nat \<Rightarrow> 'z vdst_scheme \<Rightarrow> 'z vdst_scheme kres" where
  "free_chain i s = free_chain_loop (Suc NUM) i s"

text \<open>Three descriptors, or none: what was taken is given back.\<close>

primrec alloc_descs :: "nat \<Rightarrow> nat list \<Rightarrow> 'z vdst_scheme \<Rightarrow> (nat list option \<times> 'z vdst_scheme) kres" where
  "alloc_descs 0 idx s = Inr (Some idx, s)"
| "alloc_descs (Suc k) idx s =
     (case alloc_desc (vd s) of
        (Some i, v) \<Rightarrow> alloc_descs k (idx @ [i]) (s\<lparr>vd := v\<rparr>)
      | (None, v) \<Rightarrow> and_then (for_each free_desc idx (s\<lparr>vd := v\<rparr>)) (\<lambda>s. Inr (None, s)))"

definition alloc3_desc :: "'z vdst_scheme \<Rightarrow> (nat list option \<times> 'z vdst_scheme) kres" where
  "alloc3_desc s = alloc_descs 3 [] s"

subsection \<open>Requests\<close>

text \<open>The descriptors, the request header and the ring entry of a request.\<close>

definition submit :: "nat \<Rightarrow> u32 \<Rightarrow> bool \<Rightarrow> nat \<Rightarrow> nat \<Rightarrow> nat \<Rightarrow> vdisk \<Rightarrow> vdisk" where
  "submit b bn write i0 i1 i2 v =
     (let v = v\<lparr>ops := (ops v)[i0 := \<lparr>req_type = if write then VIRTIO_BLK_T_OUT else VIRTIO_BLK_T_IN,
                reserved = 0, sector = ucast bn * 2\<rparr>]\<rparr>;
          v = v\<lparr>desc := (desc v)[i0 := \<lparr>d_addr = AOp i0, d_len = 16, d_flags = VRING_DESC_F_NEXT,
                d_next = of_nat i1\<rparr>]\<rparr>;
          v = v\<lparr>desc := (desc v)[i1 := \<lparr>d_addr = ABuf b, d_len = of_nat BSIZE,
                d_flags = (if write then 0 else VRING_DESC_F_WRITE) OR VRING_DESC_F_NEXT, d_next = of_nat i2\<rparr>]\<rparr>;
          v = v\<lparr>info_status := (info_status v)[i0 := 0xff]\<rparr>;
          v = v\<lparr>desc := (desc v)[i2 := \<lparr>d_addr = AStatus i0, d_len = 1, d_flags = VRING_DESC_F_WRITE, d_next = 0\<rparr>]\<rparr>;
          v = v\<lparr>b_disk := (b_disk v)(b := True)\<rparr>;
          v = v\<lparr>info_b := (info_b v)[i0 := Some b]\<rparr>;
          v = v\<lparr>avail_ring := (avail_ring v)[unat (avail_idx v) mod NUM := of_nat i0]\<rparr>
      in v\<lparr>avail_idx := avail_idx v + 1\<rparr>)"

definition rw_submit :: "nat \<Rightarrow> bool \<Rightarrow> 'z vdst_scheme \<Rightarrow> (nat \<times> 'z vdst_scheme) kres" where
  "rw_submit b write s = and_then (acquire LDisk s) (\<lambda>s.
     and_then (alloc3_desc s) (\<lambda>(r, s).
     case r of
       None \<Rightarrow> sleep ChDiskFree LDisk s
     | Some idx \<Rightarrow>
         let s = upd_vd (submit b (blockno (bufs s b)) write (idx ! 0) (idx ! 1) (idx ! 2)) s in
         Inr (idx ! 0, mmio_write 0x50 0 s)))"

definition rw_finish :: "nat \<Rightarrow> 'z vdst_scheme \<Rightarrow> 'z vdst_scheme kres" where
  "rw_finish i0 s =
     and_then (free_chain i0 (upd_vd (\<lambda>v. v\<lparr>info_b := (info_b v)[i0 := None]\<rparr>) s)) (\<lambda>s.
     release LDisk s)"

text \<open>The whole routine on one hart: while the request is in flight it sleeps on the buffer.\<close>

definition virtio_disk_rw :: "nat \<Rightarrow> bool \<Rightarrow> 'z vdst_scheme \<Rightarrow> 'z vdst_scheme kres" where
  "virtio_disk_rw b write s = and_then (rw_submit b write s) (\<lambda>(i0, s).
     if b_disk (vd s) b then sleep (ChDiskBuf b) LDisk s else rw_finish i0 s)"

text \<open>Every round takes one entry of the used ring.\<close>

primrec intr_loop :: "nat \<Rightarrow> 'z vdst_scheme \<Rightarrow> 'z vdst_scheme kres" where
  "intr_loop 0 s = (if used_idx (vd s) \<noteq> used_dev_idx (vd s) then Inl Diverges else Inr s)"
| "intr_loop (Suc fuel) s =
     (if used_idx (vd s) \<noteq> used_dev_idx (vd s)
      then
        let i = unat (used_ring (vd s) ! (unat (used_idx (vd s)) mod NUM)) in
        if i \<ge> NUM then Inl Undefined
        else if info_status (vd s) ! i \<noteq> 0 then Inl (Panic ''virtio_disk_intr status'')
        else case info_b (vd s) ! i of
          None \<Rightarrow> Inl Undefined
        | Some b \<Rightarrow> and_then (wakeup (ChDiskBuf b) (upd_vd (\<lambda>v. v\<lparr>b_disk := (b_disk v)(b := False)\<rparr>) s)) (\<lambda>s.
            intr_loop fuel (upd_vd (\<lambda>v. v\<lparr>used_idx := used_idx v + 1\<rparr>) s))
      else Inr s)"

definition virtio_disk_intr :: "'z vdst_scheme \<Rightarrow> 'z vdst_scheme kres" where
  "virtio_disk_intr s = and_then (acquire LDisk s) (\<lambda>s.
     let (st, s) = mmio_read 0x60 s; s = mmio_write 0x64 (st AND 3) s in
     and_then (intr_loop (unat (used_dev_idx (vd s) - used_idx (vd s))) s) (\<lambda>s.
     release LDisk s))"

subsection \<open>Initialisation\<close>

definition disk_present :: "'z vdst_scheme \<Rightarrow> bool \<times> 'z vdst_scheme" where
  "disk_present s =
     (let (a, s) = mmio_read 0 s in if a \<noteq> 0x74726976 then (False, s) else
      let (a, s) = mmio_read 4 s in if a \<noteq> 2 then (False, s) else
      let (a, s) = mmio_read 8 s in if a \<noteq> 2 then (False, s) else
      let (a, s) = mmio_read 0xc s in (a = 0x554d4551, s))"

text \<open>The feature bits the driver turns down: RO, SCSI, CONFIG\_WCE, MQ, ANY\_LAYOUT, EVENT\_IDX, INDIRECT\_DESC.\<close>

definition accept_features :: "u32 \<Rightarrow> u32" where
  "accept_features f = foldl (\<lambda>f k. f AND NOT (push_bit k 1)) f [5, 7, 11, 12, 27, 29, 28]"

definition virtio_disk_init :: "'z vdst_scheme \<Rightarrow> 'z vdst_scheme kres" where
  "virtio_disk_init s =
     (let (ok, s) = disk_present (initlock LDisk ''virtio_disk'' s) in
      if \<not> ok then Inl (Panic ''could not find virtio disk'')
      else
        let s = mmio_write 0x70 3 (mmio_write 0x70 1 (mmio_write 0x70 0 s));
            (f, s) = mmio_read 0x10 s;
            s = mmio_write 0x70 11 (mmio_write 0x20 (accept_features f) s);
            (status, s) = mmio_read 0x70 s in
        if status AND 8 = 0 then Inl (Panic ''virtio disk FEATURES_OK unset'')
        else
          let (rdy, s) = mmio_read 0x44 (mmio_write 0x30 0 s) in
          if rdy \<noteq> 0 then Inl (Panic ''virtio disk should not be ready'')
          else
            let (mx, s) = mmio_read 0x34 s in
            if mx = 0 then Inl (Panic ''virtio disk has no queue 0'')
            else if mx < of_nat NUM then Inl (Panic ''virtio disk max queue too short'')
            else and_then (kalloc s) (\<lambda>(pd, s). and_then (kalloc s) (\<lambda>(pa, s). and_then (kalloc s) (\<lambda>(pu, s).
              if pd = 0 \<or> pa = 0 \<or> pu = 0 then Inl (Panic ''virtio disk kalloc'')
              else
                let s = s\<lparr>mem := memset pu 0 4096 (memset pa 0 4096 (memset pd 0 4096 (mem s)))\<rparr>;
                    s = upd_vd (\<lambda>v. v\<lparr>d_desc := pd, d_avail := pa, d_used := pu,
                      desc := replicate NUM \<lparr>d_addr = ANull, d_len = 0, d_flags = 0, d_next = 0\<rparr>,
                      avail_idx := 0, avail_ring := replicate NUM 0,
                      used_dev_idx := 0, used_ring := replicate NUM 0\<rparr>) s;
                    s = mmio_write 0x38 (of_nat NUM) s;
                    s = mmio_write 0x84 (ucast (drop_bit 32 pd)) (mmio_write 0x80 (ucast pd) s);
                    s = mmio_write 0x94 (ucast (drop_bit 32 pa)) (mmio_write 0x90 (ucast pa) s);
                    s = mmio_write 0xa4 (ucast (drop_bit 32 pu)) (mmio_write 0xa0 (ucast pu) s);
                    s = mmio_write 0x44 1 s;
                    s = upd_vd (dfree_update (\<lambda>_. replicate NUM True)) s
                in Inr (mmio_write 0x70 (status OR 4) s)))))"

subsection \<open>Lock operations leave the driver alone\<close>

lemma vdst_acquired [simp]:
  "vd (acquired l s) = vd s"
  "mmio_dev (acquired l s) = mmio_dev s"
  "mmio_reads (acquired l s) = mmio_reads s"
  "mmio_writes (acquired l s) = mmio_writes s"
  by (simp_all add: acquired_def machine_defs)

lemma vdst_crit [simp]:
  "vd (crit s) = vd s"
  "mmio_dev (crit s) = mmio_dev s"
  "mmio_reads (crit s) = mmio_reads s"
  "mmio_writes (crit s) = mmio_writes s"
  by (simp_all add: crit_def machine_defs)

lemma vdst_initlock [simp]:
  "vd (initlock l nm s) = vd s"
  "mmio_dev (initlock l nm s) = mmio_dev s"
  "mmio_reads (initlock l nm s) = mmio_reads s"
  "mmio_writes (initlock l nm s) = mmio_writes s"
  by (simp_all add: initlock_def)

lemma release_vdst_upd [simp]:
  "release l (s\<lparr>vd := x0\<rparr>) = map_sum id (\<lambda>t. t\<lparr>vd := x0\<rparr>) (release l s)"
  "release l (s\<lparr>mmio_dev := x1\<rparr>) = map_sum id (\<lambda>t. t\<lparr>mmio_dev := x1\<rparr>) (release l s)"
  "release l (s\<lparr>mmio_reads := x2\<rparr>) = map_sum id (\<lambda>t. t\<lparr>mmio_reads := x2\<rparr>) (release l s)"
  "release l (s\<lparr>mmio_writes := x3\<rparr>) = map_sum id (\<lambda>t. t\<lparr>mmio_writes := x3\<rparr>) (release l s)"
  by (simp_all add: release_unfold)

lemma acquire_vdst_upd [simp]:
  "acquire l (s\<lparr>vd := x0\<rparr>) = map_sum id (\<lambda>t. t\<lparr>vd := x0\<rparr>) (acquire l s)"
  "acquire l (s\<lparr>mmio_dev := x1\<rparr>) = map_sum id (\<lambda>t. t\<lparr>mmio_dev := x1\<rparr>) (acquire l s)"
  "acquire l (s\<lparr>mmio_reads := x2\<rparr>) = map_sum id (\<lambda>t. t\<lparr>mmio_reads := x2\<rparr>) (acquire l s)"
  "acquire l (s\<lparr>mmio_writes := x3\<rparr>) = map_sum id (\<lambda>t. t\<lparr>mmio_writes := x3\<rparr>) (acquire l s)"
  by (simp_all add: acquire_unfold)

lemma acquired_vdst_upd [simp]:
  "acquired l (s\<lparr>vd := x0\<rparr>) = (acquired l s)\<lparr>vd := x0\<rparr>"
  "acquired l (s\<lparr>mmio_dev := x1\<rparr>) = (acquired l s)\<lparr>mmio_dev := x1\<rparr>"
  "acquired l (s\<lparr>mmio_reads := x2\<rparr>) = (acquired l s)\<lparr>mmio_reads := x2\<rparr>"
  "acquired l (s\<lparr>mmio_writes := x3\<rparr>) = (acquired l s)\<lparr>mmio_writes := x3\<rparr>"
  by (simp_all add: acquired_def machine_defs)

lemma crit_vdst_upd [simp]:
  "crit (s\<lparr>vd := x0\<rparr>) = (crit s)\<lparr>vd := x0\<rparr>"
  "crit (s\<lparr>mmio_dev := x1\<rparr>) = (crit s)\<lparr>mmio_dev := x1\<rparr>"
  "crit (s\<lparr>mmio_reads := x2\<rparr>) = (crit s)\<lparr>mmio_reads := x2\<rparr>"
  "crit (s\<lparr>mmio_writes := x3\<rparr>) = (crit s)\<lparr>mmio_writes := x3\<rparr>"
  by (simp_all add: crit_def machine_defs)

lemma lock_free_vdst_upd [simp]:
  "lock_free l (s\<lparr>vd := x0\<rparr>) = lock_free l s"
  "lock_free l (s\<lparr>mmio_dev := x1\<rparr>) = lock_free l s"
  "lock_free l (s\<lparr>mmio_reads := x2\<rparr>) = lock_free l s"
  "lock_free l (s\<lparr>mmio_writes := x3\<rparr>) = lock_free l s"
  by (simp_all add: lock_free_def)

lemma cpu_ok_vdst_upd [simp]:
  "cpu_ok (s\<lparr>vd := x0\<rparr>) = cpu_ok s"
  "cpu_ok (s\<lparr>mmio_dev := x1\<rparr>) = cpu_ok s"
  "cpu_ok (s\<lparr>mmio_reads := x2\<rparr>) = cpu_ok s"
  "cpu_ok (s\<lparr>mmio_writes := x3\<rparr>) = cpu_ok s"
  by (simp_all add: cpu_ok_def machine_defs)

lemma mycpu_vdst_upd [simp]:
  "mycpu (s\<lparr>vd := x0\<rparr>) = mycpu s"
  "mycpu (s\<lparr>mmio_dev := x1\<rparr>) = mycpu s"
  "mycpu (s\<lparr>mmio_reads := x2\<rparr>) = mycpu s"
  "mycpu (s\<lparr>mmio_writes := x3\<rparr>) = mycpu s"
  by (simp_all add: mycpu_def)

lemma my_pid_vdst_upd [simp]:
  "my_pid (s\<lparr>vd := x0\<rparr>) = my_pid s"
  "my_pid (s\<lparr>mmio_dev := x1\<rparr>) = my_pid s"
  "my_pid (s\<lparr>mmio_reads := x2\<rparr>) = my_pid s"
  "my_pid (s\<lparr>mmio_writes := x3\<rparr>) = my_pid s"
  by (simp_all add: my_pid_def split: option.split)

lemma procs_free_vdst_upd [simp]:
  "procs_free (s\<lparr>vd := x0\<rparr>) = procs_free s"
  "procs_free (s\<lparr>mmio_dev := x1\<rparr>) = procs_free s"
  "procs_free (s\<lparr>mmio_reads := x2\<rparr>) = procs_free s"
  "procs_free (s\<lparr>mmio_writes := x3\<rparr>) = procs_free s"
  by (simp_all add: procs_free_def)

end
