(* ===== verification/Syscall.thy ===== *)
theory Syscall
  imports Virtio
begin

section \<open>Process system calls and the dispatcher (kernel/rust\_proc.rs, kernel/rust\_syscall.rs)\<close>

text \<open>
  The tick counter, the system calls on processes, and \<open>syscall\<close>, which runs the one whose number is
  in \<open>a7\<close> and puts its result into \<open>a0\<close>.
\<close>

abbreviation SBRK_EAGER :: int where "SBRK_EAGER \<equiv> 1"

record sysst = vdst +
  ticks :: u32

definition sys_exit :: "'z filest_scheme \<Rightarrow> (u64 \<times> 'z filest_scheme) kres" where
  "sys_exit s = and_then (argint 0 s) (\<lambda>(n, s). kexit (of_int n) s)"

definition sys_getpid :: "'z ptable_scheme \<Rightarrow> (u64 \<times> 'z ptable_scheme) kres" where
  "sys_getpid s = and_then (curproc s) (\<lambda>(p, s). Inr (scast (pid (procs s p)), s))"

definition sys_fork :: "ldsyms \<Rightarrow> 'z filest_scheme \<Rightarrow> (u64 \<times> 'z filest_scheme) kres" where
  "sys_fork ld s = and_then (kfork ld s) (\<lambda>(n, s). Inr (scast n, s))"

definition sys_wait :: "'z ptable_scheme \<Rightarrow> (u64 \<times> 'z ptable_scheme) kres" where
  "sys_wait s = and_then (argaddr 0 s) (\<lambda>(a, s). and_then (kwait a s) (\<lambda>(n, s). Inr (scast n, s)))"

definition sys_sbrk :: "'z ptable_scheme \<Rightarrow> (u64 \<times> 'z ptable_scheme) kres" where
  "sys_sbrk s = and_then (argint 0 s) (\<lambda>(n, s). and_then (argint 1 s) (\<lambda>(t, s).
     and_then (curproc s) (\<lambda>(p, s).
     let addr = sz (procs s p) in
     if t = SBRK_EAGER \<or> n < 0
     then and_then (growproc n s) (\<lambda>(ok, s). Inr (if ok then addr else - 1, s))
     else if unat addr + nat n \<ge> 2 ^ 64 then Inr (- 1, s)
     else if addr + of_int n > TRAPFRAME then Inr (- 1, s)
     else Inr (addr, upd_proc p (sz_update (\<lambda>_. addr + of_int n)) s))))"

text \<open>The waiting loop of \<open>sys_pause\<close>, with the tick lock held.\<close>

definition pause_until :: "u32 \<Rightarrow> int \<Rightarrow> 'z sysst_scheme \<Rightarrow> (u64 \<times> 'z sysst_scheme) kres" where
  "pause_until ticks0 n s =
     (if ticks s - ticks0 < of_int n
      then and_then (curproc s) (\<lambda>(p, s). and_then (killed p s) (\<lambda>(k, s).
        if k \<noteq> 0 then and_then (release LTicks s) (\<lambda>s. Inr (- 1, s))
        else sleep ChTicks LTicks s))
      else and_then (release LTicks s) (\<lambda>s. Inr (0, s)))"

definition sys_pause :: "'z sysst_scheme \<Rightarrow> (u64 \<times> 'z sysst_scheme) kres" where
  "sys_pause s = and_then (argint 0 s) (\<lambda>(n, s).
     let n = (if n < 0 then 0 else n) in
     and_then (acquire LTicks s) (\<lambda>s. pause_until (ticks s) n s))"

definition sys_kill :: "'z ptable_scheme \<Rightarrow> (u64 \<times> 'z ptable_scheme) kres" where
  "sys_kill s = and_then (argint 0 s) (\<lambda>(n, s).
     and_then (kkill (of_int n) s) (\<lambda>(ok, s). Inr (if ok then 0 else - 1, s)))"

definition sys_uptime :: "'z sysst_scheme \<Rightarrow> (u64 \<times> 'z sysst_scheme) kres" where
  "sys_uptime s = and_then (acquire LTicks s) (\<lambda>s.
     let x = ticks s in and_then (release LTicks s) (\<lambda>s. Inr (ucast x, s)))"

text \<open>The table \<open>SYSCALLS\<close>.\<close>

definition syscalls :: "ldsyms \<Rightarrow> ('z sysst_scheme \<Rightarrow> (u64 \<times> 'z sysst_scheme) kres) option list" where
  "syscalls ld = [None, Some (sys_fork ld), Some sys_exit, Some sys_wait, Some sys_pipe, Some sys_read,
     Some sys_kill, Some (sys_exec ld), Some sys_fstat, Some sys_chdir, Some sys_dup, Some sys_getpid,
     Some sys_sbrk, Some sys_pause, Some sys_uptime, Some sys_open, Some sys_write, Some sys_mknod,
     Some sys_unlink, Some sys_link, Some sys_mkdir, Some sys_close]"

definition syscall :: "ldsyms \<Rightarrow> 'z sysst_scheme \<Rightarrow> 'z sysst_scheme kres" where
  "syscall ld s = and_then (curproc s) (\<lambda>(p, s).
     let tf = trapframe (procs s p); num = sint (ucast (tf_get tf TF_A7 s) :: u32); tab = syscalls ld in
     case (if num > 0 \<and> nat num < length tab then tab ! nat num else None) of
       Some f \<Rightarrow> and_then (f s) (\<lambda>(r, s). Inr (tf_set tf TF_A0 r s))
     | None \<Rightarrow>
         and_then (printf (\<lambda>_. name_of (pname (procs s p))) (map of_char ''%d %s: unknown sys call %d'' @ [10])
           [scast (pid (procs s p)), 1, of_int num] s) (\<lambda>s.
         Inr (tf_set tf TF_A0 (- 1) s)))"

end
