(* ===== verification/Trap.thy ===== *)
theory Trap
  imports Syscall
begin

unbundle bit_operations_syntax

section \<open>Traps, interrupts and start-up (kernel/rust\_trap.rs, rust\_plic.rs, rust\_main.rs)\<close>

text \<open>
  Each hart's trap registers are a record \<open>csr\<close>; its \<open>sstatus.SIE\<close> bit is \<open>sie\<close> of the machine,
  \<open>spp\<close> and \<open>spie\<close> are the other two bits the code uses.  The claim register of the interrupt
  controller and the \<open>time\<close> register are environments: the value of their n-th read.
\<close>

abbreviation SCAUSE_SEXT :: u64 where "SCAUSE_SEXT \<equiv> 0x8000000000000009"
abbreviation SCAUSE_STIMER :: u64 where "SCAUSE_STIMER \<equiv> 0x8000000000000005"
abbreviation TIMER_INTERVAL :: u64 where "TIMER_INTERVAL \<equiv> 1000000"
abbreviation UART0_IRQ :: u32 where "UART0_IRQ \<equiv> 10"
abbreviation VIRTIO0_IRQ :: u32 where "VIRTIO0_IRQ \<equiv> 1"

record csr =
  spp :: bool
  spie :: bool
  sepc :: u64
  scause :: u64
  stval :: u64
  stvec :: u64
  stimecmp :: u64

record trapst = sysst +
  csrs :: "nat \<Rightarrow> csr"
  time_dev :: "nat \<Rightarrow> u64"
  time_reads :: nat
  plic_dev :: "nat \<Rightarrow> u32"
  plic_reads :: nat
  plic_writes :: "(u64 \<times> u32) list"
  forkret_first :: bool
  started :: bool

definition mycsr :: "'z trapst_scheme \<Rightarrow> csr" where
  "mycsr s = csrs s (hart s)"

definition upd_csr :: "(csr \<Rightarrow> csr) \<Rightarrow> 'z trapst_scheme \<Rightarrow> 'z trapst_scheme" where
  "upd_csr f s = s\<lparr>csrs := (csrs s)(hart s := f (mycsr s))\<rparr>"

definition r_time :: "'z trapst_scheme \<Rightarrow> u64 \<times> 'z trapst_scheme" where
  "r_time s = (time_dev s (time_reads s), s\<lparr>time_reads := Suc (time_reads s)\<rparr>)"

definition kprint :: "string \<Rightarrow> u64 list \<Rightarrow> 'z uartst_scheme \<Rightarrow> 'z uartst_scheme kres" where
  "kprint fmt args s = printf (\<lambda>_. []) (map of_char fmt @ [10]) args s"

subsection \<open>The interrupt controller\<close>

definition plic_priority_reg :: "u64 \<Rightarrow> u64" where
  "plic_priority_reg irq = PLIC + irq * 4"

definition plic_senable_reg :: "nat \<Rightarrow> u64" where
  "plic_senable_reg h = PLIC + 0x2080 + of_nat h * 0x100"

definition plic_spriority_reg :: "nat \<Rightarrow> u64" where
  "plic_spriority_reg h = PLIC + 0x201000 + of_nat h * 0x2000"

definition plic_sclaim_reg :: "nat \<Rightarrow> u64" where
  "plic_sclaim_reg h = PLIC + 0x201004 + of_nat h * 0x2000"

definition plic_write :: "u64 \<Rightarrow> u32 \<Rightarrow> 'z trapst_scheme \<Rightarrow> 'z trapst_scheme" where
  "plic_write a v s = s\<lparr>plic_writes := plic_writes s @ [(a, v)]\<rparr>"

definition plicinit :: "'z trapst_scheme \<Rightarrow> 'z trapst_scheme" where
  "plicinit s = plic_write (plic_priority_reg 1) 1 (plic_write (plic_priority_reg 10) 1 s)"

definition plicinithart :: "'z trapst_scheme \<Rightarrow> 'z trapst_scheme" where
  "plicinithart s = plic_write (plic_spriority_reg (hart s)) 0
     (plic_write (plic_senable_reg (hart s)) (push_bit 10 1 OR push_bit 1 1) s)"

definition plic_claim :: "'z trapst_scheme \<Rightarrow> u32 \<times> 'z trapst_scheme" where
  "plic_claim s = (plic_dev s (plic_reads s), s\<lparr>plic_reads := Suc (plic_reads s)\<rparr>)"

definition plic_complete :: "u32 \<Rightarrow> 'z trapst_scheme \<Rightarrow> 'z trapst_scheme" where
  "plic_complete irq s = plic_write (plic_sclaim_reg (hart s)) irq s"

subsection \<open>Interrupts\<close>

definition trapinit :: "'z trapst_scheme \<Rightarrow> 'z trapst_scheme" where
  "trapinit s = initlock LTicks ''time'' s"

definition trapinithart :: "ldsyms \<Rightarrow> 'z trapst_scheme \<Rightarrow> 'z trapst_scheme" where
  "trapinithart ld s = upd_csr (stvec_update (\<lambda>_. ld_kernelvec ld)) s"

definition clockintr :: "'z trapst_scheme \<Rightarrow> 'z trapst_scheme kres" where
  "clockintr s =
     and_then (if hart s = 0
       then and_then (acquire LTicks s) (\<lambda>s.
         and_then (wakeup ChTicks (s\<lparr>ticks := ticks s + 1\<rparr>)) (\<lambda>s. release LTicks s))
       else Inr s) (\<lambda>s.
     let (t, s) = r_time s in Inr (upd_csr (stimecmp_update (\<lambda>_. t + TIMER_INTERVAL)) s))"

definition devintr :: "'z trapst_scheme \<Rightarrow> (int \<times> 'z trapst_scheme) kres" where
  "devintr s =
     (if scause (mycsr s) = SCAUSE_SEXT
      then
        let (irq, s) = plic_claim s in
        and_then (if irq = UART0_IRQ then uartintr s
          else if irq = VIRTIO0_IRQ then virtio_disk_intr s
          else if irq \<noteq> 0 then kprint ''unexpected interrupt irq=%d'' [scast irq] s
          else Inr s) (\<lambda>s.
        Inr (1, if irq \<noteq> 0 then plic_complete irq s else s))
      else if scause (mycsr s) = SCAUSE_STIMER then and_then (clockintr s) (\<lambda>s. Inr (2, s))
      else Inr (0, s))"

subsection \<open>Traps\<close>

definition prepare_return :: "ldsyms \<Rightarrow> 'z trapst_scheme \<Rightarrow> 'z trapst_scheme kres" where
  "prepare_return ld s = and_then (myproc s) (\<lambda>(p, s).
     case p of
       None \<Rightarrow> Inl (Panic ''prepare_return: no proc'')
     | Some i \<Rightarrow>
         let s = intr_off s;
             s = upd_csr (stvec_update (\<lambda>_. TRAMPOLINE + (ld_uservec ld - ld_trampoline ld))) s;
             tf = trapframe (procs s i);
             s = tf_set tf TF_KERNEL_SATP (satp s (hart s)) s;
             s = tf_set tf TF_KERNEL_SP (kstack (procs s i) + PGSIZE) s;
             s = tf_set tf TF_KERNEL_TRAP (ld_usertrap ld) s;
             s = tf_set tf TF_KERNEL_HARTID (of_nat (hart s)) s;
             s = upd_csr (\<lambda>c. c\<lparr>spp := False, spie := True\<rparr>) s
         in Inr (upd_csr (sepc_update (\<lambda>_. tf_get tf TF_EPC s)) s))"

definition usertrap_dispatch :: "ldsyms \<Rightarrow> nat \<Rightarrow> u64 \<Rightarrow> u64 \<Rightarrow> 'z trapst_scheme \<Rightarrow> (int \<times> 'z trapst_scheme) kres" where
  "usertrap_dispatch ld p cause tval s =
     (let tf = trapframe (procs s p); pt = pagetable (procs s p) in
      if cause = 8
      then and_then (killed p s) (\<lambda>(k, s).
        if k \<noteq> 0 then kexit (- 1) s
        else and_then (syscall ld (intr_on (tf_set tf TF_EPC (tf_get tf TF_EPC s + 4) s))) (\<lambda>s. Inr (0, s)))
      else and_then (devintr s) (\<lambda>(which_dev, s).
        if which_dev \<noteq> 0 then Inr (which_dev, s)
        else and_then (if cause = 15 \<or> cause = 13 then vmfault pt tval (cause = 15) s else Inr (0, s)) (\<lambda>(pa, s).
          if pa \<noteq> 0 then Inr (0, s)
          else and_then (kprint ''usertrap(): unexpected scause 0x%lx pid=%d'' [cause, scast (pid (procs s p))] s) (\<lambda>s.
            and_then (kprint ''            sepc=0x%lx stval=0x%lx'' [tf_get tf TF_EPC s, tval] s) (\<lambda>s.
            and_then (setkilled p s) (\<lambda>s. Inr (0, s)))))))"

definition usertrap_return :: "ldsyms \<Rightarrow> nat \<Rightarrow> 'z trapst_scheme \<Rightarrow> (u64 \<times> 'z trapst_scheme) kres" where
  "usertrap_return ld p s = and_then (prepare_return ld s) (\<lambda>s. Inr (make_satp (pagetable (procs s p)), s))"

definition usertrap :: "ldsyms \<Rightarrow> 'z trapst_scheme \<Rightarrow> (u64 \<times> 'z trapst_scheme) kres" where
  "usertrap ld s =
     (if spp (mycsr s) then Inl (Panic ''usertrap: not from user mode'')
      else
        let s = upd_csr (stvec_update (\<lambda>_. ld_kernelvec ld)) s in
        and_then (myproc s) (\<lambda>(p, s).
        case p of
          None \<Rightarrow> Inl (Panic ''usertrap: no proc'')
        | Some p \<Rightarrow>
            let s = tf_set (trapframe (procs s p)) TF_EPC (sepc (mycsr s)) s in
            and_then (usertrap_dispatch ld p (scause (mycsr s)) (stval (mycsr s)) s) (\<lambda>(which_dev, s).
            and_then (killed p s) (\<lambda>(k, s).
            if k \<noteq> 0 then kexit (- 1) s
            else if which_dev = 2 then yield s
            else usertrap_return ld p s))))"

definition kerneltrap_dispatch :: "u64 \<Rightarrow> u64 \<Rightarrow> u64 \<Rightarrow> 'z trapst_scheme \<Rightarrow> (int \<times> 'z trapst_scheme) kres" where
  "kerneltrap_dispatch cause epc tval s = and_then (devintr s) (\<lambda>(which_dev, s).
     if which_dev = 0
     then and_then (kprint ''scause=0x%lx sepc=0x%lx stval=0x%lx'' [cause, epc, tval] s) (\<lambda>s.
       Inl (Panic ''kerneltrap''))
     else Inr (which_dev, s))"

definition kerneltrap :: "'z trapst_scheme \<Rightarrow> 'z trapst_scheme kres" where
  "kerneltrap s =
     (let c = mycsr s; ie = intr_get s in
      if \<not> spp c then Inl (Panic ''kerneltrap: not from supervisor mode'')
      else if ie then Inl (Panic ''kerneltrap: interrupts enabled'')
      else and_then (kerneltrap_dispatch (scause c) (sepc c) (stval c) s) (\<lambda>(which_dev, s).
        and_then (if which_dev = 2
          then and_then (myproc s) (\<lambda>(p, s). if p \<noteq> None then yield s else Inr s)
          else Inr s) (\<lambda>s.
        let s = upd_csr (\<lambda>d. d\<lparr>sepc := sepc c, spp := spp c, spie := spie c\<rparr>) s in
        Inr (s\<lparr>sie := (sie s)(hart s := ie)\<rparr>))))"

text \<open>
  \<open>forkret\<close> of rust\_proc.rs, where a new process starts: the address and the \<open>satp\<close> value it jumps
  to the trampoline with.
\<close>

definition init_path :: "u8 list" where
  "init_path = [47, 105, 110, 105, 116]"

definition forkret :: "ldsyms \<Rightarrow> 'z trapst_scheme \<Rightarrow> ((u64 \<times> u64) \<times> 'z trapst_scheme) kres" where
  "forkret ld s = and_then (curproc s) (\<lambda>(p, s).
     and_then (release (LProc p) s) (\<lambda>s.
     and_then (if forkret_first s
       then and_then (fsinit ROOTDEV s) (\<lambda>s.
         let s = s\<lparr>forkret_first := False\<rparr> in
         and_then (kexec ld init_path [init_path] s) (\<lambda>(r, s).
         let s = tf_set (trapframe (procs s p)) TF_A0 (of_int r) s in
         if tf_get (trapframe (procs s p)) TF_A0 s = - 1 then Inl (Panic ''exec'') else Inr s))
       else Inr s) (\<lambda>s.
     and_then (prepare_return ld s) (\<lambda>s.
     Inr ((TRAMPOLINE + (ld_userret ld - ld_trampoline ld), make_satp (pagetable (procs s p))), s)))))"

subsection \<open>Start-up (kernel/rust\_main.rs)\<close>

text \<open>\<open>main\<close> up to its call of \<open>scheduler\<close>; a hart other than 0 waits until hart 0 is done.\<close>

definition print_string :: "string \<Rightarrow> 'z uartst_scheme \<Rightarrow> 'z uartst_scheme kres" where
  "print_string str s = print_chars (map (\<lambda>c. of_char c) str) s"

definition main_boot :: "ldsyms \<Rightarrow> u64 \<Rightarrow> 'z trapst_scheme \<Rightarrow> 'z trapst_scheme kres" where
  "main_boot ld etext s =
     (if hart s = 0
      then
        let s = initlock LMain ''main-print'' (printfinit (consoleinit s)) in
        and_then (acquire LMain s) (\<lambda>s.
        and_then (print_chars [10] s) (\<lambda>s.
        and_then (print_string ''xv6 kernel is booting'' s) (\<lambda>s.
        and_then (print_chars [10, 10] s) (\<lambda>s.
        and_then (release LMain s) (\<lambda>s.
        and_then (case kinit s of None \<Rightarrow> Inl Diverges | Some r \<Rightarrow> r) (\<lambda>s.
        and_then (kvminit etext (ld_trampoline ld) s) (\<lambda>s.
        let s = iinit (binit (plicinithart (plicinit (trapinithart ld (trapinit (procinit (kvminithart s)))))));
            s = fileinit s in
        and_then (virtio_disk_init s) (\<lambda>s.
        and_then (userinit ld s) (\<lambda>s.
        Inr (s\<lparr>started := True\<rparr>))))))))))
      else if \<not> started s then Inl Diverges
      else and_then (acquire LMain s) (\<lambda>s.
        and_then (print_string ''hart '' s) (\<lambda>s.
        and_then (rust_printint (of_nat (hart s)) 10 True s) (\<lambda>s.
        and_then (print_string '' starting'' s) (\<lambda>s.
        and_then (print_chars [10] s) (\<lambda>s.
        and_then (release LMain s) (\<lambda>s.
        Inr (plicinithart (trapinithart ld (kvminithart s))))))))))"

end
