(* ===== verification/Filebytes.thy ===== *)
theory Filebytes
  imports Txn
begin

section \<open>Inodes on disk and the bytes of a file\<close>

text \<open>
  Two refinements of the block layer.  An on-disk inode is a record stored at an offset of its block:
  \<open>iupdate\<close> stores it and \<open>ilock\<close> loads it.  A file is an array of bytes spread over blocks through
  the block map: \<open>readi\<close> reads a range of the array and \<open>writei\<close> replaces one.
\<close>

subsection \<open>The dinode encoding\<close>

lemma length_put_words: "off + 4 * length ws \<le> length x \<Longrightarrow> length (put_words x off ws) = length x"
  by (induction ws arbitrary: x off) simp_all

lemma getw_put_words_other:
  "off + 4 * length ws \<le> length x \<Longrightarrow> o' + m \<le> length x \<Longrightarrow> o' + m \<le> off \<or> off + 4 * length ws \<le> o' \<Longrightarrow>
     getw m (put_words x off ws) o' = (getw m x o' :: 'a::len word)"
proof (induction ws arbitrary: x off)
  case (Cons w ws)
  then have "getw m (put_words (putw 4 x off w) (off + 4) ws) o' = (getw m (putw 4 x off w) o' :: 'a word)"
    by (intro Cons.IH) auto
  then show ?case using Cons.prems by (auto simp: getw_putw_other)
qed simp

lemma getw_put_words:
  "off + 4 * length ws \<le> length x \<Longrightarrow> j < length ws \<Longrightarrow> getw 4 (put_words x off ws) (off + 4 * j) = ws ! j"
proof (induction ws arbitrary: x off j)
  case (Cons w ws)
  show ?case
  proof (cases j)
    case 0
    have "getw 4 (put_words (putw 4 x off w) (off + 4) ws) off = (getw 4 (putw 4 x off w) off :: u32)"
      using Cons.prems by (intro getw_put_words_other) auto
    then show ?thesis using 0 Cons.prems by (simp add: getw_putw_same)
  next
    case (Suc i)
    have "getw 4 (put_words (putw 4 x off w) (off + 4) ws) (off + 4 + 4 * i) = ws ! i"
      using Cons.prems Suc by (intro Cons.IH) auto
    then show ?thesis using Suc by (simp add: add.assoc)
  qed
qed simp

lemma length_put_dinode:
  "off + 64 \<le> length x \<Longrightarrow> length (addrs ip) = 13 \<Longrightarrow> length (put_dinode x off ip) = length x"
  by (simp add: put_dinode_def length_put_words)

text \<open>The on-disk part of an inode.\<close>

definition same_dinode :: "inode \<Rightarrow> inode \<Rightarrow> bool" where
  "same_dinode k ip \<longleftrightarrow> itype k = itype ip \<and> major k = major ip \<and> minor k = minor ip \<and> nlink k = nlink ip \<and>
     isize k = isize ip \<and> addrs k = addrs ip"

lemma get_put_dinode:
  assumes "off + 64 \<le> length x" "length (addrs ip) = 13"
  shows "same_dinode (get_dinode (put_dinode x off ip) off k) ip"
proof -
  define y where "y = putw 4 (putw 2 (putw 2 (putw 2 (putw 2 x off (itype ip)) (off + 2) (major ip)) (off + 4) (minor ip))
    (off + 6) (nlink ip)) (off + 8) (isize ip)"
  have ly: "length y = length x" using assms(1) by (simp add: y_def)
  have p: "put_dinode x off ip = put_words y (off + 12) (addrs ip)" by (simp add: put_dinode_def y_def Let_def)
  have low: "getw 2 (put_words y (off + 12) (addrs ip)) (off + j) = (getw 2 y (off + j) :: u16)" if "j + 2 \<le> 12" for j
    using that assms ly by (intro getw_put_words_other) auto
  have low4: "getw 4 (put_words y (off + 12) (addrs ip)) (off + 8) = (getw 4 y (off + 8) :: u32)"
    using assms ly by (intro getw_put_words_other) auto
  have "map (\<lambda>j. getw 4 (put_words y (off + 12) (addrs ip)) (off + 12 + 4 * j)) [0..<NDIRECT + 1] = addrs ip"
    using assms ly by (intro nth_equalityI) (simp_all add: getw_put_words del: upt_Suc)
  then show ?thesis
    using low [of 0] low [of 2] low [of 4] low [of 6] low4 assms(1)
    by (simp add: same_dinode_def get_dinode_def p y_def getw_putw_same getw_putw_other del: upt_Suc)
qed

lemma get_put_dinode_other:
  assumes "off + 64 \<le> length x" "off' + 64 \<le> length x" "length (addrs ip) = 13" "off' + 64 \<le> off \<or> off + 64 \<le> off'"
  shows "get_dinode (put_dinode x off ip) off' k = get_dinode x off' k"
proof -
  have 2: "getw 2 (put_dinode x off ip) (off' + j) = (getw 2 x (off' + j) :: u16)" if "j + 2 \<le> 64" for j
    using that assms by (auto simp: put_dinode_def Let_def getw_put_words_other getw_putw_other)
  have 4: "getw 4 (put_dinode x off ip) (off' + j) = (getw 4 x (off' + j) :: u32)" if "j + 4 \<le> 64" for j
    using that assms by (auto simp: put_dinode_def Let_def getw_put_words_other getw_putw_other)
  show ?thesis
    using 2 [of 0] 2 [of 2] 2 [of 4] 2 [of 6] 4 [of 8]
    by (simp add: get_dinode_def add.assoc 4 cong: map_cong del: upt_Suc)
qed

subsection \<open>Storing and loading an inode\<close>

text \<open>The on-disk inode \<open>n\<close>, as \<open>ilock\<close> would load it into the table entry \<open>k\<close>.\<close>

definition dinode :: "u32 \<Rightarrow> 'z fsst_scheme \<Rightarrow> inode \<Rightarrow> inode" where
  "dinode n s k = get_dinode (blk (iblock n s) s) (dinode_ptr n) k"

lemma dinode_ptr_bounds: "dinode_ptr n + 64 \<le> BSIZE" "n mod IPB \<noteq> m mod IPB \<Longrightarrow> dinode_ptr n + 64 \<le> dinode_ptr m \<or> dinode_ptr m + 64 \<le> dinode_ptr n"
proof -
  have lt: "unat (n mod IPB) < 16" for n :: u32 by (simp add: unat_mod)
  from lt [of n] show "dinode_ptr n + 64 \<le> BSIZE" by (simp add: dinode_ptr_def)
  assume "n mod IPB \<noteq> m mod IPB"
  then have "unat (n mod IPB) < unat (m mod IPB) \<or> unat (m mod IPB) < unat (n mod IPB)"
    by (metis linorder_neqE_nat word_unat_eq_iff)
  then show "dinode_ptr n + 64 \<le> dinode_ptr m \<or> dinode_ptr m + 64 \<le> dinode_ptr n"
    by (auto simp: dinode_ptr_def)
qed

lemma iblock_slot: "iblock n s = iblock m s \<Longrightarrow> n mod IPB = m mod IPB \<Longrightarrow> n = (m :: u32)"
proof -
  assume "iblock n s = iblock m s" "n mod IPB = m mod IPB"
  then have "unat n div 16 = unat m div 16" "unat n mod 16 = unat m mod 16"
    using unat_div [of n IPB] unat_div [of m IPB] unat_mod [of n IPB] unat_mod [of m IPB] by (simp_all add: iblock_def)
  then have "unat n = unat m" by (metis div_mult_mod_eq)
  then show "n = m" by (simp add: word_unat_eq_iff)
qed

lemma iupdate_spec:
  assumes "txn H (Suc k) s" "idev (inodes s i) = ROOTDEV" "length (addrs (inodes s i)) = 13"
    and "iblock (inum (inodes s i)) s \<notin> held_blocks H s"
  shows "\<exists>t. iupdate i s = Inr t \<and> txn H k t \<and> log_calm s t \<and> held_blocks H t = held_blocks H s \<and>
    (\<forall>y. y \<noteq> iblock (inum (inodes s i)) s \<longrightarrow> blk y t = blk y s) \<and>
    (\<forall>j. same_dinode (dinode (inum (inodes s i)) t j) (inodes s i)) \<and>
    (\<forall>n j. n \<noteq> inum (inodes s i) \<longrightarrow> dinode n t j = dinode n s j)"
proof -
  let ?ip = "inodes s i"
  let ?n = "inum ?ip"
  let ?bn = "iblock ?n s" and ?off = "dinode_ptr ?n"
  note len = length_blk [OF assms(1)]
  have off: "?off + 64 \<le> length (blk ?bn s)" using dinode_ptr_bounds(1) len by simp
  obtain b t u v where m: "bread ROOTDEV ?bn s = Inr (b, t)" "data (bufs t b) = blk ?bn s" "calm s t"
    "log_write b (set_data b (put_dinode (blk ?bn s) ?off ?ip) t) = Inr u" "brelse b u = Inr v" "log_calm s v" "txn H k v"
    "\<forall>y. blk y v = (if y = ?bn then put_dinode (blk ?bn s) ?off ?ip else blk y s)" "held_blocks H v = held_blocks H s"
    using txn_modify [OF assms(1,4), of "\<lambda>x. put_dinode x ?off ?ip"] length_put_dinode [OF off assms(3)] len by auto
  have run: "iupdate i s = Inr v"
    using m(1,2,4,5) assms(2) calm_fs [OF m(3)] by (simp add: iupdate_def)
  have ib: "iblock n v = iblock n s" for n using log_calmD(2) [OF m(6)] by (simp add: iblock_def)
  have "same_dinode (dinode ?n v j) ?ip" for j
    using m(8) get_put_dinode [OF off assms(3)] by (simp add: dinode_def ib)
  moreover have "dinode n v j = dinode n s j" if "n \<noteq> ?n" for n j
  proof (cases "iblock n s = ?bn")
    case True
    then have "n mod IPB \<noteq> ?n mod IPB" using that iblock_slot by blast
    then have "get_dinode (put_dinode (blk ?bn s) ?off ?ip) (dinode_ptr n) j = get_dinode (blk ?bn s) (dinode_ptr n) j"
      using dinode_ptr_bounds len assms(3) off by (intro get_put_dinode_other) auto
    then show ?thesis using m(8) True by (simp add: dinode_def ib)
  next
    case False
    then show ?thesis using m(8) by (simp add: dinode_def ib)
  qed
  ultimately show ?thesis using m(6-9) run by auto
qed

lemma txn_lock_inode:
  assumes "txn H k s"
  shows "txn H k ((crit s)\<lparr>slocks := (slocks s)(SInode i := x)\<rparr>)" "blk y ((crit s)\<lparr>slocks := (slocks s)(SInode i := x)\<rparr>) = blk y s"
proof -
  show "blk y ((crit s)\<lparr>slocks := (slocks s)(SInode i := x)\<rparr>) = blk y s" by (simp add: view_def cached_def split: option.split)
  show "txn H k ((crit s)\<lparr>slocks := (slocks s)(SInode i := x)\<rparr>)"
    using assms by (auto simp: txn_def log_inv_def pin_inv_def bc_inv_def bc_locks_def bc_data_def logged_def pinned_def cached_def)
qed

lemma txn_inodes [simp]: "txn H k (s\<lparr>inodes := x\<rparr>) = txn H k s" "held_blocks H (s\<lparr>inodes := x\<rparr>) = held_blocks H s"
  by (simp_all add: txn_def log_inv_def pin_inv_def logged_def pinned_def held_blocks_def)

lemma txn_cpu: "txn H k s \<Longrightarrow> cpu_ok s \<and> procs_free s"
  using bc_invD(2,3) [OF log_invD(1) [OF txnD(1)]] by blast

lemma get_dinode_key [simp]: "idev (get_dinode x off k) = idev k" "inum (get_dinode x off k) = inum k" "iref (get_dinode x off k) = iref k"
  by (simp_all add: get_dinode_def)

lemma ilock_spec:
  assumes "txn H (Suc k) s" "lock_free (LInode i) s" "sl_locked (slocks s (SInode i)) = 0"
    and "1 \<le> iref (inodes s i)" "\<not> ivalid (inodes s i)" "idev (inodes s i) = ROOTDEV"
    and "iblock (inum (inodes s i)) s \<notin> held_blocks H s"
  shows "if itype (dinode (inum (inodes s i)) s (inodes s i)) = 0 then ilock (Some i) s = Inl (Panic ''ilock: no type'')
    else \<exists>t. ilock (Some i) s = Inr t \<and> txn H (Suc k) t \<and> (\<forall>y. blk y t = blk y s) \<and>
      inodes t = (inodes s)(i := (dinode (inum (inodes s i)) s (inodes s i))\<lparr>ivalid := True\<rparr>)"
proof -
  let ?ip = "inodes s i"
  let ?n = "inum ?ip"
  let ?bn = "iblock ?n s" and ?d = "dinode ?n s ?ip"
  define a where "a = (crit s)\<lparr>slocks := (slocks s)(SInode i := (slocks s (SInode i))\<lparr>sl_locked := 1, sl_pid := my_pid s\<rparr>)\<rparr>"
  have acq: "acquiresleep (SInode i) s = Inr a"
    using acquiresleep_free [of s "SInode i"] assms(2,3) txn_cpu [OF assms(1)] by (simp add: a_def)
  have a: "txn H (Suc k) a" "\<And>y. blk y a = blk y s" "inodes a = inodes s" "sb a = sb s"
    using txn_lock_inode [OF assms(1)] by (simp_all add: a_def)
  have ha: "held_blocks H a = held_blocks H s" by (simp add: a_def held_blocks_def)
  obtain b t where t: "bread ROOTDEV ?bn a = Inr (b, t)" "calm a t" "txn (insert b H) k t" "b \<notin> H"
      "blockno (bufs t b) = ?bn" "data (bufs t b) = blk ?bn a" "\<forall>x. blk x t = blk x a"
    using txn_read [OF a(1)] assms(7) ha by fastforce
  have tf: "inodes t = inodes s" "sb t = sb s" using calm_fs [OF t(2)] a(3,4) by simp_all
  define t' where "t' = upd_inode i (get_dinode (data (bufs t b)) (dinode_ptr ?n)) t"
  have t': "txn (insert b H) k t'" "bufs t' = bufs t" "disk t' = disk t" "logged t' = logged t" "\<And>x. blk x t' = blk x t"
    "inodes t' = (inodes s)(i := ?d)"
    using t(3) tf t(6) a(2) by (simp_all add: t'_def upd_inode_def logged_def dinode_def)
  have "data (bufs t' b) = disk t' (blockno (bufs t' b)) \<or> blockno (bufs t' b) \<in> logged t'"
    using view_clean [OF txnD(2) [OF a(1)], of ?bn] assms(7) ha t(5,6) calmD(2) [OF t(2)] calm_log(7) [OF t(2)] t'(2-4)
    by auto
  then obtain u where u: "brelse b t' = Inr u" "calm t' u" "txn H (Suc k) u" "\<forall>x. blk x u = blk x t'"
    using txn_release [OF t'(1) t(4)] by blast
  have iu: "inodes u = (inodes s)(i := ?d)" using calm_fs [OF u(2)] t'(6) by simp
  have "ilock (Some i) s = (if itype ?d = 0 then Inl (Panic ''ilock: no type'')
      else Inr (u\<lparr>inodes := (inodes s)(i := ?d\<lparr>ivalid := True\<rparr>)\<rparr>))"
    using assms(4-6) acq a(3,4) t(1) tf u(1) iu
    by (simp add: ilock_def t'_def upd_inode_def iblock_def Let_def)
  moreover have "txn H (Suc k) (u\<lparr>inodes := x\<rparr>)" "blk y (u\<lparr>inodes := x\<rparr>) = blk y s" for x y
    using u(3,4) t'(5) t(7) a(2) by simp_all
  ultimately show ?thesis by auto
qed

text \<open>
  C16: an inode written with \<open>iupdate\<close> reads back: any later \<open>ilock\<close> of a table entry for the same
  inode number, on the same blocks, loads the type, device numbers, link count, size and block addresses that
  were stored.  No other inode on the disk changes, and no block but the inode's.
\<close>

theorem inode_roundtrip:
  assumes "txn {} (Suc k) s" "idev (inodes s i) = ROOTDEV" "length (addrs (inodes s i)) = 13" "itype (inodes s i) \<noteq> 0"
  shows "\<exists>t. iupdate i s = Inr t \<and> txn {} k t \<and> inodes t = inodes s \<and>
    (\<forall>y. y \<noteq> iblock (inum (inodes s i)) s \<longrightarrow> blk y t = blk y s) \<and>
    (\<forall>n j. n \<noteq> inum (inodes s i) \<longrightarrow> dinode n t j = dinode n s j) \<and>
    (\<forall>(u :: 'z fsst_scheme) j. txn {} (Suc 0) u \<longrightarrow> sb u = sb t \<longrightarrow> (\<forall>y. blk y u = blk y t) \<longrightarrow> lock_free (LInode j) u \<longrightarrow>
       sl_locked (slocks u (SInode j)) = 0 \<longrightarrow> 1 \<le> iref (inodes u j) \<longrightarrow> \<not> ivalid (inodes u j) \<longrightarrow>
       idev (inodes u j) = ROOTDEV \<longrightarrow> inum (inodes u j) = inum (inodes s i) \<longrightarrow>
       (\<exists>v. ilock (Some j) u = Inr v \<and> same_dinode (inodes v j) (inodes s i)))"
proof -
  let ?n = "inum (inodes s i)"
  obtain t where t: "iupdate i s = Inr t" "txn {} k t" "log_calm s t" "\<forall>y. y \<noteq> iblock ?n s \<longrightarrow> blk y t = blk y s"
    "\<forall>j. same_dinode (dinode ?n t j) (inodes s i)" "\<forall>n j. n \<noteq> ?n \<longrightarrow> dinode n t j = dinode n s j"
    using iupdate_spec [OF assms(1-3)] by auto
  have "\<exists>v. ilock (Some j) u = Inr v \<and> same_dinode (inodes v j) (inodes s i)"
    if u: "txn {} (Suc 0) u" "sb u = sb t" "\<forall>y. blk y u = blk y t" "lock_free (LInode j) u" "sl_locked (slocks u (SInode j)) = 0"
      "1 \<le> iref (inodes u j)" "\<not> ivalid (inodes u j)" "idev (inodes u j) = ROOTDEV" "inum (inodes u j) = ?n" for u :: "'z fsst_scheme" and j
  proof -
    have d: "dinode ?n u k = dinode ?n t k" for k using u(2,3) by (simp add: dinode_def iblock_def)
    have sd: "same_dinode (dinode ?n u (inodes u j)) (inodes s i)" using t(5) d by simp
    then have "itype (dinode ?n u (inodes u j)) \<noteq> 0" using assms(4) by (simp add: same_dinode_def)
    then obtain v where "ilock (Some j) u = Inr v" "inodes v = (inodes u)(j := (dinode ?n u (inodes u j))\<lparr>ivalid := True\<rparr>)"
      using ilock_spec [OF u(1,4-8)] u(9) by auto
    then show ?thesis using sd by (auto simp: same_dinode_def)
  qed
  then show ?thesis using t log_calmD(1) [OF t(3)] by auto
qed

theorem inode_roundtrip_witness:
  "\<exists>t. iupdate 3 (demo_fs\<lparr>inodes := \<lambda>_. demo_inode\<lparr>idev := ROOTDEV, inum := 17, itype := T_FILE, isize := 5\<rparr>\<rparr>) = Inr t \<and>
     (\<forall>n j. n \<noteq> 17 \<longrightarrow> dinode n t j = dinode n demo_fs j)"
proof -
  let ?s = "demo_fs\<lparr>inodes := \<lambda>_. demo_inode\<lparr>idev := ROOTDEV, inum := 17, itype := T_FILE, isize := 5\<rparr>\<rparr>"
  have "txn {} (Suc 0) ?s" using demo_fs_txn [of 1] by simp
  from inode_roundtrip [OF this, of 3] have
    "\<exists>t. iupdate 3 ?s = Inr t \<and> (\<forall>n j. n \<noteq> 17 \<longrightarrow> dinode n t j = dinode n ?s j)"
    by (auto simp: demo_inode_def)
  moreover have "dinode n ?s j = dinode n demo_fs j" for n j by (simp add: dinode_def iblock_def)
  ultimately show ?thesis by auto
qed

subsection \<open>A file as an array of bytes\<close>

text \<open>The address of block \<open>b\<close> of a file, 0 when it has none, and the byte at position \<open>p\<close>.\<close>

definition fblk :: "nat \<Rightarrow> nat \<Rightarrow> 'z fsst_scheme \<Rightarrow> u32" where
  "fblk i b s =
     (if b < NDIRECT then addrs (inodes s i) ! b
      else if addrs (inodes s i) ! NDIRECT = 0 then 0
      else getw 4 (blk (addrs (inodes s i) ! NDIRECT) s) (4 * (b - NDIRECT)))"

definition fbyte :: "nat \<Rightarrow> 'z fsst_scheme \<Rightarrow> nat \<Rightarrow> u8" where
  "fbyte i s p = blk (fblk i (p div BSIZE) s) s ! (p mod BSIZE)"

definition contents :: "nat \<Rightarrow> 'z fsst_scheme \<Rightarrow> u8 list" where
  "contents i s = map (fbyte i s) [0..<unat (isize (inodes s i))]"

definition mapped :: "nat \<Rightarrow> 'z fsst_scheme \<Rightarrow> bool" where
  "mapped i s \<longleftrightarrow> idev (inodes s i) = ROOTDEV \<and> length (addrs (inodes s i)) = 13 \<and>
     unat (isize (inodes s i)) \<le> MAXFILE * BSIZE \<and> (\<forall>b. b * BSIZE < unat (isize (inodes s i)) \<longrightarrow> fblk i b s \<noteq> 0)"

lemma fblk_cong:
  assumes "inodes t i = inodes s i" "\<forall>y. blk y t = blk y s"
  shows "fblk i b t = fblk i b s" "fbyte i t p = fbyte i s p" "contents i t = contents i s" "mapped i t = mapped i s"
proof -
  show 1: "fblk i b t = fblk i b s" for b using assms by (simp add: fblk_def)
  show 2: "fbyte i t p = fbyte i s p" for p using assms(2) by (simp add: fbyte_def 1)
  show "contents i t = contents i s" "mapped i t = mapped i s" using assms(1) by (simp_all add: contents_def mapped_def 1 2)
qed

lemma bmap_mapped:
  assumes "txn {} (Suc k) s" "idev (inodes s i) = ROOTDEV" "fblk i (unat bn) s \<noteq> 0" "unat bn < MAXFILE"
  shows "\<exists>t. bmap i bn s = Inr (fblk i (unat bn) s, t) \<and> calm s t \<and> txn {} (Suc k) t \<and> (\<forall>y. blk y t = blk y s)"
proof (cases "unat bn < NDIRECT")
  case True
  then show ?thesis using assms by (auto simp: bmap_def fblk_def)
next
  case False
  then have j: "unat (bn - 12) = unat bn - NDIRECT" by (simp add: unat_sub word_le_nat_alt not_less)
  have ind: "addrs (inodes s i) ! NDIRECT \<noteq> 0" "fblk i (unat bn) s = getw 4 (blk (addrs (inodes s i) ! NDIRECT) s) (4 * unat (bn - 12))"
    using False assms(3) j by (auto simp: fblk_def split: if_splits)
  obtain b t u where t: "bread ROOTDEV (addrs (inodes s i) ! NDIRECT) s = Inr (b, t)" "calm s t"
    "data (bufs t b) = blk (addrs (inodes s i) ! NDIRECT) s" "brelse b t = Inr u" "calm s u" "txn {} (Suc k) u" "\<forall>y. blk y u = blk y s"
    using txn_peek [OF assms(1)] by fastforce
  have "unat (bn - 12) < NINDIRECT" using assms(4) False j by simp
  then have "bmap i bn s = Inr (fblk i (unat bn) s, u)"
    using False assms(2,3) ind t(1,3,4) by (simp add: bmap_def Let_def)
  then show ?thesis using t by auto
qed

lemma txn_crit: "txn H k s \<Longrightarrow> txn H k (crit s)" "blk y (crit s) = blk y s"
proof -
  show "blk y (crit s) = blk y s" by (simp add: view_def split: option.split)
  show "txn H k s \<Longrightarrow> txn H k (crit s)"
    by (auto simp: txn_def log_inv_def pin_inv_def bc_inv_def bc_locks_def bc_data_def logged_def pinned_def)
qed

lemma chunk_bytes:
  assumes "length (blk (fblk i (o' div BSIZE) s) s) = BSIZE" "m \<le> BSIZE - o' mod BSIZE"
  shows "take m (drop (o' mod BSIZE) (blk (fblk i (o' div BSIZE) s) s)) = map (fbyte i s) [o'..<o' + m]"
proof (rule nth_equalityI)
  show "length (take m (drop (o' mod BSIZE) (blk (fblk i (o' div BSIZE) s) s))) = length (map (fbyte i s) [o'..<o' + m])"
    using assms by simp
  fix j assume "j < length (take m (drop (o' mod BSIZE) (blk (fblk i (o' div BSIZE) s) s)))"
  then have j: "j < m" by simp
  have "o' = o' div BSIZE * BSIZE + o' mod BSIZE" by simp
  then have "o' + j = o' div BSIZE * BSIZE + (o' mod BSIZE + j)" by linarith
  moreover have "o' mod BSIZE + j < BSIZE" using j assms(2) by simp
  ultimately have "(o' + j) div BSIZE = o' div BSIZE" "(o' + j) mod BSIZE = o' mod BSIZE + j"
    by (metis div_mult_self3 div_less add.right_neutral zero_neq_numeral, metis mod_mult_self3 mod_less)
  then show "take m (drop (o' mod BSIZE) (blk (fblk i (o' div BSIZE) s) s)) ! j = map (fbyte i s) [o'..<o' + m] ! j"
    using j assms by (simp add: fbyte_def)
qed

lemma unat_chunk:
  assumes "tot < (n :: u32)"
  shows "unat (min_u (n - tot) (1024 - off mod 1024)) = min (unat n - unat tot) (BSIZE - unat off mod BSIZE)"
    "0 < min (unat n - unat tot) (BSIZE - unat off mod BSIZE)"
proof -
  have "unat (n - tot) = unat n - unat tot" using assms by (simp add: unat_sub word_le_nat_alt word_less_nat_alt)
  moreover have "off mod 1024 \<le> 1024" by (simp add: word_le_nat_alt unat_mod)
  then have "unat (1024 - off mod 1024) = BSIZE - unat off mod BSIZE" by (simp add: unat_sub unat_mod)
  ultimately show "unat (min_u (n - tot) (1024 - off mod 1024)) = min (unat n - unat tot) (BSIZE - unat off mod BSIZE)"
    by (auto simp: min_u_def min_def word_less_nat_alt)
  show "0 < min (unat n - unat tot) (BSIZE - unat off mod BSIZE)" using assms by (simp add: word_less_nat_alt)
qed

lemma sint_small: "unat (x :: u32) < 2 ^ 31 \<Longrightarrow> sint x = int (unat x)"
proof -
  assume "unat x < 2 ^ 31"
  then have "int (unat x) < int (2 ^ 31)" by (simp only: of_nat_less_iff)
  then have "uint x < 2 ^ 31" by simp
  moreover have "- (2 ^ 31) \<le> uint x" using uint_ge_0 [of x] by (rule order_trans [rotated]) simp
  ultimately have "signed_take_bit 31 (uint x) = uint x" by (intro signed_take_bit_int_eq_self)
  then show ?thesis by (simp add: sint_uint)
qed

text \<open>The counters of both loops after a chunk.\<close>

lemma chunk_step:
  assumes "tot < (n :: u32)" "unat off + (unat n - unat tot) < 2 ^ 32"
  defines "m \<equiv> min_u (n - tot) (1024 - off mod 1024)"
  shows "unat (tot + m) = unat tot + unat m" "unat (off + m) = unat off + unat m" "tot + m \<le> n" "0 < unat m"
    "unat m \<le> unat n - unat tot" "unat m \<le> BSIZE - unat off mod BSIZE"
    "unat (off + m) + (unat n - unat (tot + m)) = unat off + (unat n - unat tot)"
proof -
  note m = unat_chunk [OF assms(1), of off, folded m_def]
  show m1: "0 < unat m" "unat m \<le> unat n - unat tot" "unat m \<le> BSIZE - unat off mod BSIZE" using m by auto
  have lt: "unat tot < unat n" using assms(1) by (simp add: word_less_nat_alt)
  then have "unat tot + unat m < 2 ^ 32" "unat off + unat m < 2 ^ 32"
    using assms(2) unat_u32_less [of n] m1 by linarith+
  then show tm: "unat (tot + m) = unat tot + unat m" "unat (off + m) = unat off + unat m"
    by (simp_all add: unat_word_ariths(1))
  show "tot + m \<le> n" using m1 lt by (simp add: word_le_nat_alt tm)
  show "unat (off + m) + (unat n - unat (tot + m)) = unat off + (unat n - unat tot)" using m1 lt by (simp add: tm)
qed

text \<open>One round of \<open>readi\<close>: the bytes of one block.\<close>

lemma read_chunk:
  assumes "txn {} (Suc k) s" "mapped i s" "tot < n" "unat off + (unat n - unat tot) \<le> unat (isize (inodes s i))"
  defines "m \<equiv> min_u (n - tot) (1024 - off mod 1024)"
  shows "\<exists>t. readi_loop (Suc fuel) i ToLocal off n tot out s =
      readi_loop fuel i ToLocal (off + m) n (tot + m) (out @ map (fbyte i s) [unat off..<unat off + unat m]) t \<and>
    calm s t \<and> txn {} (Suc k) t \<and> (\<forall>y. blk y t = blk y s)"
proof -
  note m = unat_chunk [OF assms(3), of off, folded m_def]
  have bn: "unat (off div 1024) = unat off div BSIZE" by (simp add: unat_div)
  have lt: "unat off div BSIZE * BSIZE < unat (isize (inodes s i))"
  proof -
    have "unat off div BSIZE * BSIZE \<le> unat off" by simp
    then show ?thesis using assms(3,4) unfolding word_less_nat_alt by linarith
  qed
  then have a: "fblk i (unat (off div 1024)) s \<noteq> 0" "unat (off div 1024) < MAXFILE" "idev (inodes s i) = ROOTDEV"
    using assms(2) bn by (auto simp: mapped_def)
  obtain s1 where s1: "bmap i (off div 1024) s = Inr (fblk i (unat (off div 1024)) s, s1)" "calm s s1" "txn {} (Suc k) s1"
    "\<forall>y. blk y s1 = blk y s"
    using bmap_mapped [OF assms(1) a(3,1,2)] by blast
  let ?a = "fblk i (unat (off div 1024)) s"
  obtain b t where t: "bread ROOTDEV ?a s1 = Inr (b, t)" "calm s1 t" "txn {b} k t" "blockno (bufs t b) = ?a"
    "data (bufs t b) = blk ?a s1" "\<forall>x. blk x t = blk x s1"
    using txn_read [OF s1(3)] by fastforce
  have cl: "data (bufs (crit t) b) = disk (crit t) (blockno (bufs (crit t) b)) \<or> blockno (bufs (crit t) b) \<in> logged (crit t)"
    using view_clean [OF txnD(2) [OF s1(3)], of ?a] t(4,5) calmD(2) [OF t(2)] calm_log(7) [OF t(2)] by (auto simp: logged_def)
  obtain u where u: "brelse b (crit t) = Inr u" "calm (crit t) u" "txn {} (Suc k) u" "\<forall>x. blk x u = blk x (crit t)"
    using txn_release [of b "{}" k "crit t"] txn_crit(1) [OF t(3)] cl by auto
  have "either_copyout ToLocal src t = Inr (True, crit t)" for src
    using txn_cpu [OF t(3)] by (simp add: either_copyout_def flow)
  moreover have "idev (inodes s1 i) = ROOTDEV" using calm_fs [OF s1(2)] a(3) by simp
  moreover have "take (unat m) (drop (unat (off mod 1024)) (blk ?a s)) = map (fbyte i s) [unat off..<unat off + unat m]"
    using chunk_bytes [of i "unat off" s "unat m"] length_blk [OF assms(1)] m bn by (simp add: unat_mod)
  ultimately have "readi_loop (Suc fuel) i ToLocal off n tot out s =
      readi_loop fuel i ToLocal (off + m) n (tot + m) (out @ map (fbyte i s) [unat off..<unat off + unat m]) u"
    using assms(3) s1 t(1,5) a(1) u(1) by (simp add: m_def [symmetric] Let_def)
  moreover have "calm s u" using calm_trans [OF calm_trans [OF calm_trans [OF s1(2) t(2)] calm_crit] u(2)] .
  moreover have "\<forall>y. blk y u = blk y s" using u(4) t(6) s1(4) by (simp add: txn_crit(2))
  ultimately show ?thesis using u(3) by blast
qed

lemma readi_loop_spec:
  assumes "txn {} (Suc k) s" "mapped i s" "tot \<le> n" "unat off + (unat n - unat tot) \<le> unat (isize (inodes s i))"
    and "unat n - unat tot \<le> fuel"
  shows "\<exists>t. readi_loop fuel i ToLocal off n tot out s =
      Inr ((sint n, out @ map (fbyte i s) [unat off..<unat off + (unat n - unat tot)]), t) \<and>
    calm s t \<and> txn {} (Suc k) t \<and> (\<forall>y. blk y t = blk y s)"
  using assms
proof (induction fuel arbitrary: s off tot out)
  case 0
  then have "tot = n" by (simp add: word_le_nat_alt word_unat_eq_iff)
  then show ?case using 0(1) by auto
next
  case (Suc fuel)
  show ?case
  proof (cases "tot = n")
    case True
    then show ?thesis using Suc.prems(1) by auto
  next
    case False
    then have lt: "tot < n" using Suc.prems(3) by simp
    define m where "m = min_u (n - tot) (1024 - off mod 1024)"
    have "unat off + (unat n - unat tot) < 2 ^ 32" using Suc.prems(4) unat_u32_less [of "isize (inodes s i)"] by linarith
    note m = chunk_step [OF lt this, folded m_def]
    obtain t where t: "readi_loop (Suc fuel) i ToLocal off n tot out s =
        readi_loop fuel i ToLocal (off + m) n (tot + m) (out @ map (fbyte i s) [unat off..<unat off + unat m]) t"
      "calm s t" "txn {} (Suc k) t" "\<forall>y. blk y t = blk y s"
      using read_chunk [OF Suc.prems(1,2) lt Suc.prems(4), of fuel out] unfolding m_def by blast
    have it: "inodes t = inodes s" using calm_fs [OF t(2)] by simp
    note cong = fblk_cong [of t i s, OF _ t(4)]
    obtain u where u: "readi_loop fuel i ToLocal (off + m) n (tot + m) (out @ map (fbyte i s) [unat off..<unat off + unat m]) t =
        Inr ((sint n, (out @ map (fbyte i s) [unat off..<unat off + unat m]) @
          map (fbyte i t) [unat (off + m)..<unat (off + m) + (unat n - unat (tot + m))]), u)"
      "calm t u" "txn {} (Suc k) u" "\<forall>y. blk y u = blk y t"
    proof -
      have "mapped i t" using cong(4) it Suc.prems(2) by simp
      moreover have "unat n - unat (tot + m) \<le> fuel" using m(1,4) Suc.prems(5) by linarith
      moreover have "unat (off + m) + (unat n - unat (tot + m)) \<le> unat (isize (inodes t i))"
        using m(7) Suc.prems(4) it by simp
      ultimately show thesis using Suc.IH [OF t(3)] m(3) that by blast
    qed
    have "map (fbyte i s) [unat off..<unat off + unat m] @ map (fbyte i t) [unat (off + m)..<unat (off + m) + (unat n - unat (tot + m))] =
        map (fbyte i s) [unat off..<unat off + (unat n - unat tot)]"
    proof -
      have "[unat off..<unat off + (unat n - unat tot)] =
          [unat off..<unat off + unat m] @ [unat off + unat m..<unat off + unat m + (unat n - unat tot - unat m)]"
      proof -
        have "unat off + (unat n - unat tot) = unat off + unat m + (unat n - unat tot - unat m)" using m(5) by simp
        then show ?thesis by (simp only: upt_add_eq_append [OF le_add1])
      qed
      moreover have "fbyte i t = fbyte i s" using cong(2) it by (simp add: fun_eq_iff)
      ultimately show ?thesis using m(1,2) by simp
    qed
    then show ?thesis using t u calm_trans [OF t(2) u(2)] by auto
  qed
qed

lemma readi_spec:
  fixes off n :: u32
  assumes "txn {} (Suc k) s" "mapped i s"
  defines "bs \<equiv> (if off + n < off then [] else take (unat n) (drop (unat off) (contents i s)))"
  shows "\<exists>t. readi i ToLocal off n s = Inr ((int (length bs), bs), t) \<and> calm s t \<and> txn {} (Suc k) t \<and> (\<forall>y. blk y t = blk y s)"
proof (cases "off > isize (inodes s i) \<or> off + n < off")
  case True
  then have "bs = []"
    by (auto simp: bs_def contents_def word_less_nat_alt)
  then show ?thesis using True assms(1) by (auto simp: readi_def)
next
  case False
  define n' where "n' = (if off + n > isize (inodes s i) then isize (inodes s i) - off else n)"
  have nw: "unat (off + n) = unat off + unat n" using False by (simp add: unat_plus_simple [symmetric] not_less)
  have le: "unat off \<le> unat (isize (inodes s i))" using False by (simp add: word_less_nat_alt not_less)
  have n': "unat n' = min (unat n) (unat (isize (inodes s i)) - unat off)"
    using le nw by (auto simp: n'_def min_def unat_sub word_le_nat_alt word_less_nat_alt)
  have in_file: "unat off + (unat n' - unat (0 :: u32)) \<le> unat (isize (inodes s i))" using n' le by simp
  from readi_loop_spec [OF assms(1,2) word_zero_le in_file, of "unat n'" "[]"] obtain t where t:
    "readi_loop (unat n') i ToLocal off n' 0 [] s = Inr ((sint n', map (fbyte i s) [unat off..<unat off + unat n']), t)"
    "calm s t" "txn {} (Suc k) t" "\<forall>y. blk y t = blk y s" by auto
  have "unat n' < 2 ^ 31" using n' assms(2) by (auto simp: mapped_def)
  then have "sint n' = int (unat n')" by (rule sint_small)
  moreover have bs: "map (fbyte i s) [unat off..<unat off + unat n'] = bs"
    using False le n' by (simp add: bs_def contents_def drop_map take_map min_def)
  moreover have "length bs = unat n'" using arg_cong [OF bs, of length] by simp
  ultimately show ?thesis using False t by (intro exI [of _ t]) (simp add: readi_def n'_def [symmetric] Let_def)
qed


text \<open>A file of two blocks, 47 and 46, in that order.\<close>

definition demo_file :: inode where
  "demo_file = demo_inode\<lparr>idev := ROOTDEV, inum := 17, iref := 1, ivalid := True, itype := T_FILE, nlink := 1, isize := 1030,
     addrs := [47, 46, 0, 0, 0, 0, 0, 0, 0, 0, 0, 0, 0]\<rparr>"

definition demo_file_fs :: fsst where
  "demo_file_fs = demo_fs\<lparr>inodes := \<lambda>_. demo_file\<rparr>"

lemma demo_file_txn: "k \<le> 30 \<Longrightarrow> txn {} k demo_file_fs"
  using demo_fs_txn by (simp add: demo_file_fs_def)

lemma demo_file_mapped: "mapped i demo_file_fs"
proof -
  have "fblk i b demo_file_fs \<noteq> 0" if "b * BSIZE < 1030" for b
  proof -
    have "b = 0 \<or> b = 1" using that by linarith
    then show ?thesis by (auto simp: fblk_def demo_file_fs_def demo_file_def)
  qed
  then show ?thesis by (auto simp: mapped_def demo_file_fs_def demo_file_def)
qed


end
