(* ===== verification/Filewrite.thy ===== *)
theory Filewrite
  imports Filebytes
begin

section \<open>Writing a file\<close>

text \<open>
  \<open>writei\<close> as an operation on the byte array of a file: blocks are allocated as the file grows, the
  array changes in the written range only, and no block of another file changes.
\<close>

subsection \<open>The block map and the allocator\<close>

text \<open>Bitmap and inode blocks; the allocator never hands them out because they are marked as in use.\<close>

definition meta :: "'z fsst_scheme \<Rightarrow> u32 set" where
  "meta s = (\<lambda>c. bblock c s) ` {..<sb_size (sb s)} \<union> (\<lambda>n. iblock n s) ` {..<ninodes (sb s)}"

definition alloc_ok :: "'z fsst_scheme \<Rightarrow> bool" where
  "alloc_ok s \<longleftrightarrow> bitmap_ok {} s \<and> meta s \<subseteq> used s \<and>
     (\<forall>c < sb_size (sb s). \<forall>n < ninodes (sb s). bblock c s \<noteq> iblock n s)"

definition file_ok :: "nat \<Rightarrow> 'z fsst_scheme \<Rightarrow> bool" where
  "file_ok i s \<longleftrightarrow> idev (inodes s i) = ROOTDEV \<and> length (addrs (inodes s i)) = 13 \<and> inum (inodes s i) < ninodes (sb s) \<and>
     (addrs (inodes s i) ! NDIRECT \<noteq> 0 \<longrightarrow> addrs (inodes s i) ! NDIRECT \<in> used s - meta s) \<and>
     (\<forall>b < MAXFILE. fblk i b s \<noteq> 0 \<longrightarrow> fblk i b s \<in> used s - meta s \<and> fblk i b s \<noteq> addrs (inodes s i) ! NDIRECT) \<and>
     (\<forall>b < MAXFILE. \<forall>c < MAXFILE. fblk i b s \<noteq> 0 \<longrightarrow> fblk i b s = fblk i c s \<longrightarrow> b = c)"

text \<open>The blocks of a file, its indirect block included.\<close>

definition own :: "nat \<Rightarrow> 'z fsst_scheme \<Rightarrow> u32 set" where
  "own i s = insert (addrs (inodes s i) ! NDIRECT) ((\<lambda>b. fblk i b s) ` {..<MAXFILE})"

text \<open>
  Growing a file: blocks in use that are neither the bitmap nor the file's indirect block keep their
  contents, and the file takes no block that was in use.
\<close>

definition kept :: "nat \<Rightarrow> 'z fsst_scheme \<Rightarrow> 'z fsst_scheme \<Rightarrow> bool" where
  "kept i s t \<longleftrightarrow> sb t = sb s \<and> mem t = mem s \<and> cproc (mycpu t) = cproc (mycpu s) \<and>
     (\<forall>q. pagetable (procs t q) = pagetable (procs s q)) \<and> used s \<subseteq> used t \<and>
     (\<exists>as. inodes t = (inodes s)(i := (inodes s i)\<lparr>addrs := as\<rparr>)) \<and> own i t \<inter> used s \<subseteq> own i s \<and>
     (\<forall>y \<in> used s. y \<notin> (\<lambda>c. bblock c s) ` {..<sb_size (sb s)} \<longrightarrow> y \<noteq> addrs (inodes s i) ! NDIRECT \<longrightarrow> blk y t = blk y s)"

lemma meta_cong: "sb t = sb s \<Longrightarrow> meta t = meta s"
  by (simp add: meta_def bblock_def iblock_def)

lemma alloc_ok_used: "alloc_ok s \<Longrightarrow> sb t = sb s \<Longrightarrow> used s \<subseteq> used t \<Longrightarrow> alloc_ok t"
  by (auto simp: alloc_ok_def bitmap_ok_def held_blocks_def meta_cong [of t s] bblock_cong [of t s])

lemma kept_log_calm:
  assumes "log_calm s t" "u = t\<lparr>inodes := (inodes s)(i := (inodes s i)\<lparr>addrs := as\<rparr>)\<rparr>" "used s \<subseteq> used t"
    and "\<forall>y \<in> used s. y \<notin> (\<lambda>c. bblock c s) ` {..<sb_size (sb s)} \<longrightarrow> y \<noteq> addrs (inodes s i) ! NDIRECT \<longrightarrow> blk y t = blk y s"
    and fb: "\<And>c. c < MAXFILE \<Longrightarrow> fblk i c u = (if c = bn \<and> a \<noteq> 0 then a else fblk i c s)"
    and new: "a \<noteq> 0 \<Longrightarrow> a \<notin> used s" "as ! NDIRECT = addrs (inodes s i) ! NDIRECT \<or> as ! NDIRECT \<notin> used s"
  shows "kept i s u"
proof -
  have "own i u \<inter> used s \<subseteq> own i s"
    using fb new assms(2) by (auto simp: own_def image_iff split: if_splits)
  moreover have "used u = used t" "\<And>y. blk y u = blk y t" by (simp_all add: assms(2) used_def bblock_def)
  ultimately show ?thesis using log_calmD [OF assms(1)] assms(2-4) by (auto simp: kept_def)
qed

lemma kept_refl: "kept i s s"
  by (auto simp: kept_def intro: exI [of _ "addrs (inodes s i)"])

lemma inodes_addrs: "inodes t = (inodes s)(i := (inodes s i)\<lparr>addrs := as\<rparr>) \<Longrightarrow> addrs (inodes t i) = as"
  by simp

text \<open>The effect of \<open>balloc\<close> followed by storing the address in the inode.\<close>

lemma balloc_new:
  assumes "txn {} (k + 2) s" "alloc_ok s"
  obtains a t where "balloc ROOTDEV s = Inr (a, t)" "txn {} k t" "log_calm s t" "alloc_ok t" "used s \<subseteq> used t"
    "a = 0 \<Longrightarrow> {..<sb_size (sb s)} \<subseteq> used s" "a = 0 \<Longrightarrow> calm s t \<and> (\<forall>y. blk y t = blk y s)"
    "a \<noteq> 0 \<Longrightarrow> a \<notin> used s" "a \<noteq> 0 \<Longrightarrow> a \<in> used t" "a \<noteq> 0 \<Longrightarrow> blk a t = replicate BSIZE 0"
    "\<forall>y \<in> used s. y \<notin> (\<lambda>c. bblock c s) ` {..<sb_size (sb s)} \<longrightarrow> blk y t = blk y s"
proof -
  have bo: "bitmap_ok {} s" and mu: "meta s \<subseteq> used s" using assms(2) by (simp_all add: alloc_ok_def)
  obtain a t where r: "balloc ROOTDEV s = Inr (a, t)" and p: "balloc_post {} k s a t"
    using balloc_spec [OF _ bo, of k] assms(1) by auto
  have cl: "log_calm s t" "txn {} k t" and sb: "sb t = sb s" using p log_calmD(2) by (auto simp: balloc_post_def)
  have ut: "used t = (if a = 0 then used s else insert a (used s))"
    using p bitmap_ok_cong(2) [OF sb, of "{}"] by (auto simp: balloc_post_def held_blocks_def)
  have "alloc_ok t"
    by (rule alloc_ok_used [OF assms(2) sb]) (simp add: ut subset_insertI)
  moreover have "\<forall>y \<in> used s. y \<notin> (\<lambda>c. bblock c s) ` {..<sb_size (sb s)} \<longrightarrow> blk y t = blk y s"
    using p by (auto simp: balloc_post_def split: if_splits)
  ultimately show thesis
    using that [OF r cl(2,1)] p ut by (auto simp: balloc_post_def split: if_splits)
qed

definition bmap_post :: "nat \<Rightarrow> nat \<Rightarrow> u32 \<Rightarrow> nat \<Rightarrow> 'z fsst_scheme \<Rightarrow> 'z fsst_scheme \<Rightarrow> bool" where
  "bmap_post i bn a k s t \<longleftrightarrow> txn {} k t \<and> alloc_ok t \<and> file_ok i t \<and> kept i s t \<and> fblk i bn t = a \<and>
     (\<forall>c < MAXFILE. fblk i c s \<noteq> 0 \<or> c \<noteq> bn \<longrightarrow> fblk i c t = fblk i c s) \<and> (a = 0 \<longrightarrow> {..<sb_size (sb s)} \<subseteq> used t)"

lemma file_ok_grow:
  assumes "file_ok i s" "alloc_ok s" "sb t = sb s" "used s \<subseteq> used t"
    and "inodes t = (inodes s)(i := (inodes s i)\<lparr>addrs := as\<rparr>)" "length as = 13"
    and fb: "\<And>c. c < MAXFILE \<Longrightarrow> fblk i c t = (if c = bn \<and> a \<noteq> 0 then a else fblk i c s)"
    and a: "a \<noteq> 0 \<Longrightarrow> a \<notin> used s \<and> a \<in> used t"
    and ind: "as ! NDIRECT = addrs (inodes s i) ! NDIRECT \<or> a = 0 \<and> as ! NDIRECT \<notin> used s \<and> as ! NDIRECT \<in> used t"
  shows "file_ok i t"
proof -
  have m: "meta t = meta s" "meta s \<subseteq> used s" using assms(2,3) meta_cong by (auto simp: alloc_ok_def)
  note f = assms(1) [unfolded file_ok_def]
  have ia: "addrs (inodes t i) = as" using assms(5) by simp
  have old: "fblk i c s \<in> used s - meta s \<and> fblk i c s \<noteq> addrs (inodes s i) ! NDIRECT" if "c < MAXFILE" "fblk i c s \<noteq> 0" for c
    using f that by blast
  have iu: "addrs (inodes s i) ! NDIRECT \<noteq> 0 \<Longrightarrow> addrs (inodes s i) ! NDIRECT \<in> used s - meta s" using f by blast
  have ci: "as ! NDIRECT \<in> used t - meta t" if "as ! NDIRECT \<noteq> 0"
    using that ind iu m assms(4) by auto
  have cf: "fblk i c t \<in> used t - meta t \<and> fblk i c t \<noteq> as ! NDIRECT" if c: "c < MAXFILE" "fblk i c t \<noteq> 0" for c
  proof (cases "c = bn \<and> a \<noteq> 0")
    case True
    then have "fblk i c t = a" "as ! NDIRECT = addrs (inodes s i) ! NDIRECT" using fb [OF c(1)] ind by auto
    moreover have "a \<noteq> addrs (inodes s i) ! NDIRECT" using True a iu by auto
    ultimately show ?thesis using True a m by auto
  next
    case False
    then have e: "fblk i c t = fblk i c s" using fb [OF c(1)] by auto
    then have "fblk i c s \<in> used s - meta s" "fblk i c s \<noteq> addrs (inodes s i) ! NDIRECT" using old [OF c(1)] c(2) by auto
    moreover have "fblk i c s \<noteq> as ! NDIRECT" using ind calculation by auto
    ultimately show ?thesis using e m(1) assms(4) by auto
  qed
  have cj: "b = c" if bc: "b < MAXFILE" "c < MAXFILE" "fblk i b t \<noteq> 0" "fblk i b t = fblk i c t" for b c
  proof -
    have inj: "fblk i b s \<noteq> 0 \<Longrightarrow> fblk i b s = fblk i c s \<Longrightarrow> b = c" using f bc(1,2) by blast
    have fresh: "fblk i x s \<noteq> a" if "x < MAXFILE" "a \<noteq> 0" "fblk i x s \<noteq> 0" for x using old [OF that(1,3)] a [OF that(2)] by auto
    show ?thesis
    proof (cases "a \<noteq> 0 \<and> (b = bn \<or> c = bn)")
      case True
      then show ?thesis using fb [OF bc(1)] fb [OF bc(2)] fresh [OF bc(1)] fresh [OF bc(2)] bc(3,4) by metis
    next
      case False
      then have "fblk i b t = fblk i b s" "fblk i c t = fblk i c s" using fb [OF bc(1)] fb [OF bc(2)] by auto
      then have "fblk i b s \<noteq> 0" "fblk i b s = fblk i c s" using bc(3,4) by metis+
      then show ?thesis by (rule inj)
    qed
  qed
  show ?thesis
    unfolding file_ok_def ia
  proof (intro conjI allI impI)
    show "idev (inodes t i) = ROOTDEV" "length as = 13" "inum (inodes t i) < ninodes (sb t)"
      using f assms(3,5,6) by simp_all
  qed (use ci cf cj in blast)+
qed

lemma kept_trans:
  assumes "kept i s t" "kept i t u" "addrs (inodes t i) ! NDIRECT = addrs (inodes s i) ! NDIRECT \<or> addrs (inodes t i) ! NDIRECT \<notin> used s"
  shows "kept i s u"
proof -
  have "blk y u = blk y s" if "y \<in> used s" "y \<notin> (\<lambda>c. bblock c s) ` {..<sb_size (sb s)}" "y \<noteq> addrs (inodes s i) ! NDIRECT" for y
  proof -
    have "(\<lambda>c. bblock c t) ` {..<sb_size (sb t)} = (\<lambda>c. bblock c s) ` {..<sb_size (sb s)}"
      using assms(1) by (simp add: kept_def bblock_def)
    then have "blk y u = blk y t" "blk y t = blk y s" using that assms by (auto simp: kept_def)
    then show ?thesis by simp
  qed
  moreover have "own i u \<inter> used s \<subseteq> own i s" using assms(1,2) unfolding kept_def by blast
  ultimately show ?thesis using assms(1,2) unfolding kept_def by auto
qed

lemma fblk_direct: "c < NDIRECT \<Longrightarrow> fblk i c s = addrs (inodes s i) ! c"
  by (simp add: fblk_def)

lemma inodes_blk [simp]: "blk y (s\<lparr>inodes := x\<rparr>) = blk y s" "used (s\<lparr>inodes := x\<rparr>) = used s"
  "alloc_ok (s\<lparr>inodes := x\<rparr>) = alloc_ok s" "meta (s\<lparr>inodes := x\<rparr>) = meta s" "bblock c (s\<lparr>inodes := x\<rparr>) = bblock c s"
  "iblock c (s\<lparr>inodes := x\<rparr>) = iblock c s" "bitmap_ok H (s\<lparr>inodes := x\<rparr>) = bitmap_ok H s"
  by (simp_all add: used_def bblock_def alloc_ok_def bitmap_ok_def meta_def iblock_def)

lemma bmap_direct:
  assumes "txn {} (k + 5) s" "alloc_ok s" "file_ok i s" "unat bn < NDIRECT"
  shows "\<exists>a t. bmap i bn s = Inr (a, t) \<and> bmap_post i (unat bn) a k s t"
proof (cases "addrs (inodes s i) ! unat bn = 0")
  case False
  then show ?thesis
    using assms txn_mono [OF assms(1), of k] kept_refl
    by (auto simp: bmap_def bmap_post_def fblk_direct)
next
  case True
  have d: "idev (inodes s i) = ROOTDEV" "length (addrs (inodes s i)) = 13" using assms(3) by (simp_all add: file_ok_def)
  obtain a t where b: "balloc ROOTDEV s = Inr (a, t)" "txn {} (k + 3) t" "log_calm s t" "alloc_ok t" "used s \<subseteq> used t"
    "a = 0 \<Longrightarrow> {..<sb_size (sb s)} \<subseteq> used s" "a = 0 \<Longrightarrow> calm s t \<and> (\<forall>y. blk y t = blk y s)"
    "a \<noteq> 0 \<Longrightarrow> a \<notin> used s" "a \<noteq> 0 \<Longrightarrow> a \<in> used t"
    "\<forall>y \<in> used s. y \<notin> (\<lambda>c. bblock c s) ` {..<sb_size (sb s)} \<longrightarrow> blk y t = blk y s"
  proof (rule balloc_new)
    show "txn {} (k + 3 + 2) s" using assms(1) by (simp add: add.commute)
  qed (use assms(2) that in auto)
  have it: "inodes t = inodes s" "sb t = sb s" using log_calmD [OF b(3)] by simp_all
  define as where "as = (if a = 0 then addrs (inodes s i) else (addrs (inodes s i))[unat bn := a])"
  define u where "u = t\<lparr>inodes := (inodes s)(i := (inodes s i)\<lparr>addrs := as\<rparr>)\<rparr>"
  have run: "bmap i bn s = Inr (a, u)"
  proof (cases "a = 0")
    case True
    then have "u = t" using it by (simp add: u_def as_def fun_upd_idem flip: it)
    then show ?thesis using True \<open>addrs (inodes s i) ! unat bn = 0\<close> assms(4) d b(1) by (simp add: bmap_def)
  next
    case False
    then show ?thesis using True assms(4) d b(1) it by (simp add: bmap_def upd_inode_def u_def as_def)
  qed
  have ind: "as ! NDIRECT = addrs (inodes s i) ! NDIRECT" using assms(4) by (simp add: as_def)
  have iblk: "addrs (inodes s i) ! NDIRECT \<noteq> 0 \<Longrightarrow> blk (addrs (inodes s i) ! NDIRECT) t = blk (addrs (inodes s i) ! NDIRECT) s"
    using assms(3) b(10) by (auto simp: file_ok_def meta_def)
  have fb: "fblk i c u = (if c = unat bn \<and> a \<noteq> 0 then a else fblk i c s)" if "c < MAXFILE" for c
    using iblk ind d assms(4) by (auto simp: fblk_def u_def as_def)
  have "kept i s u"
    by (rule kept_log_calm [OF b(3) u_def b(5) _ fb]) (use b(8,10) ind in auto)
  moreover have "file_ok i u"
  proof (rule file_ok_grow [OF assms(3,2) _ _ _ _ fb])
    show "inodes u = (inodes s)(i := (inodes s i)\<lparr>addrs := as\<rparr>)" by (simp add: u_def)
    show "length as = 13" using d by (simp add: as_def)
  qed (use b(5,8,9) ind it in \<open>auto simp: u_def\<close>)
  moreover have "txn {} k u" using txn_mono [OF b(2), of k] by (simp add: u_def)
  moreover have "fblk i (unat bn) u = a" using fb [of "unat bn"] assms(4) True by (simp add: fblk_direct)
  ultimately have "bmap_post i (unat bn) a k s u"
    using b(4,5,6) fb True assms(4) by (auto simp: bmap_post_def u_def fblk_direct)
  then show ?thesis using run by blast
qed

lemma file_ok_cong:
  assumes "inodes t = inodes s" "sb t = sb s" "\<forall>y. blk y t = blk y s"
  shows "file_ok i t = file_ok i s" "alloc_ok t = alloc_ok s" "used t = used s"
proof -
  have f: "fblk i b t = fblk i b s" for b using fblk_cong(1) [OF _ assms(3), of i] assms(1) by simp
  show u: "used t = used s" using assms(2,3) by (simp add: used_def bblock_def)
  show "alloc_ok t = alloc_ok s" using assms(2) u by (simp add: alloc_ok_def bitmap_ok_def meta_def bblock_def iblock_def held_blocks_def)
  show "file_ok i t = file_ok i s" using assms(1,2) meta_cong [OF assms(2)] by (simp add: file_ok_def f u)
qed

lemma bmap_post_calm:
  assumes "calm s t" "\<forall>y. blk y t = blk y s" "txn {} k t" "alloc_ok s" "file_ok i s" "fblk i bn s = a"
    and "a = 0 \<longrightarrow> {..<sb_size (sb s)} \<subseteq> used s"
  shows "bmap_post i bn a k s t"
proof -
  have it: "inodes t = inodes s" "sb t = sb s" using calm_fs [OF assms(1)] by simp_all
  note c = file_ok_cong [OF it assms(2)] and f = fblk_cong(1) [OF _ assms(2), of i]
  have tt: "t = t\<lparr>inodes := (inodes s)(i := (inodes s i)\<lparr>addrs := addrs (inodes s i)\<rparr>)\<rparr>" using it(1) by (cases t) simp
  have "kept i s t"
    by (rule kept_log_calm [OF log_calm_calm [OF assms(1)], where a = 0 and bn = bn and as = "addrs (inodes s i)"])
      (use tt c(3) f it(1) assms(2) in \<open>simp_all\<close>)
  then show ?thesis using assms it c f by (simp add: bmap_post_def)
qed

lemma bmap_indirect_hole:
  assumes "txn {} (k + 3) s" "alloc_ok s" "file_ok i s" "NDIRECT \<le> unat bn" "unat bn < MAXFILE"
    and q: "addrs (inodes s i) ! NDIRECT \<noteq> 0" and hole: "fblk i (unat bn) s = 0"
  shows "\<exists>a t. bmap i bn s = Inr (a, t) \<and> bmap_post i (unat bn) a k s t"
proof -
  let ?q = "addrs (inodes s i) ! NDIRECT"
  have d: "idev (inodes s i) = ROOTDEV" "?q \<in> used s - meta s" using assms(3) q by (simp_all add: file_ok_def)
  define j where "j = unat bn - NDIRECT"
  have j: "unat (bn - 12) = j" "j < NINDIRECT" using assms(4,5) by (simp_all add: j_def unat_sub word_le_nat_alt)
  have e: "(getw 4 (blk ?q s) (4 * j) :: u32) = 0" using hole q assms(4) by (simp add: fblk_def j_def not_less)
  have "txn {} (Suc (k + 2)) s" using assms(1) by (simp add: eval_nat_numeral)
  then obtain b t where t: "bread ROOTDEV ?q s = Inr (b, t)" "calm s t" "txn {b} (k + 2) t"
    "blockno (bufs t b) = ?q" "data (bufs t b) = blk ?q s" "\<forall>x. blk x t = blk x s"
    using txn_read [of "{}" "k + 2" s ?q] by auto
  have it: "inodes t = inodes s" "sb t = sb s" using calm_fs [OF t(2)] by simp_all
  note ct = file_ok_cong [OF it t(6)]
  have "held_blocks {b} t = {?q}" using t(4) by (simp add: held_blocks_def)
  moreover have qb: "?q \<noteq> bblock c s" if "c < sb_size (sb s)" for c using that d(2) by (auto simp: meta_def)
  ultimately have "bitmap_ok {b} t"
    using assms(2) d(2) it ct(3) bblock_cong(1) [OF it(2)] by (fastforce simp: alloc_ok_def bitmap_ok_def)
  then obtain a u where u: "balloc ROOTDEV t = Inr (a, u)" "balloc_post {b} k t a u"
    using balloc_spec [of "{b}" k t] t(3) by auto
  have cu: "log_calm t u" "txn {b} k u" "held_blocks {b} u = held_blocks {b} t" using u(2) by (auto simp: balloc_post_def)
  have bu: "blockno (bufs u b) = ?q" using cu(3) t(4) by (simp add: held_blocks_def)
  have iu: "inodes u = inodes s" "sb u = sb s" using log_calmD [OF cu(1)] it by simp_all
  have bq: "blk ?q u = blk ?q s"
  proof (cases "a = 0")
    case False
    then have "a < sb_size (sb s)" "a \<notin> used s" "\<forall>y. y \<noteq> a \<longrightarrow> y \<noteq> bblock a s \<longrightarrow> blk y u = blk y s"
      using u(2) t(6) ct(3) it by (auto simp: balloc_post_def bblock_cong [OF it(2)])
    moreover from this have "?q \<noteq> a" "?q \<noteq> bblock a s" using qb [of a] d(2) by auto
    ultimately show ?thesis by simp
  qed (use u(2) t(6) in \<open>simp add: balloc_post_def\<close>)
  have du: "data (bufs u b) = blk ?q s" using held_buf(7) [OF txnD(2) [OF cu(2)], of b] bu bq by simp
  show ?thesis
  proof (cases "a = 0")
    case True
    then have c: "calm t u" "\<forall>y. blk y u = blk y t" "{..<sb_size (sb t)} \<subseteq> used t"
      using u(2) by (auto simp: balloc_post_def)
    have "data (bufs u b) = disk u (blockno (bufs u b)) \<or> blockno (bufs u b) \<in> logged u"
      using view_clean [OF txnD(2) [OF assms(1)], of ?q] du bu calmD(2) [OF t(2)] calmD(2) [OF c(1)]
        calm_log(7) [OF t(2)] calm_log(7) [OF c(1)] by auto
    then obtain v where v: "brelse b u = Inr v" "calm u v" "txn {} (Suc k) v" "\<forall>x. blk x v = blk x u"
      using txn_release [of b "{}" k u] cu(2) by auto
    have "bmap i bn s = Inr (0, v)"
      using assms(4) j q d t(1,5) e u(1) True du v(1) it
      by (simp add: bmap_def Let_def not_less)
    moreover have "calm s v" using calm_trans [OF calm_trans [OF t(2) c(1)] v(2)] .
    moreover have "\<forall>y. blk y v = blk y s" using v(4) c(2) t(6) by simp
    ultimately show ?thesis
      using bmap_post_calm [of s v k i "unat bn" 0] txn_mono [OF v(3), of k] assms(2,3) hole c(3) ct(3) it by auto
  next
    case False
    have a: "a \<notin> used s" "used u = insert a (used s)" "\<forall>y. y \<noteq> a \<longrightarrow> y \<noteq> bblock a s \<longrightarrow> blk y u = blk y s" "a < sb_size (sb s)"
      using u(2) False ct(3) t(6) it by (auto simp: balloc_post_def bblock_cong [OF it(2)])
    define x where "x = putw 4 (blk ?q s) (4 * j) a"
    have len: "length (blk ?q s) = BSIZE" "length x = BSIZE" using length_blk [OF assms(1)] j(2) by (simp_all add: x_def)
    obtain v w where v: "log_write b (set_data b x u) = Inr v" "log_calm u v" "data (bufs v b) = x" "brelse b v = Inr w"
      "log_calm u w" "txn {} k w" "\<forall>y. blk y w = (if y = ?q then x else blk y u)"
      using txn_store [of b "{}" k u x] cu(2) len(2) bu by auto
    have iw: "inodes w = inodes s" "sb w = sb s" using log_calmD [OF v(5)] iu by simp_all
    have "getw 4 x (4 * j) = a" using len(1) j(2) by (simp add: x_def getw_putw_same)
    then have run: "bmap i bn s = Inr (a, w)"
      using assms(4) j q d t(1,5) e u(1) False du v(1,3,4) it
      by (simp add: bmap_def Let_def not_less x_def)
    have uw: "used w = used u"
    proof -
      have "bblock c u \<noteq> ?q" if "c < sb_size (sb s)" for c using that qb [OF that] iu by (auto simp: bblock_def)
      then show ?thesis using v(7) iw iu by (auto simp: used_def bblock_def)
    qed
    have "getw 4 x (4 * (c - NDIRECT)) = (if c = unat bn then a else getw 4 (blk ?q s) (4 * (c - NDIRECT)))"
      if "NDIRECT \<le> c" "c < MAXFILE" for c
    proof (cases "c = unat bn")
      case False
      then have "4 * j + 4 \<le> 4 * (c - NDIRECT) \<or> 4 * (c - NDIRECT) + 4 \<le> 4 * j"
        using that assms(4,5) by (simp add: j_def) linarith
      moreover have "4 * j + 4 \<le> length (blk ?q s)" "4 * (c - NDIRECT) + 4 \<le> length (blk ?q s)" using len(1) j(2) that by simp_all
      ultimately show ?thesis using False by (simp add: x_def getw_putw_other)
    qed (use len(1) j(2) in \<open>simp add: x_def getw_putw_same flip: j_def\<close>)
    then have fb: "fblk i c w = (if c = unat bn \<and> a \<noteq> 0 then a else fblk i c s)" if "c < MAXFILE" for c
      using that iw v(7) q assms(4) False by (auto simp: fblk_def not_less)
    have "file_ok i w"
    proof (rule file_ok_grow [OF assms(3,2) iw(2) _ _ _ fb])
      show "inodes w = (inodes s)(i := (inodes s i)\<lparr>addrs := addrs (inodes s i)\<rparr>)" using iw by simp
      show "length (addrs (inodes s i)) = 13" using assms(3) by (simp add: file_ok_def)
    qed (use a uw in auto)
    moreover have "alloc_ok w"
      using alloc_ok_used [OF assms(2) iw(2)] a(2) uw by auto
    moreover have "log_calm s w" using log_calm_trans [OF log_calm_trans [OF log_calm_calm [OF t(2)] cu(1)] v(5)] .
    then have "kept i s w"
    proof (rule kept_log_calm [OF _ _ _ _ fb, where as = "addrs (inodes s i)"])
      show "w = w\<lparr>inodes := (inodes s)(i := (inodes s i)\<lparr>addrs := addrs (inodes s i)\<rparr>)\<rparr>" using iw(1) by (cases w) simp
      show "\<forall>y \<in> used s. y \<notin> (\<lambda>c. bblock c s) ` {..<sb_size (sb s)} \<longrightarrow> y \<noteq> ?q \<longrightarrow> blk y w = blk y s"
        using a v(7) by auto
    qed (use a uw in auto)
    ultimately have "bmap_post i (unat bn) a k s w"
      using v(6) fb assms(5) False hole by (auto simp: bmap_post_def)
    then show ?thesis using run by blast
  qed
qed

lemma getw_zeros: "getw 4 (replicate BSIZE 0) j = (0 :: u32)"
  by (simp add: getw_def)

lemma bmap_indirect_new:
  assumes "txn {} (k + 5) s" "alloc_ok s" "file_ok i s" "NDIRECT \<le> unat bn" "unat bn < MAXFILE"
    and q: "addrs (inodes s i) ! NDIRECT = 0"
  shows "\<exists>a t. bmap i bn s = Inr (a, t) \<and> bmap_post i (unat bn) a k s t"
proof -
  have d: "idev (inodes s i) = ROOTDEV" "length (addrs (inodes s i)) = 13" using assms(3) by (simp_all add: file_ok_def)
  have j: "unat (bn - 12) = unat bn - NDIRECT" using assms(4) by (simp add: unat_sub word_le_nat_alt)
  have hole: "fblk i c s = 0" if "NDIRECT \<le> c" for c using that q by (simp add: fblk_def)
  obtain a t where b: "balloc ROOTDEV s = Inr (a, t)" "txn {} (k + 3) t" "log_calm s t" "alloc_ok t" "used s \<subseteq> used t"
    "a = 0 \<Longrightarrow> {..<sb_size (sb s)} \<subseteq> used s" "a = 0 \<Longrightarrow> calm s t \<and> (\<forall>y. blk y t = blk y s)"
    "a \<noteq> 0 \<Longrightarrow> a \<notin> used s" "a \<noteq> 0 \<Longrightarrow> a \<in> used t" "a \<noteq> 0 \<Longrightarrow> blk a t = replicate BSIZE 0"
    "\<forall>y \<in> used s. y \<notin> (\<lambda>c. bblock c s) ` {..<sb_size (sb s)} \<longrightarrow> blk y t = blk y s"
  proof (rule balloc_new)
    show "txn {} (k + 3 + 2) s" using assms(1) by (simp add: add.commute)
  qed (use assms(2) that in auto)
  have it: "inodes t = inodes s" "sb t = sb s" using log_calmD [OF b(3)] by simp_all
  show ?thesis
  proof (cases "a = 0")
    case True
    then have "bmap i bn s = Inr (0, t)"
      using assms(4,5) j q d b(1) by (simp add: bmap_def Let_def not_less)
    then show ?thesis
      using bmap_post_calm [of s t k i "unat bn" 0] b(6,7) True txn_mono [OF b(2), of k] assms(2,3) hole assms(4) by auto
  next
    case False
    define as where "as = (addrs (inodes s i))[NDIRECT := a]"
    define u where "u = t\<lparr>inodes := (inodes s)(i := (inodes s i)\<lparr>addrs := as\<rparr>)\<rparr>"
    have ui: "inodes u = (inodes s)(i := (inodes s i)\<lparr>addrs := as\<rparr>)" "sb u = sb s" "as ! NDIRECT = a" "length as = 13"
      using d it by (simp_all add: u_def as_def)
    have fb: "fblk i c u = (if c = unat bn \<and> (0 :: u32) \<noteq> 0 then 0 else fblk i c s)" if "c < MAXFILE" for c
      using q d False b(10) getw_zeros by (auto simp: fblk_def u_def as_def)
    have "file_ok i u"
      by (rule file_ok_grow [OF assms(3,2) ui(2) _ ui(1,4) fb]) (use b(5,8,9) False ui(3) in \<open>auto simp: u_def\<close>)
    moreover have "txn {} (k + 3) u" "alloc_ok u" using b(2,4) by (simp_all add: u_def)
    moreover have "fblk i (unat bn) u = 0" using fb [OF assms(5)] hole [OF assms(4)] by simp
    ultimately obtain a' w where w: "bmap i bn u = Inr (a', w)" "bmap_post i (unat bn) a' k u w"
      using bmap_indirect_hole [of k u i bn] assms(4,5) ui(1,3) False by auto
    have "bmap i bn s = bmap i bn u"
      using assms(4) j q d b(1) False ui it by (simp add: bmap_def Let_def not_less upd_inode_def u_def as_def)
    moreover have "kept i s u"
      by (rule kept_log_calm [OF b(3) u_def b(5) _ fb]) (use b(8,11) ui(3) False in auto)
    then have "kept i s w"
      using kept_trans [of i s u w] w(2) ui(1,3) b(8) False by (auto simp: bmap_post_def)
    then have "bmap_post i (unat bn) a' k s w"
      using w(2) fb ui(2) by (auto simp: bmap_post_def)
    ultimately show ?thesis using w(1) by auto
  qed
qed

text \<open>Every case of the block map, with what it may change.\<close>

lemma bmap_spec:
  assumes "txn {} (k + 5) s" "alloc_ok s" "file_ok i s" "unat bn < MAXFILE"
  obtains a t where "bmap i bn s = Inr (a, t)" "bmap_post i (unat bn) a k s t"
proof -
  consider (direct) "unat bn < NDIRECT" | (mapped) "NDIRECT \<le> unat bn" "fblk i (unat bn) s \<noteq> 0"
    | (hole) "NDIRECT \<le> unat bn" "fblk i (unat bn) s = 0" "addrs (inodes s i) ! NDIRECT \<noteq> 0"
    | (new) "NDIRECT \<le> unat bn" "addrs (inodes s i) ! NDIRECT = 0" by linarith
  then have "\<exists>a t. bmap i bn s = Inr (a, t) \<and> bmap_post i (unat bn) a k s t"
  proof cases
    case direct
    then show ?thesis using bmap_direct [OF assms(1-3)] by blast
  next
    case mapped
    have 1: "txn {} (Suc k) s" "idev (inodes s i) = ROOTDEV" using txn_mono [OF assms(1), of "Suc k"] assms(3) by (simp_all add: file_ok_def)
    obtain t where "bmap i bn s = Inr (fblk i (unat bn) s, t)" "calm s t" "txn {} (Suc k) t" "\<forall>y. blk y t = blk y s"
      using bmap_mapped [OF 1 mapped(2) assms(4)] by blast
    then show ?thesis
      using bmap_post_calm [of s t k i "unat bn"] txn_mono [of "{}" "Suc k" t k] assms(2,3) mapped(2) by auto
  next
    case hole
    have "txn {} (k + 3) s" using txn_mono [OF assms(1)] by simp
    then show ?thesis using bmap_indirect_hole [OF _ assms(2,3) hole(1) assms(4) hole(3,2)] by blast
  next
    case new
    then show ?thesis using bmap_indirect_new [OF assms(1-3) new(1) assms(4) new(2)] by blast
  qed
  then show thesis using that by blast
qed

subsection \<open>The effect of a write\<close>

text \<open>Where \<open>writei\<close> takes its bytes from.\<close>

definition supplies :: "source \<Rightarrow> u8 list \<Rightarrow> 'z fsst_scheme \<Rightarrow> bool" where
  "supplies src bs s = (case src of FromLocal xs \<Rightarrow> xs = bs
     | FromUser a \<Rightarrow> \<exists>q. cproc (mycpu s) = Some q \<and>
         (\<forall>j < length bs. user_byte s (pagetable (procs s q)) (a + of_nat j) = Some (bs ! j)))"

lemma either_copyin_supplies:
  assumes "supplies src bs s" "m \<le> length bs" "cpu_ok s"
  shows "either_copyin src m s = Inr ((True, take m bs), crit s)"
proof (cases src)
  case (FromUser a)
  with assms(1) obtain q where q: "cproc (mycpu s) = Some q"
    "\<And>j. j < length bs \<Longrightarrow> user_byte s (pagetable (procs s q)) (a + of_nat j) = Some (bs ! j)" by (auto simp: supplies_def)
  have "copyin_loop m (pagetable (procs s q)) [] a m (crit s) = Inr ((True, [] @ take m bs), crit s)"
    by (rule copyin_loop_correct) (use assms(2) q(2) in \<open>auto intro!: user_byte_mem_cong [of s _ _ _ "crit s"]\<close>)
  then have "copyin (pagetable (procs s q)) a m (crit s) = Inr ((True, take m bs), crit s)" by (simp add: copyin_def)
  then show ?thesis using FromUser q(1) assms(3) by (simp add: either_copyin_def flow)
qed (use assms in \<open>auto simp: supplies_def either_copyin_def flow\<close>)

lemma supplies_add:
  assumes "supplies src bs s" "unat m \<le> length bs"
  shows "supplies (source_add src m) (drop (unat m) bs) s"
proof (cases src)
  case (FromUser a)
  with assms(1) obtain q where q: "cproc (mycpu s) = Some q"
    "\<And>j. j < length bs \<Longrightarrow> user_byte s (pagetable (procs s q)) (a + of_nat j) = Some (bs ! j)" by (auto simp: supplies_def)
  have "user_byte s (pagetable (procs s q)) (a + ucast m + of_nat j) = Some (drop (unat m) bs ! j)" if "j < length bs - unat m" for j
    using q(2) [of "unat m + j"] that assms(2) by (simp add: add.assoc)
  then show ?thesis using q(1) FromUser by (auto simp: supplies_def)
qed (use assms in \<open>auto simp: supplies_def\<close>)

text \<open>
  What a write changes outside the file: nothing but the bitmap and blocks that were free.
\<close>

definition foreign :: "nat \<Rightarrow> 'z fsst_scheme \<Rightarrow> 'z fsst_scheme \<Rightarrow> bool" where
  "foreign i s t \<longleftrightarrow> sb t = sb s \<and> mem t = mem s \<and> cproc (mycpu t) = cproc (mycpu s) \<and>
     (\<forall>q. pagetable (procs t q) = pagetable (procs s q)) \<and> used s \<subseteq> used t \<and>
     (\<exists>as. inodes t = (inodes s)(i := (inodes s i)\<lparr>addrs := as\<rparr>)) \<and> own i t \<inter> used s \<subseteq> own i s \<and>
     (\<forall>y \<in> used s. y \<notin> (\<lambda>c. bblock c s) ` {..<sb_size (sb s)} \<longrightarrow> y \<notin> own i s \<longrightarrow> blk y t = blk y s)"

lemma foreign_kept: "kept i s t \<Longrightarrow> foreign i s t"
  by (auto simp: kept_def foreign_def own_def)

lemma foreign_trans:
  assumes "foreign i s t" "foreign i t u"
  shows "foreign i s u"
proof -
  have "blk y u = blk y s" if "y \<in> used s" "y \<notin> (\<lambda>c. bblock c s) ` {..<sb_size (sb s)}" "y \<notin> own i s" for y
  proof -
    have "(\<lambda>c. bblock c t) ` {..<sb_size (sb t)} = (\<lambda>c. bblock c s) ` {..<sb_size (sb s)}"
      using assms(1) by (simp add: foreign_def bblock_def)
    then have "blk y u = blk y t" "blk y t = blk y s" using that assms by (auto simp: foreign_def)
    then show ?thesis by simp
  qed
  moreover have "own i u \<inter> used s \<subseteq> own i s" using assms unfolding foreign_def by blast
  ultimately show ?thesis using assms unfolding foreign_def by auto
qed

lemma supplies_cong:
  assumes "supplies src bs s" "mem t = mem s" "cproc (mycpu t) = cproc (mycpu s)"
    and "\<And>q. pagetable (procs t q) = pagetable (procs s q)"
  shows "supplies src bs t"
proof (cases src)
  case (FromUser a)
  with assms(1) obtain q where q: "cproc (mycpu s) = Some q"
    "\<And>j. j < length bs \<Longrightarrow> user_byte s (pagetable (procs s q)) (a + of_nat j) = Some (bs ! j)" by (auto simp: supplies_def)
  have "user_byte t (pagetable (procs t q)) (a + of_nat j) = Some (bs ! j)" if "j < length bs" for j
    unfolding assms(4) by (rule user_byte_mem_cong [OF q(2) [OF that] assms(2)])
  then show ?thesis using q(1) FromUser assms(3) by (auto simp: supplies_def)
qed (use assms in \<open>auto simp: supplies_def\<close>)

lemma supplies_foreign: "supplies src bs s \<Longrightarrow> foreign i s t \<Longrightarrow> supplies src bs t"
  by (rule supplies_cong) (simp_all add: foreign_def)

text \<open>The bytes of a file after a write of \<open>bs\<close> at position \<open>o'\<close>.\<close>

definition wrote :: "nat \<Rightarrow> nat \<Rightarrow> u8 list \<Rightarrow> 'z fsst_scheme \<Rightarrow> 'z fsst_scheme \<Rightarrow> bool" where
  "wrote i o' bs s t \<longleftrightarrow> (\<forall>p < MAXFILE * BSIZE.
     if o' \<le> p \<and> p < o' + length bs then fblk i (p div BSIZE) t \<noteq> 0 \<and> fbyte i t p = bs ! (p - o')
     else fblk i (p div BSIZE) s \<noteq> 0 \<longrightarrow> fblk i (p div BSIZE) t \<noteq> 0 \<and> fbyte i t p = fbyte i s p)"

lemma wrote_append:
  assumes "wrote i o' bs s t" "wrote i (o' + length bs) cs t u"
  shows "wrote i o' (bs @ cs) s u"
  unfolding wrote_def
proof (intro allI impI)
  fix p assume "p < MAXFILE * BSIZE"
  note w = assms(1) [unfolded wrote_def, rule_format, OF this] assms(2) [unfolded wrote_def, rule_format, OF this]
  consider "p < o'" | "o' \<le> p" "p < o' + length bs" | "o' + length bs \<le> p" by linarith
  then show "if o' \<le> p \<and> p < o' + length (bs @ cs) then fblk i (p div BSIZE) u \<noteq> 0 \<and> fbyte i u p = (bs @ cs) ! (p - o')
     else fblk i (p div BSIZE) s \<noteq> 0 \<longrightarrow> fblk i (p div BSIZE) u \<noteq> 0 \<and> fbyte i u p = fbyte i s p"
  proof cases
    case 3
    then have "p - (o' + length bs) = p - o' - length bs" by simp
    then show ?thesis using w 3 by (auto simp: nth_append split: if_splits)
  qed (use w in \<open>auto simp: nth_append split: if_splits\<close>)
qed

lemma bmap_post_wrote:
  assumes "bmap_post i bn a k s t" "file_ok i s" "bn < MAXFILE"
  shows "wrote i o' [] s t"
proof -
  have "fblk i c t = fblk i c s \<and> blk (fblk i c s) t = blk (fblk i c s) s" if "c < MAXFILE" "fblk i c s \<noteq> 0" for c
  proof -
    have "fblk i c s \<in> used s - meta s" "fblk i c s \<noteq> addrs (inodes s i) ! NDIRECT" using assms(2) that by (auto simp: file_ok_def)
    then have "blk (fblk i c s) t = blk (fblk i c s) s" using assms(1) by (auto simp: bmap_post_def kept_def meta_def)
    then show ?thesis using assms(1) that by (simp add: bmap_post_def)
  qed
  moreover have "p div BSIZE < MAXFILE" if "p < MAXFILE * BSIZE" for p using that by simp
  ultimately show ?thesis unfolding wrote_def fbyte_def by auto
qed

subsection \<open>One round of the loop\<close>

definition wstate :: "nat \<Rightarrow> nat \<Rightarrow> 'z fsst_scheme \<Rightarrow> bool" where
  "wstate i k s \<longleftrightarrow> txn {} k s \<and> alloc_ok s \<and> file_ok i s"

lemma own_data_block:
  assumes "file_ok i s" "bn < MAXFILE" "fblk i bn s \<noteq> 0" "log_calm s t" "\<forall>y. blk y t = (if y = fblk i bn s then x else blk y s)"
  shows "inodes t = inodes s" "sb t = sb s" "used t = used s" "\<And>c. c < MAXFILE \<Longrightarrow> fblk i c t = fblk i c s" "foreign i s t"
proof -
  show it: "inodes t = inodes s" "sb t = sb s" using log_calmD [OF assms(4)] by simp_all
  have a: "fblk i bn s \<notin> meta s" "fblk i bn s \<noteq> addrs (inodes s i) ! NDIRECT" using assms(1-3) by (auto simp: file_ok_def)
  have "bblock c s \<in> meta s" if "c < sb_size (sb s)" for c using that by (simp add: meta_def)
  then have "blk (bblock c s) t = blk (bblock c s) s" if "c < sb_size (sb s)" for c using a(1) that assms(5) by metis
  then show u: "used t = used s" using it(2) by (auto simp: used_def bblock_def)
  show f: "fblk i c t = fblk i c s" if "c < MAXFILE" for c using a(2) assms(5) it(1) by (simp add: fblk_def)
  have "(\<lambda>c. fblk i c t) ` {..<MAXFILE} = (\<lambda>c. fblk i c s) ` {..<MAXFILE}" using f by (intro image_cong) simp_all
  then have o: "own i t = own i s" using it(1) by (simp only: own_def)
  have b: "fblk i bn s \<in> own i s" using assms(2) by (simp add: own_def)
  show "foreign i s t" unfolding foreign_def
  proof (intro conjI)
    show "\<exists>as. inodes t = (inodes s)(i := (inodes s i)\<lparr>addrs := as\<rparr>)"
      by (rule exI [of _ "addrs (inodes s i)"]) (use it(1) in simp)
  qed (use log_calmD(3,9,10) [OF assms(4)] it(2) u o b assms(5) in auto)
qed

lemma splice_nth:
  assumes "j < length x" "o' + length bs \<le> length x"
  shows "splice x o' bs ! j = (if o' \<le> j \<and> j < o' + length bs then bs ! (j - o') else x ! j)" "length (splice x o' bs) = length x"
  using assms by (auto simp: splice_def nth_append min_def)

lemma in_block:
  assumes "o' mod BSIZE + j < BSIZE"
  shows "(o' + j) div BSIZE = o' div BSIZE" "(o' + j) mod BSIZE = o' mod BSIZE + j"
proof -
  have "o' = o' div BSIZE * BSIZE + o' mod BSIZE" by simp
  then have "o' + j = o' div BSIZE * BSIZE + (o' mod BSIZE + j)" by linarith
  then show "(o' + j) div BSIZE = o' div BSIZE" "(o' + j) mod BSIZE = o' mod BSIZE + j"
    using assms by (metis div_mult_self3 div_less add.right_neutral zero_neq_numeral, metis mod_mult_self3 mod_less)
qed

lemma store_wrote:
  assumes "wstate i k s" "o' div BSIZE < MAXFILE" "fblk i (o' div BSIZE) s \<noteq> 0" "o' mod BSIZE + length bs \<le> BSIZE" "log_calm s t"
    and "\<forall>y. blk y t = (if y = fblk i (o' div BSIZE) s then splice (blk (fblk i (o' div BSIZE) s) s) (o' mod BSIZE) bs else blk y s)"
  shows "wrote i o' bs s t"
  unfolding wrote_def
proof (intro allI impI)
  fix p assume "p < MAXFILE * BSIZE"
  then have p: "p div BSIZE < MAXFILE" by simp
  have ok: "file_ok i s" "txn {} k s" using assms(1) by (simp_all add: wstate_def)
  let ?c = "o' div BSIZE"
  note f = own_data_block(4) [OF ok(1) assms(2,3,5,6), OF p]
  have len: "length (blk (fblk i ?c s) s) = BSIZE" by (rule length_blk [OF ok(2)])
  have inj: "fblk i (p div BSIZE) s = fblk i ?c s \<Longrightarrow> p div BSIZE = ?c"
    using ok(1) p assms(2,3) unfolding file_ok_def by metis
  have range: "p div BSIZE = ?c" "p - o' = p mod BSIZE - o' mod BSIZE" "o' mod BSIZE \<le> p mod BSIZE"
    "p mod BSIZE < o' mod BSIZE + length bs" if "o' \<le> p" "p < o' + length bs"
  proof -
    have "p - o' < length bs" "p = o' + (p - o')" using that by simp_all
    moreover from this have "o' mod BSIZE + (p - o') < BSIZE" using assms(4) by linarith
    ultimately show "p div BSIZE = ?c" "p - o' = p mod BSIZE - o' mod BSIZE" "o' mod BSIZE \<le> p mod BSIZE"
      "p mod BSIZE < o' mod BSIZE + length bs" using in_block [of o' "p - o'"] that by (simp_all, linarith+)
  qed
  have out: "\<not> (o' mod BSIZE \<le> p mod BSIZE \<and> p mod BSIZE < o' mod BSIZE + length bs)" if "\<not> (o' \<le> p \<and> p < o' + length bs)" "p div BSIZE = ?c"
  proof -
    have "o' = ?c * BSIZE + o' mod BSIZE" "p = ?c * BSIZE + p mod BSIZE" using that(2) by (metis div_mult_mod_eq)+
    then show ?thesis using that(1) by linarith
  qed
  show "if o' \<le> p \<and> p < o' + length bs then fblk i (p div BSIZE) t \<noteq> 0 \<and> fbyte i t p = bs ! (p - o')
     else fblk i (p div BSIZE) s \<noteq> 0 \<longrightarrow> fblk i (p div BSIZE) t \<noteq> 0 \<and> fbyte i t p = fbyte i s p"
  proof (cases "p div BSIZE = ?c")
    case True
    then have "fbyte i t p = splice (blk (fblk i ?c s) s) (o' mod BSIZE) bs ! (p mod BSIZE)" "fbyte i s p = blk (fblk i ?c s) s ! (p mod BSIZE)"
      using f assms(6) by (simp_all add: fbyte_def)
    moreover have "p mod BSIZE < length (blk (fblk i ?c s) s)" using len by simp
    ultimately show ?thesis using splice_nth(1) [of "p mod BSIZE" "blk (fblk i ?c s) s" "o' mod BSIZE" bs] len assms(3,4) True range out f by auto
  next
    case False
    then show ?thesis using range(1) f inj assms(6) by (auto simp: fbyte_def)
  qed
qed

lemma write_chunk:
  assumes "wstate i (k + 6) s" "supplies src bs s" "length bs = unat n - unat tot" "tot < n"
    and "unat off + (unat n - unat tot) \<le> MAXFILE * BSIZE"
  defines "m \<equiv> min_u (n - tot) (1024 - off mod 1024)"
  shows "\<exists>t. foreign i s t \<and> wstate i k t \<and>
    (writei_loop (Suc fuel) i src off n tot s = Inr ((off, tot), t) \<and> wrote i (unat off) [] s t \<and> {..<sb_size (sb s)} \<subseteq> used t \<or>
     writei_loop (Suc fuel) i src off n tot s = writei_loop fuel i (source_add src m) (off + m) n (tot + m) t \<and>
       wrote i (unat off) (take (unat m) bs) s t)"
proof -
  have "unat off + (unat n - unat tot) < 2 ^ 32" using assms(5) by simp
  note m = chunk_step [OF assms(4) this, folded m_def]
  define bn where "bn = off div 1024"
  have "unat off < MAXFILE * BSIZE" using assms(4,5) by (simp add: word_less_nat_alt)
  then have bn: "unat bn = unat off div BSIZE" "unat bn < MAXFILE" by (simp_all add: bn_def unat_div less_mult_imp_div_less)
  have ok: "txn {} ((k + 1) + 5) s" "alloc_ok s" "file_ok i s" using assms(1) by (simp_all add: wstate_def add.commute)
  obtain a s1 where s1: "bmap i bn s = Inr (a, s1)" "bmap_post i (unat bn) a (k + 1) s s1"
    using bmap_spec [OF ok bn(2)] by blast
  have w1: "wrote i (unat off) [] s s1" "foreign i s s1" using bmap_post_wrote [OF s1(2) ok(3) bn(2)] foreign_kept s1(2) by (auto simp: bmap_post_def)
  have ok1: "txn {} (Suc k) s1" "alloc_ok s1" "file_ok i s1" "fblk i (unat bn) s1 = a" using s1(2) by (simp_all add: bmap_post_def)
  show ?thesis
  proof (cases "a = 0")
    case True
    then have "writei_loop (Suc fuel) i src off n tot s = Inr ((off, tot), s1)"
      using s1(1) assms(4) by (simp add: bn_def)
    moreover have "{..<sb_size (sb s)} \<subseteq> used s1" using True s1(2) by (simp add: bmap_post_def)
    moreover have "wstate i k s1" using ok1 txn_mono [OF ok1(1), of k] by (simp add: wstate_def)
    ultimately show ?thesis using w1 by blast
  next
    case False
    have d: "idev (inodes s1 i) = ROOTDEV" using ok1(3) by (simp add: file_ok_def)
    obtain b t where t: "bread ROOTDEV a s1 = Inr (b, t)" "calm s1 t" "txn {b} k t" "blockno (bufs t b) = a"
      "data (bufs t b) = blk a s1" "\<forall>x. blk x t = blk x s1"
      using txn_read [OF ok1(1)] by fastforce
    define x where "x = splice (blk a s1) (unat (off mod 1024)) (take (unat m) bs)"
    have lm: "length (take (unat m) bs) = unat m" "unat off mod BSIZE + unat m \<le> BSIZE" using m(5,6) assms(3) by (simp_all add: le_diff_conv2)
    have "length x = BSIZE" using splice_nth(2) [of 0 "blk a s1"] length_blk [OF ok1(1), of a] lm by (simp add: x_def unat_mod)
    then obtain u v where v: "log_write b (set_data b x (crit t)) = Inr u" "brelse b u = Inr v" "log_calm (crit t) v" "txn {} k v"
      "\<forall>y. blk y v = (if y = a then x else blk y (crit t))"
      using txn_store [of b "{}" k "crit t" x] txn_crit(1) [OF t(3)] t(4) by auto
    have sup: "supplies src bs t"
      using log_calmD [OF log_calm_calm [OF t(2)]] by (intro supplies_cong [OF supplies_foreign [OF assms(2) w1(2)]]) simp_all
    have "either_copyin src (unat m) t = Inr ((True, take (unat m) bs), crit t)"
      using either_copyin_supplies [OF sup] m(5) assms(3) txn_cpu [OF t(3)] by simp
    then have "writei_loop (Suc fuel) i src off n tot s = writei_loop fuel i (source_add src m) (off + m) n (tot + m) v"
      using assms(4) s1(1) False d t(1,5) v(1,2) by (simp add: bn_def m_def [symmetric] Let_def x_def)
    moreover have cv: "log_calm s1 v" using log_calm_trans [OF log_calm_calm [OF calm_trans [OF t(2) calm_crit]] v(3)] .
    have bv: "\<forall>y. blk y v = (if y = fblk i (unat bn) s1 then x else blk y s1)" using v(5) t(6) ok1(4) by (simp add: txn_crit(2))
    note od = own_data_block [OF ok1(3) bn(2) _ cv bv]
    have "wrote i (unat off) (take (unat m) bs) s1 v"
      by (rule store_wrote [where k = "Suc k"])
        (use ok1 bn False lm cv bv in \<open>simp_all add: wstate_def x_def unat_mod\<close>)
    then have "wrote i (unat off) (take (unat m) bs) s v"
      using wrote_append [OF w1(1), of "take (unat m) bs" v] by simp
    moreover have "foreign i s v" using foreign_trans [OF w1(2)] od(5) False ok1(4) by simp
    moreover have "wstate i k v"
    proof -
      have "alloc_ok v" using alloc_ok_used [OF ok1(2)] od(2,3) False ok1(4) by blast
      moreover have "file_ok i v"
      proof -
        have "fblk i c v = fblk i c s1" if "c < MAXFILE" for c using od(4) [OF _ that] False ok1(4) by simp
        then show ?thesis using ok1(3) od(1-3) False ok1(4) meta_cong [of v s1] by (simp add: file_ok_def)
      qed
      ultimately show ?thesis using v(4) by (simp add: wstate_def)
    qed
    ultimately show ?thesis by blast
  qed
qed

subsection \<open>The whole write\<close>

text \<open>The number of blocks that a range of \<open>n\<close> bytes from \<open>o'\<close> touches.\<close>

definition nblk :: "nat \<Rightarrow> nat \<Rightarrow> nat" where
  "nblk o' n = (if n = 0 then 0 else (o' mod BSIZE + n + 1023) div BSIZE)"

lemma nblk_step:
  assumes "m = min n (BSIZE - o' mod BSIZE)" "0 < n"
  shows "nblk o' n = Suc (nblk (o' + m) (n - m))"
proof -
  define r where "r = o' mod BSIZE"
  have r: "r < BSIZE" by (simp add: r_def)
  show ?thesis
  proof (cases "n \<le> BSIZE - r")
    case True
    then have "m = n" "0 < r + n" "r + n \<le> BSIZE" using assms r by (simp_all add: r_def min_def)
    moreover from this have "(r + n + 1023) div BSIZE = 1" by (intro div_nat_eqI) (simp_all, linarith)
    ultimately show ?thesis using assms(2) by (simp add: nblk_def r_def [symmetric])
  next
    case False
    then have m: "m = BSIZE - r" "r + n = BSIZE + (n - m)" "0 < n - m" using assms r by (simp_all add: r_def min_def)
    have "o' + m = Suc (o' div BSIZE) * BSIZE" using m(1) r unfolding r_def by (metis Suc_eq_plus1 add.commute add_diff_inverse_nat
      add_mult_distrib2 div_mult_mod_eq less_imp_not_less mult.commute mult_Suc group_cancel.add1)
    then have "(o' + m) mod BSIZE = 0" by (metis mod_mult_self2_is_0)
    then show ?thesis using m(2,3) assms(2) by (simp add: nblk_def r_def [symmetric])
  qed
qed

lemma writei_loop_spec:
  assumes "wstate i (k + 6 * nblk (unat off) (unat n - unat tot)) s" "supplies src bs s" "length bs = unat n - unat tot"
    and "tot \<le> n" "unat off + (unat n - unat tot) \<le> MAXFILE * BSIZE" "unat n - unat tot \<le> fuel"
  shows "\<exists>w off' tot' t. writei_loop fuel i src off n tot s = Inr ((off', tot'), t) \<and> w \<le> length bs \<and>
    unat off' = unat off + w \<and> unat tot' = unat tot + w \<and> wstate i k t \<and> foreign i s t \<and>
    wrote i (unat off) (take w bs) s t \<and> (w < length bs \<longrightarrow> {..<sb_size (sb s)} \<subseteq> used t)"
  using assms
proof (induction fuel arbitrary: s src bs off tot)
  case 0
  then have "tot = n" by (simp add: word_le_nat_alt word_unat_eq_iff)
  then show ?case using 0(1,3) foreign_kept [OF kept_refl] by (auto simp: nblk_def wrote_def)
next
  case (Suc fuel)
  show ?case
  proof (cases "tot = n")
    case True
    then show ?thesis using Suc.prems(1,3) foreign_kept [OF kept_refl] by (auto simp: nblk_def wrote_def)
  next
    case False
    then have lt: "tot < n" using Suc.prems(4) by simp
    define m where "m = min_u (n - tot) (1024 - off mod 1024)"
    have "unat off + (unat n - unat tot) < 2 ^ 32" using Suc.prems(5) by simp
    note m = chunk_step [OF lt this, folded m_def]
    define k' where "k' = k + 6 * nblk (unat (off + m)) (unat n - unat (tot + m))"
    have "unat n - unat (tot + m) = unat n - unat tot - unat m" using m(1) by simp
    then have "nblk (unat off) (unat n - unat tot) = Suc (nblk (unat (off + m)) (unat n - unat (tot + m)))"
      using nblk_step [OF unat_chunk(1) [OF lt, of off, folded m_def]] lt m(2) by (simp add: word_less_nat_alt)
    then have "wstate i (k' + 6) s" using Suc.prems(1) by (simp add: k'_def add.commute add.left_commute)
    from write_chunk [OF this Suc.prems(2,3) lt Suc.prems(5), of fuel, folded m_def] obtain t where
      t: "foreign i s t" "wstate i k' t" and
      cases: "writei_loop (Suc fuel) i src off n tot s = Inr ((off, tot), t) \<and> wrote i (unat off) [] s t \<and> {..<sb_size (sb s)} \<subseteq> used t \<or>
       writei_loop (Suc fuel) i src off n tot s = writei_loop fuel i (source_add src m) (off + m) n (tot + m) t \<and>
       wrote i (unat off) (take (unat m) bs) s t" by blast
    from cases show ?thesis
    proof
      assume "writei_loop (Suc fuel) i src off n tot s = Inr ((off, tot), t) \<and> wrote i (unat off) [] s t \<and> {..<sb_size (sb s)} \<subseteq> used t"
      moreover have "wstate i k t" using t(2) txn_mono [of "{}" k' t k] by (simp add: wstate_def k'_def)
      ultimately show ?thesis using t(1) by (intro exI [of _ 0] exI [of _ off] exI [of _ tot] exI [of _ t]) simp
    next
      assume h: "writei_loop (Suc fuel) i src off n tot s = writei_loop fuel i (source_add src m) (off + m) n (tot + m) t \<and>
        wrote i (unat off) (take (unat m) bs) s t"
      have "supplies (source_add src m) (drop (unat m) bs) t"
        using supplies_add [OF supplies_foreign [OF Suc.prems(2) t(1)]] m(5) Suc.prems(3) by simp
      moreover have "length (drop (unat m) bs) = unat n - unat (tot + m)" using m(1) Suc.prems(3) by simp
      moreover have "unat (off + m) + (unat n - unat (tot + m)) \<le> MAXFILE * BSIZE" unfolding m(7) by (rule Suc.prems(5))
      moreover have "unat n - unat (tot + m) \<le> fuel" using m(1,4) Suc.prems(6) by linarith
      ultimately obtain w off' tot' u where u:
        "writei_loop fuel i (source_add src m) (off + m) n (tot + m) t = Inr ((off', tot'), u)" "w \<le> length (drop (unat m) bs)"
        "unat off' = unat (off + m) + w" "unat tot' = unat (tot + m) + w" "wstate i k u" "foreign i t u"
        "wrote i (unat (off + m)) (take w (drop (unat m) bs)) t u" "w < length (drop (unat m) bs) \<longrightarrow> {..<sb_size (sb t)} \<subseteq> used u"
        using Suc.IH [OF t(2) [unfolded k'_def] _ _ m(3)] by blast
      have lm: "length (take (unat m) bs) = unat m" using m(5) Suc.prems(3) by simp
      have "wrote i (unat off) (take (unat m) bs @ take w (drop (unat m) bs)) s u"
        using wrote_append [of i "unat off" "take (unat m) bs" s t "take w (drop (unat m) bs)" u] h u(7) m(2) lm by simp
      then have "wrote i (unat off) (take (unat m + w) bs) s u" by (simp add: take_add)
      moreover have "sb t = sb s" using t(1) by (simp add: foreign_def)
      ultimately show ?thesis
        using h u m(1,2) lm foreign_trans [OF t(1) u(6)]
        by (intro exI [of _ "unat m + w"] exI [of _ off'] exI [of _ tot'] exI [of _ u]) auto
    qed
  qed
qed

lemma map_splice:
  assumes "o' \<le> n" "length xs = w"
    and "\<And>p. p < max (o' + w) n \<Longrightarrow> f p = (if o' \<le> p \<and> p < o' + w then xs ! (p - o') else g p)"
  shows "map f [0..<max (o' + w) n] = take o' (map g [0..<n]) @ xs @ drop (o' + w) (map g [0..<n])"
proof (rule nth_equalityI)
  fix p assume "p < length (map f [0..<max (o' + w) n])"
  then have p: "p < max (o' + w) n" by simp
  consider "p < o'" | "o' \<le> p" "p < o' + w" | "o' + w \<le> p" "p < n" using p by linarith
  then show "map f [0..<max (o' + w) n] ! p = (take o' (map g [0..<n]) @ xs @ drop (o' + w) (map g [0..<n])) ! p"
    by cases (use p assms in \<open>auto simp: nth_append\<close>)
qed (use assms in simp)

lemma writei_finish:
  fixes z :: u32
  assumes "wstate i (Suc k) s"
  defines "s' \<equiv> s\<lparr>inodes := (inodes s)(i := (inodes s i)\<lparr>isize := z\<rparr>)\<rparr>"
  shows "\<exists>t. iupdate i s' = Inr t \<and> wstate i k t \<and> inodes t = inodes s' \<and> sb t = sb s \<and> used t = used s \<and>
    (\<forall>c < MAXFILE. fblk i c t = fblk i c s \<and> (fblk i c s \<noteq> 0 \<longrightarrow> blk (fblk i c s) t = blk (fblk i c s) s)) \<and>
    (\<forall>y. y \<noteq> iblock (inum (inodes s i)) s \<longrightarrow> blk y t = blk y s) \<and>
    (\<forall>j. same_dinode (dinode (inum (inodes s i)) t j) (inodes t i)) \<and>
    (\<forall>n j. n \<noteq> inum (inodes s i) \<longrightarrow> dinode n t j = dinode n s j)"
proof -
  let ?ib = "iblock (inum (inodes s i)) s"
  have s: "txn {} (Suc k) s" "alloc_ok s" "file_ok i s" using assms(1) by (simp_all add: wstate_def)
  have n: "idev (inodes s i) = ROOTDEV" "length (addrs (inodes s i)) = 13" "inum (inodes s i) < ninodes (sb s)"
    using s(3) by (simp_all add: file_ok_def)
  have s': "txn {} (Suc k) s'" "inum (inodes s' i) = inum (inodes s i)" "addrs (inodes s' i) = addrs (inodes s i)"
    "idev (inodes s' i) = ROOTDEV" "sb s' = sb s" "\<And>y. blk y s' = blk y s" "\<And>n. iblock n s' = iblock n s"
    using s(1) n(1) by (simp_all add: s'_def iblock_def)
  obtain t where t: "iupdate i s' = Inr t" "txn {} k t" "log_calm s' t" "\<forall>y. y \<noteq> ?ib \<longrightarrow> blk y t = blk y s"
    "\<forall>j. same_dinode (dinode (inum (inodes s i)) t j) (inodes s' i)"
    "\<forall>n j. n \<noteq> inum (inodes s i) \<longrightarrow> dinode n t j = dinode n s' j"
    using iupdate_spec [OF s'(1,4)] n(2) s'(2,3,6,7) by auto
  have it: "inodes t = inodes s'" "sb t = sb s" using log_calmD [OF t(3)] s'(5) by simp_all
  have ib: "?ib \<in> meta s" using n(3) by (simp add: meta_def)
  have "blk (bblock c s) t = blk (bblock c s) s" if "c < sb_size (sb s)" for c
    using t(4) s(2) that n(3) by (auto simp: alloc_ok_def)
  then have u: "used t = used s" using it(2) by (auto simp: used_def bblock_def)
  have ind: "addrs (inodes s i) ! NDIRECT \<noteq> 0 \<Longrightarrow> addrs (inodes s i) ! NDIRECT \<noteq> ?ib" using s(3) ib by (auto simp: file_ok_def)
  then have f: "fblk i c t = fblk i c s" for c using t(4) it(1) s'(3) by (simp add: fblk_def)
  have fb: "blk (fblk i c s) t = blk (fblk i c s) s" if "c < MAXFILE" "fblk i c s \<noteq> 0" for c
  proof -
    have "fblk i c s \<notin> meta s" using s(3) that by (auto simp: file_ok_def)
    then show ?thesis using t(4) ib by metis
  qed
  have "alloc_ok t" using alloc_ok_used [OF s(2) it(2)] u by simp
  moreover have "file_ok i t" using s(3) f u it s'(3) meta_cong [OF it(2)] by (simp add: file_ok_def s'_def)
  moreover have "dinode n s' j = dinode n s j" for n j using s'(6,7) by (simp add: dinode_def)
  ultimately show ?thesis using t it u f fb by (auto simp: wstate_def)
qed

lemma writei_spec:
  assumes "txn {} (Suc k + 6 * nblk (unat off) (unat n)) s" "alloc_ok s" "file_ok i s" "mapped i s"
    and "supplies src bs s" "length bs = unat n"
  shows "if off > isize (inodes s i) \<or> off + n < off \<or> off + n > of_nat (MAXFILE * BSIZE) then writei i src off n s = Inr (- 1, s)
    else \<exists>w t. w \<le> unat n \<and> writei i src off n s = Inr (int w, t) \<and> txn {} k t \<and> alloc_ok t \<and> file_ok i t \<and> mapped i t \<and>
      contents i t = take (unat off) (contents i s) @ take w bs @ drop (unat off + w) (contents i s) \<and>
      (w < unat n \<longrightarrow> {..<sb_size (sb s)} \<subseteq> used t) \<and>
      same_dinode (dinode (inum (inodes s i)) t (inodes t i)) (inodes t i) \<and>
      (\<exists>as z. inodes t = (inodes s)(i := (inodes s i)\<lparr>addrs := as, isize := z\<rparr>)) \<and>
      (\<forall>y \<in> used s - own i s - meta s. blk y t = blk y s)"
proof (cases "off > isize (inodes s i) \<or> off + n < off \<or> off + n > of_nat (MAXFILE * BSIZE)")
  case False
  have size: "unat off \<le> unat (isize (inodes s i))" "unat (isize (inodes s i)) \<le> MAXFILE * BSIZE"
    using False assms(4) by (auto simp: mapped_def word_less_nat_alt)
  have "unat (off + n) = unat off + unat n" "\<not> off + n > of_nat (MAXFILE * BSIZE)" using False by (simp_all add: unat_plus_simple [symmetric] not_less)
  then have max: "unat off + unat n \<le> MAXFILE * BSIZE" by (simp add: word_less_nat_alt)
  have "wstate i (Suc k + 6 * nblk (unat off) (unat n - unat (0 :: u32))) s" using assms(1-3) by (simp add: wstate_def)
  from writei_loop_spec [OF this assms(5) _ word_zero_le, of "unat n"] obtain w off' tot' t1 where
    t1: "writei_loop (unat n) i src off n 0 s = Inr ((off', tot'), t1)" "w \<le> unat n" "unat off' = unat off + w" "unat tot' = w"
      "wstate i (Suc k) t1" "foreign i s t1" "wrote i (unat off) (take w bs) s t1" "w < unat n \<longrightarrow> {..<sb_size (sb s)} \<subseteq> used t1"
    using assms(6) max by auto
  obtain as where as: "inodes t1 = (inodes s)(i := (inodes s i)\<lparr>addrs := as\<rparr>)" and sb1: "sb t1 = sb s" using t1(6) by (auto simp: foreign_def)
  define z where "z = (if off' > isize (inodes s i) then off' else isize (inodes s i))"
  have z: "unat z = max (unat off + w) (unat (isize (inodes s i)))" using t1(3) by (auto simp: z_def word_less_nat_alt)
  define t2 where "t2 = t1\<lparr>inodes := (inodes t1)(i := (inodes t1 i)\<lparr>isize := z\<rparr>)\<rparr>"
  have t2: "(if off' > isize (inodes t1 i) then upd_inode i (isize_update (\<lambda>_. off')) t1 else t1) = t2"
    using as by (cases t1) (auto simp: t2_def upd_inode_def z_def)
  obtain t where t: "iupdate i t2 = Inr t" "wstate i k t" "inodes t = inodes t2" "sb t = sb t1" "used t = used t1"
    "\<forall>c < MAXFILE. fblk i c t = fblk i c t1 \<and> (fblk i c t1 \<noteq> 0 \<longrightarrow> blk (fblk i c t1) t = blk (fblk i c t1) t1)"
    "\<forall>y. y \<noteq> iblock (inum (inodes t1 i)) t1 \<longrightarrow> blk y t = blk y t1"
    "\<forall>j. same_dinode (dinode (inum (inodes t1 i)) t j) (inodes t i)"
    using writei_finish [OF t1(5), of z] unfolding t2_def by blast
  have it: "isize (inodes t i) = z" "inum (inodes t1 i) = inum (inodes s i)"
    "inodes t = (inodes s)(i := (inodes s i)\<lparr>addrs := as, isize := z\<rparr>)"
    using t(3) as by (simp_all add: t2_def)
  have ex: "\<exists>as z. inodes t = (inodes s)(i := (inodes s i)\<lparr>addrs := as, isize := z\<rparr>)" using it(3) by blast
  have "sint tot' = int w" using t1(2,4) max sint_small [of tot'] by simp
  then have run: "writei i src off n s = Inr (int w, t)"
    using False t1(1) t2 t(1) by (simp add: writei_def Let_def)
  have lw: "length (take w bs) = w" using t1(2) assms(6) by simp
  have byte: "fblk i (p div BSIZE) t \<noteq> 0 \<and>
      fbyte i t p = (if unat off \<le> p \<and> p < unat off + w then take w bs ! (p - unat off) else fbyte i s p)" if "p < unat z" for p
  proof -
    have p: "p < MAXFILE * BSIZE" using that z size max t1(2) by linarith
    have ms: "fblk i (p div BSIZE) s \<noteq> 0" if "p < unat (isize (inodes s i))"
    proof -
      have "p div BSIZE * BSIZE < unat (isize (inodes s i))" using that by (meson div_times_less_eq_dividend le_less_trans)
      then show ?thesis using assms(4) by (simp add: mapped_def)
    qed
    have "p < unat (isize (inodes s i))" if "\<not> (unat off \<le> p \<and> p < unat off + w)" using that \<open>p < unat z\<close> z size(1) by linarith
    then have "fblk i (p div BSIZE) t1 \<noteq> 0 \<and> fbyte i t1 p = (if unat off \<le> p \<and> p < unat off + w then take w bs ! (p - unat off) else fbyte i s p)"
      using t1(7) [unfolded wrote_def, rule_format, OF p] ms unfolding lw by (cases "unat off \<le> p \<and> p < unat off + w") auto
    moreover have "p div BSIZE < MAXFILE" using p by simp
    ultimately show ?thesis using t(6) by (simp add: fbyte_def)
  qed
  have "contents i t = take (unat off) (contents i s) @ take w bs @ drop (unat off + w) (contents i s)"
    using map_splice [OF size(1) lw, of "fbyte i t" "fbyte i s"] byte z lw by (simp add: contents_def it)
  moreover have "mapped i t"
  proof -
    have "fblk i b t \<noteq> 0" if "b * BSIZE < unat z" for b using byte [OF that] by simp
    moreover have "unat z \<le> MAXFILE * BSIZE" using z size max t1(2) by linarith
    ultimately show ?thesis using t(2) it by (auto simp: mapped_def wstate_def file_ok_def)
  qed
  moreover have "blk y t = blk y s" if "y \<in> used s - own i s - meta s" for y
  proof -
    have "iblock (inum (inodes s i)) s \<in> meta s" using assms(3) by (simp add: meta_def file_ok_def)
    then have "y \<noteq> iblock (inum (inodes t1 i)) t1" using that it(2) bblock_cong(2) [OF sb1] by auto
    then show ?thesis using t(7) t1(6) that by (auto simp: foreign_def meta_def)
  qed
  moreover have "w < unat n \<longrightarrow> {..<sb_size (sb s)} \<subseteq> used t" "same_dinode (dinode (inum (inodes s i)) t (inodes t i)) (inodes t i)"
    using t(5,8) t1(8) unfolding it(2) by blast+
  moreover have "txn {} k t" "alloc_ok t" "file_ok i t" using t(2) by (simp_all add: wstate_def)
  ultimately show ?thesis using False run t1(2) ex by auto
qed (auto simp: writei_def)

text \<open>
  C14: \<open>writei\<close> always returns, inside a transaction with room for the blocks it touches.  Bytes
  from the kernel or from the user's memory replace the bytes of the file from \<open>off\<close> on, the file grows when the
  range ends beyond it, and the result is the number of bytes written; it is short only when no free block is
  left.  The inode on the disk records the new size and the new blocks, no other inode changes, and every block
  in use that belongs neither to this file nor to the bitmap or inode area keeps its contents.  A start beyond
  the end of the file, an end that overflows, or one beyond the largest file, gives -1 and no change.
\<close>

theorem writei_correct:
  assumes "txn {} (Suc k + 6 * nblk (unat off) (unat n)) s" "alloc_ok s" "file_ok i s" "mapped i s"
    and "supplies src bs s" "length bs = unat n"
  shows "if off > isize (inodes s i) \<or> off + n < off \<or> off + n > of_nat (MAXFILE * BSIZE) then writei i src off n s = Inr (- 1, s)
    else \<exists>w t. w \<le> unat n \<and> writei i src off n s = Inr (int w, t) \<and> txn {} k t \<and> alloc_ok t \<and> file_ok i t \<and> mapped i t \<and>
      contents i t = take (unat off) (contents i s) @ take w bs @ drop (unat off + w) (contents i s) \<and>
      (w < unat n \<longrightarrow> {..<sb_size (sb s)} \<subseteq> used t) \<and>
      same_dinode (dinode (inum (inodes s i)) t (inodes t i)) (inodes t i) \<and>
      (\<exists>as z. inodes t = (inodes s)(i := (inodes s i)\<lparr>addrs := as, isize := z\<rparr>)) \<and>
      (\<forall>y \<in> used s - own i s - meta s. blk y t = blk y s)"
  by (rule writei_spec [OF assms])

lemma demo_file_alloc: "alloc_ok demo_file_fs" "meta demo_file_fs \<subseteq> {32..45}"
proof -
  have b: "bblock c demo_fs = 45" if "c < 2000" for c
  proof -
    have "c div BPB = 0" using that by (simp add: word_unat_eq_iff unat_div word_less_nat_alt)
    then show ?thesis by (simp add: bblock_def)
  qed
  have i: "iblock n demo_fs \<in> {32..44}" if "n < 200" for n
  proof -
    have "unat (n div IPB) \<le> 12" using that by (simp add: unat_div word_less_nat_alt)
    moreover from this have "unat (iblock n demo_fs) = unat (n div IPB) + 32" by (simp add: iblock_def unat_word_ariths(1))
    ultimately have "32 \<le> unat (iblock n demo_fs)" "unat (iblock n demo_fs) \<le> 44" by linarith+
    then show ?thesis unfolding atLeastAtMost_iff word_le_nat_alt by simp
  qed
  show m: "meta demo_file_fs \<subseteq> {32..45}" using b i by (fastforce simp: demo_file_fs_def meta_def intro: order_trans)
  have "u \<in> used demo_fs" if "u \<in> {32..45}" for u
  proof -
    have "u \<le> 45" using that by simp
    then show ?thesis unfolding demo_fs_used by (rule le_less_trans) simp
  qed
  moreover have "bblock c demo_fs \<noteq> iblock n demo_fs" if "c < 2000" "n < 200" for c n
    using b [OF that(1)] i [OF that(2)] by auto
  ultimately show "alloc_ok demo_file_fs" using m demo_fs_bitmap by (auto simp: alloc_ok_def demo_file_fs_def)
qed

lemma demo_file_ok: "file_ok i demo_file_fs"
proof -
  have f: "fblk i b demo_file_fs = (if b = 0 then 47 else if b = 1 then 46 else 0)" if "b < MAXFILE" for b
  proof (cases "b < NDIRECT")
    case True
    then have "b = 0 \<or> b = 1 \<or> b = 2 \<or> b = 3 \<or> b = 4 \<or> b = 5 \<or> b = 6 \<or> b = 7 \<or> b = 8 \<or> b = 9 \<or> b = 10 \<or> b = 11" by presburger
    then show ?thesis by (auto simp: fblk_def demo_file_fs_def demo_file_def)
  qed (auto simp: fblk_def demo_file_fs_def demo_file_def)
  have "47 \<notin> meta demo_file_fs" "46 \<notin> meta demo_file_fs" using demo_file_alloc(2) by auto
  moreover have "47 \<in> used demo_file_fs" "46 \<in> used demo_file_fs" by (simp_all add: demo_file_fs_def demo_fs_used)
  ultimately show ?thesis
    by (auto simp: file_ok_def f split: if_splits) (simp_all add: demo_file_fs_def demo_file_def)
qed

theorem writei_correct_witness:
  "(\<exists>w t. writei 3 (FromLocal (replicate 100 7)) 1020 100 demo_file_fs = Inr (int w, t) \<and> w \<le> 100 \<and>
     contents 3 t = take 1020 (contents 3 demo_file_fs) @ replicate w 7 @ drop (1020 + w) (contents 3 demo_file_fs)) \<and>
   writei 3 (FromLocal []) 2000 0 demo_file_fs = Inr (- 1, demo_file_fs)"
proof -
  have sz: "isize (inodes demo_file_fs 3) = 1030" by (simp add: demo_file_fs_def demo_file_def)
  have n: "nblk 1020 100 = 2" "nblk 2000 0 = 0" by (simp_all add: nblk_def)
  have s: "supplies (FromLocal bs) bs demo_file_fs" for bs by (simp add: supplies_def)
  note w = writei_correct [OF _ demo_file_alloc(1) demo_file_ok demo_file_mapped s, of 0]
  have m: "take w (replicate 100 (7 :: u8)) = replicate w 7" if "w \<le> 100" for w using that by (simp add: min_def)
  have "writei 3 (FromLocal []) 2000 0 demo_file_fs = Inr (- 1, demo_file_fs)"
    using w [of 2000 0 "[]" 3] demo_file_txn [of 1] sz n by simp
  moreover have "\<exists>w t. w \<le> 100 \<and> writei 3 (FromLocal (replicate 100 7)) 1020 100 demo_file_fs = Inr (int w, t) \<and>
     contents 3 t = take 1020 (contents 3 demo_file_fs) @ take w (replicate 100 7) @ drop (1020 + w) (contents 3 demo_file_fs)"
    using w [of 1020 100 "replicate 100 7" 3] demo_file_txn [of 13] sz n by auto
  ultimately show ?thesis using m by metis
qed

end
