(* ===== verification/Dirent.thy ===== *)
theory Dirent
  imports Filewrite
begin

section \<open>Directories as tables of names\<close>

text \<open>
  A directory is a file whose bytes are a table of 16-byte entries.  \<open>dirlookup\<close> searches that table and
  \<open>dirlink\<close> adds to it; a path name is the list of its elements.
\<close>

subsection \<open>Names\<close>

lemma load_names_mem:
  assumes "length s \<le> 0x1000" "length t \<le> 0x1000"
  shows "load_bytes (names_mem s t) 0x1000 14 = take DIRSIZ s @ replicate (DIRSIZ - length s) 0"
    "load_bytes (names_mem s t) 0x2000 14 = take DIRSIZ t @ replicate (DIRSIZ - length t) 0"
proof -
  have a: "unat (0x1000 + of_nat j - 0x2000 :: u64) \<ge> 0x1000" if "j < 14" for j
  proof -
    have "(0x1000 + of_nat j - 0x2000 :: u64) = of_nat (2 ^ 64 - 0x1000 + j)" by simp
    then show ?thesis using that by (simp add: unat_of_nat del: of_nat_add)
  qed
  have b: "unat (0x2000 + of_nat j - 0x1000 :: u64) = 0x1000 + j" if "j < 14" for j
  proof -
    have "(0x2000 + of_nat j - 0x1000 :: u64) = of_nat (0x1000 + j)" by simp
    then show ?thesis using that by (simp add: unat_of_nat del: of_nat_add)
  qed
  have c: "unat (of_nat j :: u64) = j" if "j < 14" for j using that by (simp add: unat_of_nat)
  show "load_bytes (names_mem s t) 0x1000 14 = take DIRSIZ s @ replicate (DIRSIZ - length s) 0"
  proof (rule nth_equalityI)
    fix j assume "j < length (load_bytes (names_mem s t) 0x1000 14)"
    then have j: "j < 14" by simp
    then show "load_bytes (names_mem s t) 0x1000 14 ! j = (take DIRSIZ s @ replicate (DIRSIZ - length s) 0) ! j"
      using a [OF j] c [OF j] assms by (auto simp: names_mem_def store_bytes_def nth_append)
  qed simp
  show "load_bytes (names_mem s t) 0x2000 14 = take DIRSIZ t @ replicate (DIRSIZ - length t) 0"
  proof (rule nth_equalityI)
    fix j assume "j < length (load_bytes (names_mem s t) 0x2000 14)"
    then have j: "j < 14" by simp
    then show "load_bytes (names_mem s t) 0x2000 14 ! j = (take DIRSIZ t @ replicate (DIRSIZ - length t) 0) ! j"
      using b [OF j] c [OF j] assms by (auto simp: names_mem_def store_bytes_def nth_append)
  qed simp
qed

text \<open>The name in a buffer: its bytes before the first NUL, 14 at most.\<close>

definition dname :: "u8 list \<Rightarrow> u8 list" where
  "dname s = name_of (take DIRSIZ s)"

lemma dname_props: "length (dname s) \<le> 14" "0 \<notin> set (dname s)"
proof -
  show "length (dname s) \<le> 14" using length_name_of [of "take 14 s"] by (simp add: dname_def)
  show "0 \<notin> set (dname s)" by (auto simp: dname_def name_of_def dest: set_takeWhileD)
qed

lemma name_of_zeros: "name_of (x @ replicate n 0) = name_of x"
  by (induction x) (simp_all add: name_of_def takeWhile_replicate)

lemma dname_padded: "name_of (take DIRSIZ s @ replicate (DIRSIZ - length s) 0) = dname s"
  by (simp add: dname_def name_of_zeros)

lemma namecmp_0_iff:
  assumes "length s \<le> 0x1000" "length t \<le> 0x1000"
  shows "namecmp s t = 0 \<longleftrightarrow> dname s = dname t"
  using load_names_mem [OF assms] by (simp add: namecmp_def strncmp_0_iff dname_padded)

lemma copy_name_eq:
  assumes "length s \<le> 0x1000"
  shows "copy_name s = pad 14 (dname s)"
proof -
  have "apart 0x2000 14 0x1000 (14 :: nat)" by (rule apart_far) simp_all
  then show ?thesis
    using load_names_mem(1) [OF assms, of "[]"] dname_props(1) [of s]
    by (simp add: copy_name_def strncpy_eq dname_padded load_store_bytes pad_def)
qed

lemma dname_pad: "length x \<le> 14 \<Longrightarrow> 0 \<notin> set x \<Longrightarrow> dname (pad 14 x) = x"
  by (auto simp: dname_def name_of_def pad_def takeWhile_append takeWhile_replicate takeWhile_eq_all_conv)

subsection \<open>The table of a directory\<close>

definition entry :: "nat \<Rightarrow> u8 list \<Rightarrow> u8 list" where
  "entry j x = take 16 (drop (16 * j) x)"

definition entries :: "u8 list \<Rightarrow> (u16 \<times> u8 list) list" where
  "entries x = map (\<lambda>j. (de_inum (entry j x), dname (de_name (entry j x)))) [0..<length x div 16]"

text \<open>The position of the first entry in use that has a given name.\<close>

definition dir_find :: "u8 list \<Rightarrow> (u16 \<times> u8 list) list \<Rightarrow> nat option" where
  "dir_find nm es = find (\<lambda>j. fst (es ! j) \<noteq> 0 \<and> snd (es ! j) = nm) [0..<length es]"

definition dir_ok :: "nat \<Rightarrow> 'z fsst_scheme \<Rightarrow> bool" where
  "dir_ok dp s \<longleftrightarrow> mapped dp s \<and> itype (inodes s dp) = T_DIR \<and> unat (isize (inodes s dp)) mod 16 = 0"

lemma length_contents [simp]: "length (contents i s) = unat (isize (inodes s i))"
  by (simp add: contents_def)

lemma length_entries [simp]: "length (entries x) = length x div 16"
  by (simp add: entries_def)

lemma nth_entries [simp]: "j < length x div 16 \<Longrightarrow> entries x ! j = (de_inum (entry j x), dname (de_name (entry j x)))"
  by (simp add: entries_def)

lemma length_entry: "j < length x div 16 \<Longrightarrow> length (entry j x) = 16"
  by (auto simp: entry_def)

text \<open>The scan of both directory loops reads one entry per round.\<close>

lemma read_entry:
  assumes "txn {} (Suc k) s" "dir_ok dp s" "unat off = 16 * j" "off < isize (inodes s dp)"
  shows "\<exists>t. readi dp ToLocal off 16 s = Inr ((16, entry j (contents dp s)), t) \<and> calm s t \<and> txn {} (Suc k) t \<and>
    (\<forall>y. blk y t = blk y s) \<and> dir_ok dp t \<and> contents dp t = contents dp s"
    "j < length (contents dp s) div 16" "unat (off + 16) = 16 * Suc j"
proof -
  have d: "mapped dp s" "unat (isize (inodes s dp)) mod 16 = 0" "unat (isize (inodes s dp)) \<le> MAXFILE * BSIZE"
    using assms(2) by (simp_all add: dir_ok_def mapped_def)
  have "16 * j < unat (isize (inodes s dp))" using assms(3,4) by (simp add: word_less_nat_alt)
  then have j: "j < unat (isize (inodes s dp)) div 16" using d(2) by (auto simp: mod_eq_0_iff_dvd)
  then show j': "j < length (contents dp s) div 16" by simp
  have "16 * j + 16 \<le> unat (isize (inodes s dp))" using j by linarith
  then have w: "unat off + 16 < 2 ^ 32" using d(3) assms(3) by simp
  then show o: "unat (off + 16) = 16 * Suc j" using assms(3) by (simp add: unat_word_ariths(1))
  have "\<not> off + 16 < off" using o assms(3) by (simp add: word_less_nat_alt)
  moreover have "take 16 (drop (unat off) (contents dp s)) = entry j (contents dp s)" using assms(3) by (simp add: entry_def)
  moreover note length_entry [OF j']
  ultimately obtain t where t: "readi dp ToLocal off 16 s = Inr ((16, entry j (contents dp s)), t)" "calm s t" "txn {} (Suc k) t"
    "\<forall>y. blk y t = blk y s" using readi_spec [OF assms(1) d(1), of off 16] by auto
  have "inodes t = inodes s" using calm_fs [OF t(2)] by simp
  then have "dir_ok dp t" "contents dp t = contents dp s"
    using fblk_cong [of t dp s, OF _ t(4)] assms(2) by (simp_all add: dir_ok_def)
  then show "\<exists>t. readi dp ToLocal off 16 s = Inr ((16, entry j (contents dp s)), t) \<and> calm s t \<and> txn {} (Suc k) t \<and>
    (\<forall>y. blk y t = blk y s) \<and> dir_ok dp t \<and> contents dp t = contents dp s" using t by blast
qed

lemma dirlookup_loop_spec:
  assumes "txn {} (Suc k) s" "dir_ok dp s" "unat off = 16 * j" "j \<le> length (contents dp s) div 16"
    and "length (contents dp s) div 16 - j \<le> fuel" "length name \<le> 0x1000"
  defines "es \<equiv> entries (contents dp s)"
  shows "\<exists>t. calm s t \<and> txn {} (Suc k) t \<and> (\<forall>y. blk y t = blk y s) \<and> dirlookup_loop fuel dp name off s =
    (case find (\<lambda>j. fst (es ! j) \<noteq> 0 \<and> snd (es ! j) = dname name) [j..<length es] of
       None \<Rightarrow> Inr (None, t)
     | Some j \<Rightarrow> and_then (iget ROOTDEV (ucast (fst (es ! j))) t) (\<lambda>(i, s). Inr (Some (i, of_nat (16 * j)), s)))"
  using assms(1-5) unfolding es_def
proof (induction fuel arbitrary: s off j)
  case 0
  then have "\<not> off < isize (inodes s dp)" by (auto simp: word_less_nat_alt dir_ok_def)
  then show ?case using 0 by auto
next
  case (Suc fuel)
  show ?case
  proof (cases "off < isize (inodes s dp)")
    case False
    then have "length (contents dp s) div 16 = j" using Suc.prems(3,4) by (auto simp: word_less_nat_alt)
    then show ?thesis using False Suc.prems(1) by auto
  next
    case True
    note r = read_entry [OF Suc.prems(1-3) True]
    let ?x = "contents dp s"
    let ?P = "\<lambda>j. fst (entries ?x ! j) \<noteq> 0 \<and> snd (entries ?x ! j) = dname name"
    obtain t where t: "readi dp ToLocal off 16 s = Inr ((16, entry j ?x), t)" "calm s t" "txn {} (Suc k) t"
      "\<forall>y. blk y t = blk y s" "dir_ok dp t" "contents dp t = ?x" using r(1) by blast
    have len: "length (de_name (entry j ?x)) \<le> 0x1000" by (simp add: de_name_def)
    have P: "de_inum (entry j ?x) \<noteq> 0 \<and> namecmp name (de_name (entry j ?x)) = 0 \<longleftrightarrow> ?P j"
      using r(2) namecmp_0_iff [OF assms(6) len] by auto
    have upt: "[j..<length (entries ?x)] = j # [Suc j..<length (entries ?x)]" using r(2) by (simp add: upt_conv_Cons)
    show ?thesis
    proof (cases "?P j")
      case True
      have "idev (inodes t dp) = ROOTDEV" using t(5) by (simp add: dir_ok_def mapped_def)
      moreover have "off = of_nat (16 * j)" using Suc.prems(3) by (metis of_nat_unat ucast_id)
      ultimately show ?thesis using \<open>off < isize (inodes s dp)\<close> t True P r(2) unfolding upt
        by (intro exI [of _ t]) simp
    next
      case False
      obtain u where u: "calm t u" "txn {} (Suc k) u" "\<forall>y. blk y u = blk y t" "dirlookup_loop fuel dp name (off + 16) t =
        (case find ?P [Suc j..<length (entries ?x)] of None \<Rightarrow> Inr (None, u)
         | Some j \<Rightarrow> and_then (iget ROOTDEV (ucast (fst (entries ?x ! j))) u) (\<lambda>(i, s). Inr (Some (i, of_nat (16 * j)), s)))"
      proof -
        have "Suc j \<le> length (contents dp t) div 16" "length (contents dp t) div 16 - Suc j \<le> fuel"
          using r(2) Suc.prems(5) t(6) by (simp_all only: t(6))
        from Suc.IH [OF t(3,5) r(3) this] show thesis using that unfolding t(6) by blast
      qed
      have "dirlookup_loop (Suc fuel) dp name off s = dirlookup_loop fuel dp name (off + 16) t"
        using \<open>off < isize (inodes s dp)\<close> t(1) False P by auto
      then show ?thesis
        using u t(4) False calm_trans [OF t(2) u(1)] unfolding upt by (intro exI [of _ u]) auto
    qed
  qed
qed

subsection \<open>The inode table\<close>

definition in_use :: "u32 \<Rightarrow> u32 \<Rightarrow> inode \<Rightarrow> bool" where
  "in_use d n ip \<longleftrightarrow> iref ip > 0 \<and> idev ip = d \<and> inum ip = n"

lemma iget_scan_eq:
  "iget_scan d n ino v is = (case find (\<lambda>i. in_use d n (ino i)) is of
     Some i \<Rightarrow> (Some i, True)
   | None \<Rightarrow> (if v = None then find (\<lambda>i. iref (ino i) = 0) is else v, False))"
  by (induction d n ino v "is" rule: iget_scan.induct) (auto simp: in_use_def split: option.split)

text \<open>
  \<open>iget\<close> returns an entry for the inode: the one in the table, else the first vacant one; it panics when
  there is neither.
\<close>

lemma iget_spec:
  assumes "cpu_ok s" "lock_free LItable s"
  shows "(\<forall>i < NINODE. \<not> in_use d n (inodes s i) \<and> iref (inodes s i) \<noteq> 0) \<and> iget d n s = Inl (Panic ''iget: no inodes'') \<or>
    (\<exists>i t ip. iget d n s = Inr (i, t) \<and> t = (crit s)\<lparr>inodes := (inodes s)(i := ip)\<rparr> \<and> i < NINODE \<and> in_use d n ip \<and>
       (if in_use d n (inodes s i) then ip = (inodes s i)\<lparr>iref := iref (inodes s i) + 1\<rparr>
        else iref (inodes s i) = 0 \<and> (\<forall>j < NINODE. \<not> in_use d n (inodes s j)) \<and>
          ip = (inodes s i)\<lparr>idev := d, inum := n, iref := 1, ivalid := False\<rparr>))"
proof (cases "find (\<lambda>i. in_use d n (inodes s i)) [0..<NINODE]")
  case (Some i)
  then have "i < NINODE" "in_use d n (inodes s i)" using find_SomeD [OF Some] by simp_all
  then show ?thesis using Some assms by (simp add: iget_def iget_scan_eq flow upd_inode_def) (simp add: in_use_def)
next
  case None
  then have no: "\<not> in_use d n (inodes s j)" if "j < NINODE" for j using that by (simp add: find_None_iff)
  show ?thesis
  proof (cases "find (\<lambda>i. iref (inodes s i) = 0) [0..<NINODE]")
    case None
    then have "iref (inodes s j) \<noteq> 0" if "j < NINODE" for j using that by (simp add: find_None_iff)
    then show ?thesis using no None \<open>find (\<lambda>i. in_use d n (inodes s i)) [0..<NINODE] = None\<close> assms
      by (simp add: iget_def iget_scan_eq flow)
  next
    case (Some i)
    then have "i < NINODE" "iref (inodes s i) = 0" using find_SomeD [OF Some] by simp_all
    moreover have "iget d n s = Inr (i, (crit s)\<lparr>inodes := (inodes s)(i := (inodes s i)\<lparr>idev := d, inum := n, iref := 1, ivalid := False\<rparr>)\<rparr>)"
      using Some None assms by (simp add: iget_def iget_scan_eq flow upd_inode_def)
    ultimately show ?thesis using no by (auto simp: in_use_def [of d n "_\<lparr>ivalid := _\<rparr>"])
  qed
qed

lemma dirlookup_run:
  assumes "txn {} (Suc k) s" "dir_ok dp s" "length name \<le> 0x1000"
  defines "es \<equiv> entries (contents dp s)"
  obtains t where "calm s t" "txn {} (Suc k) t" "\<forall>y. blk y t = blk y s" "dirlookup dp name s = (case dir_find (dname name) es of
       None \<Rightarrow> Inr (None, t)
     | Some j \<Rightarrow> and_then (iget ROOTDEV (ucast (fst (es ! j))) t) (\<lambda>(i, s). Inr (Some (i, of_nat (16 * j)), s)))"
proof -
  have d: "dirlookup dp name s = dirlookup_loop (Suc (length (contents dp s) div 16)) dp name 0 s"
    using assms(2) by (simp add: dirlookup_def dir_ok_def)
  have "unat (0 :: u32) = 16 * 0" "length (contents dp s) div 16 - 0 \<le> Suc (length (contents dp s) div 16)" by simp_all
  from dirlookup_loop_spec [OF assms(1,2) this(1) le0 this(2) assms(3)] show thesis
    using that unfolding d dir_find_def es_def by blast
qed

text \<open>
  C23: \<open>dirlookup\<close> of a well-formed directory always returns, or panics because the inode table is full.
  It finds exactly the first entry in use whose name equals the argument in its first 14 bytes up to a NUL, and gives
  its offset and a referenced table entry for its inode; without such an entry it returns null.  No block and no other
  table entry changes.
\<close>

theorem dirlookup_correct:
  assumes "txn {} (Suc k) s" "dir_ok dp s" "lock_free LItable s" "length name \<le> 0x1000"
  shows "case dir_find (dname name) (entries (contents dp s)) of
      None \<Rightarrow> \<exists>t. dirlookup dp name s = Inr (None, t) \<and> inodes t = inodes s \<and> (\<forall>y. blk y t = blk y s)
    | Some j \<Rightarrow> let n = ucast (fst (entries (contents dp s) ! j)) in
        (\<forall>i < NINODE. \<not> in_use ROOTDEV n (inodes s i) \<and> iref (inodes s i) \<noteq> 0) \<and> dirlookup dp name s = Inl (Panic ''iget: no inodes'') \<or>
        (\<exists>i t. dirlookup dp name s = Inr (Some (i, of_nat (16 * j)), t) \<and> i < NINODE \<and> in_use ROOTDEV n (inodes t i) \<and>
           (\<forall>m. m \<noteq> i \<longrightarrow> inodes t m = inodes s m) \<and> (\<forall>y. blk y t = blk y s))"
proof -
  let ?es = "entries (contents dp s)"
  obtain t where t: "calm s t" "txn {} (Suc k) t" "\<forall>y. blk y t = blk y s" "dirlookup dp name s = (case dir_find (dname name) ?es of
       None \<Rightarrow> Inr (None, t)
     | Some j \<Rightarrow> and_then (iget ROOTDEV (ucast (fst (?es ! j))) t) (\<lambda>(i, s). Inr (Some (i, of_nat (16 * j)), s)))"
    using dirlookup_run [OF assms(1,2,4)] by blast
  have tf: "inodes t = inodes s" "lock_free LItable t" "cpu_ok t"
    using calm_fs [OF t(1)] log_calmD(7) [OF log_calm_calm [OF t(1)]] assms(3) txn_cpu [OF t(2)] by simp_all
  show ?thesis
  proof (cases "dir_find (dname name) ?es")
    case None
    then show ?thesis using t tf by auto
  next
    case (Some j)
    define n :: u32 where "n = ucast (fst (?es ! j))"
    consider (full) "\<forall>i < NINODE. \<not> in_use ROOTDEV n (inodes s i) \<and> iref (inodes s i) \<noteq> 0" "iget ROOTDEV n t = Inl (Panic ''iget: no inodes'')"
      | (got) i ip where "iget ROOTDEV n t = Inr (i, (crit t)\<lparr>inodes := (inodes s)(i := ip)\<rparr>)" "i < NINODE" "in_use ROOTDEV n ip"
      using iget_spec [OF tf(3,2), of ROOTDEV n] unfolding tf(1) by metis
    then show ?thesis
    proof cases
      case full
      then show ?thesis using t(4) Some by (simp add: n_def)
    next
      case got
      then have "dirlookup dp name s = Inr (Some (i, of_nat (16 * j)), (crit t)\<lparr>inodes := (inodes s)(i := ip)\<rparr>)"
        using t(4) Some by (simp add: n_def)
      then show ?thesis using got(2,3) t(3) Some by (simp add: n_def txn_crit(2) Let_def)
    qed
  qed
qed

subsection \<open>Adding an entry\<close>

lemma dirlink_scan_spec:
  assumes "txn {} (Suc k) s" "dir_ok dp s" "unat off = 16 * j" "j \<le> length (contents dp s) div 16"
    and "length (contents dp s) div 16 - j \<le> fuel"
  defines "es \<equiv> entries (contents dp s)"
  shows "\<exists>t. calm s t \<and> txn {} (Suc k) t \<and> (\<forall>y. blk y t = blk y s) \<and> dirlink_scan fuel dp off s =
    Inr (of_nat (16 * (case find (\<lambda>j. fst (es ! j) = 0) [j..<length es] of None \<Rightarrow> length es | Some j \<Rightarrow> j)), t)"
  using assms(1-5) unfolding es_def
proof (induction fuel arbitrary: s off j)
  case 0
  then have "\<not> off < isize (inodes s dp)" "length (contents dp s) div 16 = j" by (auto simp: word_less_nat_alt dir_ok_def)
  moreover have "off = of_nat (16 * j)" using "0.prems"(3) by (metis of_nat_unat ucast_id)
  ultimately show ?case using 0 by auto
next
  case (Suc fuel)
  have off: "off = of_nat (16 * j)" using Suc.prems(3) by (metis of_nat_unat ucast_id)
  show ?case
  proof (cases "off < isize (inodes s dp)")
    case False
    then have "length (contents dp s) div 16 = j" using Suc.prems(3,4) by (auto simp: word_less_nat_alt)
    then show ?thesis using False Suc.prems(1) off by auto
  next
    case True
    note r = read_entry [OF Suc.prems(1-3) True]
    let ?x = "contents dp s"
    let ?P = "\<lambda>j. fst (entries ?x ! j) = 0"
    obtain t where t: "readi dp ToLocal off 16 s = Inr ((16, entry j ?x), t)" "calm s t" "txn {} (Suc k) t"
      "\<forall>y. blk y t = blk y s" "dir_ok dp t" "contents dp t = ?x" using r(1) by blast
    have upt: "[j..<length (entries ?x)] = j # [Suc j..<length (entries ?x)]" using r(2) by (simp add: upt_conv_Cons)
    have P: "de_inum (entry j ?x) = 0 \<longleftrightarrow> ?P j" using r(2) by simp
    show ?thesis
    proof (cases "?P j")
      case True
      then show ?thesis using \<open>off < isize (inodes s dp)\<close> t P off unfolding upt by (intro exI [of _ t]) simp
    next
      case False
      obtain u where u: "calm t u" "txn {} (Suc k) u" "\<forall>y. blk y u = blk y t" "dirlink_scan fuel dp (off + 16) t =
        Inr (of_nat (16 * (case find ?P [Suc j..<length (entries ?x)] of None \<Rightarrow> length (entries ?x) | Some j \<Rightarrow> j)), u)"
      proof -
        have "Suc j \<le> length (contents dp t) div 16" "length (contents dp t) div 16 - Suc j \<le> fuel"
          using r(2) Suc.prems(5) t(6) by (simp_all only: t(6))
        from Suc.IH [OF t(3,5) r(3) this] show thesis using that unfolding t(6) by blast
      qed
      have "dirlink_scan (Suc fuel) dp off s = dirlink_scan fuel dp (off + 16) t"
        using \<open>off < isize (inodes s dp)\<close> t(1) False P by auto
      then show ?thesis
        using u t(4) False calm_trans [OF t(2) u(1)] unfolding upt by (intro exI [of _ u]) auto
    qed
  qed
qed

lemma entry_splice:
  assumes "length x = 16 * m" "j \<le> m" "length de = 16"
  defines "y \<equiv> take (16 * j) x @ de @ drop (16 * j + 16) x"
  shows "length y = 16 * max m (Suc j)" "i < max m (Suc j) \<Longrightarrow> entry i y = (if i = j then de else entry i x)"
proof -
  show "length y = 16 * max m (Suc j)" using assms by (auto simp: y_def max_def)
  assume i: "i < max m (Suc j)"
  consider "i < j" | "i = j" | "j < i" by linarith
  then show "entry i y = (if i = j then de else entry i x)"
  proof cases
    case 1
    then obtain d c where "j = Suc (i + d)" "m = j + c" using less_imp_Suc_add le_Suc_ex [OF assms(2)] by blast
    then show ?thesis using assms(1) by (simp add: entry_def y_def drop_take)
  next
    case 2
    then show ?thesis using assms by (simp add: entry_def y_def)
  next
    case 3
    then have "16 * i = 16 * j + 16 + (16 * i - (16 * j + 16))" by simp
    then show ?thesis using 3 assms by (simp add: entry_def y_def add.commute)
  qed
qed

text \<open>A directory as a finite map from names to inode numbers.\<close>

definition dir_map :: "(u16 \<times> u8 list) list \<Rightarrow> u8 list \<rightharpoonup> u16" where
  "dir_map es nm = map_option (\<lambda>j. fst (es ! j)) (dir_find nm es)"

lemma find_cong_simple: "(\<And>j. j \<in> set xs \<Longrightarrow> P j = Q j) \<Longrightarrow> find P xs = find Q xs"
  by (induction xs) auto

lemma find_append: "find P (xs @ ys) = (case find P xs of None \<Rightarrow> find P ys | Some x \<Rightarrow> Some x)"
  by (induction xs) auto

lemma find_first_upt: "j < n \<Longrightarrow> P j \<Longrightarrow> (\<And>i. i < j \<Longrightarrow> \<not> P i) \<Longrightarrow> find P [0..<n] = Some j"
  by (auto simp: find_Some_iff)

lemma dir_map_link:
  assumes "length x = 16 * m" "j \<le> m" "length de = 16" "j < m \<Longrightarrow> fst (entries x ! j) = 0"
    and "de_inum de = n" "n \<noteq> 0" "dname (de_name de) = nm" "dir_find nm (entries x) = None"
  defines "y \<equiv> take (16 * j) x @ de @ drop (16 * j + 16) x"
  shows "dir_map (entries y) = (dir_map (entries x))(nm \<mapsto> n)"
proof
  fix nm'
  note e = entry_splice [OF assms(1-3), folded y_def]
  have es: "entries y ! i = (if i = j then (n, nm) else entries x ! i)" if "i < max m (Suc j)" for i
    using that e assms(1,2,5,7) by auto
  have len: "length (entries y) = max m (Suc j)" "length (entries x) = m" using e(1) assms(1) by simp_all
  show "dir_map (entries y) nm' = ((dir_map (entries x))(nm \<mapsto> n)) nm'"
  proof (cases "nm' = nm")
    case True
    have none: "\<not> (fst (entries x ! i) \<noteq> 0 \<and> snd (entries x ! i) = nm)" if "i < m" for i
      using assms(8) that len(2) by (auto simp: dir_find_def find_None_iff)
    have "dir_find nm (entries y) = Some j"
      unfolding dir_find_def len(1)
    proof (rule find_first_upt)
      fix i assume "i < j"
      then show "\<not> (fst (entries y ! i) \<noteq> 0 \<and> snd (entries y ! i) = nm)" using none [of i] es [of i] assms(2) by auto
    qed (use es [of j] assms(6) in auto)
    then show ?thesis using True es [of j] by (simp add: dir_map_def)
  next
    case False
    let ?P = "\<lambda>i. fst (entries x ! i) \<noteq> 0 \<and> snd (entries x ! i) = nm'"
    have "dir_find nm' (entries y) = find (\<lambda>i. i \<noteq> j \<and> ?P i) [0..<max m (Suc j)]"
      unfolding dir_find_def len(1) using es False by (intro find_cong_simple) auto
    also have "\<dots> = find ?P [0..<m]"
    proof (cases "j < m")
      case True
      then have "max m (Suc j) = m" by simp
      then show ?thesis using assms(4) True by (auto intro!: find_cong_simple simp del: upt_Suc)
    next
      case False
      then have "max m (Suc j) = Suc m" "j = m" using assms(2) by auto
      moreover have "find (\<lambda>i. i \<noteq> m \<and> ?P i) [0..<m] = find ?P [0..<m]" by (rule find_cong_simple) auto
      ultimately show ?thesis by (simp add: find_append split: option.split)
    qed
    finally have f: "dir_find nm' (entries y) = dir_find nm' (entries x)" using len(2) by (simp add: dir_find_def)
    moreover have "entries y ! i = entries x ! i" if "dir_find nm' (entries x) = Some i" for i
      using that es [of i] len assms(4) by (auto simp: dir_find_def dest!: find_SomeD)
    ultimately show ?thesis using False by (cases "dir_find nm' (entries x)") (auto simp: dir_map_def)
  qed
qed

lemma dirent_fields:
  assumes "length nm = 14"
  shows "length (dirent_bytes n nm) = 16" "de_inum (dirent_bytes n nm) = n" "de_name (dirent_bytes n nm) = nm"
  using assms by (simp_all add: dirent_bytes_def de_inum_def de_name_def getw_def of_le_le_bytes)

lemma nblk_entry: "nblk (16 * j) 16 = 1"
proof -
  have "16 * j mod BSIZE = 16 * (j mod 64)" using mult_mod_right [of 16 j 64] by simp
  moreover have "j mod 64 \<le> 63" using mod_less_divisor [of 64 j] by linarith
  ultimately show ?thesis by (simp add: nblk_def)
qed

text \<open>Writing one entry at a multiple of 16, which stays within one block.\<close>

lemma write_entry:
  assumes "txn {} (Suc (k + 6)) s" "alloc_ok s" "file_ok dp s" "mapped dp s" "length de = 16" "j \<le> length (contents dp s) div 16"
  shows "if 16 * j + 16 > MAXFILE * BSIZE then writei dp (FromLocal de) (of_nat (16 * j)) 16 s = Inr (- 1, s)
    else \<exists>w t. w \<le> 16 \<and> writei dp (FromLocal de) (of_nat (16 * j)) 16 s = Inr (int w, t) \<and> txn {} k t \<and> alloc_ok t \<and> file_ok dp t \<and>
      mapped dp t \<and> contents dp t = take (16 * j) (contents dp s) @ take w de @ drop (16 * j + w) (contents dp s) \<and>
      (w < 16 \<longrightarrow> {..<sb_size (sb s)} \<subseteq> used t) \<and>
      (\<exists>as z. inodes t = (inodes s)(dp := (inodes s dp)\<lparr>addrs := as, isize := z\<rparr>))"
proof -
  have size: "16 * j \<le> unat (isize (inodes s dp))" "unat (isize (inodes s dp)) \<le> MAXFILE * BSIZE"
    using assms(4,6) by (simp_all add: mapped_def)
  have off: "unat (of_nat (16 * j) :: u32) = 16 * j" using size by (simp add: unat_of_nat del: of_nat_mult)
  have o16: "unat (of_nat (16 * j) + 16 :: u32) = 16 * j + 16" using off size by (simp add: unat_word_ariths(1) del: of_nat_mult)
  have u16: "unat (16 :: u32) = 16" by simp
  have "Suc k + 6 * nblk (unat (of_nat (16 * j) :: u32)) (unat (16 :: u32)) = Suc (k + 6)" by (simp only: off u16 nblk_entry)
  then have t: "txn {} (Suc k + 6 * nblk (unat (of_nat (16 * j) :: u32)) (unat (16 :: u32))) s" using assms(1) by (simp only:)
  have sup: "supplies (FromLocal de) de s" "length de = unat (16 :: u32)" using assms(5) by (simp_all add: supplies_def)
  have "of_nat (16 * j) > isize (inodes s dp) \<or> of_nat (16 * j) + 16 < (of_nat (16 * j) :: u32) \<or> of_nat (16 * j) + 16 > (of_nat (MAXFILE * BSIZE) :: u32) \<longleftrightarrow>
      16 * j + 16 > MAXFILE * BSIZE"
  proof -
    have "unat (of_nat (MAXFILE * BSIZE) :: u32) = MAXFILE * BSIZE" by simp
    then show ?thesis unfolding word_less_nat_alt off o16 using size(1) by linarith
  qed
  then show ?thesis using writei_spec [OF t assms(2-4) sup] unfolding off u16 by (simp only:) meson
qed

text \<open>The position at which \<open>dirlink\<close> writes: the first unused entry, or the end.\<close>

definition link_slot :: "(u16 \<times> u8 list) list \<Rightarrow> nat" where
  "link_slot es = (case find (\<lambda>j. fst (es ! j) = 0) [0..<length es] of None \<Rightarrow> length es | Some j \<Rightarrow> j)"

lemma link_slot: "link_slot es \<le> length es" "link_slot es < length es \<Longrightarrow> fst (es ! link_slot es) = 0"
  by (auto simp: link_slot_def split: option.splits dest!: find_SomeD)

lemma dirlink_run:
  assumes "txn {} (Suc m) s" "dir_ok dp s" "length name \<le> 0x1000" "dir_find (dname name) (entries (contents dp s)) = None"
  shows "\<exists>s2. txn {} (Suc m) s2 \<and> inodes s2 = inodes s \<and> sb s2 = sb s \<and> (\<forall>y. blk y s2 = blk y s) \<and>
    dirlink dp name n s = and_then (writei dp (FromLocal (dirent_bytes (ucast n) (copy_name name)))
      (of_nat (16 * link_slot (entries (contents dp s)))) 16 s2) (\<lambda>(r, s). Inr (if r \<noteq> 16 then - 1 else 0, s))"
proof -
  let ?x = "contents dp s"
  obtain s1 where s1: "calm s s1" "txn {} (Suc m) s1" "\<forall>y. blk y s1 = blk y s" "dirlookup dp name s = Inr (None, s1)"
    using dirlookup_run [OF assms(1-3)] assms(4) by auto
  have i1: "inodes s1 = inodes s" "sb s1 = sb s" using calm_fs [OF s1(1)] by simp_all
  note c1 = fblk_cong [of s1 dp s, OF _ s1(3)]
  have d1: "dir_ok dp s1" "contents dp s1 = ?x" using c1(3,4) i1 assms(2) by (simp_all add: dir_ok_def)
  have "unat (0 :: u32) = 16 * 0" "length (contents dp s1) div 16 - 0 \<le> Suc (length ?x div 16)" using d1(2) by simp_all
  from dirlink_scan_spec [OF s1(2) d1(1) this(1) le0 this(2)]
  obtain s2 where s2: "calm s1 s2" "txn {} (Suc m) s2" "\<forall>y. blk y s2 = blk y s1"
    "dirlink_scan (Suc (length ?x div 16)) dp 0 s1 = Inr (of_nat (16 * link_slot (entries ?x)), s2)"
    unfolding d1(2) link_slot_def by blast
  have "dirlink dp name n s = and_then (writei dp (FromLocal (dirent_bytes (ucast n) (copy_name name)))
      (of_nat (16 * link_slot (entries ?x))) 16 s2) (\<lambda>(r, s). Inr (if r \<noteq> 16 then - 1 else 0, s))"
    using s1(4) s2(4) i1 by (simp add: dirlink_def Let_def del: dirlink_scan.simps)
  then show ?thesis using s2(2) calm_fs [OF s2(1)] i1 s1(3) s2(3) by (intro exI [of _ s2]) simp
qed

text \<open>
  C22: \<open>dirlink\<close> of a new name updates the directory as a map from names to inode numbers: afterwards
  the name leads to the inode and every other name to the inode it led to before.  It returns -1 only when the disk is full or
  the directory has reached the largest file size.
\<close>

theorem dirlink_correct:
  assumes "txn {} (k + 7) s" "dir_ok dp s" "alloc_ok s" "file_ok dp s" "length name \<le> 0x1000"
    and "dir_find (dname name) (entries (contents dp s)) = None" "(ucast n :: u16) \<noteq> 0"
  shows "\<exists>t. dirlink dp name n s = Inr (0, t) \<and> txn {} k t \<and> dir_ok dp t \<and> alloc_ok t \<and> file_ok dp t \<and>
      dir_map (entries (contents dp t)) = (dir_map (entries (contents dp s)))(dname name \<mapsto> ucast n) \<or>
    dirlink dp name n s = Inr (- 1, t) \<and>
      ({..<sb_size (sb s)} \<subseteq> used t \<or> length (contents dp s) = MAXFILE * BSIZE)"
proof -
  let ?x = "contents dp s"
  let ?es = "entries ?x"
  define j where "j = link_slot ?es"
  define de where "de = dirent_bytes (ucast n) (copy_name name)"
  have k7: "txn {} (Suc (k + 6)) s" using assms(1) by (simp add: eval_nat_numeral)
  have s: "mapped dp s" "itype (inodes s dp) = T_DIR" "length ?x mod 16 = 0" "length ?x \<le> MAXFILE * BSIZE"
    using assms(2) by (simp_all add: dir_ok_def mapped_def)
  have j: "j \<le> length ?x div 16" "j < length ?x div 16 \<Longrightarrow> fst (?es ! j) = 0" using link_slot [of ?es] by (simp_all add: j_def)
  obtain s2 where s2: "txn {} (Suc (k + 6)) s2" and i2: "inodes s2 = inodes s" "sb s2 = sb s" "\<forall>y. blk y s2 = blk y s"
    and run: "dirlink dp name n s = and_then (writei dp (FromLocal de) (of_nat (16 * j)) 16 s2) (\<lambda>(r, s). Inr (if r \<noteq> 16 then - 1 else 0, s))"
    using dirlink_run [OF k7 assms(2,5,6), of n] unfolding de_def j_def by blast
  note c2 = fblk_cong [of s2 dp s, OF _ i2(3)] and fc = file_ok_cong [OF i2]
  have de: "length de = 16" "de_inum de = ucast n" "dname (de_name de) = dname name"
    using copy_name_eq [OF assms(5)] dname_props [of name] dname_pad [of "dname name"]
    by (simp_all add: de_def dirent_fields pad_def)
  have "mapped dp s2" "contents dp s2 = ?x" using c2(3,4) i2(1) s(1) by simp_all
  note w = write_entry [OF s2 fc(2) [THEN iffD2, OF assms(3)] fc(1) [THEN iffD2, OF assms(4)] this(1) de(1), of j, unfolded this(2) i2(1,2), OF j(1)]
  show ?thesis
  proof (cases "16 * j + 16 > MAXFILE * BSIZE")
    case True
    then have "dirlink dp name n s = Inr (- 1, s2)" using w run by simp
    moreover have "17152 \<le> j" "16 * j \<le> length ?x" using True j(1) by simp_all
    then have "length ?x = MAXFILE * BSIZE" using s(4) by linarith
    ultimately show ?thesis by blast
  next
    case False
    then obtain w t where t: "w \<le> 16" "writei dp (FromLocal de) (of_nat (16 * j)) 16 s2 = Inr (int w, t)" "txn {} k t" "alloc_ok t" "file_ok dp t"
        "mapped dp t" "contents dp t = take (16 * j) ?x @ take w de @ drop (16 * j + w) ?x" "w < 16 \<longrightarrow> {..<sb_size (sb s)} \<subseteq> used t"
        "\<exists>as z. inodes t = (inodes s)(dp := (inodes s dp)\<lparr>addrs := as, isize := z\<rparr>)"
      using w by auto
    have ty: "itype (inodes t dp) = T_DIR" using t(9) s(2) by auto
    show ?thesis
    proof (cases "w = 16")
      case True
      have x: "length ?x = 16 * (length ?x div 16)" using s(3) by (metis add.right_neutral mult_div_mod_eq)
      have c: "contents dp t = take (16 * j) ?x @ de @ drop (16 * j + 16) ?x" using t(7) True de(1) by simp
      then have "length (contents dp t) mod 16 = 0" using entry_splice(1) [OF x j(1) de(1)] by (metis mod_mult_self1_is_0)
      moreover have "dir_map (entries (contents dp t)) = (dir_map ?es)(dname name \<mapsto> ucast n)"
        unfolding c by (rule dir_map_link [OF x j(1) de(1) j(2) de(2) assms(7) de(3) assms(6)])
      moreover have "dirlink dp name n s = Inr (0, t)" using run t(2) True by simp
      ultimately show ?thesis using t(3-6) ty by (auto simp: dir_ok_def)
    next
      case False
      then have "dirlink dp name n s = Inr (- 1, t)" using run t(2) by simp
      then show ?thesis using t(1,8) False by auto
    qed
  qed
qed

subsection \<open>An empty directory\<close>

definition demo_dir_fs :: fsst where
  "demo_dir_fs = demo_fs\<lparr>inodes := \<lambda>_. demo_file\<lparr>itype := T_DIR, isize := 1024\<rparr>\<rparr>"

lemma demo_dir_fblk: "fblk i b demo_dir_fs = fblk i b demo_file_fs"
  by (simp add: fblk_def demo_dir_fs_def demo_file_fs_def)

lemma demo_dir_sel: "txn {} 30 demo_dir_fs" "alloc_ok demo_dir_fs" "file_ok i demo_dir_fs" "lock_free l demo_dir_fs"
proof -
  show "txn {} 30 demo_dir_fs" using demo_fs_txn by (simp add: demo_dir_fs_def)
  show "alloc_ok demo_dir_fs" using demo_file_alloc(1) by (simp add: demo_dir_fs_def demo_file_fs_def)
  show "lock_free l demo_dir_fs" by (simp add: demo_dir_fs_def)
  have "meta demo_dir_fs = meta demo_file_fs" "used demo_dir_fs = used demo_file_fs" by (simp_all add: demo_dir_fs_def demo_file_fs_def)
  then show "file_ok i demo_dir_fs" using demo_file_ok [of i] unfolding file_ok_def demo_dir_fblk
    by (simp add: demo_dir_fs_def demo_file_fs_def demo_file_def)
qed

lemma demo_dir_ok: "dir_ok i demo_dir_fs"
proof -
  have "fblk i b demo_dir_fs \<noteq> 0" if "b * BSIZE < 1024" for b
  proof -
    have "b = 0" using that by simp
    then show ?thesis by (simp add: fblk_def demo_dir_fs_def demo_file_def)
  qed
  then show ?thesis by (auto simp: dir_ok_def mapped_def demo_dir_fs_def demo_file_def)
qed

lemma demo_dir_empty: "dir_find nm (entries (contents i demo_dir_fs)) = None"
proof -
  have c: "contents i demo_dir_fs = replicate 1024 0"
    by (rule nth_equalityI) (simp_all add: contents_def fbyte_def fblk_def demo_dir_fs_def demo_file_def)
  have "de_inum (entry j (replicate 1024 0)) = 0" for j
  proof -
    have "take 2 (take 16 (drop (16 * j) (replicate 1024 0))) = replicate (min 2 (min 16 (1024 - 16 * j))) (0 :: u8)" by simp
    moreover have "of_le (replicate m 0) = (0 :: u16)" for m by (induction m) simp_all
    ultimately show ?thesis by (simp add: entry_def de_inum_def getw_def)
  qed
  then show ?thesis unfolding dir_find_def find_None_iff c by auto
qed

theorem dirlookup_correct_witness: "\<exists>t. dirlookup 3 [97] demo_dir_fs = Inr (None, t) \<and> inodes t = inodes demo_dir_fs"
proof -
  have "txn {} (Suc 29) demo_dir_fs" using demo_dir_sel(1) by simp
  then show ?thesis
    using dirlookup_correct [OF _ demo_dir_ok demo_dir_sel(4), where k = 29 and name = "[97]" and dp = 3] by (auto simp: demo_dir_empty)
qed

theorem dirlink_correct_witness:
  "\<exists>t. dirlink 3 [97] 5 demo_dir_fs = Inr (0, t) \<and> dir_map (entries (contents 3 t)) [97] = Some 5 \<or>
     dirlink 3 [97] 5 demo_dir_fs = Inr (- 1, t) \<and> {..<2000} \<subseteq> used t"
proof -
  have "txn {} (0 + 7) demo_dir_fs" using txn_mono [OF demo_dir_sel(1)] by simp
  moreover have "dname [97] = [97]" by (simp add: dname_def name_of_def)
  moreover have "length (contents 3 demo_dir_fs) \<noteq> MAXFILE * BSIZE" "sb_size (sb demo_dir_fs) = 2000"
    by (simp_all add: demo_dir_fs_def)
  ultimately show ?thesis
    using dirlink_correct [OF _ demo_dir_ok demo_dir_sel(2,3) _ demo_dir_empty, where k = 0 and dp = 3 and name = "[97]" and n = 5] by auto
qed

subsection \<open>Path names\<close>

text \<open>The elements of a path: the maximal runs of bytes between slashes.\<close>

function path_elems :: "u8 list \<Rightarrow> u8 list list" where
  "path_elems p = (let q = dropWhile (\<lambda>c. c = SLASH) p in
     if q = [] then [] else takeWhile (\<lambda>c. c \<noteq> SLASH) q # path_elems (dropWhile (\<lambda>c. c \<noteq> SLASH) q))"
  by pat_completeness simp
termination
proof (relation "measure length")
  fix p q :: "u8 list" assume q: "q = dropWhile (\<lambda>c. c = SLASH) p" "q \<noteq> []"
  have "hd q \<noteq> SLASH" using hd_dropWhile [of "\<lambda>c. c = SLASH" p] q(2) unfolding q(1) by blast
  then have "length (dropWhile (\<lambda>c. c \<noteq> SLASH) q) < length q" using q(2) length_dropWhile_le [of "\<lambda>c. c \<noteq> SLASH" "tl q"] by (cases q) simp_all
  also have "length q \<le> length p" unfolding q(1) by (rule length_dropWhile_le)
  finally show "(dropWhile (\<lambda>c. c \<noteq> SLASH) q, p) \<in> measure length" by simp
qed simp

declare path_elems.simps [simp del]

lemma path_elems_Nil: "path_elems p = [] \<longleftrightarrow> dropWhile (\<lambda>c. c = SLASH) p = []"
  by (subst path_elems.simps) (simp add: Let_def)

lemma path_elems_skip: "path_elems (dropWhile (\<lambda>c. c = SLASH) p) = path_elems p"
proof -
  have "dropWhile (\<lambda>c. c = SLASH) (dropWhile (\<lambda>c. c = SLASH) p) = dropWhile (\<lambda>c. c = SLASH) p"
    by (induction p) auto
  then show ?thesis by (simp add: path_elems.simps [of p] path_elems.simps [of "dropWhile (\<lambda>c. c = SLASH) p"] Let_def)
qed

lemma dname_elem:
  assumes "length name = DIRSIZ" "0 \<notin> set e"
  shows "dname (if length e \<ge> DIRSIZ then splice name 0 (take DIRSIZ e) else splice name 0 (e @ [0])) = take DIRSIZ e"
    "length (if length e \<ge> DIRSIZ then splice name 0 (take DIRSIZ e) else splice name 0 (e @ [0])) = DIRSIZ"
proof -
  have w: "takeWhile (\<lambda>b. b \<noteq> 0) x = x" "takeWhile (\<lambda>b. b \<noteq> 0) (x @ 0 # y) = x" if "0 \<notin> set x" for x y :: "u8 list"
    using that by (induction x) auto
  have "0 \<notin> set (take DIRSIZ e)" using assms(2) by (auto dest: in_set_takeD)
  then show "dname (if length e \<ge> DIRSIZ then splice name 0 (take DIRSIZ e) else splice name 0 (e @ [0])) = take DIRSIZ e"
    using assms w by (auto simp: dname_def name_of_def splice_def min_def)
  show "length (if length e \<ge> DIRSIZ then splice name 0 (take DIRSIZ e) else splice name 0 (e @ [0])) = DIRSIZ"
    using assms(1) by (auto simp: splice_def min_def)
qed

text \<open>
  C24: \<open>skipelem\<close> takes a path apart element by element: on a path without elements it returns null;
  otherwise the name buffer holds the first element, cut to 14 bytes, and the rest of the path has the remaining
  elements.  The rest is the empty string exactly when the element was the last one, which is how
  \<open>namex\<close> recognises the parent.
\<close>

theorem skipelem_correct:
  assumes "length name = DIRSIZ" "0 \<notin> set path"
  shows "case path_elems path of
      [] \<Rightarrow> skipelem path name = None
    | e # es \<Rightarrow> \<exists>rest name'. skipelem path name = Some (rest, name') \<and> dname name' = take DIRSIZ e \<and> length name' = DIRSIZ \<and>
        path_elems rest = es \<and> (rest = [] \<longleftrightarrow> es = [])"
proof -
  define q where "q = dropWhile (\<lambda>c. c = SLASH) path"
  show ?thesis
  proof (cases "q = []")
    case True
    then show ?thesis by (simp add: path_elems.simps [of path] skipelem_def q_def)
  next
    case False
    define e r where "e = takeWhile (\<lambda>c. c \<noteq> SLASH) q" and "r = dropWhile (\<lambda>c. c \<noteq> SLASH) q"
    have "0 \<notin> set e" using assms(2) by (auto simp: e_def q_def dest!: set_takeWhileD set_dropWhileD)
    note n = dname_elem [OF assms(1) this]
    have "skipelem path name = Some (dropWhile (\<lambda>c. c = SLASH) r,
        if length e \<ge> DIRSIZ then splice name 0 (take DIRSIZ e) else splice name 0 (e @ [0]))"
      using False by (simp add: skipelem_def q_def [symmetric] e_def r_def Let_def)
    moreover have "path_elems path = e # path_elems r"
      using False by (simp add: path_elems.simps [of path] q_def [symmetric] e_def r_def Let_def)
    moreover have "dropWhile (\<lambda>c. c = SLASH) r = [] \<longleftrightarrow> path_elems r = []" by (simp only: path_elems_Nil)
    ultimately show ?thesis using n path_elems_skip [of r] by auto
  qed
qed

theorem skipelem_correct_witness:
  "\<exists>rest name'. skipelem [47, 97, 47, 98] (replicate 14 0) = Some (rest, name') \<and> dname name' = [97] \<and> path_elems rest = [[98]]"
proof -
  have "path_elems [47, 97, 47, 98] = [[97], [98]]" by (simp add: path_elems.simps Let_def)
  then show ?thesis using skipelem_correct [of "replicate 14 0" "[47, 97, 47, 98]"] by auto
qed

end
