(* ===== verification/Lifecycle.thy ===== *)
theory Lifecycle
  imports Proc
begin

section \<open>The life of a process\<close>

text \<open>
  What the process table promises: the scheduler passes over no runnable process, \<open>kkill\<close> reaches its
  victim and no other process, \<open>kwait\<close> reaps a zombie child.
\<close>

subsection \<open>Killing\<close>

definition slain :: "proc \<Rightarrow> proc" where
  "slain q = q\<lparr>pkilled := 1, state := if state q = SLEEPING then RUNNABLE else state q\<rparr>"

lemma kkill_from_eq:
  assumes "cpu_ok s" "\<forall>i \<in> set is. lock_free (LProc i) s" "is = [] \<longrightarrow> crit s = s"
  shows "kkill_from n is s = (case find (\<lambda>i. pid (procs s i) = n) is of
      None \<Rightarrow> Inr (False, crit s)
    | Some i \<Rightarrow> Inr (True, upd_proc i slain (crit s)))"
  using assms
proof (induction "is" arbitrary: s)
  case (Cons i "is")
  show ?case
  proof (cases "pid (procs s i) = n")
    case True
    then show ?thesis using Cons.prems by (simp add: flow upd_proc_def slain_def)
  next
    case False
    moreover have "kkill_from n is (crit s) = (case find (\<lambda>i. pid (procs (crit s) i) = n) is of
      None \<Rightarrow> Inr (False, crit (crit s)) | Some i \<Rightarrow> Inr (True, upd_proc i slain (crit (crit s))))"
      using Cons.prems by (intro Cons.IH) auto
    ultimately show ?thesis using Cons.prems by (simp add: flow split: option.split)
  qed
qed simp



subsection \<open>The scheduler\<close>

text \<open>
  What a round does to the process table, when \<open>f i\<close> is what happens to it between the switch to process \<open>i\<close> and
  the switch back: the processes that ran, in order, and the final table.
\<close>

primrec sched_spec :: "(nat \<Rightarrow> (nat \<Rightarrow> proc) \<Rightarrow> nat \<Rightarrow> proc) \<Rightarrow> nat list \<Rightarrow> (nat \<Rightarrow> proc) \<Rightarrow> nat list \<times> (nat \<Rightarrow> proc)" where
  "sched_spec f [] ps = ([], ps)"
| "sched_spec f (i # is) ps =
     (if state (ps i) = RUNNABLE
      then let (r, ps) = sched_spec f is (f i (ps(i := (ps i)\<lparr>state := RUNNING\<rparr>))) in (i # r, ps)
      else sched_spec f is ps)"

lemma set_mycpu_simps [simp]:
  fixes s :: "'z ptable_scheme"
  shows "set_mycpu c (s\<lparr>procs := ps\<rparr>) = (set_mycpu c s)\<lparr>procs := ps\<rparr>" "procs (set_mycpu c s) = procs s"
    "mycpu (set_mycpu c s) = c" "set_mycpu c (set_mycpu d s) = set_mycpu c s" "set_mycpu (mycpu s) s = s"
  by (simp_all add: set_mycpu_def mycpu_def)

lemma sched_slot_eq:
  assumes "cpu_ok s" "lock_free (LProc i) s" "cproc (mycpu s) = None"
  shows "sched_slot (\<lambda>i s. Inr (s\<lparr>procs := f i (procs s)\<rparr>)) i (found, s) = (if state (procs s i) = RUNNABLE
    then Inr (True, (crit s)\<lparr>procs := f i ((procs s)(i := (procs s i)\<lparr>state := RUNNING\<rparr>))\<rparr>)
    else Inr (found, crit s))"
proof -
  let ?c = "mycpu (acquired (LProc i) s)"
  have "cproc ?c = None" using assms(3) by simp
  then have "?c\<lparr>cproc := None\<rparr> = ?c" by (cases ?c) simp
  then have e: "set_mycpu (?c\<lparr>cproc := None\<rparr>) (acquired (LProc i) s) = acquired (LProc i) s" by (simp only: set_mycpu_simps)
  show ?thesis using assms by (simp add: sched_slot_def flow upd_proc_def Let_def e)
qed

lemma sched_loop_eq:
  assumes "cpu_ok s" "\<forall>i \<in> set is. lock_free (LProc i) s" "cproc (mycpu s) = None" "crit s = s"
  shows "for_each (sched_slot (\<lambda>i s. Inr (s\<lparr>procs := f i (procs s)\<rparr>))) is (found, s) =
    Inr (found \<or> fst (sched_spec f is (procs s)) \<noteq> [], s\<lparr>procs := snd (sched_spec f is (procs s))\<rparr>)"
  using assms
proof (induction "is" arbitrary: found s)
  case (Cons i "is")
  define s' where "s' = (if state (procs s i) = RUNNABLE then s\<lparr>procs := f i ((procs s)(i := (procs s i)\<lparr>state := RUNNING\<rparr>))\<rparr> else s)"
  have slot: "sched_slot (\<lambda>i s. Inr (s\<lparr>procs := f i (procs s)\<rparr>)) i (found, s) = Inr (found \<or> state (procs s i) = RUNNABLE, s')"
    using sched_slot_eq [of s i f found] Cons.prems by (simp add: s'_def)
  have "cpu_ok s'" "\<forall>i \<in> set is. lock_free (LProc i) s'" "cproc (mycpu s') = None" "crit s' = s'"
    using Cons.prems by (simp_all add: s'_def)
  note ih = Cons.IH [OF this, of "found \<or> state (procs s i) = RUNNABLE"]
  show ?case using slot ih by (simp add: s'_def split_def Let_def)
qed simp

text \<open>Running a process may make others runnable, but takes no process out of that state.\<close>

definition keeps_runnable :: "(nat \<Rightarrow> (nat \<Rightarrow> proc) \<Rightarrow> nat \<Rightarrow> proc) \<Rightarrow> bool" where
  "keeps_runnable f \<longleftrightarrow> (\<forall>i j ps. j \<noteq> i \<longrightarrow> state (ps j) = RUNNABLE \<longrightarrow> state (f i ps j) = RUNNABLE)"

lemma sched_spec_fair:
  assumes "keeps_runnable f" "distinct is" "i \<in> set is" "state (ps i) = RUNNABLE"
  shows "i \<in> set (fst (sched_spec f is ps))"
  using assms
proof (induction "is" arbitrary: ps)
  case (Cons j "is")
  show ?case
  proof (cases "i = j")
    case False
    then have "state (f j (ps(j := (ps j)\<lparr>state := RUNNING\<rparr>)) i) = RUNNABLE" using Cons.prems(1,4) by (simp add: keeps_runnable_def)
    then show ?thesis using Cons False by (auto simp: split_def Let_def)
  qed (use Cons.prems in \<open>auto simp: split_def Let_def\<close>)
qed simp

lemma sched_spec_subseq: "sorted_wrt (<) is \<Longrightarrow> sorted_wrt (<) (fst (sched_spec f is ps)) \<and> set (fst (sched_spec f is ps)) \<subseteq> set is"
  by (induction "is" arbitrary: ps) (auto simp: split_def Let_def)

text \<open>
  C26: one round of \<open>scheduler\<close> gives the hart to processes one after the other, in table order, each at most once, and
  every process that is runnable when the round starts gets its turn, provided that running a process takes no other
  process out of the runnable state.  The round finds nothing to run only when no process was runnable.  \<open>run\<close> is any
  sequence of kernel steps between the two context switches that ends with the locks as it found them.
\<close>

theorem scheduler_fair:
  assumes "procs_free s" "cproc (mycpu s) = None" "noff (mycpu s) = 0" "keeps_runnable f"
  shows "\<exists>runs t. scheduler_round (\<lambda>i s. Inr (s\<lparr>procs := f i (procs s)\<rparr>)) s = Inr (runs \<noteq> [], t) \<and>
    (runs, procs t) = sched_spec f [0..<NPROC] (procs s) \<and> sorted_wrt (<) runs \<and>
    {i. i < NPROC \<and> state (procs s i) = RUNNABLE} \<subseteq> set runs"
proof -
  let ?run = "\<lambda>i s. Inr (s\<lparr>procs := f i (procs s)\<rparr>)"
  define u where "u = intr_off (intr_on s)"
  have u: "cpu_ok u" "cproc (mycpu u) = None" "procs u = procs s" "\<And>l. lock_free l u = lock_free l s"
    using assms(2,3) by (simp_all add: u_def cpu_ok_def lock_free_def machine_defs)
  have free: "\<forall>i \<in> set [0..<NPROC]. lock_free (LProc i) (crit u)" using assms(1) u(4) by (simp add: procs_free_def)
  have "sched_slot ?run 0 (False, u) = sched_slot ?run 0 (False, crit u)"
    using sched_slot_eq [of u 0 f False] sched_slot_eq [of "crit u" 0 f False] u(1,2) free by simp
  then have "for_each (sched_slot ?run) (0 # [1..<NPROC]) (False, u) = for_each (sched_slot ?run) (0 # [1..<NPROC]) (False, crit u)"
    by simp
  moreover have "[0..<NPROC] = 0 # [1..<NPROC]" by (simp add: upt_conv_Cons)
  ultimately have "scheduler_round ?run s = for_each (sched_slot ?run) [0..<NPROC] (False, crit u)"
    by (simp only: scheduler_round_def u_def)
  also have "\<dots> = Inr (fst (sched_spec f [0..<NPROC] (procs s)) \<noteq> [], (crit u)\<lparr>procs := snd (sched_spec f [0..<NPROC] (procs s))\<rparr>)"
    using sched_loop_eq [OF _ free, of f False] u(1-3) by simp
  finally show ?thesis
    using sched_spec_subseq [of "[0..<NPROC]" f "procs s"] sched_spec_fair [OF assms(4), of "[0..<NPROC]" _ "procs s"]
    by (intro exI [of _ "fst (sched_spec f [0..<NPROC] (procs s))"] exI [of _ "(crit u)\<lparr>procs := snd (sched_spec f [0..<NPROC] (procs s))\<rparr>"])
      (auto simp: sorted_wrt_upt)
qed

text \<open>Two runnable processes that exit when they run.\<close>

definition demo_sched :: ptable where
  "demo_sched = demo_idle\<lparr>cpus := \<lambda>_. \<lparr>cproc = None, noff = 0, intena = False\<rparr>,
     procs := \<lambda>i. demo_proc\<lparr>state := if i = 3 \<or> i = 5 then RUNNABLE else UNUSED\<rparr>\<rparr>"

theorem scheduler_fair_witness:
  "\<exists>runs t. scheduler_round (\<lambda>i s. Inr (s\<lparr>procs := (procs s)(i := (procs s i)\<lparr>state := ZOMBIE\<rparr>)\<rparr>)) demo_sched = Inr (True, t) \<and>
     sorted_wrt (<) runs \<and> {3, 5 :: nat} \<subseteq> set runs"
proof -
  have "keeps_runnable (\<lambda>i ps. ps(i := (ps i)\<lparr>state := ZOMBIE\<rparr>))" by (simp add: keeps_runnable_def)
  moreover have "procs_free demo_sched" "cproc (mycpu demo_sched) = None" "noff (mycpu demo_sched) = 0"
    by (simp_all add: demo_sched_def demo_idle_def procs_free_def lock_free_def machine_defs)
  moreover have "{3, 5} \<subseteq> {i. i < NPROC \<and> state (procs demo_sched i) = RUNNABLE}" by (auto simp: demo_sched_def)
  moreover obtain runs t where "scheduler_round (\<lambda>i s. Inr (s\<lparr>procs := (procs s)(i := (procs s i)\<lparr>state := ZOMBIE\<rparr>)\<rparr>)) demo_sched = Inr (runs \<noteq> [], t)"
    "sorted_wrt (<) runs" "{i. i < NPROC \<and> state (procs demo_sched i) = RUNNABLE} \<subseteq> set runs"
    using scheduler_fair [OF calculation(2,3,4,1)] by blast
  moreover from calculation have "{3, 5} \<subseteq> set runs" by (meson order_trans)
  moreover from this have "runs \<noteq> []" by auto
  ultimately show ?thesis by auto
qed

subsection \<open>Waiting for a child\<close>

lemma uvmunmap_loop_more [frame]: "uvmunmap_loop k pt a lim fr s = Inr t \<Longrightarrow> kmem.more t = kmem.more s"
  by (induction k arbitrary: a s) (fastforce split: if_splits dest!: walk_more kfree_more)+

lemma uvmunmap_more [frame]: "uvmunmap pt va n fr s = Inr t \<Longrightarrow> kmem.more t = kmem.more s"
  by (auto simp: uvmunmap_def split: if_splits dest!: uvmunmap_loop_more)

lemma for_each_keeps:
  assumes "for_each f xs s = Inr t" "\<And>x s t. f x s = Inr t \<Longrightarrow> g t = g s"
  shows "g t = g s"
  using assms(1) by (induction xs arbitrary: s) (auto dest: assms(2))

lemma freewalk_level_more [frame]: "freewalk_level k pt s = Inr t \<Longrightarrow> kmem.more t = kmem.more s"
proof (induction k arbitrary: pt s t)
  case (Suc k)
  then obtain u where u: "for_each (\<lambda>i s.
       let pte_ptr = pt + 8 * of_nat i; pte = load64 (mem s) pte_ptr in
       if pte AND PTE_V \<noteq> 0 \<and> pte AND (PTE_R OR PTE_W OR PTE_X) = 0
       then and_then (freewalk_level k (pte2pa pte) s) (\<lambda>s. Inr (s\<lparr>mem := store64 (mem s) pte_ptr 0\<rparr>))
       else if pte AND PTE_V \<noteq> 0 then Inl (Panic ''freewalk: leaf'') else Inr s) [0..<512] s = Inr u" "kfree pt u = Inr t"
    by auto
  have "kmem.more u = kmem.more s"
    by (rule for_each_keeps [OF u(1)]) (auto simp: Let_def split: if_splits dest!: Suc.IH)
  then show ?case using kfree_more [OF u(2)] by simp
qed simp

lemma uvmfree_more [frame]: "uvmfree pt n s = Inr t \<Longrightarrow> kmem.more t = kmem.more s"
  by (auto simp: uvmfree_def freewalk_def split: if_splits dest!: uvmunmap_more freewalk_level_more)

lemma proc_freepagetable_more [frame]: "proc_freepagetable pt n s = Inr t \<Longrightarrow> kmem.more t = kmem.more s"
  by (auto simp: proc_freepagetable_def dest!: uvmunmap_more uvmfree_more)

text \<open>What \<open>freeproc_locked\<close> makes of a slot.\<close>

definition vacated :: "proc \<Rightarrow> bool" where
  "vacated q \<longleftrightarrow> state q = UNUSED \<and> pid q = 0 \<and> parent q = None \<and> pagetable q = 0 \<and> trapframe q = 0 \<and> sz q = 0 \<and>
     pchan q = None \<and> pkilled q = 0 \<and> xstate q = 0"

lemma freeproc_locked_spec:
  assumes "freeproc_locked i s = Inr t"
  shows "vacated (procs t i) \<and> (\<forall>j. j \<noteq> i \<longrightarrow> procs t j = procs s j)"
proof -
  obtain u where u: "(if trapframe (procs s i) \<noteq> 0 then kfree (trapframe (procs s i)) s else Inr s) = Inr u"
    using assms by (auto simp: freeproc_locked_def)
  then have pu: "procs u = procs s" by (auto split: if_splits dest!: kfree_more intro: kmem_more_ptable)
  let ?u = "upd_proc i (trapframe_update (\<lambda>_. 0)) u"
  obtain v where v: "(if pagetable (procs ?u i) \<noteq> 0 then proc_freepagetable (pagetable (procs ?u i)) (sz (procs ?u i)) ?u else Inr ?u) = Inr v"
    "t = upd_proc i (\<lambda>q. q\<lparr>pagetable := 0, sz := 0, pid := 0, parent := None, pname := (pname q)[0 := 0],
       pchan := None, pkilled := 0, xstate := 0, state := UNUSED\<rparr>) v"
    using assms u by (auto simp: freeproc_locked_def Let_def)
  have "procs v = procs ?u" using v(1) by (auto split: if_splits dest!: proc_freepagetable_more intro: kmem_more_ptable)
  then show ?thesis using v(2) pu by (simp add: upd_proc_def vacated_def)
qed

definition dead_child :: "nat \<Rightarrow> proc \<Rightarrow> bool" where
  "dead_child p q \<longleftrightarrow> parent q = Some p \<and> state q = ZOMBIE"

lemma kwait_scan_eq:
  assumes "cpu_ok s" "crit s = s" "\<forall>i \<in> set is. lock_free (LProc i) s"
  shows "kwait_scan p 0 is havekids s = (case find (\<lambda>i. dead_child p (procs s i)) is of
      None \<Rightarrow> Inr (Inr (havekids \<or> (\<exists>i \<in> set is. parent (procs s i) = Some p)), s)
    | Some i \<Rightarrow> and_then (freeproc_locked i (acquired (LProc i) s)) (\<lambda>u.
        and_then (release (LProc i) u) (\<lambda>u. Inr (Inl (pid (procs s i)), u))))"
  using assms
proof (induction "is" arbitrary: havekids)
  case (Cons i "is")
  note ih = Cons.IH [OF Cons.prems(1,2)]
  consider "parent (procs s i) \<noteq> Some p" | "parent (procs s i) = Some p" "state (procs s i) = ZOMBIE"
    | "parent (procs s i) = Some p" "state (procs s i) \<noteq> ZOMBIE" by blast
  then show ?case
    by cases (use Cons.prems ih in \<open>simp_all add: dead_child_def flow split: option.split\<close>)
qed simp

lemma kwait_sleeps:
  assumes "cpu_ok s" "noff (mycpu s) = 0" "lock_free LWait s" "lock_free (LProc p) s" "cproc (mycpu s) = Some p"
  shows "sleep (ChProc p) LWait (acquired LWait s) = Inl (Sleeps (ChProc p))"
  using sleep_enter_eq [OF assms, of "ChProc p"] by (simp add: sleep_def)



subsection \<open>Killing pid 0\<close>

lemma proc_pagetable_more [frame]: "proc_pagetable ld p s = Inr (pt, t) \<Longrightarrow> kmem.more t = kmem.more s"
  by (auto simp: proc_pagetable_def uvmcreate_def split: if_splits
      dest!: kalloc_more mappages_more uvmfree_more uvmunmap_more)

lemma allocpid_procs: "allocpid s = Inr (n, t) \<Longrightarrow> procs t = procs s"
  by (auto simp: allocpid_def pid_counter_lock_def Let_def map_sum_eq_Inr split: if_splits dest!: lock_ptable)

lemma allocproc_from_keeps_mark:
  "allocproc_from ld is s = Inr (Some i, t) \<Longrightarrow> state (procs s i) = UNUSED \<and> pkilled (procs t i) = pkilled (procs s i)"
proof (induction "is" arbitrary: s)
  case (Cons j "is")
  then obtain a where a: "acquire (LProc j) s = Inr a" by auto
  have pa: "procs a = procs s" using lock_ptable(1) [OF a] by simp
  show ?case
  proof (cases "state (procs a j) = UNUSED")
    case True
    with Cons.prems a obtain n b where b: "allocpid a = Inr (n, b)" by auto
    let ?b = "upd_proc j (\<lambda>q. q\<lparr>pid := n, state := USED\<rparr>) b"
    from Cons.prems a True b obtain tf c where c: "kalloc ?b = Inr (tf, c)" by (auto simp: Let_def)
    let ?c = "upd_proc j (trapframe_update (\<lambda>_. tf)) c"
    have tf: "tf \<noteq> 0" using Cons.prems a True b c by (auto simp: Let_def split: if_splits)
    with Cons.prems a True b c obtain pt d where d: "proc_pagetable ld j ?c = Inr (pt, d)" by (auto simp: Let_def)
    have "pt \<noteq> 0" using Cons.prems a True b c tf d by (auto simp: Let_def)
    then have t: "i = j" "t = upd_proc j (\<lambda>q. q\<lparr>ctx_ra := ld_forkret ld, ctx_sp := kstack q + PGSIZE\<rparr>) (upd_proc j (pagetable_update (\<lambda>_. pt)) d)"
      using Cons.prems a True b c tf d by (auto simp: Let_def)
    have "procs b = procs a" "procs c = procs ?b" "procs d = procs ?c"
      using allocpid_procs [OF b] kmem_more_ptable(1) [OF kalloc_more [OF c]] kmem_more_ptable(1) [OF proc_pagetable_more [OF d]] by simp_all
    then show ?thesis using t pa True by (simp add: upd_proc_def)
  next
    case False
    with Cons.prems a obtain b where b: "release (LProc j) a = Inr b" "allocproc_from ld is b = Inr (Some i, t)" by auto
    then show ?thesis using Cons.IH [OF b(2)] lock_ptable(2) [OF b(1)] pa by simp
  qed
qed simp

text \<open>
  C28: a pid of 0 matches free slots.  In a table whose first slot with pid 0 is unused, \<open>kkill\<close> of pid 0 reports success
  and leaves the mark in that slot, and a later \<open>allocproc\<close> that hands out the slot keeps it: the new process is
  born killed.
\<close>

theorem kill_pid_zero:
  assumes "cpu_ok s" "procs_free s" "i < NPROC" "pid (procs s i) = 0" "state (procs s i) = UNUSED" "\<forall>j < i. pid (procs s j) \<noteq> 0"
  shows "\<exists>t. kkill 0 s = Inr (True, t) \<and> state (procs t i) = UNUSED \<and>
    (\<forall>ld u v. procs u = procs t \<longrightarrow> allocproc ld u = Inr (Some i, v) \<longrightarrow> pkilled (procs v i) = 1)"
proof -
  have "find (\<lambda>i. pid (procs s i) = 0) [0..<NPROC] = Some i" using assms(3,4,6) by (auto simp: find_Some_iff)
  then have "kkill 0 s = Inr (True, upd_proc i slain (crit s))"
    using kkill_from_eq [of s "[0..<NPROC]" 0] assms(1,2) by (auto simp: kkill_def procs_free_def)
  moreover have "pkilled (procs v i) = 1" if "procs u = procs (upd_proc i slain (crit s))" "allocproc ld u = Inr (Some i, v)" for ld u v
    using allocproc_from_keeps_mark [OF that(2) [unfolded allocproc_def]] that(1) by (simp add: upd_proc_def slain_def)
  ultimately show ?thesis using assms(5) by (intro exI [of _ "upd_proc i slain (crit s)"]) (auto simp: upd_proc_def slain_def)
qed

theorem kill_pid_zero_witness:
  "\<exists>t. kkill 0 (demo_idle\<lparr>procs := \<lambda>_. demo_proc\<lparr>pid := 0, state := UNUSED\<rparr>\<rparr>) = Inr (True, t) \<and> state (procs t 0) = UNUSED"
  using kill_pid_zero [of "demo_idle\<lparr>procs := \<lambda>_. demo_proc\<lparr>pid := 0, state := UNUSED\<rparr>\<rparr>" 0] by auto

end
