(* ===== verification/Ulib.thy ===== *)
theory Ulib
  imports Cstring
begin

section \<open>The user library (user/ulib.rs)\<close>

text \<open>
  The string and memory routines that user programs link against, over the byte-addressed memory of the process.  They are
  other code than the kernel's routines of the same names, so they carry a leading \<open>u\<close>.  A loop without a bound of its own
  is a partial function: \<open>None\<close> means that it does not stop.  \<open>c_char\<close> is an unsigned byte on this target.

  \<open>read\<close> is the system call as \<open>gets\<close> sees it: a function from the environment to the byte it stores, or
  \<open>None\<close> for a return value below 1, and the environment afterwards.
\<close>

partial_function (option) ustrcpy_from :: "u64 \<Rightarrow> u64 \<Rightarrow> memory \<Rightarrow> memory option" where
  "ustrcpy_from s t m = (let m' = m(s := m t) in if m' s = 0 then Some m' else ustrcpy_from (s + 1) (t + 1) m')"

definition ustrcpy :: "u64 \<Rightarrow> u64 \<Rightarrow> memory \<Rightarrow> (u64 \<times> memory) option" where
  "ustrcpy s t m = map_option (Pair s) (ustrcpy_from s t m)"

partial_function (option) ustrcmp :: "memory \<Rightarrow> u64 \<Rightarrow> u64 \<Rightarrow> int option" where
  "ustrcmp m p q = (if m p \<noteq> 0 \<and> m p = m q then ustrcmp m (p + 1) (q + 1) else Some (uint (m p) - uint (m q)))"

partial_function (option) ustrlen_from :: "memory \<Rightarrow> u64 \<Rightarrow> u32 \<Rightarrow> u32 option" where
  "ustrlen_from m s n = (if m s \<noteq> 0 then ustrlen_from m (s + 1) (n + 1) else Some n)"

definition ustrlen :: "memory \<Rightarrow> u64 \<Rightarrow> u32 option" where
  "ustrlen m s = ustrlen_from m s 0"

primrec umemset_from :: "u64 \<Rightarrow> u8 \<Rightarrow> nat \<Rightarrow> memory \<Rightarrow> memory" where
  "umemset_from p c 0 m = m"
| "umemset_from p c (Suc left) m = umemset_from (p + 1) c left (m(p := c))"

definition umemset :: "u64 \<Rightarrow> u32 \<Rightarrow> u32 \<Rightarrow> memory \<Rightarrow> u64 \<times> memory" where
  "umemset dst c n m = (dst, umemset_from dst (ucast c) (unat n) m)"

text \<open>The null pointer is 0.\<close>

partial_function (option) ustrchr :: "memory \<Rightarrow> u64 \<Rightarrow> u8 \<Rightarrow> u64 option" where
  "ustrchr m s c = (if m s \<noteq> 0 then if m s = c then Some s else ustrchr m (s + 1) c else Some 0)"

text \<open>\<open>left\<close> counts the bytes that \<open>i + 1 < max\<close> still allows.\<close>

primrec gets_loop :: "('e \<Rightarrow> u8 option \<times> 'e) \<Rightarrow> u64 \<Rightarrow> nat \<Rightarrow> nat \<Rightarrow> 'e \<Rightarrow> memory \<Rightarrow> nat \<times> 'e \<times> memory" where
  "gets_loop read buf i 0 e m = (i, e, m)"
| "gets_loop read buf i (Suc left) e m = (case read e of
     (None, e) \<Rightarrow> (i, e, m)
   | (Some c, e) \<Rightarrow>
       let m = m(buf + of_nat i := c) in
       if c = 10 \<or> c = 13 then (Suc i, e, m) else gets_loop read buf (Suc i) left e m)"

definition gets :: "('e \<Rightarrow> u8 option \<times> 'e) \<Rightarrow> u64 \<Rightarrow> int \<Rightarrow> 'e \<Rightarrow> memory \<Rightarrow> u64 \<times> 'e \<times> memory" where
  "gets read buf mx e m = (let (i, e, m) = gets_loop read buf 0 (nat (mx - 1)) e m in (buf, e, m(buf + of_nat i := 0)))"

text \<open>\<open>n * 10 + d\<close> wraps at 32 bits.\<close>

partial_function (option) atoi_from :: "memory \<Rightarrow> u64 \<Rightarrow> u32 \<Rightarrow> u32 option" where
  "atoi_from m s n = (if m s \<ge> 48 \<and> m s \<le> 57 then atoi_from m (s + 1) (n * 10 + (ucast (m s) - 48)) else Some n)"

definition atoi :: "memory \<Rightarrow> u64 \<Rightarrow> int option" where
  "atoi m s = map_option sint (atoi_from m s 0)"

text \<open>A negative count leaves both loops of \<open>memmove\<close> at once.\<close>

definition umemmove :: "u64 \<Rightarrow> u64 \<Rightarrow> int \<Rightarrow> memory \<Rightarrow> u64 \<times> memory" where
  "umemmove dst src n m =
     (dst, if src > dst then copy_up dst src (nat n) m
           else copy_down (dst + of_int n) (src + of_int n) (nat n) m)"

primrec umemcmp_left :: "memory \<Rightarrow> u64 \<Rightarrow> u64 \<Rightarrow> nat \<Rightarrow> int" where
  "umemcmp_left m p1 p2 0 = 0"
| "umemcmp_left m p1 p2 (Suc left) =
     (if m p1 \<noteq> m p2 then uint (m p1) - uint (m p2) else umemcmp_left m (p1 + 1) (p2 + 1) left)"

definition umemcmp :: "memory \<Rightarrow> u64 \<Rightarrow> u64 \<Rightarrow> u32 \<Rightarrow> int" where
  "umemcmp m s1 s2 n = umemcmp_left m s1 s2 (unat n)"

definition umemcpy :: "u64 \<Rightarrow> u64 \<Rightarrow> u32 \<Rightarrow> memory \<Rightarrow> u64 \<times> memory" where
  "umemcpy dst src n m = umemmove dst src (sint n) m"

subsection \<open>Strings in memory\<close>

text \<open>A NUL-terminated string at an address.\<close>

definition cstr :: "memory \<Rightarrow> u64 \<Rightarrow> u8 list \<Rightarrow> bool" where
  "cstr m s x \<longleftrightarrow> load_bytes m s (Suc (length x)) = x @ [0] \<and> 0 \<notin> set x"

lemma cstr_Nil [simp]: "cstr m s [] \<longleftrightarrow> m s = 0"
  by (simp add: cstr_def load_bytes_Suc)

lemma cstr_Cons [simp]: "cstr m s (c # x) \<longleftrightarrow> m s = c \<and> c \<noteq> 0 \<and> cstr m (s + 1) x"
  by (auto simp: cstr_def load_bytes_Suc)

lemma ustrlen_from_eq: "cstr m s x \<Longrightarrow> ustrlen_from m s n = Some (n + of_nat (length x))"
proof (induction x arbitrary: s n)
  case (Cons c x)
  then show ?case by (subst ustrlen_from.simps) (simp add: add.assoc)
qed (subst ustrlen_from.simps, simp)

lemma ustrlen_eq: "cstr m s x \<Longrightarrow> ustrlen m s = Some (of_nat (length x))"
  by (simp add: ustrlen_def ustrlen_from_eq)

lemma ustrchr_eq:
  "cstr m s x \<Longrightarrow> ustrchr m s c = Some (if c \<in> set x then s + of_nat (length (takeWhile (\<lambda>b. b \<noteq> c) x)) else 0)"
proof (induction x arbitrary: s)
  case (Cons b x)
  then have "ustrchr m s c = (if b = c then Some s else ustrchr m (s + 1) c)" by (subst ustrchr.simps) simp
  also have "ustrchr m (s + 1) c = Some (if c \<in> set x then s + 1 + of_nat (length (takeWhile (\<lambda>b. b \<noteq> c) x)) else 0)"
    by (rule Cons.IH) (use Cons.prems in simp)
  finally have e: "ustrchr m s c = (if b = c then Some s
    else Some (if c \<in> set x then s + 1 + of_nat (length (takeWhile (\<lambda>b. b \<noteq> c) x)) else 0))" .
  show ?case unfolding e by (cases "b = c"; cases "c \<in> set x") simp_all
qed (subst ustrchr.simps, simp)

lemma uint_diff_0: "uint a - uint b = 0 \<longleftrightarrow> a = (b :: u8)"
  by (simp add: word_uint_eq_iff)

lemma ustrcmp_eq: "cstr m p x \<Longrightarrow> cstr m q y \<Longrightarrow> \<exists>r. ustrcmp m p q = Some r \<and> (r = 0 \<longleftrightarrow> x = y)"
proof (induction x arbitrary: p q y)
  case Nil
  then show ?case by (subst ustrcmp.simps) (cases y, auto simp: unsigned_eq_0_iff)
next
  case (Cons c x)
  have run: "ustrcmp m p q = (if c = m q then ustrcmp m (p + 1) (q + 1) else Some (uint c - uint (m q)))"
    using Cons.prems(1) by (subst ustrcmp.simps) simp
  show ?case
  proof (cases "c = m q")
    case True
    then obtain y' where y: "y = c # y'" "cstr m (q + 1) y'" using Cons.prems by (cases y) auto
    have "\<exists>r. ustrcmp m (p + 1) (q + 1) = Some r \<and> (r = 0 \<longleftrightarrow> x = y')" by (rule Cons.IH) (use Cons.prems(1) y(2) in simp_all)
    then show ?thesis using run True y(1) by auto
  next
    case False
    then have "y \<noteq> c # x" using Cons.prems(2) by auto
    then show ?thesis using run False uint_diff_0 [of c "m q"] by auto
  qed
qed

lemma ustrcpy_from_eq:
  assumes "cstr m t x" "apart s (Suc (length x)) t (Suc (length x))" "length x < 2 ^ 63"
  shows "ustrcpy_from s t m = Some (store_bytes m s (x @ [0]))"
  using assms
proof (induction x arbitrary: s t m)
  case Nil
  then show ?case by (subst ustrcpy_from.simps) (simp add: store_bytes_Cons fun_upd_def)
next
  case (Cons c x)
  have ap: "apart (s + 1) (Suc (length x)) (t + 1) (Suc (length x))" "\<not> in_range (t + 1) (Suc (length x)) s" "s \<noteq> t"
    using apart_Suc [OF Cons.prems(2)] Cons.prems(3) by simp_all
  have "load_bytes (m(s := c)) (t + 1) (Suc (length x)) = load_bytes m (t + 1) (Suc (length x))"
    by (rule load_bytes_upd_outside [OF ap(2)]) (use Cons.prems(3) in simp)
  moreover have "cstr m (t + 1) x" using Cons.prems(1) by simp
  ultimately have "cstr (m(s := c)) (t + 1) x" by (simp only: cstr_def simp_thms)
  then have "ustrcpy_from (s + 1) (t + 1) (m(s := c)) = Some (store_bytes (m(s := c)) (s + 1) (x @ [0]))"
    by (rule Cons.IH [OF _ ap(1)]) (use Cons.prems(3) in simp)
  then show ?case using Cons.prems(1,3) by (subst ustrcpy_from.simps) (simp add: Let_def store_bytes_Cons)
qed

text \<open>
  \<open>memmove\<close> with a non-negative count: in either direction the destination receives what the source held.
\<close>

lemma umemmove_eq:
  assumes "unat src + n < 2 ^ 64" "unat dst + n < 2 ^ 64"
  shows "umemmove dst src (int n) m = (dst, store_bytes m dst (load_bytes m src n))"
proof -
  have n: "n < 2 ^ 64" using assms(1) by linarith
  have su: "unat (src + of_nat i) = unat src + i" "unat (dst + of_nat i) = unat dst + i" if "i \<le> n" for i
    using that assms n by (simp_all add: unat_word_ariths unat_of_nat_64)
  show ?thesis
  proof (cases "src > dst")
    case True
    have "dst + of_nat i \<noteq> src + of_nat j" if ij: "i < j" "j < n" for i j
    proof -
      have "unat dst < unat src" using True by (simp add: word_less_nat_alt)
      then have "unat (dst + of_nat i) \<noteq> unat (src + of_nat j)" using ij su by simp
      then show ?thesis by auto
    qed
    then have "copy_up dst src n m = (\<lambda>x. if in_range dst n x then m (x - dst + src) else m x)"
      using n by (intro copy_up_eq) auto
    then show ?thesis using True n by (auto simp: umemmove_def store_load_bytes)
  next
    case False
    have "dst + of_nat j \<noteq> src + of_nat i" if ij: "i < j" "j < n" for i j
    proof -
      have "unat src \<le> unat dst" using False by (simp add: word_less_nat_alt)
      then have "unat (src + of_nat i) \<noteq> unat (dst + of_nat j)" using ij su by simp
      then show ?thesis by auto
    qed
    then have "copy_down (dst + of_nat n) (src + of_nat n) n m = (\<lambda>x. if in_range dst n x then m (x - dst + src) else m x)"
      using n by (intro copy_down_eq) auto
    then show ?thesis using False n by (auto simp: umemmove_def store_load_bytes)
  qed
qed

end
