(* ===== verification/Ush.thy ===== *)
theory Ush
  imports Ulib "HOL-Library.Sublist"
begin

section \<open>The parser of the shell (user/sh.rs)\<close>

text \<open>
  A pointer into the command line is the suffix of the line that starts there: \<open>s < es\<close> is \<open>s \<noteq> []\<close>, \<open>s.add(1)\<close> is
  \<open>tl s\<close>, and reading at the end gives the NUL.  A word is the pair of pointers \<open>q\<close> and \<open>eq\<close>.  The tree has its words as
  a parameter: the parser builds it over words, and \<open>runcmd\<close> sees it over strings.
\<close>

type_synonym bytes = "u8 list"
type_synonym ptr = "u8 list"
type_synonym sword = "ptr \<times> ptr"

datatype 'w cmd = EXEC "'w list" | REDIR "'w cmd" 'w int int | PIPE "'w cmd" "'w cmd" | LIST "'w cmd" "'w cmd" | BACK "'w cmd"

abbreviation O_RDONLY :: int where "O_RDONLY \<equiv> 0"
abbreviation O_WRONLY_CREATE :: int where "O_WRONLY_CREATE \<equiv> 0x201"
abbreviation O_WRONLY_CREATE_TRUNC :: int where "O_WRONLY_CREATE_TRUNC \<equiv> 0x601"

text \<open>The characters: \<open>| ( ) ; & < >\<close> and the letter \<open>a\<close>, the class of words.\<close>

abbreviation BAR :: u8 where "BAR \<equiv> 124"
abbreviation LPAR :: u8 where "LPAR \<equiv> 40"
abbreviation RPAR :: u8 where "RPAR \<equiv> 41"
abbreviation SEMI :: u8 where "SEMI \<equiv> 59"
abbreviation AMP :: u8 where "AMP \<equiv> 38"
abbreviation LESS :: u8 where "LESS \<equiv> 60"
abbreviation GREATER :: u8 where "GREATER \<equiv> 62"
abbreviation PLUS :: u8 where "PLUS \<equiv> 43"
abbreviation WORD :: u8 where "WORD \<equiv> 97"

definition WHITESPACE :: "u8 list" where "WHITESPACE = [32, 9, 13, 10, 11]"
definition SYMBOLS :: "u8 list" where "SYMBOLS = [60, 124, 62, 38, 59, 40, 41]"

abbreviation is_space :: "u8 \<Rightarrow> bool" where "is_space c \<equiv> c \<in> set WHITESPACE"
definition plain :: "u8 \<Rightarrow> bool" where "plain c \<longleftrightarrow> c \<notin> set WHITESPACE \<and> c \<notin> set SYMBOLS"
definition skip :: "ptr \<Rightarrow> ptr" where "skip s = dropWhile is_space s"

subsection \<open>Tokens\<close>

text \<open>The result is the class of the token, the pointers \<open>q\<close> and \<open>eq\<close>, and the new position.\<close>

definition gettoken :: "ptr \<Rightarrow> u8 \<times> sword \<times> ptr" where
  "gettoken s =
     (let q = skip s;
          (ret, eq) =
            (case q of
               [] \<Rightarrow> (0, q)
             | c # r \<Rightarrow>
                 if c \<in> {BAR, LPAR, RPAR, SEMI, AMP, LESS} then (c, r)
                 else if c = GREATER then
                   if r \<noteq> [] \<and> hd r = GREATER then (PLUS, tl r) else (c, r)
                 else (WORD, dropWhile plain q))
      in (ret, (q, eq), skip eq))"

definition peek :: "ptr \<Rightarrow> u8 list \<Rightarrow> ptr \<times> bool" where
  "peek s toks = (let s = skip s in (s, s \<noteq> [] \<and> hd s \<in> set toks))"

lemma suffix_dropWhile [simp, intro]: "suffix (dropWhile P s) s"
  by (induction s) (auto simp: suffix_ConsI)

lemma suffix_skip [simp, intro]: "suffix (skip s) s"
  by (simp add: skip_def)

lemma suffix_skip_tl: "skip s = c # r \<Longrightarrow> suffix r s"
  by (metis suffix_ConsD suffix_skip)

lemma skip_Nil [simp]: "skip [] = []"
  by (simp add: skip_def)

lemma skip_hd: "skip s = c # r \<Longrightarrow> \<not> is_space c"
  using hd_dropWhile [of is_space s] by (auto simp: skip_def)

lemma plain_iff: "plain c \<longleftrightarrow> \<not> is_space c \<and> c \<notin> {BAR, LPAR, RPAR, SEMI, AMP, LESS} \<and> c \<noteq> GREATER"
  by (auto simp: plain_def SYMBOLS_def)

lemma gettoken_end: "skip s = [] \<Longrightarrow> gettoken s = (0, ([], []), [])"
  by (simp add: gettoken_def)

lemma gettoken_plain:
  "skip s = c # r \<Longrightarrow> plain c \<Longrightarrow> gettoken s = (WORD, (c # r, dropWhile plain r), skip (dropWhile plain r))"
  by (simp add: gettoken_def plain_iff)

lemma gettoken_symbol: "skip s = c # r \<Longrightarrow> c \<in> {BAR, LPAR, RPAR, SEMI, AMP, LESS} \<Longrightarrow> gettoken s = (c, (c # r, r), skip r)"
  by (simp add: gettoken_def)

lemma gettoken_greater:
  "skip s = GREATER # r \<Longrightarrow> gettoken s = (if r \<noteq> [] \<and> hd r = GREATER then (PLUS, (GREATER # r, tl r), skip (tl r)) else (GREATER, (GREATER # r, r), skip r))"
  by (simp add: gettoken_def)

lemma skip_cases:
  obtains (empty) "skip s = []" | (plain) c r where "skip s = c # r" "plain c"
  | (symbol) c r where "skip s = c # r" "c \<in> {BAR, LPAR, RPAR, SEMI, AMP, LESS}" | (greater) r where "skip s = GREATER # r"
proof (cases "skip s")
  case (Cons c r)
  then show thesis using skip_hd [OF Cons] plain symbol greater plain_iff [of c] by blast
qed (rule empty)

text \<open>A word of the line: it starts with a plain character and runs up to the next character that is not plain.\<close>

definition word_at :: "ptr \<Rightarrow> sword \<Rightarrow> bool" where
  "word_at s w \<longleftrightarrow> suffix (fst w) s \<and> fst w \<noteq> [] \<and> plain (hd (fst w)) \<and> snd w = dropWhile plain (fst w)"

lemma word_at_suffix: "word_at s w \<Longrightarrow> suffix s t \<Longrightarrow> word_at t w"
  by (auto simp: word_at_def intro: suffix_order.trans)

lemma skip_progress: "skip s = c # r \<Longrightarrow> suffix s' r \<Longrightarrow> suffix s' s \<and> length s' < length s"
proof -
  assume q: "skip s = c # r" and s': "suffix s' r"
  have "length (c # r) \<le> length s" unfolding q [symmetric] by (rule suffix_length_le) simp
  then show ?thesis using s' suffix_skip_tl [OF q] suffix_length_le [OF s'] by (auto intro: suffix_order.trans)
qed

lemma gettoken_rest: "gettoken s = (t, w, s') \<Longrightarrow> suffix s' s \<and> (skip s \<noteq> [] \<longrightarrow> length s' < length s)"
proof (cases s rule: skip_cases)
  case (plain c r)
  assume "gettoken s = (t, w, s')"
  then have "suffix s' r" using gettoken_plain [OF plain] by (auto intro: suffix_order.trans)
  then show ?thesis using skip_progress [OF plain(1)] by simp
next
  case (symbol c r)
  assume "gettoken s = (t, w, s')"
  then have "suffix s' r" using gettoken_symbol [OF symbol] by auto
  then show ?thesis using skip_progress [OF symbol(1)] by simp
next
  case (greater r)
  assume "gettoken s = (t, w, s')"
  then have "suffix s' r" using gettoken_greater [OF greater] by (auto split: if_splits intro: suffix_order.trans [OF _ suffix_tl])
  then show ?thesis using skip_progress [OF greater] by simp
qed (use gettoken_end in auto)

lemma gettoken_word: "gettoken s = (WORD, w, s') \<Longrightarrow> word_at s w"
proof (cases s rule: skip_cases)
  case (plain c r)
  assume "gettoken s = (WORD, w, s')"
  then have "w = (c # r, dropWhile plain r)" using gettoken_plain [OF plain] by simp
  then show ?thesis using plain suffix_skip [of s] by (simp add: word_at_def)
qed (auto simp: gettoken_end gettoken_symbol gettoken_greater split: if_splits)

definition looks_at :: "u8 list \<Rightarrow> ptr \<Rightarrow> bool" where
  "looks_at toks s \<longleftrightarrow> skip s \<noteq> [] \<and> hd (skip s) \<in> set toks"

lemma peek_shape [simp]: "peek s toks = (skip s, looks_at toks s)"
  by (simp add: peek_def looks_at_def Let_def)

lemma looks_at_nonempty [dest]: "looks_at toks s \<Longrightarrow> skip s \<noteq> []"
  by (simp add: looks_at_def)

lemma skip_skip [simp]: "skip (skip s) = skip s"
  unfolding skip_def by (induction s) auto

subsection \<open>Commands\<close>

text \<open>
  \<open>panic_msg\<close> ends the process, so a parse that panics is \<open>Inl\<close> of the message.

  \<open>parseredirs\<close> puts redirection nodes on top of the node it is given, while \<open>parseexec\<close> goes on filling in the arguments
  of the \<open>EXEC\<close> node at the bottom through its own pointer.  The model keeps the list of the nodes to put on top, in
  the order of their allocation, until the arguments are complete; \<open>put_redirs\<close> builds the chain.
\<close>

type_synonym redir = "sword \<times> int \<times> int"

definition put_redirs :: "'w cmd \<Rightarrow> ('w \<times> int \<times> int) list \<Rightarrow> 'w cmd" where
  "put_redirs cmd rs = foldl (\<lambda>cmd (w, mode, fd). REDIR cmd w mode fd) cmd rs"

definition redir_of :: "u8 \<Rightarrow> 'w \<Rightarrow> ('w \<times> int \<times> int) list" where
  "redir_of tok w =
     (if tok = LESS then [(w, O_RDONLY, 0)]
      else if tok = GREATER then [(w, O_WRONLY_CREATE_TRUNC, 1)]
      else if tok = PLUS then [(w, O_WRONLY_CREATE, 1)]
      else [])"

lemma skip_length: "length (skip s) \<le> length s"
  by (simp add: suffix_length_le)

lemma one_token: "gettoken (skip s) = (a, v, s2) \<Longrightarrow> looks_at toks s \<Longrightarrow> length s2 < length s"
  using gettoken_rest [of "skip s" a v s2] skip_length [of s] by auto

lemma two_tokens:
  "gettoken (skip s) = (a, v, s2) \<Longrightarrow> gettoken s2 = (c, w, s3) \<Longrightarrow> skip s \<noteq> [] \<Longrightarrow> length s3 < length s"
  using gettoken_rest [of "skip s" a v s2] gettoken_rest [of s2 c w s3] skip_length [of s]
  by (auto dest!: suffix_length_le)

function parseredirs :: "redir list \<Rightarrow> ptr \<Rightarrow> string + redir list \<times> ptr" where
  "parseredirs rs s =
     (let (s, more) = peek s [LESS, GREATER] in
      if \<not> more then Inr (rs, s)
      else
        let (tok, _, s) = gettoken s;
            (cls, w, s) = gettoken s in
        if cls \<noteq> WORD then Inl ''missing file for redirection''
        else parseredirs (rs @ redir_of tok w) s)"
  by pat_completeness auto
termination by (relation "measure (\<lambda>(rs, s). length s)") (auto dest!: sym [of _ "gettoken _"] intro: two_tokens)

declare parseredirs.simps [simp del]

text \<open>
  \<open>parseargs\<close> is the loop of \<open>parseexec\<close> and \<open>parseback\<close> the loop of \<open>parseline\<close> over \<open>&\<close>.  The four routines of the grammar
  call each other, so they have fuel; \<open>parse_total\<close> shows how much is enough.
\<close>

function parseargs :: "sword list \<Rightarrow> redir list \<Rightarrow> ptr \<Rightarrow> string + sword list \<times> redir list \<times> ptr" where
  "parseargs argv rs s =
     (let (s, stop) = peek s [BAR, RPAR, AMP, SEMI] in
      if stop then Inr (argv, rs, s)
      else
        let (tok, w, s) = gettoken s in
        if tok = 0 then Inr (argv, rs, s)
        else if tok \<noteq> WORD then Inl ''syntax''
        else
          let argv = argv @ [w] in
          if length argv \<ge> 10 then Inl ''too many args''
          else (case parseredirs rs s of
                  Inl e \<Rightarrow> Inl e
                | Inr (rs, s) \<Rightarrow> parseargs argv rs s))"
  by pat_completeness auto
termination
  by (relation "measure (\<lambda>(argv, _). 10 - length argv)") auto

declare parseargs.simps [simp del]

function parseback :: "'w cmd \<Rightarrow> ptr \<Rightarrow> 'w cmd \<times> ptr" where
  "parseback cmd s =
     (let (s, amp) = peek s [AMP] in
      if amp then let (_, _, s) = gettoken s in parseback (BACK cmd) s else (cmd, s))"
  by pat_completeness auto
termination
  by (relation "measure (\<lambda>(_, s). length s)")
    (auto dest!: sym [of _ "gettoken _"] dest: one_token)

declare parseback.simps [simp del]

type_synonym 'a parse = "(string + 'a) option"

fun parseline :: "nat \<Rightarrow> ptr \<Rightarrow> (sword cmd \<times> ptr) parse" and parsepipe :: "nat \<Rightarrow> ptr \<Rightarrow> (sword cmd \<times> ptr) parse"
  and parseexec :: "nat \<Rightarrow> ptr \<Rightarrow> (sword cmd \<times> ptr) parse" and parseblock :: "nat \<Rightarrow> ptr \<Rightarrow> (sword cmd \<times> ptr) parse" where
  "parseline 0 s = None"
| "parseline (Suc n) s =
     (case parsepipe n s of
        Some (Inr (cmd, s)) \<Rightarrow>
          let (cmd, s) = parseback cmd s;
              (s, semi) = peek s [SEMI] in
          if semi then
            let (_, _, s) = gettoken s in
            (case parseline n s of Some (Inr (right, s)) \<Rightarrow> Some (Inr (LIST cmd right, s)) | r \<Rightarrow> r)
          else Some (Inr (cmd, s))
      | r \<Rightarrow> r)"
| "parsepipe 0 s = None"
| "parsepipe (Suc n) s =
     (case parseexec n s of
        Some (Inr (cmd, s)) \<Rightarrow>
          let (s, bar) = peek s [BAR] in
          if bar then
            let (_, _, s) = gettoken s in
            (case parsepipe n s of Some (Inr (right, s)) \<Rightarrow> Some (Inr (PIPE cmd right, s)) | r \<Rightarrow> r)
          else Some (Inr (cmd, s))
      | r \<Rightarrow> r)"
| "parseexec 0 s = None"
| "parseexec (Suc n) s =
     (let (s, par) = peek s [LPAR] in
      if par then parseblock n s
      else Some (case parseredirs [] s of
                   Inl e \<Rightarrow> Inl e
                 | Inr (rs, s) \<Rightarrow>
                     (case parseargs [] rs s of
                        Inl e \<Rightarrow> Inl e
                      | Inr (argv, rs, s) \<Rightarrow> Inr (put_redirs (EXEC argv) rs, s))))"
| "parseblock 0 s = None"
| "parseblock (Suc n) s =
     (let (s, par) = peek s [LPAR] in
      if \<not> par then Some (Inl ''parseblock'')
      else
        let (_, _, s) = gettoken s in
        (case parseline n s of
           Some (Inr (cmd, s)) \<Rightarrow>
             let (s, close) = peek s [RPAR] in
             if \<not> close then Some (Inl ''syntax - missing )'')
             else
               let (_, _, s) = gettoken s in
               Some (case parseredirs [] s of
                       Inl e \<Rightarrow> Inl e
                     | Inr (rs, s) \<Rightarrow> Inr (put_redirs cmd rs, s))
         | r \<Rightarrow> r))"

declare parseline.simps [simp del] parsepipe.simps [simp del] parseexec.simps [simp del] parseblock.simps [simp del]

text \<open>
  \<open>nulterminate\<close> stores a NUL behind every word, in the buffer of the line, whose end is at the index \<open>es\<close>.
\<close>

definition put_nul :: "nat \<Rightarrow> sword \<Rightarrow> bytes \<Rightarrow> bytes" where
  "put_nul es w buf = buf[es - length (snd w) := 0]"

primrec nulterminate :: "nat \<Rightarrow> sword cmd \<Rightarrow> bytes \<Rightarrow> bytes" where
  "nulterminate es (EXEC argv) buf = fold (put_nul es) argv buf"
| "nulterminate es (REDIR cmd file mode fd) buf = put_nul es file (nulterminate es cmd buf)"
| "nulterminate es (PIPE left right) buf = nulterminate es right (nulterminate es left buf)"
| "nulterminate es (LIST left right) buf = nulterminate es right (nulterminate es left buf)"
| "nulterminate es (BACK cmd) buf = nulterminate es cmd buf"

text \<open>The result is the tree and the buffer that its pointers point into.\<close>

definition parsecmd :: "nat \<Rightarrow> bytes \<Rightarrow> (sword cmd \<times> bytes) parse" where
  "parsecmd n s =
     (case parseline n s of
        Some (Inr (cmd, sp)) \<Rightarrow>
          let (sp, _) = peek sp [] in
          if sp \<noteq> [] then Some (Inl ''syntax'')
          else Some (Inr (cmd, nulterminate (length s) cmd (s @ [0])))
      | Some (Inl e) \<Rightarrow> Some (Inl e)
      | None \<Rightarrow> None)"

text \<open>What a program sees at a pointer: the bytes up to the first NUL.\<close>

definition string_at :: "nat \<Rightarrow> bytes \<Rightarrow> sword \<Rightarrow> bytes" where
  "string_at es buf w = takeWhile (\<lambda>b. b \<noteq> 0) (drop (es - length (fst w)) buf)"

definition command_of :: "nat \<Rightarrow> bytes \<Rightarrow> sword cmd \<Rightarrow> bytes cmd" where
  "command_of es buf cmd = map_cmd (string_at es buf) cmd"

subsection \<open>What the parser guarantees\<close>

text \<open>
  A well-formed tree: its words satisfy \<open>P\<close>, an \<open>EXEC\<close> node leaves room for the null pointer at the end of its array of ten,
  and a redirection has one of the three modes.
\<close>

definition redir_ok :: "('w \<Rightarrow> bool) \<Rightarrow> 'w \<times> int \<times> int \<Rightarrow> bool" where
  "redir_ok P r \<longleftrightarrow> P (fst r) \<and> snd r \<in> {(O_RDONLY, 0), (O_WRONLY_CREATE_TRUNC, 1), (O_WRONLY_CREATE, 1)}"

primrec wf_cmd :: "('w \<Rightarrow> bool) \<Rightarrow> 'w cmd \<Rightarrow> bool" where
  "wf_cmd P (EXEC argv) \<longleftrightarrow> length argv < 10 \<and> (\<forall>w \<in> set argv. P w)"
| "wf_cmd P (REDIR cmd w mode fd) \<longleftrightarrow> wf_cmd P cmd \<and> redir_ok P (w, mode, fd)"
| "wf_cmd P (PIPE left right) \<longleftrightarrow> wf_cmd P left \<and> wf_cmd P right"
| "wf_cmd P (LIST left right) \<longleftrightarrow> wf_cmd P left \<and> wf_cmd P right"
| "wf_cmd P (BACK cmd) \<longleftrightarrow> wf_cmd P cmd"

lemma wf_cmd_mono: "wf_cmd P c \<Longrightarrow> (\<And>w. P w \<Longrightarrow> Q w) \<Longrightarrow> wf_cmd Q c"
  by (induction c) (auto simp: redir_ok_def)

lemma wf_cmd_word: "wf_cmd P c \<Longrightarrow> w \<in> set_cmd c \<Longrightarrow> P w"
  by (induction c) (auto simp: redir_ok_def)

lemma wf_cmd_suffix: "wf_cmd (word_at s) c \<Longrightarrow> suffix s t \<Longrightarrow> wf_cmd (word_at t) c"
  by (metis wf_cmd_mono word_at_suffix)

lemma wf_put_redirs: "wf_cmd P (put_redirs c rs) \<longleftrightarrow> wf_cmd P c \<and> (\<forall>r \<in> set rs. redir_ok P r)"
  unfolding put_redirs_def by (induction rs arbitrary: c) auto

text \<open>The nodes of the chain, and the position, when the redirections parse.\<close>

lemma parseredirs_ok:
  "parseredirs rs s = Inr (rs', s') \<Longrightarrow> suffix s' s \<and> (\<exists>new. rs' = rs @ new \<and> (\<forall>r \<in> set new. redir_ok (word_at s) r))"
proof (induction rs s rule: parseredirs.induct)
  case (1 rs s)
  show ?case
  proof (cases "looks_at [LESS, GREATER] s")
    case False
    then show ?thesis using "1.prems" by (subst (asm) parseredirs.simps) (auto simp: Let_def)
  next
    case True
    obtain tok w s2 where g1: "gettoken (skip s) = (tok, w, s2)" by (cases "gettoken (skip s)") auto
    obtain cls w' s3 where g2: "gettoken s2 = (cls, w', s3)" by (cases "gettoken s2") auto
    have run: "parseredirs rs s = (if cls \<noteq> WORD then Inl ''missing file for redirection''
        else parseredirs (rs @ redir_of tok w') s3)"
      using True g1 g2 by (subst parseredirs.simps) (simp add: Let_def)
    then have cls: "cls = WORD" and rec: "parseredirs (rs @ redir_of tok w') s3 = Inr (rs', s')"
      using "1.prems" by (auto split: if_splits)
    have "suffix s' s3 \<and> (\<exists>new. rs' = (rs @ redir_of tok w') @ new \<and> (\<forall>r \<in> set new. redir_ok (word_at s3) r))"
      by (rule "1.IH" [OF _ _ _ g1 [symmetric] _ _ g2 [symmetric]]) (use True cls rec in \<open>auto simp: Let_def\<close>)
    then obtain new where new: "suffix s' s3" "rs' = (rs @ redir_of tok w') @ new" "\<forall>r \<in> set new. redir_ok (word_at s3) r" by blast
    have "suffix s2 s" "suffix s3 s2" "word_at s2 w'"
      using gettoken_rest [OF g1] gettoken_rest [OF g2] gettoken_word [of s2 w' s3] g2 cls suffix_order.trans by auto
    then show ?thesis using new
      by (intro conjI exI [of _ "redir_of tok w' @ new"])
        (auto simp: redir_of_def redir_ok_def intro: suffix_order.trans word_at_suffix split: if_splits)
  qed
qed

lemma parseargs_ok:
  assumes "parseargs argv rs s = Inr (argv', rs', s')" "length argv < 10"
    "\<forall>w \<in> set argv. word_at t w" "\<forall>r \<in> set rs. redir_ok (word_at t) r" "suffix s t"
  shows "suffix s' t \<and> wf_cmd (word_at t) (put_redirs (EXEC argv') rs')"
  using assms
proof (induction argv rs s rule: parseargs.induct)
  case (1 argv rs s)
  obtain tok w s2 where g: "gettoken (skip s) = (tok, w, s2)" by (cases "gettoken (skip s)") auto
  have s: "suffix (skip s) t" using "1.prems"(5) by (auto intro: suffix_order.trans)
  then have s2: "suffix s2 t" using gettoken_rest [OF g] suffix_order.trans by blast
  show ?case
  proof (cases "looks_at [BAR, RPAR, AMP, SEMI] s \<or> tok = 0")
    case True
    then show ?thesis using "1.prems" s s2 g
      by (subst (asm) parseargs.simps) (auto simp: Let_def wf_put_redirs split: if_splits)
  next
    case False
    have run: "parseargs argv rs s = (if tok \<noteq> WORD then Inl ''syntax'' else if length argv + 1 \<ge> 10 then Inl ''too many args''
        else case parseredirs rs s2 of Inl e \<Rightarrow> Inl e | Inr (rs, s) \<Rightarrow> parseargs (argv @ [w]) rs s)"
      using False g by (subst parseargs.simps) (simp add: Let_def)
    then obtain rs3 s3 where tok: "tok = WORD" "length argv + 1 < 10" and r: "parseredirs rs s2 = Inr (rs3, s3)"
      and rec: "parseargs (argv @ [w]) rs3 s3 = Inr (argv', rs', s')"
      using "1.prems"(1) by (auto split: if_splits sum.splits)
    obtain new where new: "suffix s3 s2" "rs3 = rs @ new" "\<forall>r \<in> set new. redir_ok (word_at s2) r"
      using parseredirs_ok [OF r] by blast
    have rs3: "\<forall>r \<in> set rs3. redir_ok (word_at t) r"
      using new(2,3) "1.prems"(4) s2 by (auto simp: redir_ok_def intro: word_at_suffix)
    have w: "word_at t w" using gettoken_word g tok(1) s word_at_suffix by blast
    have IH: "length (argv @ [w]) < 10 \<Longrightarrow> \<forall>w \<in> set (argv @ [w]). word_at t w \<Longrightarrow> suffix s3 t \<Longrightarrow>
      suffix s' t \<and> wf_cmd (word_at t) (put_redirs (EXEC argv') rs')"
      by (rule "1.IH" [OF _ _ _ g [symmetric] _ _ _ _ _ _ r _ rec _ _ rs3]) (use False tok in auto)
    show ?thesis by (rule IH) (use tok(2) w "1.prems"(3) new(1) s2 in \<open>auto intro: suffix_order.trans\<close>)
  qed
qed

lemma parseback_ok:
  "parseback c s = (c', s') \<Longrightarrow> suffix s' s \<and> (wf_cmd P c \<longrightarrow> wf_cmd P c')"
proof (induction c s rule: parseback.induct)
  case (1 c s)
  obtain tok w s2 where g: "gettoken (skip s) = (tok, w, s2)" by (cases "gettoken (skip s)") auto
  show ?case
  proof (cases "looks_at [AMP] s")
    case True
    then have "parseback c s = parseback (BACK c) s2" using g by (subst parseback.simps) (simp add: Let_def)
    then have "parseback (BACK c) s2 = (c', s')" using "1.prems" by simp
    then have "suffix s' s2 \<and> (wf_cmd P (BACK c) \<longrightarrow> wf_cmd P c')"
      by (rule "1.IH" [OF _ _ _ g [symmetric], rotated -1]) (use True in auto)
    moreover have "suffix s2 s" using gettoken_rest [OF g] suffix_order.trans by blast
    ultimately show ?thesis by (auto intro: suffix_order.trans)
  next
    case False
    then have "parseback c s = (c, skip s)" by (subst parseback.simps) (simp add: Let_def)
    then show ?thesis using "1.prems" by auto
  qed
qed


text \<open>What a routine of the grammar returns when it does not panic: the tree is well-formed over the words of its input.\<close>

definition parsed_ok :: "ptr \<Rightarrow> (sword cmd \<times> ptr) parse \<Rightarrow> bool" where
  "parsed_ok s r \<longleftrightarrow> r \<noteq> None \<and> (\<forall>c s'. r = Some (Inr (c, s')) \<longrightarrow> suffix s' s \<and> wf_cmd (word_at s) c)"

lemma parsed_okI: "(\<And>c s'. r = Inr (c, s') \<Longrightarrow> suffix s' s \<and> wf_cmd (word_at s) c) \<Longrightarrow> parsed_ok s (Some r)"
  by (auto simp: parsed_ok_def)

lemma parsed_okE:
  assumes "parsed_ok s r"
  obtains (err) e where "r = Some (Inl e)" | (ok) c s' where "r = Some (Inr (c, s'))" "suffix s' s" "wf_cmd (word_at s) c"
  using assms unfolding parsed_ok_def by (metis not_None_eq sum.exhaust surj_pair)

lemma suffix_token: "gettoken (skip s) = (tok, w, s2) \<Longrightarrow> suffix s t \<Longrightarrow> suffix s2 t"
  using gettoken_rest [of "skip s" tok w s2] by (meson suffix_order.trans suffix_skip)

lemma suffix_skip_trans: "suffix s t \<Longrightarrow> suffix (skip s) t"
  by (meson suffix_order.trans suffix_skip)

lemma parsed_ok_rest:
  assumes "parsed_ok s2 r" "suffix s2 s" "\<And>c. wf_cmd (word_at s) c \<Longrightarrow> wf_cmd (word_at s) (f c)"
  shows "parsed_ok s (case r of Some (Inr (c, s')) \<Rightarrow> Some (Inr (f c, s')) | r \<Rightarrow> r)"
  using assms(1)
proof (cases rule: parsed_okE)
  case (ok c s')
  then show ?thesis using assms(2,3) wf_cmd_suffix by (auto simp: parsed_ok_def intro: suffix_order.trans)
qed (simp add: parsed_ok_def)

lemma parsepipe_step:
  assumes "parsed_ok s (parseexec n s)" "\<And>s'. length s' < length s \<Longrightarrow> parsed_ok s' (parsepipe n s')"
  shows "parsed_ok s (parsepipe (Suc n) s)"
  using assms(1)
proof (cases rule: parsed_okE)
  case (ok c s1)
  obtain tok w s2 where g: "gettoken (skip s1) = (tok, w, s2)" by (cases "gettoken (skip s1)") auto
  show ?thesis
  proof (cases "looks_at [BAR] s1")
    case True
    then have "length s2 < length s" using one_token [OF g] suffix_length_le [OF ok(2)] by fastforce
    then have "parsed_ok s (case parsepipe n s2 of Some (Inr (c', s')) \<Rightarrow> Some (Inr (PIPE c c', s')) | r \<Rightarrow> r)"
      using ok(3) by (intro parsed_ok_rest [OF assms(2) suffix_token [OF g ok(2)]]) auto
    then show ?thesis using True ok(1) g by (simp add: parsepipe.simps Let_def)
  next
    case False
    then show ?thesis using ok by (simp add: parsepipe.simps Let_def parsed_ok_def suffix_skip_trans)
  qed
qed (simp add: parsepipe.simps parsed_ok_def)

lemma parseline_step:
  assumes "parsed_ok s (parsepipe n s)" "\<And>s'. length s' < length s \<Longrightarrow> parsed_ok s' (parseline n s')"
  shows "parsed_ok s (parseline (Suc n) s)"
  using assms(1)
proof (cases rule: parsed_okE)
  case (ok c s0)
  obtain c1 s1 where pb: "parseback c s0 = (c1, s1)" by (cases "parseback c s0") auto
  have ok1: "suffix s1 s" "wf_cmd (word_at s) c1"
    using parseback_ok [OF pb, of "word_at s"] ok(2,3) by (auto intro: suffix_order.trans)
  obtain tok w s2 where g: "gettoken (skip s1) = (tok, w, s2)" by (cases "gettoken (skip s1)") auto
  show ?thesis
  proof (cases "looks_at [SEMI] s1")
    case True
    then have "length s2 < length s" using one_token [OF g] suffix_length_le [OF ok1(1)] by fastforce
    then have "parsed_ok s (case parseline n s2 of Some (Inr (c', s')) \<Rightarrow> Some (Inr (LIST c1 c', s')) | r \<Rightarrow> r)"
      using ok1(2) by (intro parsed_ok_rest [OF assms(2) suffix_token [OF g ok1(1)]]) auto
    then show ?thesis using True ok(1) pb g by (simp add: parseline.simps Let_def)
  next
    case False
    then show ?thesis using ok(1) pb ok1 by (simp add: parseline.simps Let_def parsed_ok_def suffix_skip_trans)
  qed
qed (simp add: parseline.simps parsed_ok_def)

lemma parseexec_step:
  assumes "parsed_ok (skip s) (parseblock n (skip s))"
  shows "parsed_ok s (parseexec (Suc n) s)"
proof (cases "looks_at [LPAR] s")
  case True
  then show ?thesis using parsed_ok_rest [OF assms suffix_skip, of "\<lambda>c. c"]
    by (simp add: parseexec.simps split: option.splits sum.splits prod.splits)
next
  case False
  have "suffix s' s \<and> wf_cmd (word_at s) (put_redirs (EXEC argv) rs)"
    if r: "parseredirs [] (skip s) = Inr (rs0, s0)" and a: "parseargs [] rs0 s0 = Inr (argv, rs, s')" for argv rs0 rs s0 s'
  proof -
    obtain new where new: "suffix s0 (skip s)" "rs0 = [] @ new" "\<forall>r \<in> set new. redir_ok (word_at (skip s)) r"
      using parseredirs_ok [OF r] by blast
    then have "\<forall>r \<in> set rs0. redir_ok (word_at s) r" by (auto simp: redir_ok_def intro: word_at_suffix)
    then show ?thesis using new(1) by (intro parseargs_ok [OF a]) (auto intro: suffix_order.trans)
  qed
  then show ?thesis using False by (auto simp: parseexec.simps intro!: parsed_okI split: sum.splits)
qed

lemma parseblock_step:
  assumes "\<And>s'. length s' < length s \<Longrightarrow> parsed_ok s' (parseline n s')"
  shows "parsed_ok s (parseblock (Suc n) s)"
proof (cases "looks_at [LPAR] s")
  case True
  obtain tok w s1 where g: "gettoken (skip s) = (tok, w, s1)" by (cases "gettoken (skip s)") auto
  note s1 = suffix_token [OF g suffix_order.refl]
  from assms [OF one_token [OF g True]] show ?thesis
  proof (cases rule: parsed_okE)
    case (err e)
    then show ?thesis using True g by (simp add: parseblock.simps Let_def parsed_ok_def)
  next
    case (ok c s2)
    obtain tok' w' s3 where g': "gettoken (skip s2) = (tok', w', s3)" by (cases "gettoken (skip s2)") auto
    have s3: "suffix s3 s" using suffix_token [OF g' ok(2)] s1 suffix_order.trans by blast
    have c: "wf_cmd (word_at s) c" using wf_cmd_suffix ok(3) s1 by blast
    have "suffix s' s \<and> wf_cmd (word_at s) (put_redirs c rs)" if "parseredirs [] s3 = Inr (rs, s')" for rs s'
      using parseredirs_ok [OF that] s3 c
      by (auto simp: wf_put_redirs redir_ok_def intro: suffix_order.trans word_at_suffix)
    then show ?thesis using True g g' ok(1)
      by (auto simp: parseblock.simps Let_def intro!: parsed_okI split: sum.splits)
  qed
qed (simp add: parseblock.simps parsed_ok_def)

lemma parse_total:
  "(4 * length s + 4 \<le> n \<longrightarrow> parsed_ok s (parseline n s)) \<and> (4 * length s + 3 \<le> n \<longrightarrow> parsed_ok s (parsepipe n s)) \<and>
   (4 * length s + 2 \<le> n \<longrightarrow> parsed_ok s (parseexec n s)) \<and> (4 * length s + 1 \<le> n \<longrightarrow> parsed_ok s (parseblock n s))"
proof (induction n arbitrary: s)
  case (Suc n)
  have line: "parsed_ok s (parseline n s)" if "4 * length s + 4 \<le> n" for s using Suc.IH that by blast
  have pipe: "parsed_ok s (parsepipe n s)" if "4 * length s + 3 \<le> n" for s using Suc.IH that by blast
  have exec: "parsed_ok s (parseexec n s)" if "4 * length s + 2 \<le> n" for s using Suc.IH that by blast
  have block: "parsed_ok s (parseblock n s)" if "4 * length s + 1 \<le> n" for s using Suc.IH that by blast
  have "parsed_ok (skip s) (parseblock n (skip s))" if "4 * length s + 2 \<le> Suc n"
    using skip_length [of s] that by (intro block) simp
  then show ?case
    by (intro conjI impI parseline_step parsepipe_step parseexec_step parseblock_step line pipe exec) auto
qed simp

subsection \<open>The strings that the tree points to\<close>

lemma put_nul_nth: "i < length buf \<Longrightarrow> put_nul es w buf ! i = (if i = es - length (snd w) then 0 else buf ! i)"
  by (simp add: put_nul_def nth_list_update)

lemma put_nul_length [simp]: "length (put_nul es w buf) = length buf"
  by (simp add: put_nul_def)

lemma fold_put_nul:
  "length (fold (put_nul es) ws buf) = length buf \<and>
   (i < length buf \<longrightarrow> fold (put_nul es) ws buf ! i = (if \<exists>w \<in> set ws. i = es - length (snd w) then 0 else buf ! i))"
  by (induction ws arbitrary: buf) (auto simp: put_nul_nth)

lemma nulterminate_length [simp]: "length (nulterminate es c buf) = length buf"
  by (induction c arbitrary: buf) (auto simp: fold_put_nul)

lemma nulterminate_nth:
  "i < length buf \<Longrightarrow> nulterminate es c buf ! i = (if \<exists>w \<in> set_cmd c. i = es - length (snd w) then 0 else buf ! i)"
  by (induction c arbitrary: buf) (auto simp: fold_put_nul put_nul_nth)

text \<open>The NUL behind a word never falls into another word, because a word ends where the next character is not plain.\<close>

lemma word_end:
  assumes "word_at s w"
  shows "length s - length (snd w) = length s - length (fst w) + length (takeWhile plain (fst w))"
    "length s - length (snd w) < length s \<Longrightarrow> \<not> plain (s ! (length s - length (snd w)))"
proof -
  obtain z where z: "s = z @ fst w" using assms by (auto simp: word_at_def suffix_def)
  have q: "fst w = takeWhile plain (fst w) @ snd w" using assms by (simp add: word_at_def)
  then show pos: "length s - length (snd w) = length s - length (fst w) + length (takeWhile plain (fst w))"
    using z by (metis add_diff_cancel_right' append.assoc diff_diff_left length_append diff_add_inverse2)
  have s: "s = (z @ takeWhile plain (fst w)) @ snd w" using z q by simp
  then have n: "length s - length (snd w) = length (z @ takeWhile plain (fst w))" by (metis add_diff_cancel_right' length_append)
  assume "length s - length (snd w) < length s"
  then have "snd w \<noteq> []" using n s by auto
  then have "\<not> plain (hd (snd w))" using assms hd_dropWhile [of plain "fst w"] by (simp add: word_at_def)
  then show "\<not> plain (s ! (length s - length (snd w)))"
    unfolding n using \<open>snd w \<noteq> []\<close> by (subst s) (simp only: nth_append_length hd_conv_nth nth_append, simp add: hd_conv_nth)
qed

definition word_bytes :: "sword \<Rightarrow> bytes" where
  "word_bytes w = takeWhile plain (fst w)"

lemma string_at_word:
  assumes words: "wf_cmd (word_at s) c" and w: "w \<in> set_cmd c" and s: "0 \<notin> set s"
  shows "string_at (length s) (nulterminate (length s) c (s @ [0])) w = word_bytes w"
proof -
  let ?buf = "nulterminate (length s) c (s @ [0])" and ?p = "length s - length (fst w)" and ?k = "length (takeWhile plain (fst w))"
  have at: "word_at s w" using words w by (rule wf_cmd_word)
  then obtain z where z: "s = z @ fst w" by (auto simp: word_at_def suffix_def)
  have k: "?k \<le> length (fst w)" by (rule length_takeWhile_le)
  have ch: "s ! (?p + i) = takeWhile plain (fst w) ! i" "plain (takeWhile plain (fst w) ! i)" if "i < ?k" for i
    using that k z nth_mem [OF that] by (auto simp: nth_append takeWhile_nth dest: set_takeWhileD)
  have inner: "?buf ! (?p + i) = takeWhile plain (fst w) ! i" if i: "i < ?k" for i
  proof -
    have "?p + i < length s" using i k z by simp
    moreover have "\<not> (\<exists>v \<in> set_cmd c. ?p + i = length s - length (snd v))"
      using word_end(2) wf_cmd_word [OF words] ch [OF i] calculation by (metis (no_types))
    ultimately show ?thesis using ch(1) [OF i] by (simp add: nulterminate_nth nth_append)
  qed
  have nz: "takeWhile plain (fst w) ! i \<noteq> 0" if "i < ?k" for i
    using ch(1) [OF that] s that k z by (metis (no_types, lifting) UnI2 nth_mem set_append set_takeWhileD)
  have e: "?p + ?k = length s - length (snd w)" using word_end(1) [OF at] by simp
  then have "?p + ?k \<le> length s" by simp
  then have "?buf ! (?p + ?k) = 0" using e w by (subst nulterminate_nth) auto
  then have "takeWhile (\<lambda>b. b \<noteq> 0) (drop ?p ?buf) = take ?k (drop ?p ?buf)"
    using inner nz by (intro takeWhile_eq_take_P_nth) auto
  also have "\<dots> = takeWhile plain (fst w)" using inner \<open>?p + ?k \<le> length s\<close> by (intro nth_equalityI) auto
  finally show ?thesis by (simp add: string_at_def word_bytes_def)
qed

text \<open>
  C30: the parser of the shell always stops: on a line of any length, 4 times its length plus 4 calls deep is enough.  It
  panics or returns a tree whose words are exactly maximal runs of plain characters of the line, whose argument
  arrays have at most nine entries, so that the null pointer behind the last one is inside the array, and whose redirections
  have one of the three legal modes; and after the NULs are stored, each pointer of the tree reads as exactly its word.
\<close>

theorem parsecmd_total:
  assumes "0 \<notin> set s"
  shows "\<exists>r. parsecmd (4 * length s + 4) s = Some r \<and>
    (case r of
       Inl msg \<Rightarrow> True
     | Inr (cmd, buf) \<Rightarrow>
         wf_cmd (word_at s) cmd \<and> length buf = length s + 1 \<and>
         command_of (length s) buf cmd = map_cmd word_bytes cmd)"
proof -
  have "parsed_ok s (parseline (4 * length s + 4) s)" using parse_total by blast
  then show ?thesis
  proof (cases rule: parsed_okE)
    case (ok c s')
    have "command_of (length s) (nulterminate (length s) c (s @ [0])) c = map_cmd word_bytes c"
      unfolding command_of_def by (rule cmd.map_cong [OF refl]) (rule string_at_word [OF ok(3) _ assms])
    then show ?thesis using ok by (simp add: parsecmd_def Let_def)
  qed (simp add: parsecmd_def)
qed

text \<open>The line \<open>a<f\<close>.\<close>

theorem parsecmd_total_witness:
  "\<exists>r. parsecmd 16 [97, 60, 102] = Some r \<and>
    (case r of
       Inl msg \<Rightarrow> True
     | Inr (cmd, buf) \<Rightarrow>
         wf_cmd (word_at [97, 60, 102]) cmd \<and> length buf = 3 + 1 \<and> command_of 3 buf cmd = map_cmd word_bytes cmd)"
proof -
  have l: "length [97, 60, 102 :: u8] = 3" by simp
  show ?thesis using parsecmd_total [of "[97, 60, 102]"] unfolding l by simp
qed

end
