(* ===== verification/Ushtext.thy ===== *)
theory Ushtext
  imports Ush
begin

section \<open>The text of a shell command\<close>

text \<open>Every command tree has a text, and the parser of the shell recovers the tree from it.\<close>

subsection \<open>Writing a command down\<close>

text \<open>
  The text of a tree, with parentheses only where the grammar needs them.  The number is the level of the grammar that
  reads the text: 0 for \<open>parseline\<close>, 1 for what \<open>&\<close> applies to, 2 for \<open>parsepipe\<close> and 3 for \<open>parseexec\<close>.
\<close>

definition paren :: "bool \<Rightarrow> bytes \<Rightarrow> bytes" where
  "paren b x = (if b then LPAR # x @ [RPAR] else x)"

definition show_redir :: "bytes \<times> int \<times> int \<Rightarrow> bytes" where
  "show_redir r = (if fst (snd r) = O_RDONLY then [LESS] else if fst (snd r) = O_WRONLY_CREATE_TRUNC then [GREATER]
     else [GREATER, GREATER]) @ fst r @ [32]"

primrec show_cmd :: "bytes cmd \<Rightarrow> nat \<Rightarrow> bytes" where
  "show_cmd (EXEC argv) l = concat (map (\<lambda>w. w @ [32]) argv)"
| "show_cmd (REDIR c w mode fd) l = show_cmd c 3 @ show_redir (w, mode, fd)"
| "show_cmd (PIPE a b) l = paren (2 < l) (show_cmd a 3 @ [BAR] @ show_cmd b 2)"
| "show_cmd (LIST a b) l = paren (0 < l) (show_cmd a 1 @ [SEMI] @ show_cmd b 0)"
| "show_cmd (BACK a) l = paren (1 < l) (show_cmd a 1 @ [AMP])"

definition good_word :: "bytes \<Rightarrow> bool" where
  "good_word w \<longleftrightarrow> w \<noteq> [] \<and> (\<forall>c \<in> set w. plain c \<and> c \<noteq> 0)"

subsection \<open>Reading it back\<close>

definition ends :: "u8 list \<Rightarrow> ptr \<Rightarrow> bool" where
  "ends toks t \<longleftrightarrow> skip t = [] \<or> looks_at toks t"

definition reads :: "(sword cmd \<times> ptr) parse \<Rightarrow> bytes cmd \<Rightarrow> ptr \<Rightarrow> bool" where
  "reads r c t \<longleftrightarrow> (\<exists>c'. r = Some (Inr (c', skip t)) \<and> map_cmd word_bytes c' = c)"

lemma gettoken_skip [simp]: "gettoken (skip s) = gettoken s"
  by (simp add: gettoken_def)

lemma looks_at_skip [simp]: "looks_at toks (skip s) = looks_at toks s"
  by (simp add: looks_at_def)

lemma skip_plain: "plain c \<Longrightarrow> skip (c # x) = c # x"
  by (simp add: skip_def plain_def)

lemma skip_symbol: "c \<in> set SYMBOLS \<Longrightarrow> skip (c # x) = c # x"
  by (auto simp: skip_def SYMBOLS_def WHITESPACE_def)

lemma skip_space: "skip (32 # x) = skip x"
  by (simp add: skip_def WHITESPACE_def)

lemma gettoken_good_word:
  assumes "good_word w"
  shows "gettoken (w @ 32 # x) = (WORD, (w @ 32 # x, 32 # x), skip x)" "skip (w @ 32 # x) = w @ 32 # x"
    "word_bytes (w @ 32 # x, y) = w"
proof -
  obtain c w' where w: "w = c # w'" "plain c" "\<forall>c \<in> set w'. plain c" using assms by (cases w) (auto simp: good_word_def)
  then show s: "skip (w @ 32 # x) = w @ 32 # x" by (simp add: skip_plain)
  have "\<not> plain 32" by (simp add: plain_def WHITESPACE_def)
  then show "gettoken (w @ 32 # x) = (WORD, (w @ 32 # x, 32 # x), skip x)" "word_bytes (w @ 32 # x, y) = w"
    using gettoken_plain [of "w @ 32 # x" c "w' @ 32 # x"] s w by (auto simp: word_bytes_def dropWhile_append3 skip_space)
qed

lemma looks_at_good_word: "good_word w \<Longrightarrow> \<not> (\<exists>c \<in> set toks. plain c) \<Longrightarrow> \<not> looks_at toks (w @ 32 # x)"
  using gettoken_good_word(2) [of w x] by (cases w) (auto simp: looks_at_def good_word_def)

lemma looks_at_symbol: "c \<in> set SYMBOLS \<Longrightarrow> looks_at toks (c # x) \<longleftrightarrow> c \<in> set toks"
  by (simp add: looks_at_def skip_symbol)

lemma parseredirs_skip [simp]: "parseredirs rs (skip s) = parseredirs rs s"
  by (subst (1 2) parseredirs.simps) simp

lemma parseredirs_none: "\<not> looks_at [LESS, GREATER] s \<Longrightarrow> parseredirs rs s = Inr (rs, skip s)"
  by (subst parseredirs.simps) simp

lemma put_redirs_simps [simp]:
  "put_redirs c [] = c" "put_redirs c (r # rs) = put_redirs (REDIR c (fst r) (fst (snd r)) (snd (snd r))) rs"
  by (auto simp: put_redirs_def split_def)

definition redir_bytes :: "redir \<Rightarrow> bytes \<times> int \<times> int" where
  "redir_bytes r = (word_bytes (fst r), snd r)"

lemma redir_bytes_pair [simp]: "redir_bytes (w, x) = (word_bytes w, x)"
  by (simp add: redir_bytes_def)

lemma map_put_redirs: "map_cmd word_bytes (put_redirs c rs) = put_redirs (map_cmd word_bytes c) (map redir_bytes rs)"
  by (induction rs arbitrary: c) (auto simp: redir_bytes_def)

abbreviation show_redirs :: "(bytes \<times> int \<times> int) list \<Rightarrow> bytes" where
  "show_redirs rs \<equiv> concat (map show_redir rs)"

definition redir_tok :: "'w \<times> int \<times> int \<Rightarrow> u8" where
  "redir_tok r = (if fst (snd r) = O_RDONLY then LESS else if fst (snd r) = O_WRONLY_CREATE_TRUNC then GREATER else PLUS)"

lemma redir_of_tok: "redir_ok P r \<Longrightarrow> redir_of (redir_tok r) y = [(y, snd r)]"
  by (auto simp: redir_ok_def redir_tok_def redir_of_def)

lemma gettoken_redir:
  assumes "redir_ok good_word r"
  shows "\<exists>v. gettoken (show_redir r @ x) = (redir_tok r, v, skip (fst r @ 32 # x))" "looks_at [LESS, GREATER] (show_redir r @ x)"
proof -
  obtain c w where w: "fst r = c # w" "plain c" using assms by (cases "fst r") (auto simp: redir_ok_def good_word_def)
  then have c: "c \<noteq> GREATER" by (simp add: plain_iff)
  have s: "skip (GREATER # y) = GREATER # y" "skip (LESS # y) = LESS # y" for y by (simp_all add: skip_symbol SYMBOLS_def)
  show "\<exists>v. gettoken (show_redir r @ x) = (redir_tok r, v, skip (fst r @ 32 # x))"
    using assms c s by (auto simp: redir_ok_def show_redir_def redir_tok_def w gettoken_symbol gettoken_greater)
  show "looks_at [LESS, GREATER] (show_redir r @ x)"
    using s by (simp add: show_redir_def looks_at_def)
qed

lemma parseredirs_reads:
  assumes "\<forall>r \<in> set rs. redir_ok good_word r" "\<not> looks_at [LESS, GREATER] t"
  shows "\<exists>rs'. parseredirs rs0 (show_redirs rs @ t) = Inr (rs0 @ rs', skip t) \<and> map redir_bytes rs' = rs"
  using assms(1)
proof (induction rs arbitrary: rs0)
  case Nil
  then show ?case using assms(2) by (simp add: parseredirs_none)
next
  case (Cons r rs)
  let ?x = "show_redirs rs @ t"
  have r: "redir_ok good_word r" using Cons.prems by simp
  then obtain v where tok: "gettoken (show_redir r @ ?x) = (redir_tok r, v, skip (fst r @ 32 # ?x))"
    using gettoken_redir(1) by blast
  let ?w = "(fst r @ 32 # ?x, 32 # ?x)"
  have w: "good_word (fst r)" using Cons.prems by (auto simp: redir_ok_def)
  have "parseredirs rs0 (show_redir r @ ?x) = parseredirs (rs0 @ [(?w, snd r)]) ?x"
    using tok gettoken_redir(2) [OF r] gettoken_good_word [OF w, of ?x]
    by (subst parseredirs.simps) (simp add: Let_def redir_of_tok [OF r])
  moreover obtain rs' where "parseredirs (rs0 @ [(?w, snd r)]) ?x = Inr ((rs0 @ [(?w, snd r)]) @ rs', skip t)"
    "map redir_bytes rs' = rs" using Cons.IH [of "rs0 @ [(?w, snd r)]"] Cons.prems by (meson list.set_intros(2))
  ultimately show ?case using gettoken_good_word(3) [OF w] by (intro exI [of _ "(?w, snd r) # rs'"]) simp
qed


text \<open>The words of a command, then its redirections.\<close>

lemma parseargs_reads:
  assumes "\<forall>r \<in> set rs. redir_ok good_word r" "ends [BAR, RPAR, AMP, SEMI] t" "\<forall>w \<in> set ws. good_word w"
    "length argv + length ws < 10"
  shows "\<exists>rs0 s0 ws' rs'. parseredirs [] (concat (map (\<lambda>w. w @ [32]) ws) @ show_redirs rs @ t) = Inr (rs0, s0) \<and>
    parseargs argv rs0 s0 = Inr (argv @ ws', rs', skip t) \<and> map word_bytes ws' = ws \<and> map redir_bytes rs' = rs"
  using assms(3,4)
proof (induction ws arbitrary: argv)
  case Nil
  have "\<not> looks_at [LESS, GREATER] t" using assms(2) by (auto simp: ends_def looks_at_def)
  then obtain rs' where rs': "parseredirs [] (show_redirs rs @ t) = Inr (rs', skip t)" "map redir_bytes rs' = rs"
    using parseredirs_reads [OF assms(1), of t "[]"] by auto
  have "parseargs argv rs' (skip t) = Inr (argv, rs', skip t)"
  proof (cases "looks_at [BAR, RPAR, AMP, SEMI] t")
    case False
    then have "skip t = []" using assms(2) by (simp add: ends_def)
    then show ?thesis using False by (subst parseargs.simps) (simp add: gettoken_end Let_def)
  qed (subst parseargs.simps, simp)
  then show ?case using rs' by auto
next
  case (Cons w ws)
  let ?x = "concat (map (\<lambda>w. w @ [32]) ws) @ show_redirs rs @ t" and ?argv = "\<lambda>x. argv @ [(w @ 32 # x, 32 # x)]"
  have w: "good_word w" using Cons.prems by simp
  note tok = gettoken_good_word [OF w, of ?x]
  have np: "\<not> (\<exists>c \<in> set [LESS, GREATER]. plain c)" "\<not> (\<exists>c \<in> set [BAR, RPAR, AMP, SEMI]. plain c)"
    by (simp_all add: plain_iff)
  have first: "parseredirs [] (w @ 32 # ?x) = Inr ([], w @ 32 # ?x)"
    using parseredirs_none [OF looks_at_good_word [OF w np(1)]] tok(2) by simp
  have "\<forall>w \<in> set ws. good_word w" "length (?argv ?x) + length ws < 10" using Cons.prems by auto
  then obtain rs0 s0 ws' rs' where IH: "parseredirs [] ?x = Inr (rs0, s0)"
    "parseargs (?argv ?x) rs0 s0 = Inr (?argv ?x @ ws', rs', skip t)" "map word_bytes ws' = ws" "map redir_bytes rs' = rs"
    using Cons.IH [of "?argv ?x"] by blast
  have "parseargs argv [] (w @ 32 # ?x) = Inr (?argv ?x @ ws', rs', skip t)"
    using looks_at_good_word [OF w np(2)] tok IH(1,2) Cons.prems(2) by (subst parseargs.simps) (simp add: Let_def)
  then show ?case using first IH(3,4) tok(3)
    by (intro exI [of _ "[]"] exI [of _ "w @ 32 # ?x"] exI [of _ "(w @ 32 # ?x, 32 # ?x) # ws'"] exI [of _ rs']) simp
qed


text \<open>
  For each level of the grammar: it reads the text of the tree back, in front of anything that the level leaves alone.
\<close>

definition exec_reads :: "bytes cmd \<Rightarrow> bool" where
  "exec_reads c \<longleftrightarrow> (\<forall>rs t n. (\<forall>r \<in> set rs. redir_ok good_word r) \<longrightarrow> ends [BAR, RPAR, AMP, SEMI] t \<longrightarrow>
     4 * length (show_cmd c 3 @ show_redirs rs @ t) + 2 \<le> n \<longrightarrow>
     reads (parseexec n (show_cmd c 3 @ show_redirs rs @ t)) (put_redirs c rs) t)"

definition pipe_reads :: "bytes cmd \<Rightarrow> bool" where
  "pipe_reads c \<longleftrightarrow> (\<forall>t n. ends [RPAR, AMP, SEMI] t \<longrightarrow> 4 * length (show_cmd c 2 @ t) + 3 \<le> n \<longrightarrow>
     reads (parsepipe n (show_cmd c 2 @ t)) c t)"

definition back_reads :: "bytes cmd \<Rightarrow> bool" where
  "back_reads c \<longleftrightarrow> (\<forall>t n. ends [RPAR, AMP, SEMI] t \<longrightarrow> 4 * length (show_cmd c 1 @ t) + 3 \<le> n \<longrightarrow>
     (\<exists>c0 s0 c'. parsepipe n (show_cmd c 1 @ t) = Some (Inr (c0, s0)) \<and> parseback c0 s0 = parseback c' t \<and> map_cmd word_bytes c' = c))"

definition line_reads :: "bytes cmd \<Rightarrow> bool" where
  "line_reads c \<longleftrightarrow> (\<forall>t n. ends [RPAR] t \<longrightarrow> 4 * length (show_cmd c 0 @ t) + 4 \<le> n \<longrightarrow>
     reads (parseline n (show_cmd c 0 @ t)) c t)"

lemma ends_mono: "ends a t \<Longrightarrow> set a \<subseteq> set b \<Longrightarrow> ends b t"
  by (auto simp: ends_def looks_at_def)

lemma ends_not: "ends a t \<Longrightarrow> set a \<inter> set b = {} \<Longrightarrow> \<not> looks_at b t"
  by (auto simp: ends_def looks_at_def)

lemma parseback_none: "\<not> looks_at [AMP] s \<Longrightarrow> parseback c s = (c, skip s)"
  by (subst parseback.simps) simp

lemma parseback_skip [simp]: "parseback c (skip s) = parseback c s"
  by (subst (1 2) parseback.simps) simp

lemma parseexec_skip [simp]: "parseexec n (skip s) = parseexec n s"
  by (cases n) (simp_all add: parseexec.simps)

lemma parsepipe_skip [simp]: "parsepipe n (skip s) = parsepipe n s"
  by (cases n) (simp_all add: parsepipe.simps)

lemma parseline_skip [simp]: "parseline n (skip s) = parseline n s"
  by (cases n) (simp_all add: parseline.simps)

lemma pipe_of_exec: "exec_reads c \<Longrightarrow> show_cmd c 2 = show_cmd c 3 \<Longrightarrow> pipe_reads c"
  unfolding pipe_reads_def
proof (intro allI impI)
  fix t n
  assume e: "exec_reads c" and s: "show_cmd c 2 = show_cmd c 3" and t: "ends [RPAR, AMP, SEMI] t"
    and n: "4 * length (show_cmd c 2 @ t) + 3 \<le> n"
  then obtain m where m: "n = Suc m" "4 * length (show_cmd c 3 @ show_redirs [] @ t) + 2 \<le> m" by (cases n) auto
  have "ends [BAR, RPAR, AMP, SEMI] t" using t by (rule ends_mono) simp
  then have "reads (parseexec m (show_cmd c 3 @ show_redirs [] @ t)) (put_redirs c []) t"
    using e m(2) unfolding exec_reads_def by (metis empty_iff list.set(1))
  then show "reads (parsepipe n (show_cmd c 2 @ t)) c t"
    using ends_not [OF t, of "[BAR]"] unfolding m s reads_def by (auto simp: parsepipe.simps)
qed

lemma back_of_pipe: "pipe_reads c \<Longrightarrow> show_cmd c 1 = show_cmd c 2 \<Longrightarrow> back_reads c"
  unfolding pipe_reads_def back_reads_def reads_def by (metis parseback_skip)

lemma line_of_back: "back_reads c \<Longrightarrow> show_cmd c 0 = show_cmd c 1 \<Longrightarrow> line_reads c"
  unfolding line_reads_def
proof (intro allI impI)
  fix t n
  assume b: "back_reads c" and s: "show_cmd c 0 = show_cmd c 1" and t: "ends [RPAR] t" and n: "4 * length (show_cmd c 0 @ t) + 4 \<le> n"
  then obtain m where m: "n = Suc m" "4 * length (show_cmd c 1 @ t) + 3 \<le> m" by (cases n) auto
  have "ends [RPAR, AMP, SEMI] t" using t by (rule ends_mono) simp
  then obtain c0 s0 c' where "parsepipe m (show_cmd c 1 @ t) = Some (Inr (c0, s0))" "parseback c0 s0 = parseback c' t" "map_cmd word_bytes c' = c"
    using b m(2) unfolding back_reads_def by blast
  then show "reads (parseline n (show_cmd c 0 @ t)) c t"
    using ends_not [OF t, of "[AMP]"] ends_not [OF t, of "[SEMI]"] unfolding m s reads_def
    by (auto simp: parseline.simps parseback_none)
qed

text \<open>A parenthesis.\<close>

lemma exec_of_line: "line_reads c \<Longrightarrow> show_cmd c 3 = LPAR # show_cmd c 0 @ [RPAR] \<Longrightarrow> exec_reads c"
  unfolding exec_reads_def
proof (intro allI impI)
  fix rs t n
  let ?y = "show_redirs rs @ t" and ?s = "show_cmd c 3 @ show_redirs rs @ t"
  assume l: "line_reads c" and s: "show_cmd c 3 = LPAR # show_cmd c 0 @ [RPAR]" and rs: "\<forall>r \<in> set rs. redir_ok good_word r"
    and t: "ends [BAR, RPAR, AMP, SEMI] t" and n: "4 * length ?s + 2 \<le> n"
  then obtain m where m: "n = Suc (Suc m)" "4 * length (show_cmd c 0 @ RPAR # ?y) + 4 \<le> m" by (cases n; cases "n - 1") auto
  have sym: "LPAR \<in> set SYMBOLS" "RPAR \<in> set SYMBOLS" by (simp_all add: SYMBOLS_def)
  have r: "ends [RPAR] (RPAR # ?y)" "skip (RPAR # ?y) = RPAR # ?y" "looks_at [RPAR] (RPAR # ?y)"
    using sym by (simp_all add: ends_def looks_at_symbol skip_symbol)
  then obtain c' where c': "parseline m (show_cmd c 0 @ RPAR # ?y) = Some (Inr (c', RPAR # ?y))" "map_cmd word_bytes c' = c"
    using l m(2) unfolding line_reads_def reads_def by metis
  have p: "skip ?s = ?s" "looks_at [LPAR] ?s" "?s = LPAR # show_cmd c 0 @ RPAR # ?y" using sym s by (simp_all add: looks_at_symbol skip_symbol)
  have g: "gettoken (RPAR # ?y) = (RPAR, (RPAR # ?y, ?y), skip ?y)"
    "gettoken ?s = (LPAR, (?s, show_cmd c 0 @ RPAR # ?y), skip (show_cmd c 0 @ RPAR # ?y))"
    using gettoken_symbol [OF r(2)] gettoken_symbol [of ?s LPAR "show_cmd c 0 @ RPAR # ?y"] p by simp_all
  obtain rs' where rs': "parseredirs [] ?y = Inr (rs', skip t)" "map redir_bytes rs' = rs"
    using parseredirs_reads [OF rs, of t "[]"] ends_not [OF t, of "[LESS, GREATER]"] by auto
  have "parseexec n ?s = Some (Inr (put_redirs c' rs', skip t))"
    using p(1,2) g r(2,3) c'(1) rs'(1) unfolding m by (simp add: parseexec.simps parseblock.simps Let_def)
  then show "reads (parseexec n ?s) (put_redirs c rs) t" using c'(2) rs'(2) by (auto simp: reads_def map_put_redirs)
qed

text \<open>The five kinds of nodes.\<close>

lemma exec_reads_EXEC:
  assumes "wf_cmd good_word (EXEC ws)"
  shows "exec_reads (EXEC ws)"
  unfolding exec_reads_def
proof (intro allI impI)
  fix rs t n
  let ?s = "show_cmd (EXEC ws) 3 @ show_redirs rs @ t"
  assume rs: "\<forall>r \<in> set rs. redir_ok good_word r" and t: "ends [BAR, RPAR, AMP, SEMI] t" and n: "4 * length ?s + 2 \<le> n"
  then obtain m where m: "n = Suc m" by (cases n) auto
  have "\<not> looks_at [LPAR] ?s"
  proof (cases ws)
    case Nil
    then show ?thesis
    proof (cases rs)
      case (Cons r rs')
      then have "ends [LESS, GREATER] ?s" using gettoken_redir(2) [of r] rs \<open>ws = []\<close> by (simp add: ends_def)
      then show ?thesis by (rule ends_not) simp
    qed (use ends_not [OF t, of "[LPAR]"] in simp)
  next
    case (Cons w ws')
    then show ?thesis using looks_at_good_word [of w "[LPAR]"] assms by (simp add: plain_iff)
  qed
  moreover obtain rs0 s0 ws' rs' where "parseredirs [] ?s = Inr (rs0, s0)" "parseargs [] rs0 s0 = Inr (ws', rs', skip t)"
    "map word_bytes ws' = ws" "map redir_bytes rs' = rs"
    using parseargs_reads [OF rs t, of ws "[]"] assms by auto
  ultimately show "reads (parseexec n ?s) (put_redirs (EXEC ws) rs) t"
    unfolding m by (auto simp: parseexec.simps reads_def map_put_redirs)
qed

lemma exec_reads_REDIR: "exec_reads c \<Longrightarrow> redir_ok good_word (w, mode, fd) \<Longrightarrow> exec_reads (REDIR c w mode fd)"
  unfolding exec_reads_def
proof (intro allI impI)
  fix rs t n
  let ?r = "(w, mode, fd)" and ?s = "show_cmd (REDIR c w mode fd) 3 @ show_redirs rs @ t"
  assume c: "\<forall>rs t n. (\<forall>r \<in> set rs. redir_ok good_word r) \<longrightarrow> ends [BAR, RPAR, AMP, SEMI] t \<longrightarrow>
      4 * length (show_cmd c 3 @ show_redirs rs @ t) + 2 \<le> n \<longrightarrow>
      reads (parseexec n (show_cmd c 3 @ show_redirs rs @ t)) (put_redirs c rs) t"
    and r: "redir_ok good_word ?r" "\<forall>r \<in> set rs. redir_ok good_word r" and t: "ends [BAR, RPAR, AMP, SEMI] t"
    and n: "4 * length ?s + 2 \<le> n"
  have "?s = show_cmd c 3 @ show_redirs (?r # rs) @ t" by simp
  moreover have "put_redirs (REDIR c w mode fd) rs = put_redirs c (?r # rs)" by simp
  ultimately show "reads (parseexec n ?s) (put_redirs (REDIR c w mode fd) rs) t"
    using c [rule_format, of "?r # rs" t n] r t n by (metis set_ConsD)
qed

lemma symbol_reads:
  assumes "c \<in> {BAR, LPAR, RPAR, SEMI, AMP, LESS}"
  shows "skip (c # y) = c # y" "gettoken (c # y) = (c, (c # y, y), skip y)" "looks_at toks (c # y) \<longleftrightarrow> c \<in> set toks"
    "ends toks (c # y) \<longleftrightarrow> c \<in> set toks"
proof -
  have c: "c \<in> set SYMBOLS" using assms by (auto simp: SYMBOLS_def)
  then show s: "skip (c # y) = c # y" and "looks_at toks (c # y) \<longleftrightarrow> c \<in> set toks" "ends toks (c # y) \<longleftrightarrow> c \<in> set toks"
    by (simp_all add: skip_symbol looks_at_symbol ends_def)
  show "gettoken (c # y) = (c, (c # y, y), skip y)" using gettoken_symbol [OF s assms] .
qed

lemma pipe_reads_PIPE:
  assumes a: "exec_reads a" and b: "pipe_reads b"
  shows "pipe_reads (PIPE a b)"
  unfolding pipe_reads_def
proof (intro allI impI)
  fix t n
  let ?y = "show_cmd b 2 @ t"
  assume t: "ends [RPAR, AMP, SEMI] t" and n: "4 * length (show_cmd (PIPE a b) 2 @ t) + 3 \<le> n"
  then obtain m where m: "n = Suc m" "4 * length (show_cmd a 3 @ show_redirs [] @ BAR # ?y) + 2 \<le> m" "4 * length ?y + 3 \<le> m"
    by (cases n) (auto simp: paren_def)
  have bar: "BAR \<in> {BAR, LPAR, RPAR, SEMI, AMP, LESS}" by simp
  have "reads (parseexec m (show_cmd a 3 @ show_redirs [] @ BAR # ?y)) (put_redirs a []) (BAR # ?y)"
    using a m(2) unfolding exec_reads_def by (metis bar empty_iff list.set(1) list.set_intros(1) symbol_reads(4))
  then obtain a' where a': "parseexec m (show_cmd a 3 @ BAR # ?y) = Some (Inr (a', BAR # ?y))" "map_cmd word_bytes a' = a"
    using symbol_reads(1) [OF bar] unfolding reads_def by auto
  obtain b' where "parsepipe m ?y = Some (Inr (b', skip t))" "map_cmd word_bytes b' = b"
    using b t m(3) unfolding pipe_reads_def reads_def by blast
  then show "reads (parsepipe n (show_cmd (PIPE a b) 2 @ t)) (PIPE a b) t"
    using a' symbol_reads [OF bar, where y = "?y"] unfolding m(1) by (simp add: reads_def parsepipe.simps paren_def Let_def)
qed

lemma back_reads_BACK:
  assumes a: "back_reads a"
  shows "back_reads (BACK a)"
  unfolding back_reads_def
proof (intro allI impI)
  fix t n
  assume t: "ends [RPAR, AMP, SEMI] t" and n: "4 * length (show_cmd (BACK a) 1 @ t) + 3 \<le> n"
  have amp: "AMP \<in> {BAR, LPAR, RPAR, SEMI, AMP, LESS}" by simp
  have s: "show_cmd (BACK a) 1 @ t = show_cmd a 1 @ AMP # t" by (simp add: paren_def)
  have e: "ends [RPAR, AMP, SEMI] (AMP # t)" using symbol_reads(4) [OF amp] by simp
  have "4 * length (show_cmd a 1 @ AMP # t) + 3 \<le> n" using n unfolding s .
  then obtain c0 s0 a' where "parsepipe n (show_cmd a 1 @ AMP # t) = Some (Inr (c0, s0))" "parseback c0 s0 = parseback a' (AMP # t)"
    "map_cmd word_bytes a' = a" using a e unfolding back_reads_def by blast
  moreover have "parseback a' (AMP # t) = parseback (BACK a') t" for a' :: "sword cmd"
    using symbol_reads [OF amp, where y = "t"] by (subst parseback.simps) (simp add: Let_def)
  ultimately show "\<exists>c0 s0 c'. parsepipe n (show_cmd (BACK a) 1 @ t) = Some (Inr (c0, s0)) \<and>
      parseback c0 s0 = parseback c' t \<and> map_cmd word_bytes c' = BACK a"
    unfolding s by (intro exI [of _ c0] exI [of _ s0] exI [of _ "BACK a'"]) simp
qed

lemma line_reads_LIST:
  assumes a: "back_reads a" and b: "line_reads b"
  shows "line_reads (LIST a b)"
  unfolding line_reads_def
proof (intro allI impI)
  fix t n
  let ?y = "show_cmd b 0 @ t"
  assume t: "ends [RPAR] t" and n: "4 * length (show_cmd (LIST a b) 0 @ t) + 4 \<le> n"
  then obtain m where m: "n = Suc m" "4 * length (show_cmd a 1 @ SEMI # ?y) + 3 \<le> m" "4 * length ?y + 4 \<le> m"
    by (cases n) (auto simp: paren_def)
  have semi: "SEMI \<in> {BAR, LPAR, RPAR, SEMI, AMP, LESS}" by simp
  have e: "ends [RPAR, AMP, SEMI] (SEMI # ?y)" using symbol_reads(4) [OF semi] by simp
  obtain c0 s0 a' where "parsepipe m (show_cmd a 1 @ SEMI # ?y) = Some (Inr (c0, s0))" "parseback c0 s0 = parseback a' (SEMI # ?y)"
    "map_cmd word_bytes a' = a" using a e m(2) unfolding back_reads_def by blast
  moreover have "parseback a' (SEMI # ?y) = (a', SEMI # ?y)" for a' :: "sword cmd"
    using symbol_reads [OF semi, where y = "?y"] by (simp add: parseback_none)
  moreover obtain b' where "parseline m ?y = Some (Inr (b', skip t))" "map_cmd word_bytes b' = b"
    using b t m(3) unfolding line_reads_def reads_def by blast
  ultimately show "reads (parseline n (show_cmd (LIST a b) 0 @ t)) (LIST a b) t"
    using symbol_reads [OF semi, where y = "?y"] unfolding m(1) by (simp add: reads_def parseline.simps paren_def Let_def)
qed

lemma all_reads: "wf_cmd good_word c \<Longrightarrow> exec_reads c \<and> pipe_reads c \<and> back_reads c \<and> line_reads c"
proof (induction c)
  case (EXEC ws)
  then show ?case using exec_reads_EXEC pipe_of_exec back_of_pipe line_of_back by (metis show_cmd.simps(1))
next
  case (REDIR c w mode fd)
  then show ?case using exec_reads_REDIR pipe_of_exec back_of_pipe line_of_back by (metis show_cmd.simps(2) wf_cmd.simps(2))
next
  case (PIPE a b)
  then have "pipe_reads (PIPE a b)" using pipe_reads_PIPE by simp
  moreover from this have "back_reads (PIPE a b)" by (rule back_of_pipe) (simp add: paren_def)
  moreover from this have "line_reads (PIPE a b)" by (rule line_of_back) (simp add: paren_def)
  moreover from this have "exec_reads (PIPE a b)" by (rule exec_of_line) (simp add: paren_def)
  ultimately show ?case by simp
next
  case (LIST a b)
  then have "line_reads (LIST a b)" using line_reads_LIST by simp
  moreover from this have "exec_reads (LIST a b)" by (rule exec_of_line) (simp add: paren_def)
  moreover from this have "pipe_reads (LIST a b)" by (rule pipe_of_exec) (simp add: paren_def)
  moreover from this have "back_reads (LIST a b)" by (rule back_of_pipe) (simp add: paren_def)
  ultimately show ?case by simp
next
  case (BACK a)
  then have "back_reads (BACK a)" using back_reads_BACK by simp
  moreover from this have "line_reads (BACK a)" by (rule line_of_back) (simp add: paren_def)
  moreover from this have "exec_reads (BACK a)" by (rule exec_of_line) (simp add: paren_def)
  moreover from this have "pipe_reads (BACK a)" by (rule pipe_of_exec) (simp add: paren_def)
  ultimately show ?case by simp
qed


lemma show_cmd_nonzero: "wf_cmd good_word c \<Longrightarrow> 0 \<notin> set (show_cmd c l)"
  by (induction c arbitrary: l) (auto simp: paren_def show_redir_def redir_ok_def good_word_def)

text \<open>
  C29: every command tree survives being written down and parsed: for a tree of any shape with at most nine words per simple
  command, whose words are made of plain characters, the parser accepts the text in which \<open>|\<close> binds tighter than \<open>&\<close>, and
  \<open>&\<close> tighter than \<open>;\<close>, and the strings that the parsed tree points to are those of the tree.
\<close>

theorem shell_roundtrip:
  assumes "wf_cmd good_word c"
  shows "\<exists>cmd buf. parsecmd (4 * length (show_cmd c 0) + 4) (show_cmd c 0) = Some (Inr (cmd, buf)) \<and>
    command_of (length (show_cmd c 0)) buf cmd = c"
proof -
  let ?s = "show_cmd c 0" and ?n = "4 * length (show_cmd c 0) + 4"
  have "ends [RPAR] []" by (simp add: ends_def)
  then have "reads (parseline ?n (?s @ [])) c []" using all_reads [OF assms] unfolding line_reads_def by (metis append_Nil2 order_refl)
  then obtain cmd where p: "parseline ?n ?s = Some (Inr (cmd, []))" "map_cmd word_bytes cmd = c" by (auto simp: reads_def)
  have "wf_cmd (word_at ?s) cmd" using parse_total [of ?s ?n] p(1) by (auto simp: parsed_ok_def)
  then have "command_of (length ?s) (nulterminate (length ?s) cmd (?s @ [0])) cmd = c"
    using string_at_word show_cmd_nonzero [OF assms] p(2) unfolding command_of_def by (metis cmd.map_cong0)
  then show ?thesis using p(1) by (simp add: parsecmd_def)
qed

text \<open>\<open>ls < f | wc & ; (x ; y) > g\<close>.\<close>

definition demo_cmd :: "bytes cmd" where
  "demo_cmd = LIST (BACK (PIPE (REDIR (EXEC [[108, 115]]) [102] O_RDONLY 0) (EXEC [[119, 99]])))
     (REDIR (LIST (EXEC [[120]]) (EXEC [[121]])) [103] O_WRONLY_CREATE_TRUNC 1)"

theorem shell_roundtrip_witness:
  "wf_cmd good_word demo_cmd \<and> show_cmd demo_cmd 0 =
     [108, 115, 32, LESS, 102, 32, BAR, 119, 99, 32, AMP, SEMI, LPAR, 120, 32, SEMI, 121, 32, RPAR, GREATER, 103, 32] \<and>
   (\<exists>cmd buf. parsecmd 92 (show_cmd demo_cmd 0) = Some (Inr (cmd, buf)) \<and> command_of 22 buf cmd = demo_cmd)"
proof -
  have wf: "wf_cmd good_word demo_cmd"
    by (simp add: demo_cmd_def good_word_def redir_ok_def plain_def WHITESPACE_def SYMBOLS_def)
  have s: "show_cmd demo_cmd 0 =
     [108, 115, 32, LESS, 102, 32, BAR, 119, 99, 32, AMP, SEMI, LPAR, 120, 32, SEMI, 121, 32, RPAR, GREATER, 103, 32]"
    by (simp add: demo_cmd_def paren_def show_redir_def)
  then have l: "length (show_cmd demo_cmd 0) = 22" by simp
  have "\<exists>cmd buf. parsecmd 92 (show_cmd demo_cmd 0) = Some (Inr (cmd, buf)) \<and> command_of 22 buf cmd = demo_cmd"
    using shell_roundtrip [OF wf] unfolding l by simp
  then show ?thesis using wf s by blast
qed

end
