(* ===== verification/Ushrun.thy ===== *)
theory Ushrun
  imports Ush
begin

section \<open>How the shell runs a command (user/sh.rs)\<close>

text \<open>
  A process is the tree of its system calls: each call carries what the process does with the answer.  \<open>fork\<close> answers twice,
  with 0 in the child.  \<open>exec\<close> answers only when it fails.  The words of a command are strings here (\<open>command_of\<close>).
\<close>

datatype sysop =
    Exec bytes "bytes list" | Open bytes int | Close int | Dup int | Fork | Wait | Chdir bytes | Fprintf int string "bytes list"

datatype process = Exit int | Call sysop "int \<Rightarrow> process" | Call_pipe "int \<Rightarrow> int \<Rightarrow> int \<Rightarrow> process"

definition panic_msg :: "string \<Rightarrow> process" where
  "panic_msg s = Call (Fprintf 2 (''%s'' @ [CHR 0x0A]) [map of_char s]) (\<lambda>_. Exit 1)"

definition fork1 :: "(int \<Rightarrow> process) \<Rightarrow> process" where
  "fork1 k = Call Fork (\<lambda>pid. if pid = -1 then panic_msg ''fork'' else k pid)"

primrec runcmd :: "bytes cmd \<Rightarrow> process" where
  "runcmd (EXEC argv) =
     (if argv = [] then Exit 1
      else Call (Exec (hd argv) argv) (\<lambda>_. Call (Fprintf 2 (''exec %s failed'' @ [CHR 0x0A]) [hd argv]) (\<lambda>_. Exit 0)))"
| "runcmd (REDIR cmd file mode fd) =
     Call (Close fd) (\<lambda>_.
     Call (Open file mode) (\<lambda>r.
       if r < 0 then Call (Fprintf 2 (''open %s failed'' @ [CHR 0x0A]) [file]) (\<lambda>_. Exit 1)
       else runcmd cmd))"
| "runcmd (LIST left right) =
     fork1 (\<lambda>pid. if pid = 0 then runcmd left else Call Wait (\<lambda>_. runcmd right))"
| "runcmd (PIPE left right) =
     Call_pipe (\<lambda>r p0 p1.
       if r < 0 then panic_msg ''pipe''
       else
         fork1 (\<lambda>pid.
           if pid = 0 then
             Call (Close 1) (\<lambda>_. Call (Dup p1) (\<lambda>_. Call (Close p0) (\<lambda>_. Call (Close p1) (\<lambda>_. runcmd left))))
           else
             fork1 (\<lambda>pid.
               if pid = 0 then
                 Call (Close 0) (\<lambda>_. Call (Dup p0) (\<lambda>_. Call (Close p0) (\<lambda>_. Call (Close p1) (\<lambda>_. runcmd right))))
               else
                 Call (Close p0) (\<lambda>_. Call (Close p1) (\<lambda>_. Call Wait (\<lambda>_. Call Wait (\<lambda>_. Exit 0)))))))"
| "runcmd (BACK cmd) = fork1 (\<lambda>pid. if pid = 0 then runcmd cmd else Exit 0)"

text \<open>
  One round of the loop of \<open>main\<close>, for the line that \<open>getcmd\<close> stored, up to its NUL; \<open>k\<close> is the next round.  The fuel of
  the parser is the amount that always suffices.
\<close>

definition run_line :: "bytes \<Rightarrow> process \<Rightarrow> process" where
  "run_line buf k =
     (let cmd = dropWhile (\<lambda>c. c = 32 \<or> c = 9) buf in
      if cmd \<noteq> [] \<and> hd cmd = 10 then k
      else if take 3 cmd = [99, 100, 32] then
        let dir = drop 3 (butlast cmd) in
        Call (Chdir dir) (\<lambda>r. if r < 0 then Call (Fprintf 2 (''cannot cd %s'' @ [CHR 0x0A]) [dir]) (\<lambda>_. k) else k)
      else
        fork1 (\<lambda>pid.
          if pid = 0 then
            (case parsecmd (4 * length cmd + 4) cmd of
               Some (Inr (tree, buf)) \<Rightarrow> runcmd (command_of (length cmd) buf tree)
             | Some (Inl msg) \<Rightarrow> panic_msg msg
             | None \<Rightarrow> Exit 1)
          else Call Wait (\<lambda>_. k)))"

subsection \<open>Descriptors\<close>

text \<open>
  The descriptor table of a process: sixteen entries, a new descriptor takes the lowest free one.  \<open>opened\<close> is the file that
  a successful \<open>open\<close> returns.
\<close>

type_synonym 'f fds = "nat \<Rightarrow> 'f option"

definition lowest :: "'f fds \<Rightarrow> nat option" where
  "lowest fds = find (\<lambda>i. fds i = None) [0..<16]"

definition fd_open :: "'f fds \<Rightarrow> int \<Rightarrow> bool" where
  "fd_open fds n \<longleftrightarrow> 0 \<le> n \<and> n < 16 \<and> fds (nat n) \<noteq> None"

definition fd_close :: "int \<Rightarrow> 'f fds \<Rightarrow> int \<times> 'f fds" where
  "fd_close n fds = (if fd_open fds n then (0, fds(nat n := None)) else (-1, fds))"

definition fd_install :: "'f \<Rightarrow> 'f fds \<Rightarrow> int \<times> 'f fds" where
  "fd_install f fds = (case lowest fds of None \<Rightarrow> (-1, fds) | Some i \<Rightarrow> (int i, fds(i \<mapsto> f)))"

definition fd_dup :: "int \<Rightarrow> 'f fds \<Rightarrow> int \<times> 'f fds" where
  "fd_dup n fds = (if fd_open fds n then fd_install (the (fds (nat n))) fds else (-1, fds))"

text \<open>
  \<open>execution rd wr opened p fds\<close> runs a process up to its end, with forks that succeed: the children it starts, each with
  the descriptors it inherits, the programs it turns into, the number of times it waits, and its last descriptors.
\<close>

record 'f outcome =
  children :: "(process \<times> 'f fds) list"
  became :: "(bytes \<times> bytes list) option"
  waits :: nat
  left_fds :: "'f fds"

primrec execution :: "'f \<Rightarrow> 'f \<Rightarrow> (bytes \<Rightarrow> int \<Rightarrow> 'f option) \<Rightarrow> process \<Rightarrow> 'f fds \<Rightarrow> 'f outcome" where
  "execution rd wr opened (Exit n) fds = \<lparr>children = [], became = None, waits = 0, left_fds = fds\<rparr>"
| "execution rd wr opened (Call_pipe k) fds =
     (let (r0, fds0) = fd_install rd fds; (r1, fds1) = fd_install wr fds0 in
      if r0 < 0 \<or> r1 < 0 then execution rd wr opened (k (-1) 0 0) fds
      else execution rd wr opened (k 0 r0 r1) fds1)"
| "execution rd wr opened (Call op k) fds =
     (case op of
        Exec path argv \<Rightarrow> \<lparr>children = [], became = Some (path, argv), waits = 0, left_fds = fds\<rparr>
      | Open path mode \<Rightarrow>
          (case opened path mode of
             None \<Rightarrow> execution rd wr opened (k (-1)) fds
           | Some f \<Rightarrow> let (r, fds) = fd_install f fds in execution rd wr opened (k r) fds)
      | Close n \<Rightarrow> let (r, fds) = fd_close n fds in execution rd wr opened (k r) fds
      | Dup n \<Rightarrow> let (r, fds) = fd_dup n fds in execution rd wr opened (k r) fds
      | Fork \<Rightarrow> let x = execution rd wr opened (k 1) fds in x\<lparr>children := (k 0, fds) # children x\<rparr>
      | Wait \<Rightarrow> let x = execution rd wr opened (k 1) fds in x\<lparr>waits := Suc (waits x)\<rparr>
      | Chdir dir \<Rightarrow> execution rd wr opened (k 0) fds
      | Fprintf fd fmt args \<Rightarrow> execution rd wr opened (k 0) fds)"


lemma lowest_SomeI: "i < 16 \<Longrightarrow> fds i = None \<Longrightarrow> (\<And>j. j < i \<Longrightarrow> fds j \<noteq> None) \<Longrightarrow> lowest fds = Some i"
  unfolding lowest_def find_Some_iff by (intro exI [of _ i]) auto

lemma lowest_SomeD: "lowest fds = Some i \<Longrightarrow> i < 16 \<and> fds i = None \<and> (\<forall>j < i. fds j \<noteq> None)"
  unfolding lowest_def find_Some_iff by auto

lemma fd_close_open: "fds i \<noteq> None \<Longrightarrow> i < 16 \<Longrightarrow> fd_close (int i) fds = (0, fds(i := None))"
  by (simp add: fd_close_def fd_open_def)

text \<open>To close a descriptor below which none is free and to take the lowest free one is to replace it.\<close>

lemma install_at: "i < 16 \<Longrightarrow> (\<And>j. j < i \<Longrightarrow> fds j \<noteq> None) \<Longrightarrow> fd_install f (fds(i := None)) = (int i, fds(i \<mapsto> f))"
  using lowest_SomeI [of i "fds(i := None)"] by (simp add: fd_install_def)

lemma dup_onto:
  assumes "i < 16" "\<And>j. j < i \<Longrightarrow> fds j \<noteq> None" "fds n = Some f" "n \<noteq> i" "n < 16"
  shows "fd_dup (int n) (fds(i := None)) = (int i, fds(i \<mapsto> f))"
  using install_at [of i fds f] assms by (simp add: fd_dup_def fd_open_def)

text \<open>
  C31: the descriptors of the programs that a command starts are wired as the shell language says, when the descriptors 0 and 1
  are open.  A redirection runs its command with the file in place of descriptor 0 or 1 and all others as they were, and
  fails with status 1 when the file does not open.  A pipeline starts two children, the left one with descriptor 1 and the
  right one with descriptor 0 replaced by the ends of the pipe; neither the children nor the shell keep any other
  descriptor of the pipe, so that the reader sees the end of the file, and the shell waits for both.
\<close>

theorem shell_wires_descriptors:
  assumes "fds 0 \<noteq> None" "fds 1 \<noteq> None" "lowest fds = Some i" "lowest (fds(i \<mapsto> rd)) = Some j" "fd \<in> {0, 1}"
  shows "execution rd wr opened (runcmd (REDIR c file mode (int fd))) fds =
      (case opened file mode of
         Some f \<Rightarrow> execution rd wr opened (runcmd c) (fds(fd \<mapsto> f))
       | None \<Rightarrow> \<lparr>children = [], became = None, waits = 0, left_fds = fds(fd := None)\<rparr>) \<and>
    (\<exists>lc rc g. execution rd wr opened (runcmd (PIPE l r)) fds =
        \<lparr>children = [(lc, g), (rc, g)], became = None, waits = 2, left_fds = fds\<rparr> \<and>
      execution rd wr opened lc g = execution rd wr opened (runcmd l) (fds(1 \<mapsto> wr)) \<and>
      execution rd wr opened rc g = execution rd wr opened (runcmd r) (fds(0 \<mapsto> rd)))"
proof (rule conjI, goal_cases)
  case 1
  have fd: "fds fd \<noteq> None" "\<And>j. j < fd \<Longrightarrow> fds j \<noteq> None" "fd < 16" using assms by auto
  have "fd_close (int fd) fds = (0, fds(fd := None))" using fd by (intro fd_close_open) auto
  moreover have "fd_install f (fds(fd := None)) = (int fd, fds(fd \<mapsto> f))" for f using fd by (intro install_at) auto
  ultimately show ?case by (simp split: option.split)
next
  case 2
  let ?g = "fds(i \<mapsto> rd, j \<mapsto> wr)"
  have i: "i < 16" "fds i = None" and j: "j < 16" "fds j = None" "i \<noteq> j"
    using lowest_SomeD [OF assms(3)] lowest_SomeD [OF assms(4)] by (auto split: if_splits)
  have n: "i \<noteq> 0" "i \<noteq> 1" "j \<noteq> 0" "j \<noteq> 1" using assms(1,2) i(2) j(2) by metis+
  have drop: "fd_close (int i) h = (0, h(i := None)) \<and> fd_close (int j) (h(i := None)) = (0, h(i := None, j := None))"
    if "h i \<noteq> None" "h j \<noteq> None" for h :: "'a fds"
    using that i(1) j(1,3) fd_close_open [of h i] fd_close_open [of "h(i := None)" j] by auto
  have undo: "h(i := None, j := None) = h" if "h i = None" "h j = None" for h :: "'a fds"
    using that by (simp add: fun_upd_idem)
  have pipe: "fd_install rd fds = (int i, fds(i \<mapsto> rd))" "fd_install wr (fds(i \<mapsto> rd)) = (int j, ?g)"
    using assms(3,4) by (simp_all add: fd_install_def)
  have left: "fd_close 1 ?g = (0, ?g(1 := None))" "fd_dup (int j) (?g(1 := None)) = (1, ?g(1 \<mapsto> wr))"
    using fd_close_open [of ?g 1] dup_onto [of 1 ?g j wr] assms(1,2) j(1) n by simp_all
  have right: "fd_close 0 ?g = (0, ?g(0 := None))" "fd_dup (int i) (?g(0 := None)) = (0, ?g(0 \<mapsto> rd))"
    using fd_close_open [of ?g 0] dup_onto [of 0 ?g i rd] assms(1) i(1) j(3) n by simp_all
  show ?case
    using i j n pipe left right drop [of ?g] drop [of "?g(1 \<mapsto> wr)"] drop [of "?g(0 \<mapsto> rd)"]
    by (simp add: fork1_def Let_def undo)
qed

text \<open>\<open>a < f\<close> and \<open>a | b\<close> with the descriptors 0, 1 and 2 open; a file is a number.\<close>

theorem shell_wires_descriptors_witness:
  "let fds = (\<lambda>i. if i < 3 then Some 7 else None) :: nat fds; run = execution 8 9 (\<lambda>_ _. Some 5) in
   became (run (runcmd (REDIR (EXEC [[97]]) [102] 0 0)) fds) = Some ([97], [[97]]) \<and>
   left_fds (run (runcmd (REDIR (EXEC [[97]]) [102] 0 0)) fds) = fds(0 \<mapsto> 5) \<and>
   map (\<lambda>(p, g). became (run p g)) (children (run (runcmd (PIPE (EXEC [[97]]) (EXEC [[98]]))) fds)) =
     [Some ([97], [[97]]), Some ([98], [[98]])] \<and>
   map (\<lambda>(p, g). left_fds (run p g)) (children (run (runcmd (PIPE (EXEC [[97]]) (EXEC [[98]]))) fds)) = [fds(1 \<mapsto> 9), fds(0 \<mapsto> 8)]"
proof -
  let ?fds = "(\<lambda>i. if i < 3 then Some 7 else None) :: nat fds"
  have "lowest ?fds = Some 3" "lowest (?fds(3 \<mapsto> 8)) = Some 4" by (rule lowest_SomeI; simp)+
  note wired = shell_wires_descriptors [OF _ _ this, of 0 9 "\<lambda>_ _. Some 5" "EXEC [[97]]" "[102]" 0 "EXEC [[97]]" "EXEC [[98]]"]
  show ?thesis using wired by (auto simp: Let_def simp del: runcmd.simps(2,3,4))
qed

end
