(* ===== verification/Uprintf.thy ===== *)
theory Uprintf
  imports Printf
begin

section \<open>Formatted output of user programs (user/printf.rs)\<close>

text \<open>
  A format or a string is the list of its bytes before the NUL.  The format is walked as in the kernel, with the same
  conversions (\<open>directive_at\<close>), but the hexadecimal digits are upper case, the seven arguments are read through an unchecked
  index, so that an eighth one is undefined, and the characters go through a buffer of 256 bytes.  The text is computed first
  (\<open>vprintf_chars\<close>) and put into the buffer in order.  The trace of the process is the list of its \<open>write\<close> calls.
\<close>

definition UDIGITS :: "u8 list" where
  "UDIGITS = [48, 49, 50, 51, 52, 53, 54, 55, 56, 57, 65, 66, 67, 68, 69, 70]"

subsection \<open>The buffer\<close>

record print_buf =
  pbuf :: "u8 list"
  plen :: nat
  pfd :: int
  writes :: "(int \<times> u8 list) list"

definition flush_locked :: "print_buf \<Rightarrow> print_buf" where
  "flush_locked s = (if plen s > 0 then s\<lparr>plen := 0, writes := writes s @ [(pfd s, take (plen s) (pbuf s))]\<rparr> else s)"

definition putc :: "int \<Rightarrow> u8 \<Rightarrow> print_buf \<Rightarrow> print_buf" where
  "putc fd c s =
     (let s = (if pfd s \<noteq> fd then (flush_locked s)\<lparr>pfd := fd\<rparr> else s);
          i = plen s;
          s = s\<lparr>pbuf := (pbuf s)[i := c], plen := i + 1\<rparr> in
      if plen s = 256 then flush_locked s else s)"

subsection \<open>The conversions\<close>

definition uprintint :: "u64 \<Rightarrow> u64 \<Rightarrow> bool \<Rightarrow> u8 list kres" where
  "uprintint xx base sign =
     (let neg = (sign \<and> sint xx < 0);
          x = (if neg then - xx else xx);
          ds = digit_loop base x;
          buf = ds @ (if neg then [16] else []) in
      if length buf > 20 \<or> (\<exists>d \<in> set ds. d \<ge> 16) then Inl Undefined
      else Inr (rev (map (\<lambda>d. if d < 16 then UDIGITS ! d else 45) buf)))"

definition uprintptr :: "u64 \<Rightarrow> u8 list" where
  "uprintptr x = [48, 120] @ map (\<lambda>i. UDIGITS ! unat (drop_bit 60 (push_bit (4 * i) x))) [0..<16]"

definition args_next :: "u64 list \<Rightarrow> (u64 \<times> u64 list) kres" where
  "args_next args = (case args of [] \<Rightarrow> Inl Undefined | a # as \<Rightarrow> Inr (a, as))"

definition uprint_str :: "(u64 \<Rightarrow> u8 list) \<Rightarrow> u64 \<Rightarrow> u8 list" where
  "uprint_str cstr a = (if a = 0 then [40, 110, 117, 108, 108, 41] else cstr a)"

definition with_arg :: "(u64 \<Rightarrow> u8 list kres) \<Rightarrow> u64 list \<Rightarrow> (u8 list \<times> u64 list) kres" where
  "with_arg f args = and_then (args_next args) (\<lambda>(a, rest). and_then (f a) (\<lambda>cs. Inr (cs, rest)))"

definition urender :: "(u64 \<Rightarrow> u8 list) \<Rightarrow> directive \<Rightarrow> u64 list \<Rightarrow> (u8 list \<times> u64 list) kres" where
  "urender cstr d args =
     (case d of
        Int64 base sign \<Rightarrow> with_arg (\<lambda>a. uprintint a (of_int base) sign) args
      | Int32 sign \<Rightarrow> with_arg (\<lambda>a. uprintint (scast (ucast a :: u32)) 10 sign) args
      | UInt32 base \<Rightarrow> with_arg (\<lambda>a. uprintint (ucast (ucast a :: u32)) (of_int base) False) args
      | Ptr \<Rightarrow> with_arg (\<lambda>a. Inr (uprintptr a)) args
      | Chr \<Rightarrow> with_arg (\<lambda>a. Inr [ucast a]) args
      | Str \<Rightarrow> with_arg (\<lambda>a. Inr (uprint_str cstr a)) args
      | Percent \<Rightarrow> Inr ([37], args)
      | Stop \<Rightarrow> Inr ([], args)
      | Other c \<Rightarrow> Inr ([37, c], args))"

text \<open>A percent sign at the end of the format leaves the loop with nothing printed.\<close>

function vprintf_chars :: "(u64 \<Rightarrow> u8 list) \<Rightarrow> u8 list \<Rightarrow> u64 list \<Rightarrow> u8 list kres" where
  "vprintf_chars cstr fmt args =
     (case fmt of
        [] \<Rightarrow> Inr []
      | c0 # fmt \<Rightarrow>
          if c0 \<noteq> 37 then and_then (vprintf_chars cstr fmt args) (\<lambda>out. Inr (c0 # out))
          else and_then (urender cstr (fst (directive_at fmt)) args) (\<lambda>(cs, args).
            and_then (vprintf_chars cstr (drop (snd (directive_at fmt)) fmt) args) (\<lambda>out. Inr (cs @ out))))"
  by pat_completeness auto
termination
  by (relation "measure (\<lambda>(cstr, fmt, args). length fmt)") auto

declare vprintf_chars.simps [simp del]

definition vprintf_impl :: "(u64 \<Rightarrow> u8 list) \<Rightarrow> int \<Rightarrow> u8 list \<Rightarrow> u64 list \<Rightarrow> print_buf \<Rightarrow> print_buf kres" where
  "vprintf_impl cstr fd fmt args s =
     and_then (vprintf_chars cstr fmt args) (\<lambda>out. Inr (flush_locked (fold (putc fd) out s)))"

definition fprintf :: "(u64 \<Rightarrow> u8 list) \<Rightarrow> int \<Rightarrow> u8 list \<Rightarrow> u64 list \<Rightarrow> print_buf \<Rightarrow> print_buf kres" where
  "fprintf cstr fd fmt args s = vprintf_impl cstr fd fmt (take 7 args) s"

definition uprintf :: "(u64 \<Rightarrow> u8 list) \<Rightarrow> u8 list \<Rightarrow> u64 list \<Rightarrow> print_buf \<Rightarrow> print_buf kres" where
  "uprintf cstr fmt args s = vprintf_impl cstr 1 fmt (take 7 args) s"

subsection \<open>Buffering\<close>

text \<open>A out in pieces of 256 bytes, the last one shorter or as long.\<close>

function chunks :: "u8 list \<Rightarrow> u8 list list" where
  "chunks x = (if x = [] then [] else take 256 x # chunks (drop 256 x))"
  by pat_completeness auto
termination by (relation "measure length") auto

declare chunks.simps [simp del]

lemma chunks_full: "\<forall>p \<in> set full. length p = 256 \<Longrightarrow> length rest < 256 \<Longrightarrow>
  chunks (concat full @ rest) = full @ (if rest = [] then [] else [rest])"
proof (induction full)
  case Nil
  then show ?case by (simp add: chunks.simps [of rest] chunks.simps [of "[]"])
next
  case (Cons p full)
  then have "p \<noteq> []" by auto
  then show ?case using Cons by (simp add: chunks.simps [of "p @ concat full @ rest"])
qed

lemma chunks_pieces: "concat (chunks x) = x \<and> (\<forall>p \<in> set (chunks x). p \<noteq> [] \<and> length p \<le> 256)"
proof (induction x rule: chunks.induct)
  case (1 x)
  then show ?case by (cases "x = []") (auto simp: chunks.simps [of x] chunks.simps [of "[]"])
qed

text \<open>The buffer is well-formed, and what it holds.\<close>

definition buf_ok :: "print_buf \<Rightarrow> bool" where
  "buf_ok s \<longleftrightarrow> length (pbuf s) = 256 \<and> plen s < 256"

definition pending :: "print_buf \<Rightarrow> u8 list" where
  "pending s = take (plen s) (pbuf s)"

lemma putc_eq:
  assumes "buf_ok s" "pfd s = fd"
  shows "buf_ok (putc fd c s) \<and> pfd (putc fd c s) = fd \<and>
    (if plen s = 255 then pending (putc fd c s) = [] \<and> writes (putc fd c s) = writes s @ [(fd, pending s @ [c])]
     else pending (putc fd c s) = pending s @ [c] \<and> writes (putc fd c s) = writes s)"
proof -
  have "take (Suc (plen s)) ((pbuf s)[plen s := c]) = pending s @ [c]"
    using assms(1) by (simp add: buf_ok_def pending_def take_Suc_conv_app_nth)
  then show ?thesis using assms by (auto simp: putc_def flush_locked_def buf_ok_def pending_def Let_def)
qed

lemma fold_putc:
  assumes "buf_ok s" "pfd s = fd"
  shows "\<exists>full. buf_ok (fold (putc fd) out s) \<and> pfd (fold (putc fd) out s) = fd \<and>
    writes (fold (putc fd) out s) = writes s @ map (Pair fd) full \<and> (\<forall>p \<in> set full. length p = 256) \<and>
    concat full @ pending (fold (putc fd) out s) = pending s @ out"
  using assms
proof (induction out arbitrary: s)
  case (Cons c out)
  let ?s = "putc fd c s"
  note step = putc_eq [OF Cons.prems, of c]
  obtain full where full: "buf_ok (fold (putc fd) out ?s)" "pfd (fold (putc fd) out ?s) = fd"
    "writes (fold (putc fd) out ?s) = writes ?s @ map (Pair fd) full" "\<forall>p \<in> set full. length p = 256"
    "concat full @ pending (fold (putc fd) out ?s) = pending ?s @ out" using Cons.IH [of ?s] step by blast
  show ?case
  proof (cases "plen s = 255")
    case True
    then have "length (pending s @ [c]) = 256" using Cons.prems(1) by (simp add: pending_def buf_ok_def)
    then show ?thesis using full step True by (intro exI [of _ "(pending s @ [c]) # full"]) simp
  next
    case False
    then show ?thesis using full step by (intro exI [of _ full]) simp
  qed
qed (intro exI [of _ "[]"], simp)

lemma flush_writes:
  "writes (flush_locked s) = writes s @ (if plen s = 0 then [] else [(pfd s, pending s)]) \<and> plen (flush_locked s) = 0 \<and>
   length (pbuf (flush_locked s)) = length (pbuf s) \<and> pfd (flush_locked s) = pfd s"
  by (simp add: flush_locked_def pending_def)

lemma empty_putc: "plen s = 0 \<Longrightarrow> putc fd c s = putc fd c (s\<lparr>pfd := fd\<rparr>)"
  by (simp add: putc_def flush_locked_def)

lemma print_text:
  assumes "length (pbuf s) = 256" "plen s = 0"
  shows "\<exists>t. flush_locked (fold (putc fd) out s) = t \<and> writes t = writes s @ map (Pair fd) (chunks out) \<and>
    length (pbuf t) = 256 \<and> plen t = 0"
proof (cases out)
  case Nil
  then show ?thesis using assms by (simp add: flush_locked_def chunks.simps [of "[]"])
next
  case (Cons c out')
  let ?s = "s\<lparr>pfd := fd\<rparr>"
  let ?t = "fold (putc fd) out ?s"
  have "buf_ok ?s" "pfd ?s = fd" "pending ?s = []" using assms by (auto simp: buf_ok_def pending_def)
  then obtain full where full: "buf_ok ?t" "pfd ?t = fd" "writes ?t = writes s @ map (Pair fd) full"
    "\<forall>p \<in> set full. length p = 256" "concat full @ pending ?t = out" using fold_putc [of ?s fd out] by auto
  have "length (pending ?t) < 256" using full(1) by (simp add: buf_ok_def pending_def)
  then have "chunks out = full @ (if pending ?t = [] then [] else [pending ?t])"
    using chunks_full [OF full(4), of "pending ?t"] unfolding full(5) by blast
  moreover have "pending ?t = [] \<longleftrightarrow> plen ?t = 0" using full(1) by (auto simp: buf_ok_def pending_def)
  moreover have "fold (putc fd) out s = ?t" using Cons empty_putc [OF assms(2), of fd c] by simp
  ultimately show ?thesis using flush_writes [of ?t] full(1,2,3) by (simp add: buf_ok_def)
qed

subsection \<open>The out is defined\<close>

text \<open>How many arguments a format takes.\<close>

definition takes_arg :: "directive \<Rightarrow> bool" where
  "takes_arg d = (case d of Percent \<Rightarrow> False | Stop \<Rightarrow> False | Other _ \<Rightarrow> False | _ \<Rightarrow> True)"

function args_needed :: "u8 list \<Rightarrow> nat" where
  "args_needed fmt =
     (case fmt of
        [] \<Rightarrow> 0
      | c # fmt \<Rightarrow>
          if c \<noteq> 37 then args_needed fmt
          else (if takes_arg (fst (directive_at fmt)) then 1 else 0) +
            args_needed (drop (snd (directive_at fmt)) fmt))"
  by pat_completeness auto
termination by (relation "measure length") auto

declare args_needed.simps [simp del]

lemma uprintint_defined:
  assumes "base = 10 \<or> base = 16 \<and> \<not> sign"
  shows "\<exists>cs. uprintint xx (of_int base) sign = Inr cs"
proof -
  define neg where "neg = (sign \<and> sint xx < 0)"
  define x where "x = (if neg then - xx else xx)"
  define ds where "ds = digit_loop (of_int base) x"
  have b: "1 < (of_int base :: u64)" "(10 :: u64) \<le> of_int base" using assms by auto
  have "\<forall>d \<in> set ds. d < 16" using digit_loop_facts [OF b(1), of x] assms by (auto simp: ds_def)
  moreover have "length (ds @ (if neg then [16] else [])) \<le> 20"
    using digit_loop_length [OF b(2), of x] digit_loop_length_neg [of x] unat_neg [of xx] assms
    by (auto simp: ds_def x_def neg_def)
  ultimately show ?thesis
    by (auto simp: uprintint_def neg_def [symmetric] x_def [symmetric] ds_def [symmetric] Let_def)
qed

lemma directive_known:
  "fst (directive_at fmt) \<in> {Int32 True, Int64 10 True, Int64 10 False, Int64 16 False, UInt32 10, UInt32 16, Ptr, Chr, Str, Percent, Stop} \<union> range Other"
  by (simp add: directive_at_def Let_def)

lemma urender_defined:
  assumes "takes_arg (fst (directive_at fmt)) \<longrightarrow> args \<noteq> []"
  shows "\<exists>cs. urender cstr (fst (directive_at fmt)) args =
    Inr (cs, if takes_arg (fst (directive_at fmt)) then tl args else args)"
proof (cases args)
  case Nil
  then show ?thesis using assms directive_known [of fmt] by (auto simp: takes_arg_def urender_def)
next
  case (Cons a rest)
  have "\<exists>cs. uprintint x 10 sign = Inr cs" "\<exists>cs. uprintint x 16 False = Inr cs" for x sign
    using uprintint_defined [of 10 sign x] uprintint_defined [of 16 False x] by simp_all
  then have "\<exists>cs. f a = Inr cs \<Longrightarrow> \<exists>cs. with_arg f args = Inr (cs, rest)" for f
    using Cons by (auto simp: with_arg_def args_next_def)
  then show ?thesis
    using directive_known [of fmt] Cons \<open>\<And>x sign. \<exists>cs. uprintint x 10 sign = Inr cs\<close> \<open>\<And>x. \<exists>cs. uprintint x 16 False = Inr cs\<close>
    by (auto simp: takes_arg_def urender_def)
qed

lemma vprintf_chars_defined: "args_needed fmt \<le> length args \<Longrightarrow> \<exists>out. vprintf_chars cstr fmt args = Inr out"
proof (induction fmt arbitrary: args rule: args_needed.induct)
  case (1 fmt)
  show ?case
  proof (cases fmt)
    case (Cons c fmt')
    let ?d = "fst (directive_at fmt')" and ?rest = "drop (snd (directive_at fmt')) fmt'"
    show ?thesis
    proof (cases "c = 37")
      case True
      have need: "args_needed fmt = (if takes_arg ?d then 1 else 0) + args_needed ?rest"
        unfolding Cons True by (simp add: args_needed.simps [of "37 # fmt'"])
      then obtain cs where cs: "urender cstr ?d args = Inr (cs, if takes_arg ?d then tl args else args)"
        using urender_defined [of fmt' args cstr] "1.prems" by fastforce
      have "\<exists>out. vprintf_chars cstr ?rest (if takes_arg ?d then tl args else args) = Inr out"
        using Cons True need "1.prems" by (intro "1.IH"(2)) auto
      then show ?thesis using cs unfolding Cons True by (auto simp: vprintf_chars.simps [of cstr "37 # fmt'"])
    next
      case False
      then have "args_needed fmt' \<le> length args" using "1.prems" unfolding Cons by (simp add: args_needed.simps [of "c # fmt'"])
      then have "\<exists>out. vprintf_chars cstr fmt' args = Inr out" using "1.IH"(1) Cons False by blast
      then show ?thesis using False unfolding Cons by (auto simp: vprintf_chars.simps [of cstr "c # fmt'"])
    qed
  qed (simp add: vprintf_chars.simps [of cstr "[]"])
qed

text \<open>
  C38: \<open>fprintf\<close> with a format that takes at most seven arguments returns, and its \<open>write\<close> calls are exactly the rendered out
  cut into pieces of 256 bytes, in order, all on its descriptor, the last piece possibly shorter; the buffer is empty again,
  so that nothing is left behind when the process exits or uses another descriptor.
\<close>

theorem fprintf_writes:
  assumes "length (pbuf s) = 256" "plen s = 0" "args_needed fmt \<le> 7" "length args = 7"
  shows "\<exists>out t. vprintf_chars cstr fmt args = Inr out \<and> fprintf cstr fd fmt args s = Inr t \<and>
    writes t = writes s @ map (Pair fd) (chunks out) \<and> concat (chunks out) = out \<and>
    (\<forall>p \<in> set (chunks out). p \<noteq> [] \<and> length p \<le> 256) \<and> length (pbuf t) = 256 \<and> plen t = 0"
proof -
  obtain out where "vprintf_chars cstr fmt args = Inr out" using vprintf_chars_defined [of fmt args cstr] assms(3,4) by auto
  then show ?thesis using print_text [OF assms(1,2), of fd out] chunks_pieces [of out] assms(4)
    by (auto simp: fprintf_def vprintf_impl_def)
qed

text \<open>\<open>fprintf(2, "%d\n", 42)\<close>.\<close>

theorem fprintf_writes_witness:
  "\<exists>out t. vprintf_chars (\<lambda>_. []) [37, 100, 10] (42 # replicate 6 0) = Inr out \<and>
    fprintf (\<lambda>_. []) 2 [37, 100, 10] (42 # replicate 6 0) \<lparr>pbuf = replicate 256 0, plen = 0, pfd = -1, writes = []\<rparr> = Inr t \<and>
    writes t = map (Pair 2) (chunks out) \<and> concat (chunks out) = out \<and> plen t = 0"
proof -
  have "args_needed [37, 100, 10] \<le> 7"
    by (simp add: args_needed.simps takes_arg_def directive_at_def byte_at_def Let_def)
  then show ?thesis
    using fprintf_writes [of "\<lparr>pbuf = replicate 256 0, plen = 0, pfd = -1, writes = []\<rparr>" "[37, 100, 10]" "42 # replicate 6 0" "\<lambda>_. []" 2]
    by auto
qed

end
