(* ===== verification/Umalloc.thy ===== *)
theory Umalloc
  imports Prelude
begin

section \<open>The user heap (user/umalloc.rs)\<close>

text \<open>
  An address is a natural number, 0 is the null pointer; a header is 16 bytes, so \<open>p.add(n)\<close> on a header pointer is
  \<open>p + 16 * n\<close>.  The two fields of the headers are functions of the address.  \<open>base\<close> is the address of the static \<open>BASE\<close>.
  Sizes count headers and are 32 bits wide; \<open>nbytes + 15\<close> and the sums of sizes wrap.

  \<open>sbrk\<close> is the system call: for a signed count and the environment, the old end of the memory, or \<open>SBRK_ERROR\<close>, and the
  environment afterwards.  A loop that does not stop is \<open>None\<close>.
\<close>

record heap =
  hptr :: "nat \<Rightarrow> nat"
  hsize :: "nat \<Rightarrow> u32"
  freep :: nat
  base :: nat

abbreviation HEADER :: nat where "HEADER \<equiv> 16"
abbreviation SBRK_ERROR :: nat where "SBRK_ERROR \<equiv> 0xffffffffffffffff"

definition header_add :: "nat \<Rightarrow> u32 \<Rightarrow> nat" where
  "header_add p n = p + HEADER * unat n"

definition set_ptr :: "nat \<Rightarrow> nat \<Rightarrow> heap \<Rightarrow> heap" where
  "set_ptr p q s = s\<lparr>hptr := (hptr s)(p := q)\<rparr>"

definition set_size :: "nat \<Rightarrow> u32 \<Rightarrow> heap \<Rightarrow> heap" where
  "set_size p n s = s\<lparr>hsize := (hsize s)(p := n)\<rparr>"

text \<open>The loop of \<open>free\<close>: the free block after which the block at \<open>bp\<close> belongs.\<close>

partial_function (option) free_pos :: "(nat \<Rightarrow> nat) \<Rightarrow> nat \<Rightarrow> nat \<Rightarrow> nat option" where
  "free_pos nxt bp p =
     (if p < bp \<and> bp < nxt p then Some p
      else if nxt p \<le> p \<and> (p < bp \<or> bp < nxt p) then Some p
      else free_pos nxt bp (nxt p))"

definition free_at :: "nat \<Rightarrow> nat \<Rightarrow> heap \<Rightarrow> heap" where
  "free_at bp p s =
     (let nx = hptr s p;
          s = (if header_add bp (hsize s bp) = nx
               then set_ptr bp (hptr s nx) (set_size bp (hsize s bp + hsize s nx) s)
               else set_ptr bp nx s);
          s = (if header_add p (hsize s p) = bp
               then set_ptr p (hptr s bp) (set_size p (hsize s p + hsize s bp) s)
               else set_ptr p bp s)
      in s\<lparr>freep := p\<rparr>)"

definition free :: "nat \<Rightarrow> heap \<Rightarrow> heap option" where
  "free ap s =
     (if ap = 0 then Some s
      else
        let bp = ap - HEADER in
        map_option (\<lambda>p. free_at bp p s) (free_pos (hptr s) bp (freep s)))"

definition morecore :: "(int \<Rightarrow> 'e \<Rightarrow> nat \<times> 'e) \<Rightarrow> u32 \<Rightarrow> heap \<times> 'e \<Rightarrow> (nat \<times> heap \<times> 'e) option" where
  "morecore sbrk nu = (\<lambda>(s, e).
     let nu = (if nu < 4096 then 4096 else nu);
         nbytes = min (unat nu * HEADER) (2 ^ 32 - 1);
         (p, e) = sbrk (sint (of_nat nbytes :: u32)) e in
     if p = SBRK_ERROR then Some (0, s, e)
     else map_option (\<lambda>s. (freep s, s, e)) (free (p + HEADER) (set_size p nu s)))"

text \<open>The block \<open>p\<close> behind \<open>prevp\<close> is large enough: take it whole, or its end.\<close>

definition take_block :: "nat \<Rightarrow> nat \<Rightarrow> u32 \<Rightarrow> heap \<Rightarrow> nat \<times> heap" where
  "take_block prevp p nunits s =
     (if hsize s p = nunits then (p + HEADER, (set_ptr prevp (hptr s p) s)\<lparr>freep := prevp\<rparr>)
      else
        let s = set_size p (hsize s p - nunits) s;
            q = header_add p (hsize s p);
            s = set_size q nunits s
        in (q + HEADER, s\<lparr>freep := prevp\<rparr>))"

partial_function (option) malloc_loop ::
    "(int \<Rightarrow> 'e \<Rightarrow> nat \<times> 'e) \<Rightarrow> u32 \<Rightarrow> nat \<Rightarrow> nat \<Rightarrow> heap \<times> 'e \<Rightarrow> (nat \<times> heap \<times> 'e) option" where
  "malloc_loop sbrk nunits prevp p se =
     (if hsize (fst se) p \<ge> nunits
      then (let (r, s) = take_block prevp p nunits (fst se) in Some (r, s, snd se))
      else if p = freep (fst se)
      then (case morecore sbrk nunits se of
              None \<Rightarrow> None
            | Some (p, se) \<Rightarrow>
                if p = 0 then Some (0, se) else malloc_loop sbrk nunits p (hptr (fst se) p) se)
      else malloc_loop sbrk nunits p (hptr (fst se) p) se)"

definition malloc :: "(int \<Rightarrow> 'e \<Rightarrow> nat \<times> 'e) \<Rightarrow> u32 \<Rightarrow> heap \<times> 'e \<Rightarrow> (nat \<times> heap \<times> 'e) option" where
  "malloc sbrk nbytes = (\<lambda>(s, e).
     let nunits = (nbytes + 15) div 16 + 1;
         s = (if freep s = 0
              then (set_size (base s) 0 (set_ptr (base s) (base s) s))\<lparr>freep := base s\<rparr> else s) in
     malloc_loop sbrk nunits (freep s) (hptr s (freep s)) (s, e))"

subsection \<open>The free list\<close>

text \<open>\<open>chain f p xs q\<close>: from \<open>p\<close> the links lead through \<open>xs\<close> to \<open>q\<close>.\<close>

fun chain :: "(nat \<Rightarrow> nat) \<Rightarrow> nat \<Rightarrow> nat list \<Rightarrow> nat \<Rightarrow> bool" where
  "chain f p [] q \<longleftrightarrow> f p = q"
| "chain f p (x # xs) q \<longleftrightarrow> f p = x \<and> chain f x xs q"

lemma chain_append: "chain f p (xs @ y # ys) q \<longleftrightarrow> chain f p xs y \<and> chain f y ys q"
  by (induction xs arbitrary: p) auto

lemma chain_cong: "\<forall>x \<in> set (p # xs). f x = g x \<Longrightarrow> chain f p xs q = chain g p xs q"
  by (induction xs arbitrary: p) auto

lemma chain_upd [simp]: "x \<notin> set (p # xs) \<Longrightarrow> chain (f(x := v)) p xs q = chain f p xs q"
  by (rule chain_cong) auto

lemma chain_hd: "chain f p xs q \<Longrightarrow> f p = hd (xs @ [q])"
  by (cases xs) auto

text \<open>A ring can be entered at each of its elements.\<close>

lemma chain_rotate: "b # bs = us @ p # vs \<Longrightarrow> chain f b bs b \<longleftrightarrow> chain f p (vs @ us) p"
  by (cases us) (auto simp: chain_append)

lemma chain_link: "chain f p ys p \<Longrightarrow> x \<notin> set (p # ys) \<Longrightarrow> distinct (p # ys) \<Longrightarrow> chain (f(x := f p, p := x)) p (x # ys) p"
  by (cases ys) auto

lemma chain_unlink: "chain f p (x # ys) p \<Longrightarrow> distinct (p # x # ys) \<Longrightarrow> chain (f(p := f x)) p ys p"
  by (cases ys) auto

abbreviation block :: "heap \<Rightarrow> nat \<Rightarrow> nat set" where
  "block s b \<equiv> {b..<header_add b (hsize s b)}"

definition area :: "heap \<Rightarrow> nat list \<Rightarrow> nat set" where
  "area s bs = (\<Union>b \<in> set bs. block s b)"

lemma area_simps [simp]: "area s [] = {}" "area s (b # bs) = block s b \<union> area s bs" "area s (bs @ cs) = area s bs \<union> area s cs"
  by (auto simp: area_def)

lemma area_cong: "\<forall>b \<in> set bs. hsize t b = hsize s b \<Longrightarrow> area t bs = area s bs"
  by (simp add: area_def)

text \<open>
  The shape of the heap: the free blocks \<open>bs\<close> form a ring with \<open>BASE\<close>, which is empty and below them all; they are in
  the order of their addresses and no two of them touch, except for the pairs in \<open>S\<close>.  The blocks end below the address
  2 to the 36, so that the sum of two sizes does not wrap.
\<close>

abbreviation block_end :: "heap \<Rightarrow> nat \<Rightarrow> nat" where
  "block_end s b \<equiv> header_add b (hsize s b)"

definition before :: "(nat \<times> nat) set \<Rightarrow> heap \<Rightarrow> nat \<Rightarrow> nat \<Rightarrow> bool" where
  "before S s x y \<longleftrightarrow> (if (x, y) \<in> S then block_end s x \<le> y else block_end s x < y)"

definition shape :: "(nat \<times> nat) set \<Rightarrow> heap \<Rightarrow> nat list \<Rightarrow> bool" where
  "shape S s bs \<longleftrightarrow> chain (hptr s) (base s) bs (base s) \<and> sorted_wrt (before S s) (base s # bs) \<and> 0 < base s \<and>
     hsize s (base s) = 0 \<and> (\<forall>b \<in> set bs. 0 < hsize s b \<and> block_end s b \<le> 2 ^ 36) \<and> freep s \<in> set (base s # bs)"

lemma before_less: "before S s x y \<Longrightarrow> 0 < hsize s x \<or> S = {} \<Longrightarrow> x < y"
  by (auto simp: before_def header_add_def word_less_nat_alt split: if_splits)

lemma before_cong: "hsize s x = hsize t x \<Longrightarrow> before S s x y = before S t x y"
  by (simp add: before_def)

lemma sorted_wrt_less:
  assumes "sorted_wrt (before {} s) xs"
  shows "sorted_wrt (<) xs"
  using assms by (rule sorted_wrt_mono_rel [rotated]) (auto dest: before_less)

lemma shape_distinct: "shape {} s bs \<Longrightarrow> distinct (base s # bs)"
  unfolding shape_def by (metis sorted_wrt_less strict_sorted_iff)

text \<open>Where the search of \<open>free\<close> stops.\<close>

lemma free_pos_up: "chain f q xs p \<Longrightarrow> sorted_wrt (<) (q # xs @ [p]) \<Longrightarrow> p < bp \<Longrightarrow> free_pos f bp q = free_pos f bp p"
proof (induction xs arbitrary: q)
  case Nil
  then show ?case by (subst free_pos.simps) auto
next
  case (Cons x xs)
  then have "free_pos f bp q = free_pos f bp x" by (subst free_pos.simps) auto
  then show ?case using Cons by auto
qed

lemma free_pos_down: "chain f q xs b \<Longrightarrow> sorted_wrt (<) (q # xs) \<Longrightarrow> bp < q \<Longrightarrow> b < bp \<Longrightarrow> free_pos f bp q = free_pos f bp b"
proof (induction xs arbitrary: q)
  case Nil
  then show ?case by (subst free_pos.simps) auto
next
  case (Cons x xs)
  then have "free_pos f bp q = free_pos f bp x" by (subst free_pos.simps) auto
  then show ?case using Cons by auto
qed

lemma free_pos_found:
  assumes ring: "chain f b bs b" and sorted: "sorted_wrt (<) (b # bs)" and split: "b # bs = us @ p # vs"
    and p: "p < bp" and vs: "\<forall>v \<in> set vs. bp < v" and q: "q \<in> set (b # bs)"
  shows "free_pos f bp q = Some p"
proof -
  have bp: "b < bp" using split p sorted by (cases us) auto
  have stop: "free_pos f bp p = Some p"
  proof (cases vs)
    case Nil
    then have "f p = b" using ring split by (cases us) (auto simp: chain_append)
    then show ?thesis using p sorted split by (subst free_pos.simps) (cases us; auto)
  next
    case (Cons v vs')
    then have "f p = v" using ring split by (cases us) (auto simp: chain_append)
    then show ?thesis using p vs Cons by (subst free_pos.simps) auto
  qed
  have up: "free_pos f bp q = Some p" if in_us: "q \<in> set (us @ [p])" for q
  proof (cases "q = p")
    case False
    then obtain ys zs where us: "us = ys @ q # zs" using in_us by (auto dest: split_list)
    have "chain f q zs p" using ring split us by (cases ys) (auto simp: chain_append)
    moreover have "sorted_wrt (<) (q # zs @ [p])" using sorted unfolding split us by (auto simp: sorted_wrt_append)
    ultimately show ?thesis using free_pos_up p stop by metis
  qed (use stop in simp)
  show ?thesis
  proof (cases "q \<in> set vs")
    case True
    then obtain ys zs where v: "vs = ys @ q # zs" by (auto dest: split_list)
    have "chain f q zs b" using ring split v by (cases us) (auto simp: chain_append)
    moreover have "sorted_wrt (<) (q # zs)" using sorted unfolding split v by (auto simp: sorted_wrt_append)
    ultimately have "free_pos f bp q = free_pos f bp b" using free_pos_down vs True bp by blast
    moreover have "b \<in> set (us @ [p])" using split by (cases us) auto
    ultimately show ?thesis using up by simp
  next
    case False
    then have "q \<in> set (us @ [p])" using q unfolding split by auto
    then show ?thesis by (rule up)
  qed
qed

lemma sorted_split:
  assumes "sorted_wrt (<) xs" "xs \<noteq> []" "hd xs < (n :: nat)" "n \<notin> set xs"
  shows "\<exists>us p vs. xs = us @ p # vs \<and> p < n \<and> (\<forall>v \<in> set vs. n < v)"
  using assms
proof (induction xs)
  case (Cons x xs)
  show ?case
  proof (cases "xs \<noteq> [] \<and> hd xs < n")
    case True
    then obtain us p vs where "xs = us @ p # vs" "p < n" "\<forall>v \<in> set vs. n < v" using Cons by auto
    then show ?thesis by (intro exI [of _ "x # us"]) auto
  next
    case False
    then have "\<forall>v \<in> set xs. n < v" using Cons.prems by (cases xs) auto
    then show ?thesis using Cons.prems by (intro exI [of _ "[]"]) auto
  qed
qed simp

subsection \<open>Giving a block back\<close>

text \<open>
  \<open>free_at\<close> links the block in, then joins it with the block above and with the block below when they touch.
\<close>

definition link_in :: "nat \<Rightarrow> nat \<Rightarrow> heap \<Rightarrow> heap" where
  "link_in bp p s = (set_ptr p bp (set_ptr bp (hptr s p) s))\<lparr>freep := p\<rparr>"

definition join :: "nat \<Rightarrow> heap \<Rightarrow> heap" where
  "join x s = (let y = hptr s x in
     if block_end s x = y then set_ptr x (hptr s y) (set_size x (hsize s x + hsize s y) s) else s)"

lemma free_at_joins: "bp \<noteq> p \<Longrightarrow> hptr s p \<noteq> bp \<Longrightarrow> block_end s bp \<noteq> p \<or> hptr s p \<noteq> p \<Longrightarrow> free_at bp p s = join p (join bp (link_in bp p s))"
  by (auto simp: free_at_def join_def link_in_def set_ptr_def set_size_def Let_def fun_upd_twist)

lemma before_weaken: "before {} s x y \<Longrightarrow> before S s x y"
  by (auto simp: before_def)

lemma block_end_ge: "b \<le> block_end s b"
  by (simp add: header_add_def)

lemma before_step: "block_end s x \<le> y \<Longrightarrow> before {} s y z \<Longrightarrow> block_end s x < z"
  using block_end_ge [of y s] by (simp add: before_def)

lemma shape_insert:
  assumes sh: "shape {} s bs" and split: "base s # bs = us @ p # vs" "base s # bs' = us @ p # bp # vs"
    and p: "block_end s p \<le> bp" "p < bp" "0 < hsize s bp"
    and vs: "\<forall>v \<in> set vs. block_end s bp \<le> v" and top: "block_end s bp \<le> 2 ^ 36"
  shows "shape {(p, bp), (bp, hd (vs @ [base s]))} (link_in bp p s) bs'"
proof -
  let ?t = "link_in bp p s" and ?S = "{(p, bp), (bp, hd (vs @ [base s]))}"
  have t: "hsize ?t = hsize s" "base ?t = base s" "freep ?t = p" "hptr ?t = (hptr s)(bp := hptr s p, p := bp)"
    by (simp_all add: link_in_def set_ptr_def)
  have s: "sorted_wrt (before {} s) (us @ p # vs)" "chain (hptr s) (base s) bs (base s)"
    using sh unfolding shape_def split(1) [symmetric] by simp_all
  have d: "distinct (us @ p # vs)" "sorted_wrt (<) (us @ p # vs)" using shape_distinct [OF sh] sorted_wrt_less [OF s(1)] split(1) by simp_all
  have bp: "bp < block_end s bp" using p(3) by (simp add: header_add_def word_less_nat_alt)
  have new: "bp \<notin> set (us @ p # vs)" using d(2) p(2) vs bp by (fastforce simp: sorted_wrt_append)
  have "chain (hptr s) p (vs @ us) p" using s(2) chain_rotate [OF split(1)] by blast
  then have "chain (hptr ?t) p ((bp # vs) @ us) p" unfolding t using chain_link [of "hptr s" p "vs @ us" bp] new d(1) by auto
  then have c: "chain (hptr ?t) (base s) bs' (base s)" using chain_rotate [OF split(2)] by blast
  have bv: "before ?S s bp v" if in_vs: "v \<in> set vs" for v
  proof (cases "v = hd vs")
    case True
    then show ?thesis using in_vs vs by (cases vs) (auto simp: before_def)
  next
    case False
    then obtain w ws where "vs = w # ws" "v \<in> set ws" using in_vs by (cases vs) auto
    then have "block_end s bp < v" using vs s(1) before_step [where s = s and x = bp and y = w and z = v] by (auto simp: sorted_wrt_append)
    then show ?thesis by (simp add: before_def)
  qed
  have "sorted_wrt (before ?S s) (us @ p # bp # vs)"
  proof -
    have "before ?S s u bp" if "u \<in> set us" for u
      using s(1) that p(2) by (auto simp: sorted_wrt_append before_def)
    moreover have "before ?S s p bp" using p(1) by (simp add: before_def)
    moreover have "sorted_wrt (before ?S s) (us @ p # vs)"
      using s(1) by (rule sorted_wrt_mono_rel [rotated]) (rule before_weaken)
    ultimately show ?thesis using bv by (auto simp: sorted_wrt_append)
  qed
  moreover have "before ?S ?t = before ?S s" by (simp add: before_def fun_eq_iff t)
  moreover have "set bs' = insert bp (set bs)" using split by (cases us) auto
  moreover have "p \<in> set (base s # bs')" using split(2) by simp
  ultimately show ?thesis using sh c p(3) top split(2) unfolding shape_def t by simp
qed

lemma area_insert: "base s # bs = us @ p # vs \<Longrightarrow> base s # bs' = us @ p # bp # vs \<Longrightarrow> area s bs' = area s bs \<union> block s bp"
  by (cases us) auto

text \<open>Joining two neighbours.\<close>

definition covers :: "heap \<Rightarrow> nat list \<Rightarrow> heap \<Rightarrow> nat list \<Rightarrow> bool" where
  "covers s bs t bs' \<longleftrightarrow> (\<forall>b \<in> set bs. \<exists>b' \<in> set bs'. block s b \<subseteq> block t b')"

lemma covers_trans: "covers s bs t bs' \<Longrightarrow> covers t bs' u bs'' \<Longrightarrow> covers s bs u bs''"
  unfolding covers_def by (meson order_trans)

lemma join_apart:
  assumes sh: "shape (insert (x, y) S) s bs" and y: "hptr s x = y" and ne: "block_end s x \<noteq> y"
  shows "shape S s bs \<and> join x s = s"
proof -
  have "before S s a b" if "before (insert (x, y) S) s a b" for a b
    using that ne by (cases "(a, b) = (x, y)") (auto simp: before_def split: if_splits)
  then have "sorted_wrt (before S s) (base s # bs)" using sh unfolding shape_def by (metis sorted_wrt_mono_rel)
  then show ?thesis using sh y ne by (simp add: shape_def join_def)
qed

lemma join_touching:
  assumes sh: "shape (insert (x, y) S) s bs" and split: "base s # bs = us @ x # y # vs" "base s # bs' = us @ x # vs"
    and S: "\<And>z. (x, z) \<notin> S \<and> (y, z) \<notin> S" and d: "distinct (base s # bs)" and touch: "block_end s x = y" and fp: "freep s \<noteq> y"
  shows "shape S (join x s) bs' \<and> area (join x s) bs' = area s bs \<and> covers s bs (join x s) bs' \<and>
    base (join x s) = base s \<and> freep (join x s) = freep s"
proof -
  let ?t = "join x s"
  have c: "chain (hptr s) x (y # vs @ us) x" using sh chain_rotate [OF split(1)] by (simp add: shape_def)
  then have t: "?t = set_ptr x (hptr s y) (set_size x (hsize s x + hsize s y) s)" using touch by (simp add: join_def)
  have sel: "hptr ?t = (hptr s)(x := hptr s y)" "base ?t = base s" "freep ?t = freep s" "\<And>b. b \<noteq> x \<Longrightarrow> hsize ?t b = hsize s b"
    unfolding t by (simp_all add: set_ptr_def set_size_def)
  have yb: "y \<noteq> base s" "y \<in> set bs" using split(1) d by (cases us; auto)+
  then have xb: "x \<noteq> base s" using touch sh by (auto simp: shape_def header_add_def)
  have xs: "x \<in> set bs" using split(1) xb by (cases us) auto
  have "0 < x"
  proof -
    have "before (insert (x, y) S) s (base s) x" using sh xs unfolding shape_def by simp
    then show ?thesis using sh by (auto simp: before_def header_add_def shape_def split: if_splits)
  qed
  moreover have "block_end s y \<le> 2 ^ 36" using sh yb by (simp add: shape_def)
  ultimately have "unat (hsize s x) + unat (hsize s y) < 2 ^ 32" using touch by (simp add: header_add_def)
  then have sum: "unat (hsize s x + hsize s y) = unat (hsize s x) + unat (hsize s y)" by (simp add: unat_word_ariths)
  then have e: "block_end ?t x = block_end s y" using touch unfolding t by (simp add: header_add_def set_ptr_def set_size_def algebra_simps)
  have pos: "0 < hsize ?t x" using sum sh xs unfolding t by (simp add: shape_def set_ptr_def set_size_def word_less_nat_alt)
  have ring: "chain (hptr ?t) (base s) bs' (base s)"
    unfolding chain_rotate [OF split(2)] sel(1) by (rule chain_unlink [OF c]) (use d split(1) in auto)
  have srt: "sorted_wrt (before (insert (x, y) S) s) (us @ x # y # vs)" using sh unfolding shape_def split(1) by simp
  have dd: "x \<notin> set us" "x \<notin> set vs" "x \<noteq> y" using d unfolding split(1) by auto
  have old: "before S ?t a b \<longleftrightarrow> before (insert (x, y) S) s a b" if "a \<noteq> x" for a b
    using that sel(4) [of a] by (simp add: before_def)
  have "before S ?t x v" if "v \<in> set vs" for v
  proof -
    have "before (insert (x, y) S) s y v" using srt that by (auto simp: sorted_wrt_append)
    then show ?thesis using S [of v] dd(3) e by (simp add: before_def)
  qed
  moreover have "sorted_wrt (before S ?t) xs" if "sorted_wrt (before (insert (x, y) S) s) xs" "x \<notin> set xs" for xs
    using that(1) by (rule sorted_wrt_mono_rel [rotated]) (use old that(2) in metis)
  moreover have "\<forall>u \<in> set us. \<forall>v \<in> set (x # vs). before S ?t u v"
  proof (intro ballI)
    fix u v
    assume uv: "u \<in> set us" "v \<in> set (x # vs)"
    then have "u \<noteq> x" using dd(1) by auto
    then show "before S ?t u v" using old srt uv by (auto simp: sorted_wrt_append)
  qed
  ultimately have "sorted_wrt (before S ?t) (us @ x # vs)" using srt dd by (auto simp: sorted_wrt_append)
  moreover have sets: "set bs = insert y (set bs')" using split xb by (cases us) auto
  moreover have "area ?t bs' = area s bs"
  proof -
    obtain us' where us: "us = base s # us'" using split(1) xb by (cases us) auto
    have "block ?t x = block s x \<union> block s y" unfolding e using touch block_end_ge [of x s] block_end_ge [of y s] by auto
    moreover have "area ?t xs = area s xs" if "x \<notin> set xs" for xs by (rule area_cong) (use sel(4) that in metis)
    ultimately show ?thesis using split dd(1,2) unfolding us by auto
  qed
  moreover have "covers s bs ?t bs'"
    unfolding covers_def
  proof
    fix b
    assume b: "b \<in> set bs"
    have "block s x \<subseteq> block ?t x" "block s y \<subseteq> block ?t x" unfolding e using touch block_end_ge [of x s] block_end_ge [of y s] by auto
    moreover have "b \<noteq> x \<Longrightarrow> block s b \<subseteq> block ?t b" using sel(4) [of b] by simp
    moreover have "x \<in> set bs'" using split(2) xb by (cases us) auto
    moreover have "b \<noteq> y \<Longrightarrow> b \<in> set bs'" using b sets by auto
    ultimately show "\<exists>b' \<in> set bs'. block s b \<subseteq> block ?t b'" by metis
  qed
  moreover have "\<forall>b \<in> set bs'. 0 < hsize ?t b \<and> block_end ?t b \<le> 2 ^ 36"
  proof
    fix b
    assume "b \<in> set bs'"
    then have "b \<in> set bs" using sets by simp
    then show "0 < hsize ?t b \<and> block_end ?t b \<le> 2 ^ 36"
      using sh pos e yb(2) sel(4) [of b] by (cases "b = x") (auto simp: shape_def)
  qed
  moreover have "freep s \<in> set (base s # bs')" using sh fp sets by (auto simp: shape_def)
  ultimately show ?thesis using sh ring xb sel unfolding shape_def split(2) [symmetric] by simp
qed

lemma join_hsize: "b \<noteq> x \<Longrightarrow> hsize (join x s) b = hsize s b"
  by (simp add: join_def set_ptr_def set_size_def Let_def)

lemma join_step:
  assumes sh: "shape (insert (x, y) S) s bs" and split: "base s # bs = us @ x # ws" and y: "y = hd (ws @ [base s])"
    and S: "\<And>z. (x, z) \<notin> S" "\<And>z. ws \<noteq> [] \<Longrightarrow> (y, z) \<notin> S" and d: "distinct (base s # bs)" and ws: "ws = [] \<longrightarrow> base s < x" and fp: "ws \<noteq> [] \<longrightarrow> freep s \<noteq> y"
  shows "\<exists>bs' ws'. shape S (join x s) bs' \<and> base s # bs' = us @ x # ws' \<and> set ws' \<subseteq> set ws \<and> distinct (base s # bs') \<and>
    area (join x s) bs' = area s bs \<and> covers s bs (join x s) bs' \<and> base (join x s) = base s \<and> freep (join x s) = freep s"
proof (cases "block_end s x = y")
  case False
  have "hptr s x = y" using sh chain_rotate [OF split] chain_hd [of "hptr s" x "ws @ us" x] split y
    by (cases ws; cases us) (auto simp: shape_def)
  then show ?thesis using join_apart [OF sh _ False] split d by (intro exI [of _ bs] exI [of _ ws]) (auto simp: covers_def)
next
  case True
  then have "ws \<noteq> []" using y ws block_end_ge [of x s] by auto
  then obtain vs where v: "ws = y # vs" using y by (cases ws) auto
  then obtain bs' where bs': "base s # bs' = us @ x # vs" using split by (cases us) auto
  have "distinct (base s # bs')" using d unfolding bs' split v by auto
  moreover have "shape S (join x s) bs' \<and> area (join x s) bs' = area s bs \<and> covers s bs (join x s) bs' \<and>
      base (join x s) = base s \<and> freep (join x s) = freep s"
    by (rule join_touching [OF sh split [unfolded v] bs' _ d True]) (use S fp v in auto)
  ultimately show ?thesis using bs' v by (intro exI [of _ bs'] exI [of _ vs]) auto
qed

lemma free_gap:
  assumes sh: "shape {} s bs" and bp: "base s < bp" "0 < hsize s bp" "block s bp \<inter> area s bs = {}"
  shows "\<exists>us p vs. base s # bs = us @ p # vs \<and> p < bp \<and> block_end s p \<le> bp \<and> (\<forall>v \<in> set vs. block_end s bp \<le> v) \<and>
    free_pos (hptr s) bp (freep s) = Some p \<and> bp \<notin> set (base s # bs)"
proof -
  have srt: "sorted_wrt (<) (base s # bs)" "chain (hptr s) (base s) bs (base s)" "freep s \<in> set (base s # bs)"
    using sh sorted_wrt_less unfolding shape_def by blast+
  have e: "bp < block_end s bp" using bp(2) by (simp add: header_add_def word_less_nat_alt)
  have self: "b \<in> block s b" if "b \<in> set bs" for b
    using sh that by (auto simp: shape_def header_add_def word_less_nat_alt)
  have "bp \<notin> set bs"
  proof
    assume "bp \<in> set bs"
    then have "bp \<in> area s bs" using self by (auto simp: area_def)
    then show False using bp(3) e by auto
  qed
  then have new: "bp \<notin> set (base s # bs)" using bp(1) by simp
  then obtain us p vs where split: "base s # bs = us @ p # vs" and p: "p < bp" and vs: "\<forall>v \<in> set vs. bp < v"
    using sorted_split [OF srt(1), of bp] bp(1) by auto
  have pos: "free_pos (hptr s) bp (freep s) = Some p" by (rule free_pos_found [OF srt(2,1) split p vs srt(3)])
  have pe: "block_end s p \<le> bp"
  proof (cases "p = base s")
    case True
    then show ?thesis using sh bp(1) by (simp add: shape_def header_add_def)
  next
    case False
    then have "p \<in> set bs" using split by (cases us) auto
    then have "block s p \<subseteq> area s bs" by (auto simp: area_def)
    moreover have "bp \<in> block s bp" using e by simp
    ultimately have "bp \<notin> block s p" using bp(3) by blast
    then show ?thesis using p by simp
  qed
  have ve: "\<forall>v \<in> set vs. block_end s bp \<le> v"
  proof
    fix v
    assume v: "v \<in> set vs"
    then have "v \<in> set bs" using split by (cases us) auto
    then have "v \<in> area s bs" using self by (auto simp: area_def)
    then have "v \<notin> block s bp" using bp(3) by blast
    then show "block_end s bp \<le> v" using vs v by force
  qed
  show ?thesis using split p pe ve pos new by blast
qed

lemma free_shape:
  assumes sh: "shape {} s bs" and bp: "base s < bp" "0 < hsize s bp" "block_end s bp \<le> 2 ^ 36" "block s bp \<inter> area s bs = {}"
  shows "\<exists>t bs'. free (bp + HEADER) s = Some t \<and> shape {} t bs' \<and> area t bs' = area s bs \<union> block s bp \<and> base t = base s \<and>
    (\<exists>b \<in> set bs'. block s bp \<subseteq> block t b) \<and> (\<forall>b. b \<notin> area s bs \<longrightarrow> b \<noteq> bp \<longrightarrow> hsize t b = hsize s b)"
proof -
  have self: "b \<in> block s b" if "b \<in> set bs" for b
    using sh that by (auto simp: shape_def header_add_def word_less_nat_alt)
  have e: "bp < block_end s bp" using bp(2) by (simp add: header_add_def word_less_nat_alt)
  have ring: "chain (hptr s) (base s) bs (base s)" using sh by (simp add: shape_def)
  obtain us p vs where split: "base s # bs = us @ p # vs" and p: "p < bp" and pe: "block_end s p \<le> bp"
    and ve: "\<forall>v \<in> set vs. block_end s bp \<le> v" and pos: "free_pos (hptr s) bp (freep s) = Some p" and new: "bp \<notin> set (base s # bs)"
    using free_gap [OF sh bp(1,2,4)] by blast
  let ?S = "{(p, bp)}" and ?nx = "hd (vs @ [base s])" and ?s1 = "link_in bp p s"
  obtain bs1 where split1: "base s # bs1 = us @ p # bp # vs" using split by (cases us) auto
  have s1: "shape (insert (bp, ?nx) ?S) ?s1 bs1" "base ?s1 = base s" "freep ?s1 = p"
    using shape_insert [OF sh split split1 pe p bp(2) ve bp(3)] by (simp_all add: insert_commute link_in_def set_ptr_def)
  have d1: "distinct (base s # bs1)" using shape_distinct [OF sh] new unfolding split split1 by auto
  have nx: "vs \<noteq> [] \<Longrightarrow> ?nx \<noteq> p" using d1 unfolding split1 by (cases vs) auto
  have "\<exists>bs2 ws. shape ?S (join bp ?s1) bs2 \<and> base ?s1 # bs2 = (us @ [p]) @ bp # ws \<and> set ws \<subseteq> set vs \<and> distinct (base ?s1 # bs2) \<and>
      area (join bp ?s1) bs2 = area ?s1 bs1 \<and> covers ?s1 bs1 (join bp ?s1) bs2 \<and> base (join bp ?s1) = base ?s1 \<and> freep (join bp ?s1) = freep ?s1"
    by (rule join_step [OF s1(1)]) (use split1 s1(2,3) d1 nx p bp(1) in auto)
  then obtain bs2 ws where s2: "shape ?S (join bp ?s1) bs2" "base s # bs2 = us @ p # bp # ws" "distinct (base s # bs2)"
      "area (join bp ?s1) bs2 = area ?s1 bs1" "covers ?s1 bs1 (join bp ?s1) bs2" "base (join bp ?s1) = base s" "freep (join bp ?s1) = p"
    unfolding s1(2,3) append_assoc append_Cons append_Nil by blast
  let ?s2 = "join bp ?s1" and ?t = "join p (join bp ?s1)"
  have "\<exists>bs3 ws'. shape {} ?t bs3 \<and> base ?s2 # bs3 = us @ p # ws' \<and> set ws' \<subseteq> set (bp # ws) \<and> distinct (base ?s2 # bs3) \<and>
      area ?t bs3 = area ?s2 bs2 \<and> covers ?s2 bs2 ?t bs3 \<and> base ?t = base ?s2 \<and> freep ?t = freep ?s2"
    by (rule join_step [of p bp]) (use s2 p in simp_all)
  then obtain bs3 where s3: "shape {} ?t bs3" "area ?t bs3 = area ?s2 bs2" "covers ?s2 bs2 ?t bs3" "base ?t = base s"
    unfolding s2(6) by blast
  have ar: "area ?s1 bs1 = area s bs \<union> block s bp"
    using area_insert [OF split split1] area_cong [of bs1 ?s1 s] by (simp add: link_in_def set_ptr_def)
  have "bp \<in> set bs1" using split1 new by (cases us) auto
  then obtain b where "b \<in> set bs3" "block ?s1 bp \<subseteq> block ?t b" using covers_trans [OF s2(5) s3(3)] unfolding covers_def by blast
  moreover have "hsize ?s1 = hsize s" by (simp add: link_in_def set_ptr_def)
  moreover have "free (bp + HEADER) s = Some ?t"
  proof -
    have "hptr s p \<noteq> bp"
      using chain_rotate [OF split, of "hptr s"] chain_hd [of "hptr s" p "vs @ us" p] ring new unfolding split
      by (cases vs; cases us) auto
    then have "free_at bp p s = ?t" using p pe e by (intro free_at_joins) auto
    then show ?thesis using pos by (simp add: free_def)
  qed
  moreover have "hsize ?t b = hsize s b" if "b \<notin> area s bs" "b \<noteq> bp" for b
  proof (cases "b = p")
    case True
    then have "b \<notin> set bs" using self that(1) by (auto simp: area_def)
    then have "b = base s" using True split by (metis in_set_conv_decomp set_ConsD)
    then show ?thesis using sh s3(1,4) by (simp add: shape_def)
  qed (use that(2) join_hsize calculation(3) in metis)
  ultimately show ?thesis using s2(4) s3 ar by (intro exI [of _ ?t] exI [of _ bs3]) auto
qed

subsection \<open>Taking a block\<close>

lemma blocks_disjoint: "shape {} s bs \<Longrightarrow> x \<in> set bs \<Longrightarrow> y \<in> set bs \<Longrightarrow> x \<noteq> y \<Longrightarrow> block s x \<inter> block s y = {}"
proof -
  assume sh: "shape {} s bs" and x: "x \<in> set bs" and y: "y \<in> set bs" and "x \<noteq> y"
  then obtain us vs where "base s # bs = us @ x # vs" "y \<in> set us \<or> y \<in> set vs" by (metis Un_iff in_set_conv_decomp list.set_intros(2) set_ConsD set_append)
  then have "block_end s x < y \<or> block_end s y < x" using sh unfolding shape_def by (auto simp: sorted_wrt_append before_def)
  then show ?thesis by auto
qed

text \<open>What \<open>malloc\<close> carves out of the free blocks: the header, the new heap, its free blocks.\<close>

definition carved :: "heap \<Rightarrow> nat list \<Rightarrow> u32 \<Rightarrow> nat \<Rightarrow> heap \<Rightarrow> nat list \<Rightarrow> bool" where
  "carved s bs n h t bs' \<longleftrightarrow> shape {} t bs' \<and> hsize t h = n \<and> base t = base s \<and> base s < h \<and> block_end t h \<le> 2 ^ 36 \<and>
     block t h \<inter> area t bs' = {} \<and> block t h \<union> area t bs' = area s bs \<and> (\<forall>b. b \<notin> area s bs \<longrightarrow> hsize t b = hsize s b)"

lemma take_whole:
  assumes sh: "shape {} s bs" and split: "base s # bs = us @ prev # p # vs"
  shows "\<exists>bs'. carved s bs (hsize s p) p ((set_ptr prev (hptr s p) s)\<lparr>freep := prev\<rparr>) bs'"
proof -
  let ?t = "(set_ptr prev (hptr s p) s)\<lparr>freep := prev\<rparr>"
  have t: "hsize ?t = hsize s" "base ?t = base s" "freep ?t = prev" "hptr ?t = (hptr s)(prev := hptr s p)" by (simp_all add: set_ptr_def)
  obtain bs' where bs': "base s # bs' = us @ prev # vs" using split by (cases us) auto
  have d: "distinct (us @ prev # p # vs)" using shape_distinct [OF sh] unfolding split .
  have p: "p \<in> set bs" "set bs = insert p (set bs')" using split bs' by (cases us; auto)+
  have "p \<notin> set bs'" using d bs' by (cases us) auto
  then have "block s p \<inter> area s bs' = {}" using blocks_disjoint [OF sh p(1)] p(2) by (fastforce simp: area_def)
  moreover have "chain (hptr ?t) (base s) bs' (base s)"
    unfolding chain_rotate [OF bs'] t using chain_unlink [of "hptr s" prev p "vs @ us"] sh chain_rotate [OF split] d by (auto simp: shape_def)
  moreover have "sorted_wrt (before {} ?t) (base s # bs')"
    using sh unfolding shape_def split bs' before_def t by (auto simp: sorted_wrt_append)
  moreover have "prev \<in> set (base s # bs')" unfolding bs' by simp
  moreover have "base s < p" "area s bs = block s p \<union> area s bs'" using sh p by (auto simp: shape_def before_def header_add_def area_def)
  moreover have "area ?t bs' = area s bs'" by (rule area_cong) (simp add: t)
  ultimately show ?thesis using sh p unfolding carved_def shape_def t by (intro exI [of _ bs']) auto
qed

lemma take_end:
  assumes sh: "shape {} s bs" and p: "p \<in> set bs" and prev: "prev \<in> set (base s # bs)" and n: "0 < n" "n < hsize s p"
  shows "carved s bs n (header_add p (hsize s p - n))
    ((set_size (header_add p (hsize s p - n)) n (set_size p (hsize s p - n) s))\<lparr>freep := prev\<rparr>) bs"
proof -
  let ?q = "header_add p (hsize s p - n)"
  let ?t = "(set_size ?q n (set_size p (hsize s p - n) s))\<lparr>freep := prev\<rparr>"
  have u: "unat (hsize s p - n) = unat (hsize s p) - unat n" "unat n < unat (hsize s p)" "0 < unat n"
    using n unat_sub [of n "hsize s p"] by (simp_all add: word_less_nat_alt word_le_nat_alt)
  have q: "p < ?q" "?q < block_end s p" "header_add ?q n = block_end s p" using u by (simp_all add: header_add_def)
  have out: "?q \<notin> set (base s # bs)"
  proof
    assume a: "?q \<in> set (base s # bs)"
    have "base s < p" using sh p by (auto simp: shape_def before_def header_add_def)
    then have "?q \<in> set bs" using a q(1) by auto
    then have "?q \<in> block s ?q" using sh by (auto simp: shape_def header_add_def word_less_nat_alt)
    then show False using blocks_disjoint [OF sh p \<open>?q \<in> set bs\<close>] q(1,2) by auto
  qed
  have t: "hptr ?t = hptr s" "base ?t = base s" "freep ?t = prev" "hsize ?t ?q = n" "hsize ?t p = hsize s p - n"
    "\<And>b. b \<noteq> p \<Longrightarrow> b \<noteq> ?q \<Longrightarrow> hsize ?t b = hsize s b" using q(1) by (simp_all add: set_size_def)
  have same: "hsize ?t b = hsize s b" if "b \<in> set bs" "b \<noteq> p" for b
    by (rule t(6)) (use that out in auto)
  have end_le: "block_end ?t b \<le> block_end s b \<and> 0 < hsize ?t b" if b: "b \<in> set bs" for b
  proof (cases "b = p")
    case True
    moreover have "0 < hsize s p - n" using u by (simp add: word_less_nat_alt)
    ultimately show ?thesis using t(5) q(2) by simp
  next
    case False
    then show ?thesis using same [OF b] sh b by (simp add: shape_def)
  qed
  have bz: "hsize ?t (base s) = 0" using t(6) [of "base s"] out shape_distinct [OF sh] p sh by (auto simp: shape_def)
  have "sorted_wrt (before {} ?t) (base s # bs)"
  proof (rule sorted_wrt_mono_rel [rotated])
    show "sorted_wrt (before {} s) (base s # bs)" using sh by (simp add: shape_def)
    show "before {} ?t x y" if "x \<in> set (base s # bs)" "before {} s x y" for x y
      using that end_le [of x] bz sh by (auto simp: before_def shape_def)
  qed
  moreover have "area s bs = block ?t ?q \<union> area ?t bs" "block ?t ?q \<inter> area ?t bs = {}"
  proof -
    define R where "R = (\<Union>b \<in> set bs - {p}. block s b)"
    have "block ?t b = block s b" if "b \<in> set bs - {p}" for b using same [of b] that by simp
    then have "area ?t bs = block ?t p \<union> R" using p unfolding R_def area_def by blast
    then have a: "area ?t bs = {p..<?q} \<union> R" using t(5) by simp
    have b: "area s bs = block s p \<union> R" using p unfolding R_def area_def by blast
    have c: "block ?t ?q = {?q..<block_end s p}" using t(4) q(3) by simp
    have "block s p \<inter> R = {}" unfolding R_def using blocks_disjoint [OF sh p] by blast
    moreover have "block s p = {p..<?q} \<union> {?q..<block_end s p}" using q(1,2) by auto
    ultimately show "area s bs = block ?t ?q \<union> area ?t bs" "block ?t ?q \<inter> area ?t bs = {}" unfolding a b c by auto
  qed
  moreover have "\<forall>b. b \<notin> area s bs \<longrightarrow> hsize ?t b = hsize s b"
  proof (intro allI impI)
    fix b
    assume "b \<notin> area s bs"
    then have "b \<notin> block s p" using p by (auto simp: area_def)
    then show "hsize ?t b = hsize s b" using q t(6) [of b] by auto
  qed
  moreover have "base s < ?q" using sh p q(1) by (fastforce simp: shape_def before_def header_add_def)
  moreover have "block_end s p \<le> 2 ^ 36" using sh p by (simp add: shape_def)
  moreover have "\<forall>b \<in> set bs. 0 < hsize ?t b \<and> block_end ?t b \<le> 2 ^ 36"
  proof
    fix b
    assume b: "b \<in> set bs"
    then have "block_end s b \<le> 2 ^ 36" using sh by (simp add: shape_def)
    then show "0 < hsize ?t b \<and> block_end ?t b \<le> 2 ^ 36" using end_le [OF b] by linarith
  qed
  ultimately show ?thesis using sh bz prev q(3) unfolding carved_def shape_def t(1-4) by simp
qed

lemma ring_next:
  assumes "shape {} s bs" "prev \<in> set (base s # bs)" "hptr s prev \<noteq> base s"
  shows "\<exists>us vs. base s # bs = us @ prev # hptr s prev # vs"
proof -
  obtain us ws where split: "base s # bs = us @ prev # ws" using assms(2) by (metis in_set_conv_decomp)
  then have "hptr s prev = hd (ws @ [base s])"
    using assms(1) chain_rotate [OF split] chain_hd [of "hptr s" prev "ws @ us" prev] by (cases ws; cases us) (auto simp: shape_def)
  then show ?thesis using assms(3) split by (cases ws) auto
qed

lemma take_block_carves:
  assumes sh: "shape {} s bs" and prev: "prev \<in> set (base s # bs)" "hptr s prev = p" and n: "0 < n" "n \<le> hsize s p"
  shows "\<exists>h t bs'. take_block prev p n s = (h + HEADER, t) \<and> carved s bs n h t bs'"
proof -
  have "p \<noteq> base s" using n sh by (auto simp: shape_def)
  then obtain us vs where split: "base s # bs = us @ prev # p # vs" using ring_next [OF sh prev(1)] prev(2) by auto
  then have p: "p \<in> set bs" by (cases us) auto
  show ?thesis
  proof (cases "hsize s p = n")
    case True
    then show ?thesis using take_whole [OF sh split] by (auto simp: take_block_def)
  next
    case False
    then have "carved s bs n (header_add p (hsize s p - n))
        ((set_size (header_add p (hsize s p - n)) n (set_size p (hsize s p - n) s))\<lparr>freep := prev\<rparr>) bs"
      using n by (intro take_end [OF sh p prev(1)]) auto
    then show ?thesis using False by (auto simp: take_block_def Let_def set_size_def)
  qed
qed

text \<open>The search of \<open>malloc\<close> goes once around the ring.\<close>

lemma malloc_scan:
  assumes "chain (hptr s) q xs (freep s)" "freep s \<notin> set xs"
  shows "(\<exists>prev x. prev \<in> set (q # xs) \<and> hptr s prev = x \<and> n \<le> hsize s x \<and>
      malloc_loop sbrk n q (hptr s q) (s, e) = (let (r, t) = take_block prev x n s in Some (r, t, e))) \<or>
    (\<forall>x \<in> set (freep s # xs). hsize s x < n) \<and>
      malloc_loop sbrk n q (hptr s q) (s, e) =
        (case morecore sbrk n (s, e) of
           None \<Rightarrow> None
         | Some (p, se) \<Rightarrow> if p = 0 then Some (0, se) else malloc_loop sbrk n p (hptr (fst se) p) se)"
  using assms
proof (induction xs arbitrary: q)
  case Nil
  then show ?case
    by (cases "n \<le> hsize s (freep s)") (auto simp: malloc_loop.simps [of sbrk n q "freep s"] not_le split: option.splits)
next
  case (Cons x xs)
  have hx: "hptr s q = x" "x \<noteq> freep s" using Cons.prems by auto
  show ?case
  proof (cases "n \<le> hsize s x")
    case True
    then show ?thesis using hx by (intro disjI1 exI [of _ q] exI [of _ x]) (simp add: malloc_loop.simps [of sbrk n q x])
  next
    case False
    then have "malloc_loop sbrk n q x (s, e) = malloc_loop sbrk n x (hptr s x) (s, e)"
      using hx by (subst malloc_loop.simps) simp
    then show ?thesis using Cons.IH [of x] Cons.prems False hx by (auto simp: not_le)
  qed
qed

subsection \<open>The heap and its client\<close>

text \<open>
  \<open>heap_inv s H\<close>: the heap with the blocks \<open>H\<close>, given by the addresses of their headers, in the hands of the client.  They
  are above \<open>BASE\<close>, do not overlap each other and do not overlap the free blocks \<open>bs\<close>.  A null \<open>FREEP\<close> is the heap before
  the first call.
\<close>

definition heap_free :: "heap \<Rightarrow> nat list \<Rightarrow> bool" where
  "heap_free s bs \<longleftrightarrow> (if freep s = 0 then bs = [] \<and> 0 < base s else shape {} s bs)"

definition live_ok :: "heap \<Rightarrow> nat list \<Rightarrow> nat set \<Rightarrow> bool" where
  "live_ok s bs H \<longleftrightarrow> (\<forall>h \<in> H. base s < h \<and> 0 < hsize s h \<and> block_end s h \<le> 2 ^ 36 \<and> block s h \<inter> area s bs = {}) \<and>
     (\<forall>h \<in> H. \<forall>k \<in> H. h \<noteq> k \<longrightarrow> block s h \<inter> block s k = {})"

definition heap_inv :: "heap \<Rightarrow> nat set \<Rightarrow> bool" where
  "heap_inv s H \<longleftrightarrow> (\<exists>bs. heap_free s bs \<and> live_ok s bs H)"

text \<open>
  What \<open>sbrk\<close> promises: an error, or memory above \<open>BASE\<close> that neither the heap nor the client has.
\<close>

definition sbrk_fresh :: "(int \<Rightarrow> 'e \<Rightarrow> nat \<times> 'e) \<Rightarrow> heap \<Rightarrow> nat set \<Rightarrow> 'e \<Rightarrow> bool" where
  "sbrk_fresh sbrk s H e \<longleftrightarrow> (\<forall>n bs. heap_free s bs \<longrightarrow> fst (sbrk n e) = SBRK_ERROR \<or>
     base s < fst (sbrk n e) \<and> fst (sbrk n e) + nat n \<le> 2 ^ 36 \<and>
     {fst (sbrk n e)..<fst (sbrk n e) + nat n} \<inter> (area s bs \<union> (\<Union>h \<in> H. block s h)) = {})"

lemma shape_nonzero: "shape {} s bs \<Longrightarrow> freep s \<noteq> 0"
proof -
  assume sh: "shape {} s bs"
  then have "0 < b" if "b \<in> set (base s # bs)" for b using that by (fastforce simp: shape_def before_def)
  then show ?thesis using sh unfolding shape_def by blast
qed

lemma shape_free: "shape {} s bs \<Longrightarrow> heap_free s bs"
  using shape_nonzero [of s bs] by (simp add: heap_free_def)

lemma live_ok_area: "live_ok s bs H \<Longrightarrow> h \<in> H \<Longrightarrow> h \<notin> area s bs"
proof -
  assume "live_ok s bs H" "h \<in> H"
  then have "0 < hsize s h" "block s h \<inter> area s bs = {}" by (auto simp: live_ok_def)
  moreover from this have "h \<in> block s h" by (simp add: header_add_def word_less_nat_alt)
  ultimately show ?thesis by (metis IntI empty_iff)
qed

lemma live_ok_transfer:
  assumes "live_ok s bs H" "\<forall>h \<in> H. hsize t h = hsize s h" "base t = base s" "\<forall>h \<in> H. block s h \<inter> area t bs' = {}"
  shows "live_ok t bs' H"
  using assms unfolding live_ok_def by simp

lemma live_ok_insert:
  assumes "live_ok s bs H" "base s < h" "0 < hsize s h" "block_end s h \<le> 2 ^ 36" "block s h \<inter> area s bs = {}"
    "\<forall>k \<in> H. block s h \<inter> block s k = {}"
  shows "live_ok s bs (insert h H)"
  using assms unfolding live_ok_def by blast

lemma free_inv:
  assumes "shape {} s bs" "live_ok s bs H" "h \<in> H"
  shows "\<exists>t bs'. free (h + HEADER) s = Some t \<and> shape {} t bs' \<and> area t bs' = area s bs \<union> block s h \<and> live_ok t bs' (H - {h}) \<and>
    (\<forall>k \<in> H - {h}. hsize t k = hsize s k) \<and> base t = base s \<and> (\<exists>b \<in> set bs'. block s h \<subseteq> block t b)"
proof -
  have h: "base s < h" "0 < hsize s h" "block_end s h \<le> 2 ^ 36" "block s h \<inter> area s bs = {}" using assms(2,3) by (auto simp: live_ok_def)
  obtain t bs' where t: "free (h + HEADER) s = Some t" "shape {} t bs'" "area t bs' = area s bs \<union> block s h" "base t = base s"
    "\<forall>b. b \<notin> area s bs \<longrightarrow> b \<noteq> h \<longrightarrow> hsize t b = hsize s b" "\<exists>b \<in> set bs'. block s h \<subseteq> block t b"
    using free_shape [OF assms(1) h] by blast
  have same: "\<forall>k \<in> H - {h}. hsize t k = hsize s k" using t(5) live_ok_area [OF assms(2)] by blast
  have "live_ok s bs (H - {h})" using assms(2) unfolding live_ok_def by blast
  moreover have "\<forall>k \<in> H - {h}. block s k \<inter> area t bs' = {}" using assms(2,3) unfolding t(3) live_ok_def by blast
  ultimately have "live_ok t bs' (H - {h})" by (rule live_ok_transfer [OF _ same t(4)])
  then show ?thesis using t same by blast
qed

lemma fresh_block:
  assumes sh: "shape {} s bs" and live: "live_ok s bs H" and p: "base s < p" "p + 16 * unat n \<le> 2 ^ 36" "0 < n"
    and fresh: "{p..<p + 16 * unat n} \<inter> (area s bs \<union> (\<Union>h \<in> H. block s h)) = {}"
  shows "shape {} (set_size p n s) bs \<and> live_ok (set_size p n s) bs (insert p H) \<and> p \<notin> H \<and> (\<forall>h \<in> H. hsize (set_size p n s) h = hsize s h)"
proof -
  let ?t = "set_size p n s"
  have self: "p \<in> {p..<p + 16 * unat n}" using p(3) by (simp add: word_less_nat_alt)
  have "b \<in> block s b" if "b \<in> set bs" for b using sh that by (auto simp: shape_def header_add_def word_less_nat_alt)
  then have nb: "p \<notin> set (base s # bs)" using self fresh p(1) unfolding area_def by fastforce
  have "h \<in> block s h" if "h \<in> H" for h using live that by (auto simp: live_ok_def header_add_def word_less_nat_alt)
  then have nH: "p \<notin> H" using self fresh by blast
  have t: "hptr ?t = hptr s" "base ?t = base s" "freep ?t = freep s" "block ?t p = {p..<p + 16 * unat n}"
    by (simp_all add: set_size_def header_add_def)
  have same: "hsize ?t b = hsize s b" if "b \<in> set (base s # bs) \<union> H" for b using that nb nH by (auto simp: set_size_def)
  have bs: "before {} ?t x y = before {} s x y" if "x \<in> set (base s # bs)" for x y by (intro before_cong same) (use that in auto)
  have "sorted_wrt (before {} ?t) (base s # bs)"
    using sh bs unfolding shape_def by (metis sorted_wrt_mono_rel)
  moreover have ar: "area ?t bs = area s bs" by (rule area_cong) (use same in simp)
  ultimately have "shape {} ?t bs" using sh same unfolding shape_def t by simp
  moreover have "live_ok ?t bs (insert p H)"
  proof (rule live_ok_insert)
    show "live_ok ?t bs H"
      by (rule live_ok_transfer [OF live]) (use same t(2) live in \<open>simp_all add: ar live_ok_def\<close>)
    show "block ?t p \<inter> area ?t bs = {}" unfolding t(4) ar using fresh by blast
    show "\<forall>k \<in> H. block ?t p \<inter> block ?t k = {}" unfolding t(4) using fresh same by fastforce
  qed (use p t in \<open>simp_all add: set_size_def header_add_def\<close>)
  ultimately show ?thesis using nH same by simp
qed

lemma sint_of_nat_small: "k < 2 ^ 31 \<Longrightarrow> sint (of_nat k :: u32) = int k"
  by (simp add: signed_of_nat signed_take_bit_int_eq_self)

lemma morecore_inv:
  assumes sh: "shape {} s bs" and live: "live_ok s bs H" and fresh: "sbrk_fresh sbrk s H e" and n: "unat n < 2 ^ 27"
  shows "fst (sbrk (int (HEADER * max 4096 (unat n))) e) = SBRK_ERROR \<and> (\<exists>e'. morecore sbrk n (s, e) = Some (0, s, e')) \<or>
    (\<exists>t e' bs'. morecore sbrk n (s, e) = Some (freep t, t, e') \<and> shape {} t bs' \<and> live_ok t bs' H \<and> base t = base s \<and>
      (\<forall>h \<in> H. hsize t h = hsize s h) \<and> (\<exists>b \<in> set bs'. n \<le> hsize t b))"
proof -
  define nu where "nu = (if n < 4096 then 4096 else n)"
  have nu: "unat nu < 2 ^ 27" "0 < nu" "n \<le> nu" using n by (auto simp: nu_def word_less_nat_alt word_le_nat_alt not_less)
  define k where "k = 16 * unat nu"
  have kmax: "HEADER * max 4096 (unat n) = k" by (auto simp: k_def nu_def word_less_nat_alt)
  have k: "sint (of_nat k :: u32) = int k" by (rule sint_of_nat_small) (use nu(1) in \<open>simp add: k_def\<close>)
  obtain p e' where p: "sbrk (int k) e = (p, e')" by (cases "sbrk (int k) e") auto
  have run: "morecore sbrk n (s, e) = (if p = SBRK_ERROR then Some (0, s, e')
      else map_option (\<lambda>s. (freep s, s, e')) (free (p + HEADER) (set_size p nu s)))"
    using k p nu(1) by (simp add: morecore_def nu_def [symmetric] k_def mult.commute min_absorb1 Let_def)
  show ?thesis
  proof (cases "p = SBRK_ERROR")
    case True
    then show ?thesis using run p unfolding kmax by (metis fst_conv)
  next
    case False
    have hf: "heap_free s bs" using sh by (rule shape_free)
    have pk: "base s < p" "p + 16 * unat nu \<le> 2 ^ 36" "{p..<p + 16 * unat nu} \<inter> (area s bs \<union> (\<Union>h \<in> H. block s h)) = {}"
      using fresh [unfolded sbrk_fresh_def, rule_format, OF hf, of "int k"] False p
      unfolding k_def [symmetric] by simp_all
    let ?s = "set_size p nu s"
    have s: "shape {} ?s bs" "live_ok ?s bs (insert p H)" "p \<notin> H" "\<forall>h \<in> H. hsize ?s h = hsize s h" "base ?s = base s"
      using fresh_block [OF sh live pk(1,2) nu(2) pk(3)] by (simp_all add: set_size_def)
    obtain t bs' where t: "free (p + HEADER) ?s = Some t" "shape {} t bs'" "live_ok t bs' (insert p H - {p})"
      "\<forall>k \<in> insert p H - {p}. hsize t k = hsize ?s k" "base t = base ?s" "\<exists>b \<in> set bs'. block ?s p \<subseteq> block t b"
      using free_inv [OF s(1,2), of p] by auto
    obtain b where b: "b \<in> set bs'" "block ?s p \<subseteq> block t b" using t(6) by blast
    have "card (block ?s p) \<le> card (block t b)" by (rule card_mono) (use b(2) in auto)
    then have "nu \<le> hsize t b" by (simp add: header_add_def set_size_def word_le_nat_alt)
    then have "n \<le> hsize t b" using nu(3) by (rule order_trans [rotated])
    moreover have "insert p H - {p} = H" using s(3) by blast
    ultimately show ?thesis using t s run False b(1) by (intro disjI2 exI [of _ t] exI [of _ e'] exI [of _ bs']) auto
  qed
qed

lemma scan_ring:
  assumes sh: "shape {} s bs"
  shows "\<exists>xs. chain (hptr s) (freep s) xs (freep s) \<and> freep s \<notin> set xs \<and> set (freep s # xs) = set (base s # bs)"
proof -
  obtain us vs where split: "base s # bs = us @ freep s # vs" using sh by (metis in_set_conv_decomp shape_def)
  have "distinct (us @ freep s # vs)" using shape_distinct [OF sh] unfolding split .
  then show ?thesis using sh chain_rotate [OF split] unfolding split by (intro exI [of _ "vs @ us"]) (auto simp: shape_def)
qed

text \<open>With a large enough free block the search finds one.\<close>

lemma carved_live:
  assumes "live_ok s bs H" "carved s bs n h t bs'" "0 < n"
  shows "live_ok t bs' (insert h H) \<and> h \<notin> H \<and> (\<forall>k \<in> H. hsize t k = hsize s k)"
proof -
  have same: "\<forall>k \<in> H. hsize t k = hsize s k" using assms(2) live_ok_area [OF assms(1)] unfolding carved_def by blast
  have ar: "block t h \<subseteq> area s bs" "area t bs' \<subseteq> area s bs" using assms(2) unfolding carved_def by blast+
  have "h \<in> block t h" using assms(2,3) by (auto simp: carved_def header_add_def word_less_nat_alt)
  then have "h \<notin> H" using ar(1) live_ok_area [OF assms(1)] by blast
  moreover have "live_ok t bs' H"
    by (rule live_ok_transfer [OF assms(1) same]) (use assms(1,2) ar(2) in \<open>auto simp: carved_def live_ok_def\<close>)
  moreover have "\<forall>k \<in> H. block t h \<inter> block t k = {}"
  proof
    fix k
    assume "k \<in> H"
    then have "block s k \<inter> area s bs = {}" "block t k = block s k" using assms(1) same by (simp_all add: live_ok_def)
    then show "block t h \<inter> block t k = {}" using ar(1) by blast
  qed
  moreover have c: "hsize t h = n" "base t = base s" "base s < h" "block_end t h \<le> 2 ^ 36" "block t h \<inter> area t bs' = {}"
    using assms(2) unfolding carved_def by blast+
  moreover have "base t < h" "0 < hsize t h" using c(1-3) assms(3) by simp_all
  ultimately show ?thesis using same live_ok_insert by blast
qed

lemma malloc_finds:
  assumes sh: "shape {} s bs" and live: "live_ok s bs H" and n: "0 < n" and fit: "\<exists>b \<in> set bs. n \<le> hsize s b"
  shows "\<exists>h t bs'. malloc_loop sbrk n (freep s) (hptr s (freep s)) (s, e) = Some (h + HEADER, t, e) \<and> shape {} t bs' \<and>
    live_ok t bs' (insert h H) \<and> h \<notin> H \<and> hsize t h = n \<and> (\<forall>k \<in> H. hsize t k = hsize s k) \<and> base t = base s"
proof -
  obtain xs where xs: "chain (hptr s) (freep s) xs (freep s)" "freep s \<notin> set xs" "set (freep s # xs) = set (base s # bs)"
    using scan_ring [OF sh] by blast
  have "\<not> (\<forall>x \<in> set (freep s # xs). hsize s x < n)" using fit unfolding xs(3) by (auto simp: not_less)
  then obtain prev x where px: "prev \<in> set (base s # bs)" "hptr s prev = x" "n \<le> hsize s x"
    "malloc_loop sbrk n (freep s) (hptr s (freep s)) (s, e) = (let (r, t) = take_block prev x n s in Some (r, t, e))"
    using malloc_scan [OF xs(1,2), of n sbrk e] unfolding xs(3) by blast
  obtain h t bs' where t: "take_block prev x n s = (h + HEADER, t)" "carved s bs n h t bs'"
    using take_block_carves [OF sh px(1,2) n px(3)] by blast
  then have "shape {} t bs'" "hsize t h = n" "base t = base s" unfolding carved_def by blast+
  then show ?thesis using px(4) t(1) carved_live [OF live t(2) n] by auto
qed

lemma malloc_loop_inv:
  assumes sh: "shape {} s bs" and live: "live_ok s bs H" and fresh: "sbrk_fresh sbrk s H e" and n: "0 < n" "unat n < 2 ^ 27"
  shows "\<exists>r t e' bs'. malloc_loop sbrk n (freep s) (hptr s (freep s)) (s, e) = Some (r, t, e') \<and> shape {} t bs' \<and> base t = base s \<and>
    (\<forall>k \<in> H. hsize t k = hsize s k) \<and>
    (r = 0 \<and> live_ok t bs' H \<and> fst (sbrk (int (HEADER * max 4096 (unat n))) e) = SBRK_ERROR \<or>
     (\<exists>h. r = h + HEADER \<and> h \<notin> H \<and> live_ok t bs' (insert h H) \<and> hsize t h = n))"
proof (cases "\<exists>b \<in> set bs. n \<le> hsize s b")
  case True
  then show ?thesis using malloc_finds [OF sh live n(1) True, of sbrk e] by blast
next
  case False
  obtain xs where xs: "chain (hptr s) (freep s) xs (freep s)" "freep s \<notin> set xs" "set (freep s # xs) = set (base s # bs)"
    using scan_ring [OF sh] by blast
  have loop: "malloc_loop sbrk n (freep s) (hptr s (freep s)) (s, e) =
      (case morecore sbrk n (s, e) of None \<Rightarrow> None
       | Some (p, se) \<Rightarrow> if p = 0 then Some (0, se) else malloc_loop sbrk n p (hptr (fst se) p) se)"
  proof -
    have "\<not> n \<le> hsize s (hptr s prev)" if prev: "prev \<in> set (freep s # xs)" for prev
    proof (cases "hptr s prev = base s")
      case True
      then show ?thesis using sh n(1) by (simp add: shape_def)
    next
      case nb: False
      then obtain us vs where "base s # bs = us @ prev # hptr s prev # vs" using ring_next [OF sh _ nb] prev unfolding xs(3) by blast
      then have "hptr s prev \<in> set bs" by (cases us) auto
      then show ?thesis using False by blast
    qed
    then show ?thesis using malloc_scan [OF xs(1,2), of n sbrk e] by blast
  qed
  from morecore_inv [OF sh live fresh n(2)] show ?thesis
  proof (elim disjE conjE exE)
    fix e'
    assume "fst (sbrk (int (HEADER * max 4096 (unat n))) e) = SBRK_ERROR" "morecore sbrk n (s, e) = Some (0, s, e')"
    then show ?thesis using loop sh live by (intro exI [of _ 0] exI [of _ s] exI [of _ e'] exI [of _ bs]) auto
  next
    fix t e' bs'
    assume t: "morecore sbrk n (s, e) = Some (freep t, t, e')" "shape {} t bs'" "live_ok t bs' H" "base t = base s"
      "\<forall>h \<in> H. hsize t h = hsize s h" "\<exists>b \<in> set bs'. n \<le> hsize t b"
    have "malloc_loop sbrk n (freep s) (hptr s (freep s)) (s, e) = malloc_loop sbrk n (freep t) (hptr t (freep t)) (t, e')"
      using loop t(1) shape_nonzero [OF t(2)] by simp
    then show ?thesis using malloc_finds [OF t(2,3) n(1) t(6), of sbrk e'] t(4,5) by auto
  qed
qed

text \<open>The size in headers of a request.\<close>

lemma units:
  assumes "nbytes \<le> 0x7fffff00"
  shows "unat ((nbytes + 15) div 16 + 1 :: u32) = (unat nbytes + 15) div 16 + 1" "unat ((nbytes + 15) div 16 + 1 :: u32) < 2 ^ 27"
proof -
  have a: "unat nbytes \<le> 0x7fffff00" using assms by (simp add: word_le_nat_alt)
  then have "unat (nbytes + 15) = unat nbytes + 15" by (simp add: unat_word_ariths)
  then have "unat ((nbytes + 15) div 16) = (unat nbytes + 15) div 16" by (simp add: unat_div)
  then show "unat ((nbytes + 15) div 16 + 1 :: u32) = (unat nbytes + 15) div 16 + 1" using a by (simp add: unat_word_ariths)
  then show "unat ((nbytes + 15) div 16 + 1 :: u32) < 2 ^ 27" using a by simp
qed

text \<open>
  C34: \<open>malloc\<close> returns: a null pointer, when \<open>sbrk\<close> fails for the size asked, at least 65536 bytes, or a pointer behind the header of a block of at least the requested
  size that overlaps neither the free list nor any block that the client has.  The blocks of the client, with their
  sizes, are left alone, and the heap stays well-formed: the free blocks form one ring, in the order of their addresses, and
  no two of them touch.  The request is at most 0x7fffff00 bytes and the heap lies below the address 2 to the 36.
\<close>

theorem malloc_correct:
  assumes "heap_inv s H" "sbrk_fresh sbrk s H e" "nbytes \<le> 0x7fffff00"
  shows "\<exists>r t e'. malloc sbrk nbytes (s, e) = Some (r, t, e') \<and> (\<forall>k \<in> H. hsize t k = hsize s k) \<and>
    (r = 0 \<and> heap_inv t H \<and> fst (sbrk (int (HEADER * max 4096 ((unat nbytes + 15) div 16 + 1))) e) = SBRK_ERROR \<or>
     (\<exists>h. r = h + HEADER \<and> h \<notin> H \<and> heap_inv t (insert h H) \<and> unat nbytes \<le> HEADER * unat (hsize t h) - HEADER))"
proof -
  obtain bs where bs: "heap_free s bs" "live_ok s bs H" using assms(1) by (auto simp: heap_inv_def)
  let ?s = "if freep s = 0 then (set_size (base s) 0 (set_ptr (base s) (base s) s))\<lparr>freep := base s\<rparr> else s"
  let ?n = "(nbytes + 15) div 16 + 1 :: u32"
  note u = units [OF assms(3)]
  have sh: "shape {} ?s bs" using bs(1) by (auto simp: heap_free_def shape_def set_size_def set_ptr_def)
  have same: "\<forall>k \<in> H. hsize ?s k = hsize s k" "base ?s = base s" using bs(2) by (auto simp: live_ok_def set_size_def set_ptr_def)
  have live: "live_ok ?s bs H"
    by (rule live_ok_transfer [OF bs(2) same]) (use bs in \<open>auto simp: heap_free_def live_ok_def\<close>)
  have fresh: "sbrk_fresh sbrk ?s H e"
  proof (cases "freep s = 0")
    case True
    have "bs' = []" if "heap_free ?s bs'" for bs'
      using that True bs(1) by (cases bs') (auto simp: heap_free_def shape_def set_size_def set_ptr_def before_def header_add_def)
    moreover have "heap_free s []" using True bs(1) by (simp add: heap_free_def)
    moreover have "(\<Union>h \<in> H. block ?s h) = (\<Union>h \<in> H. block s h)" using same(1) by simp
    ultimately show ?thesis using assms(2) same(2) unfolding sbrk_fresh_def by (metis (no_types, lifting) area_simps(1))
  qed (use assms(2) in simp)
  have "0 < ?n" using u(1) by (simp add: word_less_nat_alt)
  from malloc_loop_inv [OF sh live fresh this u(2)] obtain r t e' bs' where t:
    "malloc_loop sbrk ?n (freep ?s) (hptr ?s (freep ?s)) (?s, e) = Some (r, t, e')" "shape {} t bs'" "base t = base ?s" "\<forall>k \<in> H. hsize t k = hsize ?s k"
    "r = 0 \<and> live_ok t bs' H \<and> fst (sbrk (int (HEADER * max 4096 (unat ?n))) e) = SBRK_ERROR \<or> (\<exists>h. r = h + HEADER \<and> h \<notin> H \<and> live_ok t bs' (insert h H) \<and> hsize t h = ?n)"
    by blast
  have "malloc sbrk nbytes (s, e) = Some (r, t, e')" using t(1) by (simp add: malloc_def Let_def)
  moreover have "heap_inv t K" if "live_ok t bs' K" for K
    using that shape_free [OF t(2)] by (auto simp: heap_inv_def)
  moreover have "unat nbytes \<le> HEADER * unat (hsize t h) - HEADER" if "hsize t h = ?n" for h using that u(1) by simp
  moreover have "\<forall>k \<in> H. hsize t k = hsize s k" using t(4) same(1) by simp
  ultimately show ?thesis using t(5) [unfolded u(1)] by (intro exI [of _ r] exI [of _ t] exI [of _ e']) metis
qed

text \<open>
  C35: \<open>free\<close> of a block of the client returns and keeps the heap well-formed: exactly the bytes of the block become free, joined
  with the free neighbours that they touch, and the other blocks of the client are left alone.
\<close>

theorem free_correct:
  assumes "heap_inv s H" "h \<in> H" "freep s \<noteq> 0"
  shows "\<exists>t bs bs'. free (h + HEADER) s = Some t \<and> heap_free s bs \<and> heap_free t bs' \<and> area t bs' = area s bs \<union> block s h \<and>
    heap_inv t (H - {h}) \<and> (\<forall>k \<in> H - {h}. hsize t k = hsize s k)"
proof -
  obtain bs where bs: "shape {} s bs" "live_ok s bs H" using assms(1,3) by (auto simp: heap_inv_def heap_free_def)
  obtain t bs' where t: "free (h + HEADER) s = Some t" "shape {} t bs'" "area t bs' = area s bs \<union> block s h"
    "live_ok t bs' (H - {h})" "\<forall>k \<in> H - {h}. hsize t k = hsize s k" using free_inv [OF bs assms(2)] by blast
  have "heap_free t bs'" "heap_free s bs" using shape_free t(2) bs(1) by blast+
  then show ?thesis using t unfolding heap_inv_def by blast
qed

subsection \<open>Concrete heaps\<close>

text \<open>\<open>sbrk\<close> of a process whose memory ends at \<open>e\<close>, and a heap before the first call.\<close>

definition demo_sbrk :: "int \<Rightarrow> nat \<Rightarrow> nat \<times> nat" where
  "demo_sbrk n e = (if n < 0 \<or> int e + n > 2 ^ 36 then (SBRK_ERROR, e) else (e, e + nat n))"

definition demo_heap :: heap where
  "demo_heap = \<lparr>hptr = \<lambda>_. 0, hsize = \<lambda>_. 0, freep = 0, base = 0x1000\<rparr>"

theorem malloc_correct_witness:
  "\<exists>h t e'. malloc demo_sbrk 100 (demo_heap, 0x4000) = Some (h + HEADER, t, e') \<and> heap_inv t {h} \<and> 100 \<le> HEADER * unat (hsize t h) - HEADER"
proof -
  have "heap_inv demo_heap {}" by (auto simp: heap_inv_def heap_free_def live_ok_def demo_heap_def)
  moreover have "sbrk_fresh demo_sbrk demo_heap {} 0x4000"
    unfolding sbrk_fresh_def by (auto simp: demo_heap_def heap_free_def demo_sbrk_def)
  moreover have "fst (demo_sbrk 65536 0x4000) \<noteq> SBRK_ERROR" by (simp add: demo_sbrk_def)
  ultimately show ?thesis using malloc_correct [of demo_heap "{}" demo_sbrk "0x4000" 100] by auto
qed

text \<open>A heap with one free block of 8 headers and, right above it, a block of the client of 2.\<close>

definition demo_heap2 :: heap where
  "demo_heap2 = \<lparr>hptr = (\<lambda>p. if p = 0x1000 then 0x4000 else 0x1000),
     hsize = (\<lambda>p. if p = 0x4000 then 8 else if p = 0x4080 then 2 else 0), freep = 0x1000, base = 0x1000\<rparr>"

theorem free_correct_witness:
  "\<exists>t bs bs'. free 0x4090 demo_heap2 = Some t \<and> heap_free demo_heap2 bs \<and> heap_free t bs' \<and>
    area t bs' = area demo_heap2 bs \<union> {0x4080..<0x40a0} \<and> heap_inv t {}"
proof -
  have "shape {} demo_heap2 [0x4000]" by (simp add: shape_def demo_heap2_def before_def header_add_def)
  moreover have "live_ok demo_heap2 [0x4000] {0x4080}" by (auto simp: live_ok_def demo_heap2_def header_add_def)
  ultimately have "heap_inv demo_heap2 {0x4080}" using shape_free by (auto simp: heap_inv_def)
  moreover have "freep demo_heap2 \<noteq> 0" "block demo_heap2 0x4080 = {0x4080..<0x40a0}" by (simp_all add: demo_heap2_def header_add_def)
  ultimately show ?thesis using free_correct [of demo_heap2 "{0x4080}" "0x4080"] by simp
qed

end
