(* ===== verification/Ugrep.thy ===== *)
theory Ugrep
  imports Ulib
begin

section \<open>The pattern search program (user/grep.rs)\<close>

text \<open>
  A pattern or a line is the list of its bytes before the NUL, so \<open>*re == 0\<close> is \<open>re = []\<close> and \<open>re.add(1)\<close> is \<open>tl re\<close>.
\<close>

abbreviation STAR :: u8 where "STAR \<equiv> 42"
abbreviation DOLLAR :: u8 where "DOLLAR \<equiv> 36"
abbreviation DOT :: u8 where "DOT \<equiv> 46"
abbreviation CARET :: u8 where "CARET \<equiv> 94"
abbreviation NEWLINE :: u8 where "NEWLINE \<equiv> 10"

subsection \<open>The matcher\<close>

function match_here :: "u8 list \<Rightarrow> u8 list \<Rightarrow> bool" and match_star :: "u8 \<Rightarrow> u8 list \<Rightarrow> u8 list \<Rightarrow> bool" where
  "match_here re text =
     (case re of
        [] \<Rightarrow> True
      | c # re' \<Rightarrow>
          if re' \<noteq> [] \<and> hd re' = STAR then match_star c (tl re') text
          else if c = DOLLAR \<and> re' = [] then text = []
          else if text \<noteq> [] \<and> (c = DOT \<or> c = hd text) then match_here re' (tl text)
          else False)"
| "match_star c re text =
     (if match_here re text then True
      else if text = [] then False
      else if hd text = c \<or> c = DOT then match_star c re (tl text)
      else False)"
  by pat_completeness auto
termination
  by (relation "measures [\<lambda>x. case x of Inl (re, _) \<Rightarrow> 2 * length re | Inr (_, re, _) \<Rightarrow> 2 * length re + 1,
      \<lambda>x. case x of Inl (_, text) \<Rightarrow> length text | Inr (_, _, text) \<Rightarrow> length text]")
    (auto simp: neq_Nil_conv)

declare match_here.simps [simp del] match_star.simps [simp del]

primrec match_anywhere :: "u8 list \<Rightarrow> u8 list \<Rightarrow> bool" where
  "match_anywhere re [] = match_here re []"
| "match_anywhere re (b # text) = (match_here re (b # text) \<or> match_anywhere re text)"

definition match_re :: "u8 list \<Rightarrow> u8 list \<Rightarrow> bool" where
  "match_re re text = (if re \<noteq> [] \<and> hd re = CARET then match_here (tl re) text else match_anywhere re text)"

subsection \<open>The loop over the input\<close>

text \<open>
  The buffer holds \<open>m\<close> bytes, the list \<open>buf\<close>.  \<open>scan_lines\<close> is the inner loop: it returns what is written to the
  standard output and the bytes after the last newline.  A NUL byte ends the string that \<open>strchr\<close> searches.
\<close>

definition strchr_newline :: "u8 list \<Rightarrow> (u8 list \<times> u8 list) option" where
  "strchr_newline p = (let q = takeWhile (\<lambda>b. b \<noteq> 0 \<and> b \<noteq> NEWLINE) p in
     case drop (length q) p of [] \<Rightarrow> None | b # rest \<Rightarrow> if b = NEWLINE then Some (q, rest) else None)"

lemma strchr_newline_shorter: "strchr_newline p = Some (q, rest) \<Longrightarrow> length rest < length p"
proof -
  assume "strchr_newline p = Some (q, rest)"
  then have "drop (length q) p = NEWLINE # rest"
    by (auto simp: strchr_newline_def Let_def split: list.splits if_splits)
  then have "length (drop (length q) p) = Suc (length rest)" by simp
  then show ?thesis by simp
qed

function scan_lines :: "u8 list \<Rightarrow> u8 list \<Rightarrow> u8 list list \<times> u8 list" where
  "scan_lines pattern p = (case strchr_newline p of
     None \<Rightarrow> ([], p)
   | Some (line, rest) \<Rightarrow>
       let (out, left) = scan_lines pattern rest in
       (if match_re pattern line then (line @ [NEWLINE]) # out else out, left))"
  by pat_completeness auto
termination by (relation "measure (\<lambda>(_, p). length p)") (auto dest: strchr_newline_shorter)

declare scan_lines.simps [simp del]

text \<open>
  \<open>read\<close> is the system call: for a count and the environment, the bytes stored, empty at the end of the file and on an
  error, and the new environment.  The number of rounds is the fuel.  The result is the writes to the standard output.
\<close>

primrec grep :: "nat \<Rightarrow> (nat \<Rightarrow> 'e \<Rightarrow> u8 list \<times> 'e) \<Rightarrow> u8 list \<Rightarrow> u8 list \<Rightarrow> 'e \<Rightarrow> (u8 list list \<times> 'e) option" where
  "grep 0 read pattern buf e = None"
| "grep (Suc fuel) read pattern buf e =
     (let (got, e) = read (1024 - length buf - 1) e in
      if got = [] then Some ([], e)
      else
        let (out, buf) = scan_lines pattern (buf @ got) in
        map_option (\<lambda>(out', e). (out @ out', e)) (grep fuel read pattern buf e))"

subsection \<open>What a pattern means\<close>

text \<open>A pattern as a predicate: it holds of a text that has a prefix in the language of the pattern.\<close>

fun re_sat :: "u8 list \<Rightarrow> u8 list \<Rightarrow> bool" where
  "re_sat [] t = True"
| "re_sat [c] t = (if c = DOLLAR then t = [] else t \<noteq> [] \<and> (c = DOT \<or> c = hd t))"
| "re_sat (c # d # re) t =
     (if d = STAR then \<exists>k \<le> length t. (\<forall>b \<in> set (take k t). c = DOT \<or> b = c) \<and> re_sat re (drop k t)
      else t \<noteq> [] \<and> (c = DOT \<or> c = hd t) \<and> re_sat (d # re) (tl t))"

lemma ex_le_Cons:
  "(\<exists>k \<le> length (b # t). P k) \<longleftrightarrow> P 0 \<or> (\<exists>k \<le> length t. P (Suc k))"
  by (metis Suc_le_mono le0 length_Cons not0_implies_Suc)

lemma match_star_iff:
  assumes "\<And>t. match_here re t = re_sat re t"
  shows "match_star c re t \<longleftrightarrow> (\<exists>k \<le> length t. (\<forall>b \<in> set (take k t). c = DOT \<or> b = c) \<and> re_sat re (drop k t))"
proof (induction t)
  case Nil
  then show ?case using assms by (simp add: match_star.simps [of c re "[]"])
next
  case (Cons b t)
  have "match_star c re (b # t) \<longleftrightarrow> re_sat re (b # t) \<or> (b = c \<or> c = DOT) \<and> match_star c re t"
    using assms by (simp add: match_star.simps [of c re "b # t"])
  then show ?case unfolding ex_le_Cons Cons.IH by auto
qed

lemma match_here_iff: "match_here re t = re_sat re t"
proof (induction "length re" arbitrary: re t rule: less_induct)
  case less
  consider (nil) "re = []" | (one) c where "re = [c]" | (star) c re' where "re = c # STAR # re'"
    | (lit) c d re' where "re = c # d # re'" "d \<noteq> STAR" by (cases re; cases "tl re") auto
  then show ?case
  proof cases
    case star
    have "match_here re t = match_star c re' t" unfolding star by (simp add: match_here.simps [of "c # STAR # re'"])
    also have "\<dots> \<longleftrightarrow> re_sat re t" unfolding star re_sat.simps using match_star_iff [of re' c t] less star by simp
    finally show ?thesis .
  next
    case lit
    have "match_here (d # re') (tl t) = re_sat (d # re') (tl t)" using less lit by simp
    then show ?thesis unfolding lit(1) using lit(2) by (simp add: match_here.simps [of "c # d # re'"])
  next
    case nil
    then show ?thesis by (simp add: match_here.simps [of "[]"])
  next
    case one
    have "match_here [] (tl t)" by (simp add: match_here.simps)
    then show ?thesis unfolding one by (simp add: match_here.simps [of "[c]"])
  qed
qed

text \<open>
  C32: the backtracking matcher of \<open>grep\<close> decides the meaning of the pattern on every text, and always stops: with a leading
  caret the pattern has to hold at the start of the line, without one at some position of it.
\<close>

theorem match_re_correct:
  "match_re re t = (case re of
     [] \<Rightarrow> True
   | c # re' \<Rightarrow> if c = CARET then re_sat re' t else \<exists>k \<le> length t. re_sat re (drop k t))"
proof -
  have any: "match_anywhere re t \<longleftrightarrow> (\<exists>k \<le> length t. re_sat re (drop k t))" for re
  proof (induction t)
    case (Cons b t)
    then show ?case unfolding ex_le_Cons by (simp add: match_here_iff)
  qed (simp add: match_here_iff)
  then show ?thesis by (auto simp: match_re_def match_here_iff split: list.split)
qed

subsection \<open>Which lines are printed\<close>

text \<open>The lines of a text that end with a newline, without it, and what follows the last newline.\<close>

fun lines_of :: "u8 list \<Rightarrow> u8 list \<Rightarrow> u8 list list" where
  "lines_of acc [] = []"
| "lines_of acc (b # x) = (if b = NEWLINE then acc # lines_of [] x else lines_of (acc @ [b]) x)"

fun tail_of :: "u8 list \<Rightarrow> u8 list \<Rightarrow> u8 list" where
  "tail_of acc [] = acc"
| "tail_of acc (b # x) = (if b = NEWLINE then tail_of [] x else tail_of (acc @ [b]) x)"

lemma lines_of_append: "lines_of acc (x @ y) = lines_of acc x @ lines_of (tail_of acc x) y"
  by (induction acc x rule: lines_of.induct) auto

lemma tail_of_append: "tail_of acc (x @ y) = tail_of (tail_of acc x) y"
  by (induction acc x rule: tail_of.induct) auto

lemma lines_of_run: "NEWLINE \<notin> set q \<Longrightarrow> lines_of acc (q @ x) = lines_of (acc @ q) x \<and> tail_of acc (q @ x) = tail_of (acc @ q) x"
  by (induction q arbitrary: acc) auto

definition printed_lines :: "u8 list \<Rightarrow> u8 list list \<Rightarrow> u8 list list" where
  "printed_lines pattern ls = map (\<lambda>l. l @ [NEWLINE]) (filter (match_re pattern) ls)"

lemma scan_lines_eq: "0 \<notin> set p \<Longrightarrow> scan_lines pattern p = (printed_lines pattern (lines_of [] p), tail_of [] p)"
proof (induction "length p" arbitrary: p rule: less_induct)
  case less
  define q where "q = takeWhile (\<lambda>b. b \<noteq> 0 \<and> b \<noteq> NEWLINE) p"
  have nq: "NEWLINE \<notin> set q" unfolding q_def by (auto dest: set_takeWhileD)
  have split: "p = q @ drop (length q) p" by (metis append_eq_conv_conj takeWhile_eq_take q_def)
  show ?case
  proof (cases "drop (length q) p")
    case Nil
    then have "strchr_newline p = None" by (simp add: strchr_newline_def Let_def flip: q_def)
    then have "scan_lines pattern p = ([], p)" by (simp add: scan_lines.simps [of pattern p])
    moreover have "p = q" using split Nil by simp
    ultimately show ?thesis using lines_of_run [OF nq, of "[]" "[]"] by (simp add: printed_lines_def)
  next
    case (Cons b rest)
    have "\<not> (b \<noteq> 0 \<and> b \<noteq> NEWLINE)"
    proof -
      have "dropWhile (\<lambda>b. b \<noteq> 0 \<and> b \<noteq> NEWLINE) p = b # rest" using Cons unfolding q_def dropWhile_eq_drop .
      then show ?thesis using hd_dropWhile [of "\<lambda>b. b \<noteq> 0 \<and> b \<noteq> NEWLINE" p] by auto
    qed
    moreover have "b \<noteq> 0" using less.prems split Cons by (metis in_set_conv_decomp)
    ultimately have b: "b = NEWLINE" by simp
    then have s: "strchr_newline p = Some (q, rest)" using Cons by (simp add: strchr_newline_def Let_def flip: q_def)
    have p: "p = q @ NEWLINE # rest" using split Cons b by simp
    then have "scan_lines pattern rest = (printed_lines pattern (lines_of [] rest), tail_of [] rest)"
      using less by simp
    moreover have "lines_of [] p = q # lines_of [] rest" "tail_of [] p = tail_of [] rest"
      using lines_of_run [OF nq, of "[]" "NEWLINE # rest"] p by simp_all
    ultimately show ?thesis using s by (simp add: scan_lines.simps [of pattern p] printed_lines_def)
  qed
qed

text \<open>
  \<open>feeds read e x\<close>: from the environment \<open>e\<close> the calls of \<open>read\<close> deliver the bytes of \<open>x\<close>, in pieces of any positive
  size up to the size asked for, and then the end of the file.
\<close>

inductive feeds :: "(nat \<Rightarrow> 'e \<Rightarrow> u8 list \<times> 'e) \<Rightarrow> 'e \<Rightarrow> u8 list \<Rightarrow> bool" for read where
  at_end: "(\<And>n. fst (read n e) = []) \<Longrightarrow> feeds read e []"
| piece: "x \<noteq> [] \<Longrightarrow> (\<And>n. 0 < n \<Longrightarrow> \<exists>j. 0 < j \<and> j \<le> n \<and> j \<le> length x \<and> fst (read n e) = take j x \<and>
    feeds read (snd (read n e)) (drop j x)) \<Longrightarrow> feeds read e x"

inductive_cases feeds_NilE: "feeds read e []"

lemma feeds_piece: "feeds read e x \<Longrightarrow> x \<noteq> [] \<Longrightarrow> 0 < n \<Longrightarrow>
  \<exists>j. 0 < j \<and> j \<le> n \<and> j \<le> length x \<and> fst (read n e) = take j x \<and> feeds read (snd (read n e)) (drop j x)"
  by (erule feeds.cases) blast+

text \<open>No run of bytes without a newline fills the buffer.\<close>

definition short_lines :: "u8 list \<Rightarrow> bool" where
  "short_lines x \<longleftrightarrow> (\<forall>u v w. x = u @ v @ w \<longrightarrow> NEWLINE \<notin> set v \<longrightarrow> length v < 1023)"

lemma tail_of_suffix: "NEWLINE \<notin> set acc \<Longrightarrow> \<exists>u. acc @ x = u @ tail_of acc x \<and> NEWLINE \<notin> set (tail_of acc x)"
proof (induction acc x rule: tail_of.induct)
  case (2 acc b x)
  show ?case
  proof (cases "b = NEWLINE")
    case True
    then obtain u where "x = u @ tail_of [] x" "NEWLINE \<notin> set (tail_of [] x)" using 2 by auto
    then show ?thesis using True by (intro exI [of _ "acc @ b # u"]) simp
  qed (use 2 in auto)
qed auto

lemma grep_spec:
  assumes "feeds read e x" "0 \<notin> set (buf @ x)" "short_lines (buf @ x)" "NEWLINE \<notin> set buf" "length x < fuel"
  shows "\<exists>e'. grep fuel read pattern buf e = Some (printed_lines pattern (lines_of buf x), e')"
  using assms
proof (induction fuel arbitrary: e x buf)
  case (Suc fuel)
  have room: "length buf < 1023" using Suc.prems(3,4) unfolding short_lines_def by (metis append_Nil)
  show ?case
  proof (cases x)
    case Nil
    then have "fst (read (1024 - length buf - 1) e) = []" using Suc.prems(1) by (auto elim: feeds_NilE)
    then show ?thesis using Nil by (auto simp: split_def Let_def printed_lines_def)
  next
    case (Cons b x')
    have "0 < 1024 - length buf - 1" using room by simp
    then obtain j where j: "0 < j" "j \<le> length x" "fst (read (1024 - length buf - 1) e) = take j x"
      "feeds read (snd (read (1024 - length buf - 1) e)) (drop j x)"
      using feeds_piece [OF Suc.prems(1)] Cons by blast
    let ?e = "snd (read (1024 - length buf - 1) e)" and ?p = "buf @ take j x"
    let ?buf = "tail_of [] ?p"
    have "0 \<notin> set ?p" using Suc.prems(2) by (auto dest: in_set_takeD)
    note scan = scan_lines_eq [OF this, of pattern]
    obtain u where u: "?p = u @ ?buf" "NEWLINE \<notin> set ?buf" using tail_of_suffix [of "[]" ?p] by auto
    have bx: "buf @ x = u @ ?buf @ drop j x" using u(1) by (metis append.assoc append_take_drop_id)
    have "\<exists>e'. grep fuel read pattern ?buf ?e = Some (printed_lines pattern (lines_of ?buf (drop j x)), e')"
    proof (rule Suc.IH [OF j(4)])
      show "0 \<notin> set (?buf @ drop j x)" using Suc.prems(2) unfolding bx by simp
      show "short_lines (?buf @ drop j x)" using Suc.prems(3) unfolding bx short_lines_def by (metis append.assoc)
      show "length (drop j x) < fuel" using Suc.prems(5) j(1,2) by simp
    qed (rule u(2))
    moreover have "lines_of buf x = lines_of [] ?p @ lines_of ?buf (drop j x)"
      using lines_of_append [of "[]" ?p "drop j x"] lines_of_run [OF Suc.prems(4), of "[]" x] by simp
    moreover have "take j x \<noteq> []" using j(1) Cons by auto
    ultimately show ?thesis
      using scan j(3) by (auto simp: split_def Let_def printed_lines_def)
  qed
qed simp

text \<open>
  C33: \<open>grep\<close> stops and prints, in order, exactly the newline-terminated lines of its input that the pattern matches, each
  whole and once, however the input is cut into pieces by \<open>read\<close> and although the buffer holds 1023 bytes only, as long as
  no line is longer than that and the input has no NUL byte.
\<close>

theorem grep_correct:
  assumes "feeds read e x" "0 \<notin> set x" "short_lines x"
  shows "\<exists>e'. grep (Suc (length x)) read pattern [] e =
    Some (map (\<lambda>l. l @ [NEWLINE]) (filter (match_re pattern) (lines_of [] x)), e')"
  using grep_spec [of read e x "[]" "Suc (length x)" pattern] assms by (simp add: printed_lines_def)

text \<open>A file that is read byte by byte.\<close>

definition demo_read :: "nat \<Rightarrow> u8 list \<Rightarrow> u8 list \<times> u8 list" where
  "demo_read n e = (take (min n 1) e, drop (min n 1) e)"

lemma demo_read_feeds: "feeds demo_read x x"
proof (induction x)
  case (Cons b x)
  have "min n 1 = 1" if "0 < n" for n :: nat using that by simp
  then show ?case using Cons by (intro feeds.piece) (auto simp: demo_read_def intro!: exI [of _ 1])
qed (auto simp: demo_read_def intro: feeds.at_end)

theorem grep_correct_witness:
  "\<exists>e'. grep 8 demo_read [97, 42, 98] [] [97, 97, 98, 10, 99, 10, 98] = Some ([[97, 97, 98, 10]], e')"
proof -
  have "short_lines [97, 97, 98, 10, 99, 10, 98]"
    unfolding short_lines_def by (auto dest: arg_cong [where f = length])
  moreover have "match_re [97, 42, 98] [97, 97, 98]" "\<not> match_re [97, 42, 98] [99]"
    by (simp_all add: match_re_def match_here.simps match_star.simps)
  moreover have "Suc (length [97, 97, 98, 10, 99, 10, 98 :: u8]) = 8" by simp
  ultimately show ?thesis
    using grep_correct [OF demo_read_feeds, of "[97, 97, 98, 10, 99, 10, 98]" "[97, 42, 98]"]
    by (simp only:) (simp del: grep.simps)
qed

end
