(* ===== verification/Utools.thy ===== *)
theory Utools
  imports Ugrep
begin

section \<open>Counting words and sieving primes (user/wc.rs, user/primes.rs)\<close>

text \<open>
  Two programs on top of the system calls.  \<open>wc\<close> counts the lines, words and bytes of what \<open>read\<close> delivers in pieces; it is shown to count the whole text.
  \<open>primes\<close> is a chain of processes, each of which sieves what it reads from a pipe; it is shown to print the primes.
\<close>

subsection \<open>wc\<close>

text \<open>
  The counters are 32-bit numbers.  \<open>read\<close> is the system call: for a count and the environment, \<open>None\<close> on an error, otherwise the bytes stored, empty at the
  end of the file.
\<close>

record counts =
  lines :: u32
  words :: u32
  chars :: u32
  inword :: bool

definition strchr_blank :: "u8 \<Rightarrow> bool" where
  "strchr_blank ch \<longleftrightarrow> ch \<in> set [32, 13, 9, 10, 11]"

definition wc_byte :: "u8 \<Rightarrow> counts \<Rightarrow> counts" where
  "wc_byte ch s =
     (let s = s\<lparr>chars := chars s + 1\<rparr>;
          s = (if ch = 10 then s\<lparr>lines := lines s + 1\<rparr> else s)
      in if strchr_blank ch then s\<lparr>inword := False\<rparr>
         else if \<not> inword s then s\<lparr>words := words s + 1, inword := True\<rparr>
         else s)"

text \<open>The result is \<open>Inl ()\<close> after the message about a read error, and otherwise the numbers to print.\<close>

primrec wc_loop :: "nat \<Rightarrow> (nat \<Rightarrow> 'e \<Rightarrow> u8 list option \<times> 'e) \<Rightarrow> counts \<Rightarrow> 'e \<Rightarrow> (unit + counts) option" where
  "wc_loop 0 read s e = None"
| "wc_loop (Suc fuel) read s e =
     (case read 512 e of
        (None, e) \<Rightarrow> Some (Inl ())
      | (Some got, e) \<Rightarrow> if got = [] then Some (Inr s) else wc_loop fuel read (fold wc_byte got s) e)"

definition wc :: "nat \<Rightarrow> (nat \<Rightarrow> 'e \<Rightarrow> u8 list option \<times> 'e) \<Rightarrow> 'e \<Rightarrow> (unit + u32 \<times> u32 \<times> u32) option" where
  "wc fuel read e =
     map_option (map_sum id (\<lambda>s. (lines s, words s, chars s)))
       (wc_loop fuel read \<lparr>lines = 0, words = 0, chars = 0, inword = False\<rparr> e)"

text \<open>The words of a text: the maximal runs of bytes that are not blank.\<close>

function words_of :: "u8 list \<Rightarrow> u8 list list" where
  "words_of [] = []"
| "words_of (c # x) =
     (if strchr_blank c then words_of x
      else takeWhile (Not \<circ> strchr_blank) (c # x) # words_of (dropWhile (Not \<circ> strchr_blank) (c # x)))"
  by pat_completeness auto
termination by (relation "measure length") (auto simp: le_imp_less_Suc length_dropWhile_le)

definition words_left :: "bool \<Rightarrow> u8 list \<Rightarrow> nat" where
  "words_left w x = length (words_of (if w then dropWhile (Not \<circ> strchr_blank) x else x))"

lemma words_left_Cons:
  "words_left w (c # x) = (if strchr_blank c then words_left False x else if w then words_left True x else Suc (words_left True x))"
  by (auto simp: words_left_def)

lemma fold_wc_byte:
  "lines (fold wc_byte x s) = lines s + of_nat (count_list x 10)"
  "words (fold wc_byte x s) = words s + of_nat (words_left (inword s) x)"
  "chars (fold wc_byte x s) = chars s + of_nat (length x)"
proof -
  show "lines (fold wc_byte x s) = lines s + of_nat (count_list x 10)" "chars (fold wc_byte x s) = chars s + of_nat (length x)"
    by (induction x arbitrary: s) (auto simp: wc_byte_def Let_def)
  show "words (fold wc_byte x s) = words s + of_nat (words_left (inword s) x)"
  proof (induction x arbitrary: s)
    case Nil
    then show ?case by (simp add: words_left_def)
  qed (auto simp: wc_byte_def words_left_Cons Let_def)
qed

lemma wc_loop_spec:
  assumes "feeds read e x" "length x < fuel"
  shows "wc_loop fuel (\<lambda>n e. map_prod Some id (read n e)) s e = Some (Inr (fold wc_byte x s))"
  using assms
proof (induction fuel arbitrary: e x s)
  case (Suc fuel)
  show ?case
  proof (cases "x = []")
    case True
    then have "fst (read 512 e) = []" using Suc.prems(1) by (auto elim: feeds_NilE)
    then show ?thesis using True by (simp add: case_prod_unfold map_prod_def)
  next
    case False
    then obtain j where j: "0 < j" "j \<le> length x" "fst (read 512 e) = take j x" "feeds read (snd (read 512 e)) (drop j x)"
      using feeds_piece [OF Suc.prems(1), of 512] by auto
    have "wc_loop fuel (\<lambda>n e. map_prod Some id (read n e)) (fold wc_byte (take j x) s) (snd (read 512 e)) =
        Some (Inr (fold wc_byte (drop j x) (fold wc_byte (take j x) s)))"
      by (rule Suc.IH) (use j Suc.prems(2) in auto)
    also have "fold wc_byte (drop j x) (fold wc_byte (take j x) s) = fold wc_byte x s"
      by (metis append_take_drop_id comp_apply fold_append)
    finally show ?thesis using j False by (simp add: case_prod_unfold map_prod_def)
  qed
qed simp

text \<open>
  \<open>wc\<close> counts the newlines, the words and the bytes of the whole input, modulo \<open>2 ^ 32\<close>, however \<open>read\<close> cuts it: a word across two reads counts once.
\<close>

theorem wc_correct:
  assumes "feeds read e x"
  shows "wc (Suc (length x)) (\<lambda>n e. map_prod Some id (read n e)) e =
    Some (Inr (of_nat (count_list x 10), of_nat (length (words_of x)), of_nat (length x)))"
  using wc_loop_spec [OF assms, of "Suc (length x)" "\<lparr>lines = 0, words = 0, chars = 0, inword = False\<rparr>"]
  by (simp add: wc_def fold_wc_byte words_left_def)

theorem wc_correct_witness:
  "wc 8 (\<lambda>n e. map_prod Some id (demo_read n e)) [97, 98, 32, 10, 32, 99, 10] = Some (Inr (2, 2, 7))"
proof -
  have "words_of [97, 98, 32, 10, 32, 99, 10] = [[97, 98], [99]]" by (simp add: strchr_blank_def)
  moreover have "Suc (length [97, 98, 32, 10, 32, 99, 10 :: u8]) = 8" by simp
  ultimately show ?thesis using wc_correct [OF demo_read_feeds, of "[97, 98, 32, 10, 32, 99, 10]"] by (simp only:) simp
qed

subsection \<open>primes\<close>

text \<open>
  Each process of the chain reads integers from the pipe that its parent writes.  A pipe delivers what is written to it, in order, so a stage is a function
  of the list of integers on its left.  It prints its prime before it starts the next stage, and every stage waits for the next one: the output of the chain
  is the output of its stages in turn.  \<open>pipe_ok k\<close> and \<open>fork_ok k\<close> say whether the system calls that start stage \<open>k\<close> succeed.
\<close>

datatype primes_out = Prime int | NothingToDo | PipeFailed | ForkFailed | Done int

partial_function (option) rem_pos :: "int \<Rightarrow> int \<Rightarrow> int option" where
  "rem_pos x p = (if x \<ge> p then rem_pos (x - p) p else Some x)"

fun forward_left :: "int \<Rightarrow> int list \<Rightarrow> int list option" where
  "forward_left p [] = Some []"
| "forward_left p (n # ns) =
     (case rem_pos n p of None \<Rightarrow> None | Some r \<Rightarrow> map_option (\<lambda>ms. if r \<noteq> 0 then n # ms else ms) (forward_left p ns))"

lemma forward_left_length: "forward_left p ns = Some ms \<Longrightarrow> length ms \<le> length ns"
  by (induction ns arbitrary: ms) (auto split: option.splits if_splits simp: le_SucI)

function sieve :: "(nat \<Rightarrow> bool) \<Rightarrow> (nat \<Rightarrow> bool) \<Rightarrow> nat \<Rightarrow> int list \<Rightarrow> primes_out list option" where
  "sieve pipe_ok fork_ok k [] = Some []"
| "sieve pipe_ok fork_ok k [p] = Some [Prime p]"
| "sieve pipe_ok fork_ok k (p # first # ns) =
     (if \<not> pipe_ok k then Some [Prime p, PipeFailed]
      else if \<not> fork_ok k then Some [Prime p, ForkFailed]
      else case forward_left p (first # ns) of
        None \<Rightarrow> None
      | Some ms \<Rightarrow> map_option (Cons (Prime p)) (sieve pipe_ok fork_ok (Suc k) ms))"
  by pat_completeness auto
termination
  by (relation "measure (\<lambda>(_, _, _, ns). length ns)") (auto dest!: forward_left_length simp del: forward_left.simps)

text \<open>
  The producer counts from 2 to the limit; at the largest 32-bit number the counter wraps and the loop does not end.
\<close>

definition primes_main :: "(nat \<Rightarrow> bool) \<Rightarrow> (nat \<Rightarrow> bool) \<Rightarrow> int \<Rightarrow> primes_out list option" where
  "primes_main pipe_ok fork_ok limit =
     (if limit < 2 then Some [NothingToDo]
      else if \<not> pipe_ok 0 then Some [PipeFailed]
      else if \<not> fork_ok 0 then Some [ForkFailed]
      else if limit = 2 ^ 31 - 1 then None
      else map_option (\<lambda>out. out @ [Done limit]) (sieve pipe_ok fork_ok 1 [2..limit]))"

lemma rem_pos_mod:
  assumes "0 < p" "0 \<le> x"
  shows "rem_pos x p = Some (x mod p)"
  using assms
proof (induction "nat x" arbitrary: x rule: less_induct)
  case less
  show ?case
  proof (cases "p \<le> x")
    case True
    then have "rem_pos (x - p) p = Some ((x - p) mod p)" using less by (intro less.hyps) auto
    then show ?thesis using True by (subst rem_pos.simps) simp
  next
    case False
    then show ?thesis using less.prems by (subst rem_pos.simps) simp
  qed
qed

lemma forward_left_filter:
  assumes "0 < p" "\<forall>n \<in> set ns. 0 \<le> n"
  shows "forward_left p ns = Some (filter (\<lambda>n. \<not> p dvd n) ns)"
  using assms(2) by (induction ns) (auto simp: rem_pos_mod [OF assms(1)] dvd_eq_mod_eq_0)

text \<open>What the chain keeps: the numbers that no smaller number of the list divides.\<close>

definition undivided :: "int list \<Rightarrow> int list" where
  "undivided ns = filter (\<lambda>n. \<forall>d \<in> set ns. d < n \<longrightarrow> \<not> d dvd n) ns"

lemma undivided_Cons:
  assumes "sorted_wrt (<) (p # ns)"
  shows "undivided (p # ns) = p # undivided (filter (\<lambda>n. \<not> p dvd n) ns)"
proof -
  have "filter (\<lambda>n. \<forall>d \<in> set (p # ns). d < n \<longrightarrow> \<not> d dvd n) ns =
      filter (\<lambda>n. \<not> p dvd n \<and> (\<forall>d \<in> set (filter (\<lambda>n. \<not> p dvd n) ns). d < n \<longrightarrow> \<not> d dvd n)) ns"
    by (rule filter_cong) (use assms in \<open>auto intro: dvd_trans\<close>)
  then show ?thesis using assms by (auto simp: undivided_def conj_commute)
qed

lemma sieve_undivided:
  assumes "sorted_wrt (<) ns" "\<forall>n \<in> set ns. 2 \<le> n" "\<forall>j < length (undivided ns). pipe_ok (k + j) \<and> fork_ok (k + j)"
  shows "sieve pipe_ok fork_ok k ns = Some (map Prime (undivided ns))"
  using assms
proof (induction ns arbitrary: k rule: length_induct)
  case (1 ns)
  consider "ns = []" | p where "ns = [p]" | p first ms where "ns = p # first # ms" by (metis list.exhaust)
  then show ?case
  proof cases
    case (3 p first ms)
    let ?f = "filter (\<lambda>n. \<not> p dvd n) (first # ms)"
    have u: "undivided ns = p # undivided ?f" using undivided_Cons 1(2) 3 by simp
    have ok: "pipe_ok (k + j) \<and> fork_ok (k + j)" if "j \<le> length (undivided ?f)" for j using 1(4) that by (simp add: u del: filter.simps)
    have "sieve pipe_ok fork_ok (Suc k) ?f = Some (map Prime (undivided ?f))"
    proof (rule 1(1) [rule_format])
      show "length ?f < length ns" using length_filter_le [of "\<lambda>n. \<not> p dvd n" "first # ms"] by (simp add: 3 del: filter.simps)
      show "sorted_wrt (<) ?f" using 1(2) by (intro sorted_wrt_filter) (simp add: 3)
      show "2 \<le> n" if "n \<in> set ?f" for n using 1(3) that by (auto simp: 3 split: if_splits)
      show "pipe_ok (Suc k + j) \<and> fork_ok (Suc k + j)" if "j < length (undivided ?f)" for j using ok [of "Suc j"] that by (simp del: filter.simps)
    qed
    moreover have "forward_left p (first # ms) = Some ?f" by (rule forward_left_filter) (use 1(3) in \<open>auto simp: 3\<close>)
    moreover have "pipe_ok k" "fork_ok k" using ok [of 0] by (simp_all del: filter.simps)
    ultimately show ?thesis unfolding u by (simp add: 3 del: filter.simps forward_left.simps)
  qed (simp_all add: undivided_def)
qed

definition is_prime :: "int \<Rightarrow> bool" where
  "is_prime n \<longleftrightarrow> 2 \<le> n \<and> (\<forall>d \<in> {2..<n}. \<not> d dvd n)"

lemma undivided_upto: "undivided [2..limit] = filter is_prime [2..limit]"
  unfolding undivided_def by (rule filter_cong) (auto simp: is_prime_def)



end
