(* ===== verification/Ulife.thy ===== *)
theory Ulife
  imports Ulib
begin

section \<open>The game of life (user/life.rs)\<close>

text \<open>
  The program reads and writes its arrays with \<open>get_unchecked\<close>: nothing checks an index when it runs.  Here an access outside the array ends
  the program with \<open>Inl OutOfRange\<close>.  Coordinates are natural numbers below the width and the height; the sum \<open>x + dx + W\<close> is never negative, so the
  remainder is that of the integers.  The result of the program is the list of its writes to the console; its pauses are left out.
\<close>

datatype fault = OutOfRange

type_synonym 'a ures = "fault + 'a"
type_synonym grid = "u8 list"

abbreviation WIDTH :: nat where "WIDTH \<equiv> 50"
abbreviation HEIGHT :: nat where "HEIGHT \<equiv> 18"
abbreviation CELLS :: nat where "CELLS \<equiv> 900"
abbreviation FRAME_CAP :: nat where "FRAME_CAP \<equiv> 2048"

definition idx :: "nat \<Rightarrow> nat \<Rightarrow> nat" where
  "idx x y = y * WIDTH + x"

definition cell :: "grid \<Rightarrow> nat \<Rightarrow> nat \<Rightarrow> u8 ures" where
  "cell g x y = (if idx x y < length g then Inr (g ! idx x y) else Inl OutOfRange)"

definition cell_mut :: "grid \<Rightarrow> nat \<Rightarrow> nat \<Rightarrow> u8 \<Rightarrow> grid ures" where
  "cell_mut g x y v = (if idx x y < length g then Inr (g[idx x y := v]) else Inl OutOfRange)"

definition neighbors :: "grid \<Rightarrow> nat \<Rightarrow> nat \<Rightarrow> u8 ures" where
  "neighbors g x y =
     for_each (\<lambda>dy. for_each (\<lambda>dx n.
       if dx = 0 \<and> dy = 0 then Inr n
       else
         let xx = nat ((int x + dx + int WIDTH) mod int WIDTH);
             yy = nat ((int y + dy + int HEIGHT) mod int HEIGHT)
         in and_then (cell g xx yy) (\<lambda>c. Inr (n + c))) [-1, 0, 1]) [-1, 0, 1] 0"

definition step :: "grid \<Rightarrow> grid \<Rightarrow> grid ures" where
  "step cur nxt =
     for_each (\<lambda>y. for_each (\<lambda>x nxt.
       and_then (neighbors cur x y) (\<lambda>n.
       and_then (cell cur x y) (\<lambda>c.
       let alive = c \<noteq> 0; live_next = alive \<and> (n = 2 \<or> n = 3) \<or> \<not> alive \<and> n = 3
       in cell_mut nxt x y (if live_next then 1 else 0)))) [0..<WIDTH]) [0..<HEIGHT] nxt"

subsection \<open>Drawing\<close>

record frame =
  fbuf :: "u8 list"
  flen :: nat

definition fput :: "u8 list \<Rightarrow> frame \<Rightarrow> frame ures" where
  "fput s f =
     and_then (for_each (\<lambda>i f. if flen f + i < length (fbuf f) then Inr (f\<lparr>fbuf := (fbuf f)[flen f + i := s ! i]\<rparr>) else Inl OutOfRange)
       [0..<length s] f) (\<lambda>f. Inr (f\<lparr>flen := flen f + length s\<rparr>))"

definition fput_byte :: "u8 \<Rightarrow> frame \<Rightarrow> frame ures" where
  "fput_byte c f = (if flen f < length (fbuf f) then Inr (f\<lparr>fbuf := (fbuf f)[flen f := c], flen := flen f + 1\<rparr>) else Inl OutOfRange)"

text \<open>The digits of a number, lowest first, in a buffer of 12 bytes.\<close>

function int_digits :: "int \<Rightarrow> u8 list \<Rightarrow> u8 list ures" where
  "int_digits x tmp =
     (if x > 0 then if length tmp < 12 then int_digits (x div 10) (tmp @ [48 + of_int (x mod 10)]) else Inl OutOfRange else Inr tmp)"
  by pat_completeness auto
termination by (relation "measure (\<lambda>(x, _). nat x)") auto

declare int_digits.simps [simp del]

text \<open>The negation of the smallest number wraps to itself.\<close>

definition fput_int :: "int \<Rightarrow> frame \<Rightarrow> frame ures" where
  "fput_int x f =
     (let neg = x < 0; x = (if neg \<and> x \<noteq> - (2 ^ 31) then - x else x) in
      if x = 0 then fput_byte 48 f
      else and_then (int_digits x []) (\<lambda>tmp.
        and_then (if neg then fput_byte 45 f else Inr f) (for_each fput_byte (rev tmp))))"

definition count_alive :: "grid \<Rightarrow> int ures" where
  "count_alive g = for_each (\<lambda>i c. if i < length g then Inr (c + uint (g ! i)) else Inl OutOfRange) [0..<CELLS] 0"

definition text_of :: "string \<Rightarrow> u8 list" where
  "text_of s = map of_char s"

abbreviation ESC :: u8 where "ESC \<equiv> 27"

definition life_render :: "grid \<Rightarrow> int \<Rightarrow> u8 list ures" where
  "life_render g n =
     and_then (fput ([ESC] @ text_of ''[H'') \<lparr>fbuf = replicate FRAME_CAP 0, flen = 0\<rparr>) (\<lambda>f.
     and_then (fput ([ESC] @ text_of ''[1;36m  Conway'' @ [39] @ text_of ''s Game of Life'' @ [ESC] @ text_of ''[0m   gen='' @ [ESC] @ text_of ''[33m'') f) (\<lambda>f.
     and_then (fput_int n f) (\<lambda>f.
     and_then (fput ([ESC] @ text_of ''[0m  alive='' @ [ESC] @ text_of ''[33m'') f) (\<lambda>f.
     and_then (count_alive g) (\<lambda>c.
     and_then (fput_int c f) (\<lambda>f.
     and_then (fput ([ESC] @ text_of ''[0m   '' @ [10, 10]) f) (\<lambda>f.
     and_then (fput (text_of ''  +'') f) (\<lambda>f.
     and_then (for_each (\<lambda>_. fput_byte 45) [0..<WIDTH] f) (\<lambda>f.
     and_then (fput (text_of ''+'' @ [10]) f) (\<lambda>f.
     and_then (for_each (\<lambda>y f.
       and_then (fput (text_of ''  |'') f) (\<lambda>f.
       and_then (for_each (\<lambda>x f. and_then (cell g x y) (\<lambda>c. fput_byte (if c \<noteq> 0 then 35 else 32) f)) [0..<WIDTH] f) (\<lambda>f.
       fput (text_of ''|'' @ [10]) f))) [0..<HEIGHT] f) (\<lambda>f.
     and_then (fput (text_of ''  +'') f) (\<lambda>f.
     and_then (for_each (\<lambda>_. fput_byte 45) [0..<WIDTH] f) (\<lambda>f.
     and_then (fput (text_of ''+'' @ [10, 10]) f) (\<lambda>f.
     and_then (fput (text_of ''  (Ctrl-P: procdump)'' @ [10]) f) (\<lambda>f.
     Inr (take (flen f) (fbuf f)))))))))))))))))"

subsection \<open>The program\<close>

definition place :: "grid \<Rightarrow> nat \<Rightarrow> nat \<Rightarrow> (nat \<times> nat) list \<Rightarrow> grid ures" where
  "place g ox oy pat = for_each (\<lambda>(dx, dy) g. cell_mut g ((ox + dx) mod WIDTH) ((oy + dy) mod HEIGHT) 1) pat g"

primrec life_loop :: "nat \<Rightarrow> int \<Rightarrow> grid \<Rightarrow> grid \<Rightarrow> u8 list list \<Rightarrow> u8 list list ures" where
  "life_loop 0 g grd nxt out = Inr out"
| "life_loop (Suc k) g grd nxt out =
     and_then (life_render grd g) (\<lambda>text.
     and_then (step grd nxt) (\<lambda>nxt.
     life_loop k (g + 1) nxt grd (out @ [text])))"

definition life_run :: "int \<Rightarrow> u8 list list ures" where
  "life_run gens =
     and_then (place (replicate CELLS 0) 2 1 [(1, 0), (2, 1), (0, 2), (1, 2), (2, 2)]) (\<lambda>g.
     and_then (place g 22 4 [(0, 0), (1, 0), (2, 0)]) (\<lambda>g.
     and_then (place g 12 10 [(0, 0), (1, 0), (0, 1), (3, 2), (2, 3), (3, 3)]) (\<lambda>g.
     and_then (place g 35 8 [(1, 0), (2, 0), (0, 1), (1, 1), (1, 2)]) (\<lambda>g.
     and_then (place g 30 14 [(1, 0), (2, 0), (3, 0), (0, 1), (1, 1), (2, 1)]) (\<lambda>g.
     and_then (life_loop (nat gens) 0 g (replicate CELLS 0) [[ESC] @ text_of ''[2J'']) (\<lambda>out.
     Inr (out @ [[10]])))))))"

text \<open>The arguments are the addresses of their strings; \<open>atoi\<close> returns when the string has an end.\<close>

definition life_main :: "memory \<Rightarrow> u64 list \<Rightarrow> u8 list list ures option" where
  "life_main m args = map_option life_run (if length args > 1 then atoi m (args ! 1) else Some 200)"

subsection \<open>The rule on a torus\<close>

text \<open>A generation as the set of its live cells, and the grid that stores it.\<close>

definition around :: "(int \<times> int) set" where
  "around = {(-1, -1), (0, -1), (1, -1), (-1, 0), (1, 0), (-1, 1), (0, 1), (1, 1)}"

definition shift :: "nat \<times> nat \<Rightarrow> int \<times> int \<Rightarrow> nat \<times> nat" where
  "shift c d = (nat ((int (fst c) + fst d) mod int WIDTH), nat ((int (snd c) + snd d) mod int HEIGHT))"

definition life_rule :: "(nat \<times> nat) set \<Rightarrow> (nat \<times> nat) set" where
  "life_rule S = {c. let n = card {d \<in> around. shift c d \<in> S} in if c \<in> S then n = 2 \<or> n = 3 else n = 3}"

definition grid_of :: "(nat \<times> nat) set \<Rightarrow> grid" where
  "grid_of S = map (\<lambda>i. if (i mod WIDTH, i div WIDTH) \<in> S then 1 else 0) [0..<CELLS]"

lemma length_grid [simp]: "length (grid_of S) = CELLS"
  by (simp add: grid_of_def)

lemma idx_props:
  assumes "x < WIDTH" "y < HEIGHT"
  shows "idx x y < CELLS" "idx x y mod WIDTH = x" "idx x y div WIDTH = y"
  using assms by (simp_all add: idx_def)

lemma cell_grid: "x < WIDTH \<Longrightarrow> y < HEIGHT \<Longrightarrow> cell (grid_of S) x y = Inr (if (x, y) \<in> S then 1 else 0)"
  using idx_props [of x y] by (simp add: cell_def grid_of_def)

lemma card_around: "card {d \<in> around. P d} = (\<Sum>d \<in> around. if P d then 1 else 0)"
proof -
  have "finite around" by (simp add: around_def)
  then show ?thesis by (simp add: sum.If_cases Int_def)
qed

lemma neighbors_grid: "neighbors (grid_of S) x y = Inr (of_nat (card {d \<in> around. shift (x, y) d \<in> S}))"
proof -
  have c: "cell (grid_of S) (nat ((int x + dx + int WIDTH) mod int WIDTH)) (nat ((int y + dy + int HEIGHT) mod int HEIGHT)) =
      Inr (if shift (x, y) (dx, dy) \<in> S then 1 else 0)" for dx dy
  proof -
    have "nat ((int y + dy + int HEIGHT) mod int HEIGHT) < HEIGHT" "nat ((int x + dx + int WIDTH) mod int WIDTH) < WIDTH" by simp_all
    then show ?thesis using cell_grid by (simp add: shift_def)
  qed
  have "card {d \<in> around. shift (x, y) d \<in> S} = (\<Sum>d \<in> around. if shift (x, y) d \<in> S then 1 else 0)" by (rule card_around)
  also have "of_nat \<dots> = (\<Sum>d \<in> around. if shift (x, y) d \<in> S then 1 else 0 :: u8)" by (simp add: of_nat_sum if_distrib cong: if_cong)
  finally show ?thesis unfolding neighbors_def Let_def c by (simp add: around_def ac_simps)
qed

lemma card_around_le: "card {d \<in> around. P d} \<le> 8"
proof -
  have "finite around" "card around = 8" by (simp_all add: around_def)
  then show ?thesis using card_mono [of around "{d \<in> around. P d}"] by simp
qed

lemma step_grid:
  assumes "length nxt = CELLS"
  shows "step (grid_of S) nxt = Inr (grid_of (life_rule S))"
proof -
  let ?R = "grid_of (life_rule S)"
  let ?I = "\<lambda>k t. length t = CELLS \<and> take k t = take k ?R"
  have inner: "\<exists>t. for_each (\<lambda>x nxt. and_then (neighbors (grid_of S) x y) (\<lambda>n. and_then (cell (grid_of S) x y) (\<lambda>c.
      let alive = c \<noteq> 0; live_next = alive \<and> (n = 2 \<or> n = 3) \<or> \<not> alive \<and> n = 3
      in cell_mut nxt x y (if live_next then 1 else 0)))) [0..<WIDTH] t0 = Inr t \<and> ?I (WIDTH * Suc y) t"
    if "y < HEIGHT" "?I (WIDTH * y) t0" for y t0
  proof -
    have "\<exists>u. and_then (neighbors (grid_of S) x y) (\<lambda>n. and_then (cell (grid_of S) x y) (\<lambda>c.
        let alive = c \<noteq> 0; live_next = alive \<and> (n = 2 \<or> n = 3) \<or> \<not> alive \<and> n = 3
        in cell_mut t x y (if live_next then 1 else 0))) = Inr u \<and> ?I (WIDTH * y + Suc x) u"
      if "x < WIDTH" "?I (WIDTH * y + x) t" for x t
    proof -
      let ?n = "card {d \<in> around. shift (x, y) d \<in> S}"
      have i: "idx x y = WIDTH * y + x" "idx x y < CELLS" using idx_props(1) [OF that(1) \<open>y < HEIGHT\<close>] by (simp_all add: idx_def)
      have n: "(of_nat ?n = (2 :: u8)) = (?n = 2)" "(of_nat ?n = (3 :: u8)) = (?n = 3)"
        using card_around_le [of "\<lambda>d. shift (x, y) d \<in> S"] by (simp_all add: word_unat_eq_iff unsigned_of_nat take_bit_nat_eq_self)
      let ?v = "if (x, y) \<in> life_rule S then 1 else 0 :: u8"
      have "?v = ?R ! idx x y" using idx_props [OF that(1) \<open>y < HEIGHT\<close>] by (simp add: grid_of_def)
      then have "take (Suc (idx x y)) (t[idx x y := ?v]) = take (Suc (idx x y)) ?R"
        using that(2) i by (simp add: take_Suc_conv_app_nth)
      moreover have "(x, y) \<in> life_rule S \<longleftrightarrow> (if (x, y) \<in> S then ?n = 2 \<or> ?n = 3 else ?n = 3)" by (simp add: life_rule_def Let_def)
      then have "and_then (neighbors (grid_of S) x y) (\<lambda>n. and_then (cell (grid_of S) x y) (\<lambda>c.
          let alive = c \<noteq> 0; live_next = alive \<and> (n = 2 \<or> n = 3) \<or> \<not> alive \<and> n = 3
          in cell_mut t x y (if live_next then 1 else 0))) = Inr (t[idx x y := ?v])"
        using that(2) i n neighbors_grid cell_grid [OF that(1) \<open>y < HEIGHT\<close>] by (simp add: Let_def cell_mut_def)
      ultimately show ?thesis using that(2) i(1) by simp
    qed
    from for_each_inv [where I = "\<lambda>x t. ?I (WIDTH * y + x) t" and n = WIDTH, OF _ this] that(2) show ?thesis by (simp add: algebra_simps)
  qed
  have "\<exists>t. step (grid_of S) nxt = Inr t \<and> ?I (WIDTH * HEIGHT) t"
    unfolding step_def by (rule for_each_inv [where I = "\<lambda>y t. ?I (WIDTH * y) t"]) (use assms inner in auto)
  then show ?thesis by auto
qed

subsection \<open>What is drawn\<close>

text \<open>The bytes written to the frame so far.\<close>

definition fills :: "frame \<Rightarrow> u8 list \<Rightarrow> bool" where
  "fills f t \<longleftrightarrow> length (fbuf f) = FRAME_CAP \<and> flen f = length t \<and> length t \<le> FRAME_CAP \<and> take (length t) (fbuf f) = t"

lemma fput_byte_fills: "fills f t \<Longrightarrow> length t < FRAME_CAP \<Longrightarrow> \<exists>f'. fput_byte c f = Inr f' \<and> fills f' (t @ [c])"
  by (simp add: fput_byte_def fills_def take_Suc_conv_app_nth)

lemma fput_fills:
  assumes "fills f t" "length t + length s \<le> FRAME_CAP"
  shows "\<exists>f'. fput s f = Inr f' \<and> fills f' (t @ s)"
proof -
  let ?I = "\<lambda>i g. length (fbuf g) = FRAME_CAP \<and> flen g = length t \<and> take (length t + i) (fbuf g) = t @ take i s"
  have "\<exists>g. for_each (\<lambda>i f. if flen f + i < length (fbuf f) then Inr (f\<lparr>fbuf := (fbuf f)[flen f + i := s ! i]\<rparr>) else Inl OutOfRange)
      [0..<length s] f = Inr g \<and> ?I (length s) g"
    by (rule for_each_inv [where I = ?I]) (use assms in \<open>auto simp: fills_def take_Suc_conv_app_nth\<close>)
  then show ?thesis using assms(2) by (auto simp: fput_def fills_def)
qed

text \<open>A drawing step that appends a text when there is room, and a run of such steps that ends with the contents of the frame.\<close>

definition draws :: "(frame \<Rightarrow> frame ures) \<Rightarrow> u8 list \<Rightarrow> bool" where
  "draws p cs \<longleftrightarrow> (\<forall>f t. fills f t \<longrightarrow> length t + length cs \<le> FRAME_CAP \<longrightarrow> (\<exists>f'. p f = Inr f' \<and> fills f' (t @ cs)))"

definition yields :: "(frame \<Rightarrow> u8 list ures) \<Rightarrow> u8 list \<Rightarrow> bool" where
  "yields p cs \<longleftrightarrow> (\<forall>f t. fills f t \<longrightarrow> length t + length cs \<le> FRAME_CAP \<longrightarrow> p f = Inr (t @ cs))"

lemma draws_fput: "draws (fput s) s"
  using fput_fills by (simp add: draws_def)

lemma draws_byte: "draws (fput_byte c) [c]"
  using fput_byte_fills by (simp add: draws_def)

lemma draws_seq: "draws p a \<Longrightarrow> draws q b \<Longrightarrow> draws (\<lambda>f. and_then (p f) q) (a @ b)"
  unfolding draws_def by (metis (no_types, lifting) add.assoc add_leD1 and_then_Inr append.assoc length_append)

lemma yields_seq: "draws p a \<Longrightarrow> yields q b \<Longrightarrow> yields (\<lambda>f. and_then (p f) q) (a @ b)"
  unfolding draws_def yields_def by (metis (no_types, lifting) add.assoc add_leD1 and_then_Inr append.assoc length_append)

lemma yields_end: "yields (\<lambda>f. Inr (take (flen f) (fbuf f))) []"
  by (simp add: yields_def fills_def)

lemma draws_loop:
  assumes "\<And>i. i \<in> set is \<Longrightarrow> draws (body i) (cs i)"
  shows "draws (for_each body is) (concat (map cs is))"
  using assms
proof (induction "is")
  case Nil
  then show ?case by (simp add: draws_def)
next
  case (Cons i "is")
  then have "draws (\<lambda>f. and_then (body i f) (for_each body is)) (cs i @ concat (map cs is))" by (intro draws_seq) auto
  then show ?case by (simp add: draws_def)
qed

text \<open>Numbers in decimal.\<close>

fun digits_of :: "nat \<Rightarrow> u8 list" where
  "digits_of n = (if n < 10 then [48 + of_nat n] else digits_of (n div 10) @ [48 + of_nat (n mod 10)])"

declare digits_of.simps [simp del]

lemma length_digits: "n < 10 ^ Suc k \<Longrightarrow> length (digits_of n) \<le> Suc k"
proof (induction k arbitrary: n)
  case 0
  then show ?case by (simp add: digits_of.simps)
next
  case (Suc k)
  have "n div 10 < 10 ^ Suc k" using Suc.prems by (simp add: less_mult_imp_div_less mult.commute)
  then show ?case using Suc.IH by (subst digits_of.simps) simp
qed

lemma int_digits_eq:
  assumes "0 < n" "length tmp + length (digits_of n) \<le> 12"
  shows "int_digits (int n) tmp = Inr (tmp @ rev (digits_of n))"
  using assms
proof (induction n arbitrary: tmp rule: less_induct)
  case (less n)
  have d1: "int n div 10 = int (n div 10)" by (simp add: zdiv_int)
  have "int n mod 10 = int (n mod 10)" by (simp add: zmod_int)
  then have d: "int n div 10 = int (n div 10)" "of_int (int n mod 10) = (of_nat (n mod 10) :: u8)" using d1 by simp_all
  have e: "int_digits 0 x = Inr x" for x by (simp add: int_digits.simps)
  show ?case
  proof (cases "n < 10")
    case True
    then show ?thesis using less.prems d e by (simp add: int_digits.simps [of "int n"] digits_of.simps [of n])
  next
    case False
    then have r: "digits_of n = digits_of (n div 10) @ [48 + of_nat (n mod 10)]" by (simp add: digits_of.simps [of n])
    have "int_digits (int (n div 10)) (tmp @ [48 + of_nat (n mod 10)]) = Inr ((tmp @ [48 + of_nat (n mod 10)]) @ rev (digits_of (n div 10)))"
      using False less.prems r by (intro less.IH) auto
    then show ?thesis using less.prems r d by (simp add: int_digits.simps [of "int n"])
  qed
qed

lemma draws_int:
  assumes "n < 2 ^ 31"
  shows "draws (fput_int (int n)) (digits_of n)"
proof (cases "n = 0")
  case True
  then show ?thesis using draws_byte [of 48] by (simp add: fput_int_def digits_of.simps [of 0] draws_def)
next
  case False
  have "length (digits_of n) \<le> 10" using length_digits [of n 9] assms by simp
  then have "int_digits (int n) [] = Inr (rev (digits_of n))" using int_digits_eq [of n "[]"] False by simp
  then have "fput_int (int n) = for_each fput_byte (digits_of n)" using False by (simp add: fput_int_def fun_eq_iff)
  then show ?thesis using draws_loop [of "digits_of n" fput_byte "\<lambda>c. [c]"] draws_byte by simp
qed

text \<open>The picture of a generation.\<close>

definition picture_row :: "(nat \<times> nat) set \<Rightarrow> nat \<Rightarrow> u8 list" where
  "picture_row S y = text_of ''  |'' @ map (\<lambda>x. if (x, y) \<in> S then 35 else 32) [0..<WIDTH] @ text_of ''|'' @ [10]"

definition field :: "(nat \<times> nat) set" where
  "field = {..<WIDTH} \<times> {..<HEIGHT}"

definition picture :: "(nat \<times> nat) set \<Rightarrow> nat \<Rightarrow> u8 list" where
  "picture S n =
     [ESC] @ text_of ''[H'' @ [ESC] @ text_of ''[1;36m  Conway'' @ [39] @ text_of ''s Game of Life'' @ [ESC] @ text_of ''[0m   gen='' @
     [ESC] @ text_of ''[33m'' @ digits_of n @ [ESC] @ text_of ''[0m  alive='' @ [ESC] @ text_of ''[33m'' @ digits_of (card (S \<inter> field)) @
     [ESC] @ text_of ''[0m   '' @ [10, 10] @ text_of ''  +'' @ replicate WIDTH 45 @ text_of ''+'' @ [10] @
     concat (map (picture_row S) [0..<HEIGHT]) @
     text_of ''  +'' @ replicate WIDTH 45 @ text_of ''+'' @ [10, 10] @ text_of ''  (Ctrl-P: procdump)'' @ [10]"

lemma count_alive_grid: "count_alive (grid_of S) = Inr (int (card (S \<inter> field)))"
proof -
  have "\<exists>c. for_each (\<lambda>i c. if i < length (grid_of S) then Inr (c + uint (grid_of S ! i)) else Inl OutOfRange) [0..<CELLS] 0 = Inr c \<and>
      c = (\<Sum>i<CELLS. uint (grid_of S ! i))"
    by (rule for_each_inv [where I = "\<lambda>i c. c = (\<Sum>j<i. uint (grid_of S ! j))"]) auto
  moreover have "(\<Sum>i<CELLS. uint (grid_of S ! i)) = (\<Sum>i<CELLS. if (i mod WIDTH, i div WIDTH) \<in> S then 1 else 0)"
    by (rule sum.cong) (auto simp: grid_of_def)
  moreover have "\<dots> = int (card {i. i < CELLS \<and> (i mod WIDTH, i div WIDTH) \<in> S})" by (simp add: sum.If_cases Int_def)
  moreover have "bij_betw (\<lambda>i. (i mod WIDTH, i div WIDTH)) {i. i < CELLS \<and> (i mod WIDTH, i div WIDTH) \<in> S} (S \<inter> field)"
    by (rule bij_betw_byWitness [where f' = "\<lambda>(x, y). idx x y"]) (auto simp: field_def idx_def)
  ultimately show ?thesis by (simp add: count_alive_def bij_betw_same_card)
qed

lemma card_field_le: "card (S \<inter> field) \<le> CELLS"
proof -
  have "card (S \<inter> field) \<le> card field" by (rule card_mono) (auto simp: field_def)
  then show ?thesis by (simp add: field_def)
qed

lemma draws_row:
  assumes "y < HEIGHT"
  shows "draws (\<lambda>f. and_then (fput (text_of ''  |'') f) (\<lambda>f.
    and_then (for_each (\<lambda>x f. and_then (cell (grid_of S) x y) (\<lambda>c. fput_byte (if c \<noteq> 0 then 35 else 32) f)) [0..<WIDTH] f) (\<lambda>f.
    fput (text_of ''|'' @ [10]) f))) (picture_row S y)"
proof -
  have "draws (for_each (\<lambda>x f. and_then (cell (grid_of S) x y) (\<lambda>c. fput_byte (if c \<noteq> 0 then 35 else 32) f)) [0..<WIDTH])
      (concat (map (\<lambda>x. [if (x, y) \<in> S then 35 else 32]) [0..<WIDTH]))"
    by (rule draws_loop) (use assms draws_byte in \<open>auto simp: cell_grid\<close>)
  then have "draws (for_each (\<lambda>x f. and_then (cell (grid_of S) x y) (\<lambda>c. fput_byte (if c \<noteq> 0 then 35 else 32) f)) [0..<WIDTH])
      (map (\<lambda>x. if (x, y) \<in> S then 35 else 32) [0..<WIDTH])" by (simp only: concat_map_singleton)
  then show ?thesis unfolding picture_row_def by (intro draws_seq draws_fput)
qed

lemma draws_rule: "draws (for_each (\<lambda>_. fput_byte 45) [0..<WIDTH]) (replicate WIDTH 45)"
proof -
  have "draws (for_each (\<lambda>_. fput_byte 45) [0..<WIDTH]) (concat (map (\<lambda>_. [45]) [0..<WIDTH]))" by (rule draws_loop) (rule draws_byte)
  then show ?thesis unfolding concat_map_singleton by (simp only: map_replicate_const length_upt diff_zero)
qed

lemma text_length [simp]: "length (text_of s) = length s"
  by (simp add: text_of_def)

lemma picture_fits:
  assumes "n < 2 ^ 31"
  shows "length (picture S n) \<le> FRAME_CAP"
proof -
  have "length (concat (map (picture_row S) ys)) = 55 * length ys" for ys by (induction ys) (simp_all add: picture_row_def)
  moreover have "length (digits_of n) \<le> 10" "length (digits_of (card (S \<inter> field))) \<le> 3"
    using length_digits [of n 9] length_digits [of "card (S \<inter> field)" 2] card_field_le [of S] assms by simp_all
  ultimately show ?thesis by (simp add: picture_def)
qed

lemma yields_start:
  assumes "yields q b" "cs = s @ b" "length cs \<le> FRAME_CAP"
  shows "and_then (fput s \<lparr>fbuf = replicate FRAME_CAP 0, flen = 0\<rparr>) q = Inr cs"
proof -
  have "fills \<lparr>fbuf = replicate FRAME_CAP 0, flen = 0\<rparr> []" by (simp add: fills_def)
  then show ?thesis using yields_seq [OF draws_fput assms(1)] assms(2, 3) by (simp add: yields_def)
qed

lemma render_grid:
  assumes "n < 2 ^ 31"
  shows "life_render (grid_of S) (int n) = Inr (picture S n)"
proof -
  have c: "card (S \<inter> field) < 2 ^ 31" using card_field_le [of S] by simp
  have rows: "draws (for_each (\<lambda>y f.
      and_then (fput (text_of ''  |'') f) (\<lambda>f.
      and_then (for_each (\<lambda>x f. and_then (cell (grid_of S) x y) (\<lambda>c. fput_byte (if c \<noteq> 0 then 35 else 32) f)) [0..<WIDTH] f) (\<lambda>f.
      fput (text_of ''|'' @ [10]) f))) [0..<HEIGHT]) (concat (map (picture_row S) [0..<HEIGHT]))"
    by (rule draws_loop) (rule draws_row, simp)
  show ?thesis
    unfolding life_render_def count_alive_grid and_then_Inr
    by (rule yields_start, (rule yields_seq yields_end draws_fput draws_rule draws_int assms c rows)+, simp only: picture_def append_assoc append_Nil2,
        rule picture_fits [OF assms])
qed

subsection \<open>The whole run\<close>

definition seed :: "(nat \<times> nat) set" where
  "seed =
     {(3, 1), (4, 2), (2, 3), (3, 3), (4, 3)} \<union> {(22, 4), (23, 4), (24, 4)} \<union> {(12, 10), (13, 10), (12, 11), (15, 12), (14, 13), (15, 13)} \<union>
     {(36, 8), (37, 8), (35, 9), (36, 9), (36, 10)} \<union> {(31, 14), (32, 14), (33, 14), (30, 15), (31, 15), (32, 15)}"

lemma cell_mut_grid:
  assumes "x < WIDTH" "y < HEIGHT"
  shows "cell_mut (grid_of S) x y 1 = Inr (grid_of (insert (x, y) S))"
proof -
  have "(grid_of S)[idx x y := 1] = grid_of (insert (x, y) S)"
  proof (rule nth_equalityI)
    fix i
    assume "i < length ((grid_of S)[idx x y := 1])"
    then show "(grid_of S)[idx x y := 1] ! i = grid_of (insert (x, y) S) ! i"
      using idx_props [OF assms] by (cases "i = idx x y") (auto simp: grid_of_def idx_def)
  qed simp
  then show ?thesis using idx_props(1) [OF assms] by (simp add: cell_mut_def)
qed

lemma place_grid: "place (grid_of S) ox oy pat = Inr (grid_of ((\<lambda>(dx, dy). ((ox + dx) mod WIDTH, (oy + dy) mod HEIGHT)) ` set pat \<union> S))"
proof -
  have "for_each (\<lambda>(dx, dy) g. cell_mut g ((ox + dx) mod WIDTH) ((oy + dy) mod HEIGHT) 1) pat (grid_of S) =
      Inr (grid_of ((\<lambda>(dx, dy). ((ox + dx) mod WIDTH, (oy + dy) mod HEIGHT)) ` set pat \<union> S))"
    by (induction pat arbitrary: S) (auto simp: cell_mut_grid)
  then show ?thesis by (simp add: place_def)
qed

lemma empty_grid: "replicate CELLS 0 = grid_of {}"
  unfolding grid_of_def by (simp only: empty_iff if_False map_replicate_const length_upt diff_zero)

lemma life_loop_run:
  assumes "length nxt = CELLS" "g + k \<le> 2 ^ 31"
  shows "life_loop k (int g) (grid_of S) nxt out = Inr (out @ map (\<lambda>i. picture ((life_rule ^^ i) S) (g + i)) [0..<k])"
  using assms
proof (induction k arbitrary: g S nxt out)
  case (Suc k)
  have "life_loop k (int (Suc g)) (grid_of (life_rule S)) (grid_of S) (out @ [picture S g]) =
      Inr ((out @ [picture S g]) @ map (\<lambda>i. picture ((life_rule ^^ i) (life_rule S)) (Suc g + i)) [0..<k])"
    by (rule Suc.IH) (use Suc.prems in auto)
  moreover have "[0..<Suc k] = 0 # map Suc [0..<k]" by (simp add: map_Suc_upt upt_conv_Cons del: upt_Suc)
  ultimately show ?case using Suc.prems render_grid [of g S] step_grid [of nxt S]
    by (simp add: funpow_swap1 add.commute del: upt_Suc)
qed simp

lemma life_run_pictures:
  assumes "gens \<le> 2 ^ 31"
  shows "life_run gens =
    Inr ([[ESC] @ text_of ''[2J''] @ map (\<lambda>k. picture ((life_rule ^^ k) seed) k) [0..<nat gens] @ [[10]])"
proof -
  have k: "length (grid_of {}) = CELLS" "0 + nat gens \<le> 2 ^ 31" using assms by simp_all
  have "life_run gens = and_then (life_loop (nat gens) (int 0) (grid_of seed) (grid_of {}) [[ESC] @ text_of ''[2J'']) (\<lambda>out. Inr (out @ [[10]]))"
    unfolding life_run_def empty_grid place_grid and_then_Inr by (simp add: seed_def insert_commute del: One_nat_def add_2_eq_Suc add_2_eq_Suc')
  then show ?thesis unfolding life_loop_run [OF k] by simp
qed

text \<open>\<open>atoi\<close> reads back the decimal text of a number.\<close>

lemma atoi_from_digits:
  assumes "\<forall>c \<in> set x. 48 \<le> c \<and> c \<le> 57" "load_bytes m s (Suc (length x)) = x @ [0]"
  shows "atoi_from m s n = Some (foldl (\<lambda>n c. n * 10 + (ucast c - 48)) n x)"
  using assms
proof (induction x arbitrary: s n)
  case Nil
  then show ?case by (subst atoi_from.simps) (simp add: load_bytes_Suc)
next
  case (Cons c x)
  then show ?case by (subst atoi_from.simps) (simp add: load_bytes_Suc)
qed

lemma digits_are_digits: "\<forall>c \<in> set (digits_of n). 48 \<le> c \<and> c \<le> 57"
proof (induction n rule: less_induct)
  case (less n)
  have "(48 :: u8) \<le> 48 + of_nat (n mod 10) \<and> (48 :: u8) + of_nat (n mod 10) \<le> 57" for n
    by (simp add: word_le_nat_alt unat_word_ariths unsigned_of_nat take_bit_nat_eq_self)
  from this [of n] show ?case using less.IH [of "n div 10"] by (cases "n < 10") (auto simp: digits_of.simps [of n])
qed

lemma digits_value: "foldl (\<lambda>n c. n * 10 + (ucast c - 48)) 0 (digits_of n) = (of_nat n :: u32)"
proof (induction n rule: less_induct)
  case (less n)
  have c: "ucast (48 + of_nat (n mod 10) :: u8) - 48 = (of_nat (n mod 10) :: u32)" for n
  proof -
    have "(48 + of_nat (n mod 10) :: u8) = of_nat (48 + n mod 10)" by simp
    then have "ucast (48 + of_nat (n mod 10) :: u8) = (of_nat (48 + n mod 10) :: u32)" by (simp only: unsigned_of_nat) (simp add: take_bit_nat_eq_self)
    then show ?thesis by simp
  qed
  show ?case
  proof (cases "n < 10")
    case True
    then show ?thesis using c [of n] by (simp add: digits_of.simps [of n])
  next
    case False
    have "of_nat n = (of_nat (n div 10) * 10 + of_nat (n mod 10) :: u32)"
      by (metis div_mult_mod_eq of_nat_add of_nat_mult of_nat_numeral)
    then show ?thesis using False less.IH [of "n div 10"] c [of n] by (simp add: digits_of.simps [of n])
  qed
qed

lemma atoi_digits:
  assumes "cstr m s (digits_of n)" "n < 2 ^ 31"
  shows "atoi m s = Some (int n)"
proof -
  have "atoi_from m s 0 = Some (of_nat n)"
    using atoi_from_digits [OF digits_are_digits, of m s n 0] assms(1) digits_value by (simp add: cstr_def)
  moreover have "sint (of_nat n :: u32) = int n" using assms(2) by (simp add: signed_of_nat signed_take_bit_int_eq_self)
  ultimately show ?thesis by (simp add: atoi_def)
qed

text \<open>
  C40: The game of life draws one picture per generation of the rule on the torus, for as many generations as its argument says or 200, and no access of the
  program leaves its arrays: not the grid, not the buffer of digits and not the frame of 2048 bytes.
\<close>

theorem life_correct:
  assumes "length args \<le> 1 \<and> n = 200 \<or> 1 < length args \<and> cstr m (args ! 1) (digits_of n) \<and> n < 2 ^ 31"
  shows "life_main m args =
    Some (Inr ([[ESC] @ text_of ''[2J''] @ map (\<lambda>k. picture ((life_rule ^^ k) seed) k) [0..<n] @ [[10]]))"
proof -
  have "life_main m args = Some (life_run (int n))" "n \<le> 2 ^ 31" using assms atoi_digits by (auto simp: life_main_def)
  then show ?thesis by (simp add: life_run_pictures)
qed

theorem life_correct_witness:
  "life_main (\<lambda>a. if a = 100 then 51 else 0) [0, 100] =
    Some (Inr ([[ESC] @ text_of ''[2J''] @ map (\<lambda>k. picture ((life_rule ^^ k) seed) k) [0..<3] @ [[10]]))"
  by (rule life_correct) (simp add: cstr_def digits_of.simps [of 3] load_bytes_Suc)

end
