(* ===== verification/Mkfs.thy ===== *)
theory Mkfs
  imports Dirent
begin

unbundle bit_operations_syntax

section \<open>The builder of the file system image (mkfs/mkfs.rs)\<close>

text \<open>
  The host program that writes the first image of the disk, and the agreement between it and the kernel's file system.  The image
  file is written and read in whole blocks: \<open>img\<close> gives its blocks and \<open>img_len\<close> their number; the image has been opened and
  truncated, a write past its end fills the gap with zeros, a read past its end is an error.  The host is little-endian, so \<open>xint\<close>,
  \<open>xshort\<close> and \<open>from_le_u32\<close> change nothing and the raw bytes of a structure are the little-endian encodings of its fields.
  The files named on the command line are a parameter: what \<open>open\<close> finds and what the successive calls of \<open>read\<close> return.
  Output of \<open>println\<close> is left out.
\<close>

datatype mkfs_error = UnexpectedEof | NotFound | AssertionFailed | Exit1

type_synonym 'a mres = "mkfs_error + 'a"

abbreviation FSSIZE :: u32 where "FSSIZE \<equiv> 2000"
abbreviation NINODES :: u32 where "NINODES \<equiv> 200"
abbreviation MKFS_LOGBLOCKS :: u32 where "MKFS_LOGBLOCKS \<equiv> 30"

record mkfs_dinode =
  d_type :: u16
  d_major :: u16
  d_minor :: u16
  d_nlink :: u16
  d_size :: u32
  d_addrs :: "u32 list"

record mkfs_dirent =
  de_ino :: u16
  de_nm :: "u8 list"

record mkfs =
  img :: "u32 \<Rightarrow> u8 list"
  img_len :: nat
  msb :: superblock
  m_nbitmap :: u32
  m_ninodeblocks :: u32
  m_nlog :: u32
  m_nmeta :: u32
  m_nblocks :: u32
  freeinode :: u32
  freeblock :: u32

definition mk_iblock :: "u32 \<Rightarrow> superblock \<Rightarrow> u32" where
  "mk_iblock i s = i div IPB + inodestart s"

definition mkfs_new :: mkfs where
  "mkfs_new =
     (let nbitmap = FSSIZE div BPB + 1;
          ninodeblocks = NINODES div IPB + 1;
          nlog' = MKFS_LOGBLOCKS + 1;
          nmeta = 2 + nlog' + ninodeblocks + nbitmap;
          nblocks' = FSSIZE - nmeta
      in \<lparr>img = (\<lambda>_. []), img_len = 0,
          msb = \<lparr>magic = FSMAGIC, sb_size = FSSIZE, nblocks = nblocks', ninodes = NINODES, nlog = nlog', logstart = 2,
            inodestart = 2 + nlog', bmapstart = 2 + nlog' + ninodeblocks\<rparr>,
          m_nbitmap = nbitmap, m_ninodeblocks = ninodeblocks, m_nlog = nlog', m_nmeta = nmeta, m_nblocks = nblocks',
          freeinode = 1, freeblock = nmeta\<rparr>)"

definition wsect :: "u32 \<Rightarrow> u8 list \<Rightarrow> mkfs \<Rightarrow> mkfs" where
  "wsect sec buf m = m\<lparr>
     img := (\<lambda>b. if b = sec then buf else if img_len m \<le> unat b \<and> b < sec then replicate BSIZE 0 else img m b),
     img_len := max (img_len m) (unat sec + 1)\<rparr>"

definition rsect :: "u32 \<Rightarrow> mkfs \<Rightarrow> u8 list mres" where
  "rsect sec m = (if unat sec < img_len m then Inr (img m sec) else Inl UnexpectedEof)"

text \<open>The 64 bytes of a \<open>Dinode\<close> and the 32 bytes of a \<open>Superblock\<close>.\<close>

definition dinode_bytes :: "mkfs_dinode \<Rightarrow> u8 list" where
  "dinode_bytes d = le_bytes 2 (d_type d) @ le_bytes 2 (d_major d) @ le_bytes 2 (d_minor d) @ le_bytes 2 (d_nlink d) @
     le_bytes 4 (d_size d) @ concat (map (le_bytes 4) (d_addrs d))"

definition dinode_of :: "u8 list \<Rightarrow> mkfs_dinode" where
  "dinode_of x = \<lparr>d_type = getw 2 x 0, d_major = getw 2 x 2, d_minor = getw 2 x 4, d_nlink = getw 2 x 6, d_size = getw 4 x 8,
     d_addrs = map (\<lambda>j. getw 4 x (12 + 4 * j)) [0..<NDIRECT + 1]\<rparr>"

definition sb_bytes :: "superblock \<Rightarrow> u8 list" where
  "sb_bytes s = le_bytes 4 (magic s) @ le_bytes 4 (sb_size s) @ le_bytes 4 (nblocks s) @ le_bytes 4 (ninodes s) @
     le_bytes 4 (nlog s) @ le_bytes 4 (logstart s) @ le_bytes 4 (inodestart s) @ le_bytes 4 (bmapstart s)"

definition winode :: "u32 \<Rightarrow> mkfs_dinode \<Rightarrow> mkfs \<Rightarrow> mkfs mres" where
  "winode n ip m =
     (let bn = mk_iblock n (msb m) in
      and_then (rsect bn m) (\<lambda>buf.
        let off = unat (n mod IPB) * 64 in Inr (wsect bn (splice buf off (dinode_bytes ip)) m)))"

definition rinode :: "u32 \<Rightarrow> mkfs \<Rightarrow> mkfs_dinode mres" where
  "rinode n m =
     (let bn = mk_iblock n (msb m) in
      and_then (rsect bn m) (\<lambda>buf.
        let off = unat (n mod IPB) * 64 in Inr (dinode_of (take 64 (drop off buf)))))"

definition mk_ialloc :: "u16 \<Rightarrow> mkfs \<Rightarrow> (u32 \<times> mkfs) mres" where
  "mk_ialloc ty m =
     (let n = freeinode m; m = m\<lparr>freeinode := freeinode m + 1\<rparr>;
          din = \<lparr>d_type = ty, d_major = 0, d_minor = 0, d_nlink = 1, d_size = 0, d_addrs = replicate (NDIRECT + 1) 0\<rparr>
      in and_then (winode n din m) (\<lambda>m. Inr (n, m)))"

definition set_bit_in :: "nat \<Rightarrow> u8 list \<Rightarrow> u8 list" where
  "set_bit_in i buf = buf[i div 8 := buf ! (i div 8) OR push_bit (i mod 8) 1]"

definition mk_balloc :: "u32 \<Rightarrow> mkfs \<Rightarrow> mkfs mres" where
  "mk_balloc n m =
     (if \<not> n < BPB then Inl AssertionFailed
      else Inr (wsect (bmapstart (msb m)) (fold set_bit_in [0..<unat n] (replicate BSIZE 0)) m))"

text \<open>The block for the data at block \<open>fbn\<close> of the file, allocated when the file has none there.\<close>

definition iappend_block :: "u32 \<Rightarrow> mkfs_dinode \<Rightarrow> mkfs \<Rightarrow> (u32 \<times> mkfs_dinode \<times> mkfs) mres" where
  "iappend_block fbn din m =
     (if unat fbn < NDIRECT
      then
        let (din, m) = (if d_addrs din ! unat fbn = 0
          then (din\<lparr>d_addrs := (d_addrs din)[unat fbn := freeblock m]\<rparr>, m\<lparr>freeblock := freeblock m + 1\<rparr>) else (din, m))
        in Inr (d_addrs din ! unat fbn, din, m)
      else
        let (din, m) = (if d_addrs din ! NDIRECT = 0
          then (din\<lparr>d_addrs := (d_addrs din)[NDIRECT := freeblock m]\<rparr>, m\<lparr>freeblock := freeblock m + 1\<rparr>) else (din, m));
          ib = d_addrs din ! NDIRECT
        in and_then (rsect ib m) (\<lambda>indirect.
          let entry_off = (unat fbn - NDIRECT) * 4; current = getw 4 indirect entry_off in
          if current = 0
          then let new_block = freeblock m; m = m\<lparr>freeblock := freeblock m + 1\<rparr>
            in Inr (new_block, din, wsect ib (putw 4 indirect entry_off new_block) m)
          else Inr (current, din, m)))"

text \<open>At least one byte of data goes into the block at the offset, so the loop ends.\<close>

lemma room_in_block: "unat ((off div 1024 + 1) * 1024 - off :: u32) = 1024 - unat off mod 1024"
proof -
  have "off div 1024 * 1024 + off mod 1024 = off" by (rule div_mult_mod_eq)
  then have "(off div 1024 + 1) * 1024 - off = 1024 - off mod 1024" by (simp add: algebra_simps)
  moreover have "off mod 1024 \<le> 1024" by (simp add: word_le_nat_alt unat_mod)
  then have "unat (1024 - off mod 1024) = 1024 - unat off mod 1024" by (simp add: unat_sub unat_mod)
  ultimately show ?thesis by (simp only:)
qed

lemma room_in_block' [simp]: "unat (off div 1024 * 1024 + 1024 - off :: u32) = 1024 - unat off mod 1024"
  using room_in_block [of off] by (simp only: distrib_right mult_1_left)

function (sequential) iappend_loop :: "u8 list \<Rightarrow> mkfs_dinode \<Rightarrow> u32 \<Rightarrow> mkfs \<Rightarrow> (mkfs_dinode \<times> u32 \<times> mkfs) mres" where
  "iappend_loop [] din off m = Inr (din, off, m)"
| "iappend_loop (c # cs) din off m =
     (let dat = c # cs; fbn = off div 1024 in
      if \<not> unat fbn < MAXFILE then Inl AssertionFailed
      else and_then (iappend_block fbn din m) (\<lambda>(x, din, m).
        let n1 = min (length dat) (unat ((fbn + 1) * 1024 - off)) in
        and_then (rsect x m) (\<lambda>buf.
        let start = unat (off - fbn * 1024); m = wsect x (splice buf start (take n1 dat)) m
        in iappend_loop (drop n1 dat) din (off + of_nat n1) m)))"
  by pat_completeness auto
termination by (relation "measure (\<lambda>(dat, _). length dat)") simp_all

definition iappend :: "u32 \<Rightarrow> u8 list \<Rightarrow> mkfs \<Rightarrow> mkfs mres" where
  "iappend n dat m =
     and_then (rinode n m) (\<lambda>din.
     and_then (iappend_loop dat din (d_size din) m) (\<lambda>(din, off, m).
     winode n (din\<lparr>d_size := off\<rparr>) m))"

definition strip_prefix :: "u8 list \<Rightarrow> u8 list \<Rightarrow> u8 list" where
  "strip_prefix pre s = (if take (length pre) s = pre then drop (length pre) s else s)"

text \<open>The prefixes are the bytes of \<open>user/\<close> and of the underscore.\<close>

definition shortname_for_image :: "u8 list \<Rightarrow> u8 list mres" where
  "shortname_for_image path =
     (let s = strip_prefix [117, 115, 101, 114, 47] path in
      if SLASH \<in> set s then Inl AssertionFailed else Inr (strip_prefix [95] s))"

definition dirent_as_bytes :: "mkfs_dirent \<Rightarrow> u8 list" where
  "dirent_as_bytes de = le_bytes 2 (de_ino de) @ de_nm de"

primrec copy_file :: "u32 \<Rightarrow> u8 list list \<Rightarrow> mkfs \<Rightarrow> mkfs mres" where
  "copy_file n [] m = Inr m"
| "copy_file n (dat # reads) m = (if dat = [] then Inr m else and_then (iappend n dat m) (copy_file n reads))"

definition add_file :: "(u8 list \<Rightarrow> u8 list list option) \<Rightarrow> u8 list \<Rightarrow> mkfs \<Rightarrow> mkfs mres" where
  "add_file open_file src_path m =
     and_then (shortname_for_image src_path) (\<lambda>short.
     if \<not> length short \<le> DIRSIZ then Inl AssertionFailed
     else case open_file src_path of None \<Rightarrow> Inl NotFound | Some reads \<Rightarrow>
       and_then (mk_ialloc T_FILE m) (\<lambda>(n, m).
       let entry = \<lparr>de_ino = ucast n, de_nm = splice (replicate DIRSIZ 0) 0 short\<rparr> in
       and_then (iappend ROOTINO (dirent_as_bytes entry) m) (copy_file n reads)))"

definition mkfs_begin :: "mkfs mres" where
  "mkfs_begin =
     (let m = fold (\<lambda>i. wsect (of_nat i) (replicate BSIZE 0)) [0..<unat FSSIZE] mkfs_new;
          m = wsect 1 (splice (replicate BSIZE 0) 0 (sb_bytes (msb m))) m
      in and_then (mk_ialloc T_DIR m) (\<lambda>(rootino, m).
      if rootino \<noteq> ROOTINO then Inl AssertionFailed
      else and_then (iappend rootino (dirent_as_bytes \<lparr>de_ino = ucast rootino, de_nm = (replicate DIRSIZ 0)[0 := 46]\<rparr>) m) (\<lambda>m.
        iappend rootino (dirent_as_bytes \<lparr>de_ino = ucast rootino, de_nm = (replicate DIRSIZ 0)[0 := 46, 1 := 46]\<rparr>) m)))"

definition mkfs_end :: "mkfs \<Rightarrow> mkfs mres" where
  "mkfs_end m =
     and_then (rinode ROOTINO m) (\<lambda>din.
     let off = (d_size din div 1024 + 1) * 1024 in
     and_then (winode ROOTINO (din\<lparr>d_size := off\<rparr>) m) (\<lambda>m.
     mk_balloc (freeblock m) m))"

definition mkfs_run :: "(u8 list \<Rightarrow> u8 list list option) \<Rightarrow> u8 list list \<Rightarrow> mkfs mres" where
  "mkfs_run open_file argv =
     (if length argv < 2 then Inl Exit1
      else and_then mkfs_begin (\<lambda>m. and_then (for_each (add_file open_file) (drop 2 argv) m) mkfs_end))"

subsection \<open>Structures on disk\<close>

lemma getw_concat: "j < length ws \<Longrightarrow> getw 4 (concat (map (le_bytes 4) ws)) (4 * j) = (ws ! j :: u32)"
proof (induction ws arbitrary: j)
  case (Cons w ws)
  then show ?case by (cases j) (simp_all add: getw_def of_le_le_bytes)
qed simp

lemma getw_prefix: "getw n (xs @ ys) (length xs + k) = getw n ys k"
  by (simp add: getw_def)

lemma length_dinode_bytes: "length (d_addrs d) = 13 \<Longrightarrow> length (dinode_bytes d) = 64"
  by (simp add: dinode_bytes_def length_concat comp_def sum_list_triv)

lemma dinode_of_bytes:
  assumes "length (d_addrs d) = 13"
  shows "dinode_of (dinode_bytes d) = d"
proof -
  define h where "h = le_bytes 2 (d_type d) @ le_bytes 2 (d_major d) @ le_bytes 2 (d_minor d) @ le_bytes 2 (d_nlink d) @ le_bytes 4 (d_size d)"
  have h: "dinode_bytes d = h @ concat (map (le_bytes 4) (d_addrs d))" "length h = 12" by (simp_all add: dinode_bytes_def h_def)
  have "getw 4 (dinode_bytes d) (12 + 4 * j) = d_addrs d ! j" if "j < 13" for j
  proof -
    have "(getw 4 (dinode_bytes d) (12 + 4 * j) :: u32) = getw 4 (concat (map (le_bytes 4) (d_addrs d))) (4 * j)"
      using getw_prefix h by metis
    then show ?thesis using getw_concat [of j "d_addrs d"] that assms by simp
  qed
  then have a: "map (\<lambda>j. getw 4 (dinode_bytes d) (12 + 4 * j)) [0..<NDIRECT + 1] = d_addrs d"
    using assms by (intro nth_equalityI) (simp_all del: upt_Suc)
  have "d_addrs (dinode_of (dinode_bytes d)) = d_addrs d" using a by (simp add: dinode_of_def del: upt_Suc)
  moreover have "getw 2 (dinode_bytes d) 0 = d_type d" "getw 2 (dinode_bytes d) 2 = d_major d" "getw 2 (dinode_bytes d) 4 = d_minor d"
    "getw 2 (dinode_bytes d) 6 = d_nlink d" "getw 4 (dinode_bytes d) 8 = d_size d"
    by (simp_all add: dinode_bytes_def getw_def of_le_le_bytes)
  ultimately show ?thesis by (simp add: dinode_of_def)
qed

lemma sb_of_bytes: "sb_of (sb_bytes s @ x) = s"
  by (simp add: sb_of_def sb_bytes_def getw_def of_le_le_bytes)

text \<open>Inode \<open>n\<close> of the image, 64 bytes in the inode blocks from block 33 on.\<close>

definition slot :: "nat \<Rightarrow> (u32 \<Rightarrow> u8 list) \<Rightarrow> u8 list" where
  "slot n g = take 64 (drop (64 * (n mod 16)) (g (33 + of_nat (n div 16))))"

lemma getw_slot: "o' + k \<le> 64 \<Longrightarrow> getw k (take 64 (drop off x)) o' = getw k x (off + o')"
  by (simp add: getw_def drop_take add.commute min_def)

subsection \<open>A file in the image\<close>

text \<open>The bytes of block \<open>b\<close> of a file, zero past its end; the addresses of an inode whose data blocks are \<open>bs\<close> and whose indirect
  block is \<open>ib\<close>; the blocks such an inode owns.\<close>

definition byte0 :: "u8 list \<Rightarrow> nat \<Rightarrow> u8" where
  "byte0 xs p = (if p < length xs then xs ! p else 0)"

definition block_of :: "u8 list \<Rightarrow> nat \<Rightarrow> u8 list" where
  "block_of xs b = map (\<lambda>j. byte0 xs (1024 * b + j)) [0..<1024]"

definition addrs_of :: "u32 list \<Rightarrow> u32 \<Rightarrow> u32 list" where
  "addrs_of bs ib = take 12 (bs @ replicate 12 0) @ [ib]"

definition own_of :: "u32 list \<Rightarrow> u32 \<Rightarrow> u32 list" where
  "own_of bs ib = bs @ (if ib = 0 then [] else [ib])"

definition file_at :: "(u32 \<Rightarrow> u8 list) \<Rightarrow> u8 list \<Rightarrow> u32 list \<Rightarrow> u32 \<Rightarrow> bool" where
  "file_at g xs bs ib \<longleftrightarrow> length xs \<le> 1024 * length bs \<and> length bs \<le> 268 \<and> (ib = 0 \<longleftrightarrow> length bs \<le> 12) \<and> distinct (own_of bs ib) \<and>
     (\<forall>b < length bs. g (bs ! b) = block_of xs b) \<and>
     (ib \<noteq> 0 \<longrightarrow> length (g ib) = 1024 \<and> (\<forall>j < 256. getw 4 (g ib) (4 * j) = (if 12 + j < length bs then bs ! (12 + j) else 0)))"

text \<open>The image has its 2000 blocks; those from the first free one on are zero.\<close>

definition space :: "mkfs \<Rightarrow> bool" where
  "space m \<longleftrightarrow> img_len m = 2000 \<and> (\<forall>b < 2000. length (img m b) = 1024) \<and> 47 \<le> freeblock m \<and> freeblock m \<le> 2000 \<and>
     (\<forall>b. freeblock m \<le> b \<longrightarrow> b < 2000 \<longrightarrow> img m b = replicate 1024 0)"

definition holds :: "mkfs \<Rightarrow> u8 list \<Rightarrow> u32 list \<Rightarrow> u32 \<Rightarrow> bool" where
  "holds m xs bs ib \<longleftrightarrow> space m \<and> file_at (img m) xs bs ib \<and> set (own_of bs ib) \<subseteq> {47..<freeblock m}"

text \<open>The file took the free blocks up to a new first one, and no other block changed.\<close>

definition grown :: "u32 list \<Rightarrow> mkfs \<Rightarrow> u32 list \<Rightarrow> mkfs \<Rightarrow> bool" where
  "grown ys m zs m' \<longleftrightarrow> (\<exists>g f. m' = m\<lparr>img := g, freeblock := f\<rparr>) \<and> freeblock m \<le> freeblock m' \<and>
     set zs = set ys \<union> {freeblock m..<freeblock m'} \<and> (\<forall>y. y \<notin> set zs \<longrightarrow> img m' y = img m y)"

definition nb :: "nat \<Rightarrow> nat" where
  "nb n = (n + 1023) div 1024"

definition cost :: "nat \<Rightarrow> nat" where
  "cost n = nb n + (if 12 < nb n then 1 else 0)"

lemma grown_trans: "grown a m b m' \<Longrightarrow> grown b m' c m'' \<Longrightarrow> grown a m c m''"
proof -
  assume g: "grown a m b m'" "grown b m' c m''"
  then have "{freeblock m..<freeblock m'} \<union> {freeblock m'..<freeblock m''} = {freeblock m..<freeblock m''}"
    by (intro ivl_disj_un_two) (simp_all add: grown_def)
  moreover have "\<exists>g f. m'' = m\<lparr>img := g, freeblock := f\<rparr>" 
  proof -
    obtain g1 f1 g2 f2 where "m' = m\<lparr>img := g1, freeblock := f1\<rparr>" "m'' = m'\<lparr>img := g2, freeblock := f2\<rparr>" using g by (auto simp: grown_def)
    then have "m'' = m\<lparr>img := g2, freeblock := f2\<rparr>" by simp
    then show ?thesis by blast
  qed
  ultimately show ?thesis using g unfolding grown_def by (metis (no_types, lifting) Un_assoc UnCI order_trans)
qed

lemma wsect_in: "unat sec < img_len m \<Longrightarrow> wsect sec buf m = m\<lparr>img := (img m)(sec := buf)\<rparr>"
proof -
  assume s: "unat sec < img_len m"
  then have "(\<lambda>b. if b = sec then buf else if img_len m \<le> unat b \<and> b < sec then replicate BSIZE 0 else img m b) = (img m)(sec := buf)"
    by (auto simp: fun_eq_iff word_less_nat_alt)
  moreover have "max (img_len m) (unat sec + 1) = img_len m" using s by simp
  ultimately show ?thesis by (simp add: wsect_def)
qed

lemma nth_addrs_of:
  assumes "length bs \<le> 268"
  shows "b < 12 \<Longrightarrow> addrs_of bs ib ! b = (if b < length bs then bs ! b else 0)" "addrs_of bs ib ! 12 = ib" "length (addrs_of bs ib) = 13"
  by (auto simp: addrs_of_def nth_append min_def)

lemma addrs_of_snoc: "length bs < 12 \<Longrightarrow> (addrs_of bs ib)[length bs := x] = addrs_of (bs @ [x]) ib"
  by (rule nth_equalityI) (auto simp: addrs_of_def nth_append nth_list_update min_def)

lemma addrs_of_indirect: "12 \<le> length bs \<Longrightarrow> (addrs_of bs ib)[12 := i] = addrs_of (bs @ [x]) i"
  by (simp add: addrs_of_def list_update_append)

lemma block_zero: "length xs \<le> 1024 * b \<Longrightarrow> block_of xs b = replicate 1024 0"
  by (rule nth_equalityI) (auto simp: block_of_def byte0_def)

lemma unat_fbn: "b < 268 \<Longrightarrow> unat (of_nat b :: u32) = b"
  by (simp add: unsigned_of_nat take_bit_nat_eq_self)

lemma iappend_block_old:
  assumes "holds m xs bs ib" "b < length bs" "d_addrs d = addrs_of bs ib"
  shows "iappend_block (of_nat b) d m = Inr (bs ! b, d, m)"
proof -
  have f: "file_at (img m) xs bs ib" "set (own_of bs ib) \<subseteq> {47..<freeblock m}" "img_len m = 2000" "freeblock m \<le> 2000"
    using assms(1) by (simp_all add: holds_def space_def)
  have lb: "length bs \<le> 268" using f(1) by (simp add: file_at_def)
  then have u: "unat (of_nat b :: u32) = b" using assms(2) by (intro unat_fbn) simp
  have nz: "bs ! b \<noteq> 0"
  proof
    assume "bs ! b = 0"
    then have "0 \<in> {47..<freeblock m}" using f(2) nth_mem [OF assms(2)] by (auto simp: own_of_def)
    then show False by (simp add: word_le_nat_alt)
  qed
  show ?thesis
  proof (cases "b < 12")
    case True
    then show ?thesis using nth_addrs_of(1) [OF lb, of b ib] assms(2,3) nz u by (simp add: iappend_block_def)
  next
    case False
    then have ib: "ib \<noteq> 0" "getw 4 (img m ib) (4 * (b - 12)) = bs ! b" using f(1) assms(2) lb by (auto simp: file_at_def)
    then have "ib < 2000" using f(2,4) by (auto simp: own_of_def)
    then have "rsect ib m = Inr (img m ib)" using f(3) by (simp add: rsect_def word_less_nat_alt)
    then show ?thesis using False nth_addrs_of(2) [OF lb, of ib] assms(3) nz u ib by (simp add: iappend_block_def mult.commute)
  qed
qed

text \<open>A fresh block: the next free one, zero so far.\<close>

lemma space_take:
  assumes "space m" "unat (freeblock m) < 2000"
  shows "space (m\<lparr>freeblock := freeblock m + 1\<rparr>)" "unat (freeblock m + 1) = unat (freeblock m) + 1" "img m (freeblock m) = replicate 1024 0"
    "{freeblock m..<freeblock m + 1} = {freeblock m}" "freeblock m < 2000" "freeblock m < freeblock m + 1"
proof -
  show u: "unat (freeblock m + 1) = unat (freeblock m) + 1" using assms(2) by (simp add: unat_word_ariths(1))
  show l: "freeblock m < 2000" using assms(2) by (simp add: word_less_nat_alt)
  then show "img m (freeblock m) = replicate 1024 0" using assms(1) by (simp add: space_def)
  show "space (m\<lparr>freeblock := freeblock m + 1\<rparr>)" using assms u by (auto simp: space_def word_le_nat_alt word_less_nat_alt)
  show "{freeblock m..<freeblock m + 1} = {freeblock m}" using u by (auto simp: word_le_nat_alt word_less_nat_alt word_unat_eq_iff)
  show "freeblock m < freeblock m + 1" using u by (simp add: word_less_nat_alt)
qed

lemma space_wsect: "space m \<Longrightarrow> x < freeblock m \<Longrightarrow> length v = 1024 \<Longrightarrow> space (m\<lparr>img := (img m)(x := v)\<rparr>)"
  by (auto simp: space_def)

lemma file_at_cong: "file_at g xs bs ib \<Longrightarrow> \<forall>y \<in> set (own_of bs ib). h y = g y \<Longrightarrow> file_at h xs bs ib"
  by (auto simp: file_at_def own_of_def)

text \<open>The file gets one more data block, and its indirect block when the direct addresses are used up.\<close>

lemma alloc_direct:
  assumes "holds m xs bs ib" "length bs < 12" "d_addrs d = addrs_of bs ib" "unat (freeblock m) < 2000"
  shows "\<exists>x m'. iappend_block (of_nat (length bs)) d m = Inr (x, d\<lparr>d_addrs := addrs_of (bs @ [x]) ib\<rparr>, m') \<and> holds m' xs (bs @ [x]) ib \<and>
    grown (own_of bs ib) m (own_of (bs @ [x]) ib) m' \<and> unat (freeblock m') = unat (freeblock m) + 1"
proof -
  let ?x = "freeblock m" and ?m = "m\<lparr>freeblock := freeblock m + 1\<rparr>"
  have f: "file_at (img m) xs bs ib" "set (own_of bs ib) \<subseteq> {47..<freeblock m}" "space m" using assms(1) by (simp_all add: holds_def)
  have ib: "ib = 0" "length xs \<le> 1024 * length bs" using f(1) assms(2) by (simp_all add: file_at_def)
  note s = space_take [OF f(3) assms(4)]
  have u: "unat (of_nat (length bs) :: u32) = length bs" using assms(2) by (intro unat_fbn) simp
  have "iappend_block (of_nat (length bs)) d m = Inr (?x, d\<lparr>d_addrs := addrs_of (bs @ [?x]) ib\<rparr>, ?m)"
    using nth_addrs_of(1) [of bs "length bs" ib] nth_addrs_of(1) [of "bs @ [?x]" "length bs" ib] assms(2,3) u addrs_of_snoc
    by (simp add: iappend_block_def)
  moreover have "file_at (img m) xs (bs @ [?x]) ib"
    using f ib s(3) assms(2) block_zero [OF ib(2)] by (auto simp: file_at_def own_of_def nth_append less_Suc_eq)
  moreover have "47 \<le> ?x" using f(3) by (simp add: space_def)
  moreover have "set (own_of (bs @ [?x]) ib) \<subseteq> {47..<?x + 1}"
    using f(2) s(6) \<open>47 \<le> ?x\<close> ib(1) less_trans [OF _ s(6)] by (auto simp: own_of_def)
  moreover have "grown (own_of bs ib) m (own_of (bs @ [?x]) ib) ?m"
    unfolding grown_def using s(4,6) by (auto simp: own_of_def intro!: exI [of _ "img m"])
  ultimately show ?thesis using s(1,2) by (intro exI [of _ ?x] exI [of _ ?m]) (simp add: holds_def)
qed

text \<open>One more data block behind the direct ones: its address goes into the indirect block, which is allocated with the first of them.\<close>

definition indirect_ok :: "u8 list \<Rightarrow> u32 list \<Rightarrow> bool" where
  "indirect_ok z bs \<longleftrightarrow> length z = 1024 \<and> (\<forall>j < 256. getw 4 z (4 * j) = (if 12 + j < length bs then bs ! (12 + j) else 0))"

lemma indirect_ok_put:
  assumes "indirect_ok z bs" "12 \<le> length bs" "length bs < 268"
  shows "indirect_ok (putw 4 z ((length bs - 12) * 4) x) (bs @ [x])" "(getw 4 z ((length bs - 12) * 4) :: u32) = 0"
proof -
  let ?k = "length bs - 12"
  have z: "length z = 1024" using assms(1) by (simp add: indirect_ok_def)
  have k: "?k < 256" using assms(2,3) by simp
  then have "(getw 4 z (4 * ?k) :: u32) = 0" using assms(1,2) by (simp add: indirect_ok_def)
  then show "(getw 4 z (?k * 4) :: u32) = 0" by (simp add: mult.commute)
  have "(getw 4 (putw 4 z (4 * ?k) x) (4 * j) :: u32) = (if j = ?k then x else getw 4 z (4 * j))" if "j < 256" for j
  proof (cases "j = ?k")
    case False
    then have "4 * j + 4 \<le> 4 * ?k \<or> 4 * ?k + 4 \<le> 4 * j" by linarith
    then have "(getw 4 (putw 4 z (4 * ?k) x) (4 * j) :: u32) = getw 4 z (4 * j)"
      using that k z by (intro getw_putw_other) auto
    then show ?thesis using False by simp
  qed (use k z in \<open>simp add: getw_putw_same\<close>)
  moreover have "(if j = ?k then x else if 12 + j < length bs then bs ! (12 + j) else 0) =
      (if 12 + j < length (bs @ [x]) then (bs @ [x]) ! (12 + j) else 0)" for j
    using assms(2) by (auto simp: nth_append)
  moreover have "getw 4 z (4 * j) = (if 12 + j < length bs then bs ! (12 + j) else 0)" if "j < 256" for j
    using that assms(1) by (simp add: indirect_ok_def)
  ultimately have "getw 4 (putw 4 z (4 * ?k) x) (4 * j) = (if 12 + j < length (bs @ [x]) then (bs @ [x]) ! (12 + j) else 0)" if "j < 256" for j
    using that by (metis (no_types, lifting))
  moreover have "length (putw 4 z (4 * ?k) x) = 1024" using z k by simp
  ultimately show "indirect_ok (putw 4 z (?k * 4) x) (bs @ [x])"
    unfolding indirect_ok_def by (simp only: mult.commute [of ?k 4]) blast
qed

lemma indirect_ok_zero: "length bs \<le> 12 \<Longrightarrow> indirect_ok (replicate 1024 0) bs"
  by (auto simp: indirect_ok_def getw_def)

lemma file_at_indirect: "ib \<noteq> 0 \<Longrightarrow> file_at g xs bs ib \<longleftrightarrow> length xs \<le> 1024 * length bs \<and> 12 < length bs \<and> length bs \<le> 268 \<and>
    distinct (bs @ [ib]) \<and> (\<forall>b < length bs. g (bs ! b) = block_of xs b) \<and> indirect_ok (g ib) bs"
  by (auto simp: file_at_def own_of_def indirect_ok_def)

lemma grown_alloc:
  assumes "space m" "unat (freeblock m) < 2000" "ib < freeblock m"
  shows "grown (bs @ [ib]) m (bs @ [freeblock m, ib]) (m\<lparr>freeblock := freeblock m + 1, img := (img m)(ib := v)\<rparr>)"
  using space_take(4,6) [OF assms(1,2)] assms(3) unfolding grown_def
  by (auto intro!: exI [of _ "(img m)(ib := v)"] exI [of _ "freeblock m + 1"])

lemma alloc_entry:
  assumes "space m" "unat (freeblock m) < 2000" "12 \<le> length bs" "length bs < 268" "length xs \<le> 1024 * length bs"
    and "distinct (bs @ [ib])" "\<forall>b < length bs. img m (bs ! b) = block_of xs b" "indirect_ok (img m ib) bs"
    and "set (bs @ [ib]) \<subseteq> {47..<freeblock m}"
  defines "m' \<equiv> m\<lparr>freeblock := freeblock m + 1, img := (img m)(ib := putw 4 (img m ib) ((length bs - 12) * 4) (freeblock m))\<rparr>"
  shows "holds m' xs (bs @ [freeblock m]) ib" "grown (bs @ [ib]) m (own_of (bs @ [freeblock m]) ib) m'" "unat (freeblock m') = unat (freeblock m) + 1"
proof -
  let ?x = "freeblock m" and ?v = "putw 4 (img m ib) ((length bs - 12) * 4) (freeblock m)"
  note s = space_take [OF assms(1,2)]
  note i = indirect_ok_put [OF assms(8,3,4)]
  have ib: "47 \<le> ib" "ib < ?x" using assms(9) by auto
  then have ib0: "ib \<noteq> 0" by (auto simp: word_le_nat_alt)
  have v: "length ?v = 1024" using i(1) [of ?x] by (simp add: indirect_ok_def)
  have "space m'" using space_wsect [OF s(1), of ib ?v] ib(2) s(6) v by (simp add: m'_def)
  moreover have "distinct ((bs @ [?x]) @ [ib])" using assms(6,9) by auto
  moreover have "img m' ((bs @ [?x]) ! b) = block_of xs b" if "b < length (bs @ [?x])" for b
  proof (cases "b < length bs")
    case True
    then have "bs ! b \<noteq> ib" using assms(6) nth_mem by auto
    then show ?thesis using True assms(7) by (simp add: m'_def nth_append)
  next
    case False
    then have "b = length bs" using that by simp
    then show ?thesis using s(3) ib(2) [THEN less_imp_neq] block_zero [OF assms(5)] by (simp add: m'_def)
  qed
  moreover have "indirect_ok (img m' ib) (bs @ [?x])" using i(1) [of ?x] by (simp add: m'_def)
  moreover have "set (own_of (bs @ [?x]) ib) \<subseteq> {47..<freeblock m'}"
  proof -
    have "y < ?x + 1" if "y < ?x" for y using that s(6) by (rule less_trans)
    moreover have "47 \<le> ?x" using assms(1) by (simp add: space_def)
    ultimately show ?thesis using assms(9) s(6) by (auto simp: own_of_def m'_def)
  qed
  ultimately show "holds m' xs (bs @ [?x]) ib" using assms(3-5) ib0 by (simp add: holds_def file_at_indirect)
  show "grown (bs @ [ib]) m (own_of (bs @ [?x]) ib) m'"
    using grown_alloc [OF assms(1,2) ib(2), of bs ?v] ib0 by (simp add: own_of_def m'_def)
  show "unat (freeblock m') = unat ?x + 1" using s(2) by (simp add: m'_def)
qed

lemma alloc_indirect:
  assumes "holds m xs bs ib" "12 \<le> length bs" "length bs < 268" "d_addrs d = addrs_of bs ib"
    and "unat (freeblock m) + (if length bs = 12 then 2 else 1) \<le> 2000"
  shows "\<exists>x ib' m'. iappend_block (of_nat (length bs)) d m = Inr (x, d\<lparr>d_addrs := addrs_of (bs @ [x]) ib'\<rparr>, m') \<and> holds m' xs (bs @ [x]) ib' \<and>
    grown (own_of bs ib) m (own_of (bs @ [x]) ib') m' \<and> unat (freeblock m') = unat (freeblock m) + (if length bs = 12 then 2 else 1)"
proof -
  have f: "file_at (img m) xs bs ib" "set (own_of bs ib) \<subseteq> {47..<freeblock m}" "space m" using assms(1) by (simp_all add: holds_def)
  have u: "unat (of_nat (length bs) :: u32) = length bs" using assms(3) by (intro unat_fbn)
  have xs: "length xs \<le> 1024 * length bs" "distinct bs" "\<forall>b < length bs. img m (bs ! b) = block_of xs b" "ib = 0 \<longleftrightarrow> length bs = 12"
    using f(1) assms(2) by (auto simp: file_at_def own_of_def)
  define ib' where "ib' = (if ib = 0 then freeblock m else ib)"
  define m1 where "m1 = (if ib = 0 then m\<lparr>freeblock := freeblock m + 1\<rparr> else m)"
  have lt: "unat (freeblock m) < 2000" using assms(5) by (auto split: if_splits)
  note s = space_take [OF f(3) lt]
  have m1: "space m1" "img m1 = img m" "unat (freeblock m1) = unat (freeblock m) + (if length bs = 12 then 1 else 0)" "unat (freeblock m1) < 2000"
    using s(1,2) f(3) xs(4) assms(5) by (auto simp: m1_def)
  have "set (bs @ [ib']) \<subseteq> {47..<freeblock m1}"
  proof -
    have "y < freeblock m + 1" if "y < freeblock m" for y using that s(6) by (rule less_trans)
    moreover have "47 \<le> freeblock m" using f(3) by (simp add: space_def)
    ultimately show ?thesis using f(2) s(6) by (auto simp: own_of_def m1_def ib'_def)
  qed
  moreover have "distinct (bs @ [ib'])" using f(1,2) xs(2) by (auto simp: ib'_def own_of_def file_at_def split: if_splits)
  moreover have "indirect_ok (img m1 ib') bs"
    using f(1) s(3) indirect_ok_zero [of bs] xs(4) m1(2) by (auto simp: ib'_def file_at_indirect)
  ultimately have a: "indirect_ok (img m1 ib') bs" "distinct (bs @ [ib'])" "set (bs @ [ib']) \<subseteq> {47..<freeblock m1}" by blast+
  let ?x = "freeblock m1" and ?z = "img m1 ib'"
  let ?m = "m1\<lparr>freeblock := freeblock m1 + 1, img := (img m1)(ib' := putw 4 ?z ((length bs - 12) * 4) ?x)\<rparr>"
  have e: "holds ?m xs (bs @ [?x]) ib'" "grown (bs @ [ib']) m1 (own_of (bs @ [?x]) ib') ?m" "unat (freeblock ?m) = unat ?x + 1"
    using alloc_entry [OF m1(1,4) assms(2,3) xs(1) a(2) _ a(1,3)] xs(3) m1(2) by auto
  have "m1 = m\<lparr>img := img m, freeblock := freeblock m1\<rparr>" by (cases m) (simp add: m1_def)
  then have "\<exists>g f. m1 = m\<lparr>img := g, freeblock := f\<rparr>" by blast
  then have "grown (own_of bs ib) m (bs @ [ib']) m1"
    using s(4,6) m1(2) unfolding grown_def by (auto simp: own_of_def m1_def ib'_def)
  from grown_trans [OF this e(2)] have g: "grown (own_of bs ib) m (own_of (bs @ [?x]) ib') ?m" .
  have ib': "ib' \<noteq> 0" "ib' < 2000" using a(3) m1(4) by (auto simp: word_le_nat_alt word_less_nat_alt)
  have len: "img_len m1 = 2000" using m1(1) by (simp add: space_def)
  have d: "(if ib = 0 then d\<lparr>d_addrs := (d_addrs d)[12 := ib']\<rparr> else d) = d\<lparr>d_addrs := addrs_of (bs @ [?x]) ib'\<rparr>"
    using assms(2,4) addrs_of_indirect [OF assms(2), of ib ib' ?x] list_update_id [of "addrs_of bs ib" 12] addrs_of_indirect [OF assms(2), of ib ib ?x] nth_addrs_of(2) [of bs ib] assms(3)
    by (cases d) (auto simp: ib'_def)
  have r: "rsect ib' m1 = Inr ?z" using ib'(2) len by (simp add: rsect_def word_less_nat_alt)
  have w: "wsect ib' (putw 4 ?z ((length bs - 12) * 4) ?x) (m1\<lparr>freeblock := ?x + 1\<rparr>) = ?m"
    using ib'(2) len by (subst wsect_in) (simp_all add: word_less_nat_alt)
  let ?d = "d\<lparr>d_addrs := addrs_of (bs @ [?x]) ib'\<rparr>"
  have pair: "(if d_addrs d ! 12 = 0 then (d\<lparr>d_addrs := (d_addrs d)[12 := freeblock m]\<rparr>, m\<lparr>freeblock := freeblock m + 1\<rparr>) else (d, m)) = (?d, m1)"
    using d nth_addrs_of(2) [of bs ib] assms(3,4) by (auto simp: ib'_def m1_def)
  have "d_addrs ?d ! 12 = ib'" using nth_addrs_of(2) [of "bs @ [?x]" ib'] assms(3) by simp
  then have "iappend_block (of_nat (length bs)) d m = Inr (?x, ?d, ?m)"
    unfolding iappend_block_def Let_def pair using u assms(2) r w indirect_ok_put(2) [OF a(1) assms(2,3)] by simp
  then show ?thesis using e(1,3) g m1(3) by (intro exI [of _ ?x] exI [of _ ib'] exI [of _ ?m]) auto
qed

lemma iappend_block_new:
  assumes "holds m xs bs ib" "length bs < 268" "d_addrs d = addrs_of bs ib" "unat (freeblock m) + (if length bs = 12 then 2 else 1) \<le> 2000"
  shows "\<exists>x ib' m'. iappend_block (of_nat (length bs)) d m = Inr (x, d\<lparr>d_addrs := addrs_of (bs @ [x]) ib'\<rparr>, m') \<and> holds m' xs (bs @ [x]) ib' \<and>
    grown (own_of bs ib) m (own_of (bs @ [x]) ib') m' \<and> unat (freeblock m') = unat (freeblock m) + (if length bs = 12 then 2 else 1)"
proof (cases "length bs < 12")
  case True
  then show ?thesis using alloc_direct [OF assms(1) True assms(3)] assms(4) by fastforce
qed (use alloc_indirect [OF assms(1) _ assms(2-4)] in simp)

text \<open>Bytes appended within a block of the file.\<close>

lemma append_bytes:
  assumes "holds m xs bs ib" "c = length xs div 1024" "c < length bs" "length ys \<le> 1024 - length xs mod 1024"
  defines "v \<equiv> splice (img m (bs ! c)) (length xs mod 1024) ys"
  shows "rsect (bs ! c) m = Inr (img m (bs ! c))" "wsect (bs ! c) v m = m\<lparr>img := (img m)(bs ! c := v)\<rparr>"
    "holds (m\<lparr>img := (img m)(bs ! c := v)\<rparr>) (xs @ ys) bs ib" "grown (own_of bs ib) m (own_of bs ib) (m\<lparr>img := (img m)(bs ! c := v)\<rparr>)"
proof -
  let ?x = "bs ! c" and ?o = "length xs mod 1024"
  have f: "file_at (img m) xs bs ib" "set (own_of bs ib) \<subseteq> {47..<freeblock m}" "space m" using assms(1) by (simp_all add: holds_def)
  have mem: "?x \<in> set (own_of bs ib)" using assms(3) by (simp add: own_of_def)
  have x: "?x < freeblock m" "unat ?x < 2000" "img m ?x = block_of xs c"
    using f mem assms(3) by (auto simp: file_at_def space_def word_less_nat_alt word_le_nat_alt)
  have len: "img_len m = 2000" using f(3) by (simp add: space_def)
  show "rsect ?x m = Inr (img m ?x)" using x len by (simp add: rsect_def)
  show "wsect ?x v m = m\<lparr>img := (img m)(?x := v)\<rparr>" using x len by (simp add: wsect_in)
  have pos: "1024 * c + ?o = length xs" by (simp add: assms(2))
  have lo: "?o < 1024" by simp
  have v: "v = block_of (xs @ ys) c"
  proof (rule nth_equalityI)
    show l: "length v = length (block_of (xs @ ys) c)" using assms(4) lo by (simp add: v_def splice_def x(3) block_of_def)
    fix j assume "j < length v"
    then have j: "j < 1024" using l by (simp add: block_of_def)
    moreover have "1024 * c + j - length xs = j - ?o" using pos by linarith
    ultimately show "v ! j = block_of (xs @ ys) c ! j"
      using assms(4) lo pos by (auto simp: v_def splice_def x(3) block_of_def byte0_def nth_append min_def)
  qed
  have lv: "length v = 1024" by (simp add: v block_of_def)
  have other: "block_of (xs @ ys) b = block_of xs b" if "b < length bs" "b \<noteq> c" for b
  proof -
    have "1024 * b + 1024 \<le> length xs \<or> length (xs @ ys) \<le> 1024 * b"
      using that(2) pos assms(4) lo by (cases "b < c") auto
    then show ?thesis by (auto simp: block_of_def byte0_def nth_append)
  qed
  have ne: "bs ! b \<noteq> ?x" if "b < length bs" "b \<noteq> c" for b
    using that assms(3) f(1) by (auto simp: file_at_def own_of_def nth_eq_iff_index_eq)
  have blocks: "((img m)(?x := v)) (bs ! b) = block_of (xs @ ys) b" if "b < length bs" for b
    using that f(1) other ne v by (cases "b = c") (simp_all add: file_at_def)
  have "ib \<noteq> ?x" if "ib \<noteq> 0" using that f(1) assms(3) by (auto simp: file_at_def own_of_def)
  moreover have "length (xs @ ys) \<le> 1024 * length bs" using assms(3,4) pos lo by auto
  ultimately have "file_at ((img m)(?x := v)) (xs @ ys) bs ib"
    using f(1) blocks unfolding file_at_def by auto
  then show "holds (m\<lparr>img := (img m)(?x := v)\<rparr>) (xs @ ys) bs ib"
    using space_wsect [OF f(3) x(1) lv] f(2) by (simp add: holds_def)
  have "m\<lparr>img := (img m)(?x := v)\<rparr> = m\<lparr>img := (img m)(?x := v), freeblock := freeblock m\<rparr>" by (cases m) simp
  then have "\<exists>g f. m\<lparr>img := (img m)(?x := v)\<rparr> = m\<lparr>img := g, freeblock := f\<rparr>" by blast
  then show "grown (own_of bs ib) m (own_of bs ib) (m\<lparr>img := (img m)(?x := v)\<rparr>)"
    unfolding grown_def using mem by auto
qed

subsection \<open>Appending to a file\<close>

lemma nb_add: "nb (1024 * q + r) = q + nb r"
  by (simp add: nb_def add.assoc)

lemma nb_small: "nb 0 = 0" "0 < r \<Longrightarrow> r \<le> 1024 \<Longrightarrow> nb r = 1"
  by (simp_all add: nb_def div_nat_eqI)

lemma nb_simps: "n mod 1024 = 0 \<Longrightarrow> nb n = n div 1024" "n mod 1024 \<noteq> 0 \<Longrightarrow> nb n = Suc (n div 1024)"
proof -
  have n: "nb n = n div 1024 + nb (n mod 1024)" using nb_add [of "n div 1024" "n mod 1024"] by (simp only: mult_div_mod_eq)
  then show "n mod 1024 = 0 \<Longrightarrow> nb n = n div 1024" by (simp add: nb_small(1))
  show "n mod 1024 \<noteq> 0 \<Longrightarrow> nb n = Suc (n div 1024)" using n nb_small(2) [of "n mod 1024"] by simp
qed

lemma nb_mono: "a \<le> b \<Longrightarrow> nb a \<le> nb b" "a \<le> b \<Longrightarrow> cost a \<le> cost b"
proof -
  show 1: "a \<le> b \<Longrightarrow> nb a \<le> nb b" by (simp add: nb_def div_le_mono)
  show "a \<le> b \<Longrightarrow> cost a \<le> cost b" using 1 by (auto simp: cost_def)
qed

lemma nb_le: "n \<le> 268 * 1024 \<Longrightarrow> nb n \<le> 268"
  by (simp add: nb_def)

text \<open>One round of the loop: the data up to the end of the block.\<close>

lemma iappend_round:
  assumes "holds m xs bs ib" "length bs = nb (length xs)" "d_addrs d = addrs_of bs ib" "length xs < 268 * 1024"
    and "ys \<noteq> []" "length ys \<le> 1024 - length xs mod 1024" "unat (freeblock m) + cost (length (xs @ ys)) \<le> 2000 + cost (length xs)"
  defines "c \<equiv> length xs div 1024"
  shows "\<exists>x bs' ib' m1 m'. iappend_block (of_nat c) d m = Inr (x, d\<lparr>d_addrs := addrs_of bs' ib'\<rparr>, m1) \<and> rsect x m1 = Inr (img m1 x) \<and>
    wsect x (splice (img m1 x) (length xs mod 1024) ys) m1 = m' \<and> holds m' (xs @ ys) bs' ib' \<and> length bs' = nb (length (xs @ ys)) \<and>
    grown (own_of bs ib) m (own_of bs' ib') m' \<and> unat (freeblock m') + cost (length xs) = unat (freeblock m) + cost (length (xs @ ys))"
proof (cases "length xs mod 1024 = 0")
  case False
  have "nb (length (xs @ ys)) = nb (length xs)"
    using nb_add [of c "length xs mod 1024 + length ys"] nb_add [of c "length xs mod 1024"] nb_small(2) False assms(6)
    by (simp add: c_def nb_simps add.assoc [symmetric])
  moreover have "c < length bs" using False assms(2) by (simp add: nb_simps c_def)
  moreover have "d\<lparr>d_addrs := addrs_of bs ib\<rparr> = d" using assms(3) by (cases d) simp
  ultimately show ?thesis
    using append_bytes [OF assms(1) _ _ assms(6), of c] iappend_block_old [OF assms(1) _ assms(3), of c] assms(2)
    by - (rule exI [of _ "bs ! c"], rule exI [of _ bs], rule exI [of _ ib], rule exI [of _ m], (simp add: c_def cost_def))
next
  case True
  have c: "length bs = c" "c < 268" using True assms(2,4) by (simp_all add: nb_simps c_def)
  have nb': "nb (length (xs @ ys)) = Suc c"
  proof -
    have "length xs = 1024 * c" using True mult_div_mod_eq [of 1024 "length xs"] by (simp add: c_def)
    moreover have "length ys \<noteq> 0" using assms(5) by simp
    ultimately show ?thesis using assms(6) nb_add [of c "length ys"] nb_small(2) [of "length ys"] by simp
  qed
  have cost': "cost (length (xs @ ys)) = cost (length xs) + (if length bs = 12 then 2 else 1)"
    using nb' assms(2) c by (auto simp: cost_def)
  obtain x ib' m1 where n: "iappend_block (of_nat (length bs)) d m = Inr (x, d\<lparr>d_addrs := addrs_of (bs @ [x]) ib'\<rparr>, m1)"
    "holds m1 xs (bs @ [x]) ib'" "grown (own_of bs ib) m (own_of (bs @ [x]) ib') m1" "unat (freeblock m1) = unat (freeblock m) + (if length bs = 12 then 2 else 1)"
    using iappend_block_new [OF assms(1) _ assms(3)] c assms(7) cost' by fastforce
  have "(bs @ [x]) ! c = x" using c(1) by (metis nth_append_length)
  then show ?thesis
    using append_bytes [OF n(2) _ _ assms(6), of c] n(1,4) c nb' cost' grown_trans [OF n(3)]
    by - (rule exI [of _ x], rule exI [of _ "bs @ [x]"], rule exI [of _ ib'], rule exI [of _ m1], (simp add: c_def))
qed

lemma iappend_loop_ok:
  assumes "holds m xs bs ib" "length bs = nb (length xs)" "d_addrs d = addrs_of bs ib" "length xs + length dat \<le> 268 * 1024"
    and "unat (freeblock m) + cost (length xs + length dat) \<le> 2000 + cost (length xs)"
  shows "\<exists>bs' ib' m'. iappend_loop dat d (of_nat (length xs)) m = Inr (d\<lparr>d_addrs := addrs_of bs' ib'\<rparr>, of_nat (length xs + length dat), m') \<and>
    holds m' (xs @ dat) bs' ib' \<and> length bs' = nb (length xs + length dat) \<and> grown (own_of bs ib) m (own_of bs' ib') m' \<and>
    unat (freeblock m') + cost (length xs) = unat (freeblock m) + cost (length xs + length dat)"
  using assms
proof (induction "length dat" arbitrary: dat xs bs ib d m rule: less_induct)
  case less
  show ?case
  proof (cases dat)
    case Nil
    have "m = m\<lparr>img := img m, freeblock := freeblock m\<rparr>" "d\<lparr>d_addrs := addrs_of bs ib\<rparr> = d" using less.prems(3) by (cases d; simp)+
    then have "\<exists>g f. m = m\<lparr>img := g, freeblock := f\<rparr>" by blast
    then have "grown (own_of bs ib) m (own_of bs ib) m" by (simp add: grown_def)
    then show ?thesis using Nil less.prems(1,2) \<open>d\<lparr>d_addrs := addrs_of bs ib\<rparr> = d\<close>
      by - (rule exI [of _ bs], rule exI [of _ ib], rule exI [of _ m], simp)
  next
    case (Cons e es)
    let ?c = "length xs div 1024" and ?o = "length xs mod 1024"
    define n1 where "n1 = min (length dat) (1024 - ?o)"
    let ?ys = "take n1 dat"
    have n1: "0 < n1" "n1 \<le> length dat" "length ?ys = n1" "n1 \<le> 1024 - ?o" "?ys \<noteq> []" using Cons by (auto simp: n1_def)
    have lx: "length xs < 268 * 1024" using less.prems(4) Cons by simp
    have u: "unat (of_nat (length xs) :: u32) = length xs" using lx by (simp add: unsigned_of_nat take_bit_nat_eq_self)
    have "?c < 268" using lx by (simp add: less_mult_imp_div_less)
    then have fbn: "(of_nat (length xs) :: u32) div 1024 = of_nat ?c" using u unat_fbn [of ?c] by (simp add: word_unat_eq_iff unat_div)
    have "(of_nat (length xs) :: u32) - of_nat ?c * 1024 = of_nat (length xs - ?c * 1024)" by (simp add: of_nat_diff)
    moreover have "length xs - ?c * 1024 = ?o" by (simp add: modulo_nat_def)
    ultimately have start: "unat (of_nat (length xs) - of_nat ?c * 1024 :: u32) = ?o"
      by (simp add: unsigned_of_nat take_bit_nat_eq_self)
    have mono: "cost (length xs + n1) \<le> cost (length xs + length dat)" using n1(2) by (intro nb_mono(2)) simp
    obtain x bs1 ib1 m0 m1 where r: "iappend_block (of_nat ?c) d m = Inr (x, d\<lparr>d_addrs := addrs_of bs1 ib1\<rparr>, m0)" "rsect x m0 = Inr (img m0 x)"
      "wsect x (splice (img m0 x) ?o ?ys) m0 = m1" "holds m1 (xs @ ?ys) bs1 ib1" "length bs1 = nb (length (xs @ ?ys))"
      "grown (own_of bs ib) m (own_of bs1 ib1) m1" "unat (freeblock m1) + cost (length xs) = unat (freeblock m) + cost (length (xs @ ?ys))"
      using iappend_round [OF less.prems(1-3) lx n1(5)] n1(3,4) mono less.prems(5) by auto
    have step: "iappend_loop dat d (of_nat (length xs)) m =
        iappend_loop (drop n1 dat) (d\<lparr>d_addrs := addrs_of bs1 ib1\<rparr>) (of_nat (length (xs @ ?ys))) m1"
    proof -
      have off: "(of_nat (length xs) + of_nat n1 :: u32) = of_nat (length (xs @ ?ys))" using n1(3) by simp
      have small: "unat (of_nat ?c :: u32) < MAXFILE" using lx by (simp add: unat_fbn less_mult_imp_div_less)
      have room: "unat ((of_nat ?c + 1) * 1024 - of_nat (length xs) :: u32) = 1024 - ?o"
        using room_in_block [of "of_nat (length xs)"] fbn u by simp
      show ?thesis unfolding Cons iappend_loop.simps(2) Let_def fbn room
        using r(1-3) small off start by (simp add: Cons [symmetric] n1_def [symmetric])
    qed
    have rest: "length (xs @ ?ys) + length (drop n1 dat) = length xs + length dat" using n1(2,3) by simp
    have "length (drop n1 dat) < length dat" using n1(1,2) by simp
    from less.hyps [OF this r(4,5), of "d\<lparr>d_addrs := addrs_of bs1 ib1\<rparr>"] obtain bs' ib' m' where
      "iappend_loop (drop n1 dat) (d\<lparr>d_addrs := addrs_of bs1 ib1\<rparr>) (of_nat (length (xs @ ?ys))) m1 =
        Inr (d\<lparr>d_addrs := addrs_of bs' ib'\<rparr>, of_nat (length xs + length dat), m')"
      "holds m' ((xs @ ?ys) @ drop n1 dat) bs' ib'" "length bs' = nb (length xs + length dat)" "grown (own_of bs1 ib1) m1 (own_of bs' ib') m'"
      "unat (freeblock m') + cost (length (xs @ ?ys)) = unat (freeblock m1) + cost (length xs + length dat)"
      using less.prems(4,5) r(7) unfolding rest by auto
    then show ?thesis using step r(7) grown_trans [OF r(6)]
      by - (rule exI [of _ bs'], rule exI [of _ ib'], rule exI [of _ m'], simp)
  qed
qed

end
