(* ===== verification/Mkimage.thy ===== *)
theory Mkimage
  imports Mkfs
begin

section \<open>The image that mkfs builds and the kernel's file system\<close>

text \<open>
  The blocks of the finished image, read the way the kernel reads them: inodes, file contents, the root directory, the bitmap.
\<close>

subsection \<open>The image as a list of files\<close>

text \<open>What the builder has put into inode \<open>k + 1\<close>: a type, bytes, the data blocks and the indirect block.\<close>

record node =
  nty :: u16
  nxs :: "u8 list"
  nbs :: "u32 list"
  nib :: u32

abbreviation nown :: "node \<Rightarrow> u32 list" where "nown n \<equiv> own_of (nbs n) (nib n)"

definition disk_inode :: "node \<Rightarrow> mkfs_dinode" where
  "disk_inode n = \<lparr>d_type = nty n, d_major = 0, d_minor = 0, d_nlink = 1, d_size = of_nat (length (nxs n)), d_addrs = addrs_of (nbs n) (nib n)\<rparr>"

definition SB :: superblock where
  "SB = \<lparr>magic = FSMAGIC, sb_size = 2000, nblocks = 1953, ninodes = 200, nlog = 31, logstart = 2, inodestart = 33, bmapstart = 46\<rparr>"

definition meta_ok :: "(u32 \<Rightarrow> u8 list) \<Rightarrow> bool" where
  "meta_ok g \<longleftrightarrow> g 1 = sb_bytes SB @ replicate 992 0 \<and> (\<forall>b < 47. b \<noteq> 1 \<longrightarrow> b < 33 \<or> b = 46 \<longrightarrow> g b = replicate 1024 0)"

definition node_ok :: "mkfs \<Rightarrow> node \<Rightarrow> bool" where
  "node_ok m n \<longleftrightarrow> file_at (img m) (nxs n) (nbs n) (nib n) \<and> length (nbs n) = nb (length (nxs n)) \<and> length (nxs n) \<le> 268 * 1024 \<and>
     set (nown n) \<subseteq> {47..<freeblock m}"

definition tree_ok :: "mkfs \<Rightarrow> node list \<Rightarrow> bool" where
  "tree_ok m T \<longleftrightarrow> space m \<and> msb m = SB \<and> freeinode m = of_nat (Suc (length T)) \<and> length T \<le> 199 \<and> meta_ok (img m) \<and>
     unat (freeblock m) = 47 + sum_list (map (\<lambda>n. cost (length (nxs n))) T) \<and>
     (\<forall>k < length T. node_ok m (T ! k)) \<and> (\<forall>j < length T. \<forall>k < length T. j \<noteq> k \<longrightarrow> set (nown (T ! j)) \<inter> set (nown (T ! k)) = {}) \<and>
     (\<forall>k < 208. slot k (img m) = (if 0 < k \<and> k \<le> length T then dinode_bytes (disk_inode (T ! (k - 1))) else replicate 64 0))"

lemma mk_iblock_eq: "n < 208 \<Longrightarrow> mk_iblock (of_nat n) SB = 33 + of_nat (n div 16)" "n < 208 \<Longrightarrow> unat (of_nat n mod 16 :: u32) = n mod 16"
    "n < 208 \<Longrightarrow> unat (33 + of_nat (n div 16) :: u32) = 33 + n div 16"
proof -
  assume n: "n < 208"
  then have u: "unat (of_nat n :: u32) = n" "unat (of_nat (n div 16) :: u32) = n div 16" by (simp_all add: unsigned_of_nat take_bit_nat_eq_self)
  then have "(of_nat n :: u32) div 16 = of_nat (n div 16)" by (simp add: word_unat_eq_iff unat_div)
  then show "mk_iblock (of_nat n) SB = 33 + of_nat (n div 16)" by (simp add: mk_iblock_def SB_def)
  show "unat (of_nat n mod 16 :: u32) = n mod 16" using u by (simp add: unat_mod)
  show "unat (33 + of_nat (n div 16) :: u32) = 33 + n div 16" using u n by (simp add: unat_word_ariths(1))
qed

lemma slot_write:
  assumes "n < 208" "k < 208" "length v = 64" "length (g (33 + of_nat (n div 16))) = 1024"
  shows "slot k (g(33 + of_nat (n div 16) := splice (g (33 + of_nat (n div 16))) (n mod 16 * 64) v)) = (if k = n then v else slot k g)"
proof (cases "k div 16 = n div 16")
  case False
  then have "(33 + of_nat (k div 16) :: u32) \<noteq> 33 + of_nat (n div 16)" using mk_iblock_eq(3) assms(1,2) by (metis add_left_cancel)
  then show ?thesis using False by (auto simp: slot_def)
next
  case True
  let ?x = "g (33 + of_nat (n div 16))" and ?o = "n mod 16 * 64"
  have "n mod 16 < 16" "k mod 16 < 16" by simp_all
  then have o: "?o + 64 \<le> 1024" "k mod 16 * 64 + 64 \<le> 1024" by linarith+
  show ?thesis
  proof (cases "k = n")
    case False
    then have "k mod 16 \<noteq> n mod 16" using True by (metis div_mult_mod_eq)
    then have "k mod 16 * 64 + 64 \<le> ?o \<or> ?o + 64 \<le> k mod 16 * 64" by linarith
    then have "take 64 (drop (64 * (k mod 16)) (splice ?x ?o v)) = take 64 (drop (64 * (k mod 16)) ?x)"
      using o assms(3,4) by (intro take_drop_eqI) (auto simp: splice_def nth_append mult.commute)
    then show ?thesis using False True by (simp add: slot_def)
  next
    case same: True
    have "take 64 (drop ?o (splice ?x ?o v)) = v" using o assms(3,4) by (simp add: splice_def)
    then show ?thesis using same by (simp add: slot_def mult.commute)
  qed
qed

text \<open>Writing an inode touches its slot only.\<close>

definition put_slot :: "nat \<Rightarrow> u8 list \<Rightarrow> mkfs \<Rightarrow> mkfs" where
  "put_slot n v m = m\<lparr>img := (img m)(33 + of_nat (n div 16) := splice (img m (33 + of_nat (n div 16))) (n mod 16 * 64) v)\<rparr>"

lemma put_slot_sel [simp]: "freeblock (put_slot n v m) = freeblock m" "freeinode (put_slot n v m) = freeinode m" "msb (put_slot n v m) = msb m"
    "img_len (put_slot n v m) = img_len m"
  by (simp_all add: put_slot_def)

lemma inode_block: "n < 208 \<Longrightarrow> 33 \<le> (33 + of_nat (n div 16) :: u32)" "n < 208 \<Longrightarrow> (33 + of_nat (n div 16) :: u32) < 46"
  using mk_iblock_eq(3) [of n] by (simp_all add: word_le_nat_alt word_less_nat_alt)

lemma put_slot_other: "n < 208 \<Longrightarrow> b < 33 \<or> 46 \<le> b \<Longrightarrow> img (put_slot n v m) b = img m b"
  using inode_block [of n] by (auto simp: put_slot_def)

lemma put_slot_space:
  assumes "space m" "n < 208" "length v = 64"
  shows "space (put_slot n v m)" "k < 208 \<Longrightarrow> slot k (img (put_slot n v m)) = (if k = n then v else slot k (img m))"
proof -
  let ?b = "33 + of_nat (n div 16) :: u32"
  note b = inode_block [OF assms(2)]
  have "?b < 2000" using b(2) by (rule less_trans) simp
  then have l: "length (img m ?b) = 1024" using assms(1) by (simp add: space_def)
  have "n mod 16 < 16" by simp
  then have "n mod 16 * 64 + 64 \<le> 1024" by linarith
  then have "length (splice (img m ?b) (n mod 16 * 64) v) = 1024" using l assms(3) by (simp add: splice_def)
  moreover have "?b < freeblock m" 
  proof -
    have "(46 :: u32) < 47" by simp
    then show ?thesis using b(2) assms(1) by (meson less_le_trans less_trans space_def)
  qed
  ultimately show "space (put_slot n v m)" unfolding put_slot_def using assms(1) space_wsect by blast
  show "slot k (img (put_slot n v m)) = (if k = n then v else slot k (img m))" if "k < 208"
    using slot_write [of n k v "img m", OF assms(2) that assms(3) l] by (simp add: put_slot_def)
qed

lemma winode_eq:
  assumes "space m" "msb m = SB" "n < 208"
  shows "winode (of_nat n) d m = Inr (put_slot n (dinode_bytes d) m)" "rinode (of_nat n) m = Inr (dinode_of (slot n (img m)))"
proof -
  let ?b = "33 + of_nat (n div 16) :: u32"
  have b: "unat ?b < img_len m" using inode_block [OF assms(3)] assms(1) by (simp add: space_def word_less_nat_alt)
  then have r: "rsect ?b m = Inr (img m ?b)" by (simp add: rsect_def)
  note e = mk_iblock_eq [OF assms(3)]
  show "winode (of_nat n) d m = Inr (put_slot n (dinode_bytes d) m)" using r b by (simp add: winode_def assms(2) e wsect_in put_slot_def Let_def)
  show "rinode (of_nat n) m = Inr (dinode_of (slot n (img m)))" using r by (simp add: rinode_def assms(2) e slot_def mult.commute)
qed

lemma file_at_same: "file_at (img m) xs bs ib \<Longrightarrow> set (own_of bs ib) \<subseteq> {47..<f} \<Longrightarrow> n < 208 \<Longrightarrow> file_at (img (put_slot n v m)) xs bs ib"
proof -
  assume a: "file_at (img m) xs bs ib" "set (own_of bs ib) \<subseteq> {47..<f}" "n < 208"
  have "img (put_slot n v m) y = img m y" if "y \<in> set (own_of bs ib)" for y
  proof -
    have "47 \<le> y" using that a(2) by auto
    then have "46 \<le> y" by (rule order_trans [rotated]) simp
    then show ?thesis using put_slot_other [OF a(3)] by blast
  qed
  then show ?thesis using file_at_cong [OF a(1)] by blast
qed

lemma node_ok_put_slot: "node_ok m n \<Longrightarrow> k < 208 \<Longrightarrow> node_ok (put_slot k v m) n"
  using file_at_same by (auto simp: node_ok_def)

lemma meta_ok_cong: "meta_ok g \<Longrightarrow> (\<And>b. b < 33 \<or> b = 46 \<Longrightarrow> h b = g b) \<Longrightarrow> meta_ok h"
  by (auto simp: meta_ok_def)

lemma meta_ok_put_slot: "meta_ok (img m) \<Longrightarrow> k < 208 \<Longrightarrow> meta_ok (img (put_slot k v m))"
  using put_slot_other by (erule_tac meta_ok_cong) auto

lemma length_disk_inode [simp]: "length (d_addrs (disk_inode n)) = 13"
  by (simp add: disk_inode_def addrs_of_def)

lemma length_disk_bytes [simp]: "length (dinode_bytes (disk_inode n)) = 64"
  by (simp add: length_dinode_bytes)

lemma disk_inode_size [simp]: "(disk_inode n)\<lparr>d_size := of_nat (length (nxs n))\<rparr> = disk_inode n"
  by (simp add: disk_inode_def)

lemma ialloc_tree:
  assumes "tree_ok m T" "length T < 199"
  shows "\<exists>m'. mk_ialloc ty m = Inr (of_nat (Suc (length T)), m') \<and> tree_ok m' (T @ [\<lparr>nty = ty, nxs = [], nbs = [], nib = 0\<rparr>])"
proof -
  let ?n = "\<lparr>nty = ty, nxs = [], nbs = [], nib = 0\<rparr>" and ?k = "Suc (length T)"
  let ?m = "m\<lparr>freeinode := freeinode m + 1\<rparr>" and ?v = "dinode_bytes (disk_inode \<lparr>nty = ty, nxs = [], nbs = [], nib = 0\<rparr>)"
  have t: "space m" "msb m = SB" "freeinode m = of_nat ?k" "meta_ok (img m)"
    "unat (freeblock m) = 47 + sum_list (map (\<lambda>n. cost (length (nxs n))) T)"
    "\<And>k. k < length T \<Longrightarrow> node_ok m (T ! k)" "\<And>j k. j < length T \<Longrightarrow> k < length T \<Longrightarrow> j \<noteq> k \<Longrightarrow> set (nown (T ! j)) \<inter> set (nown (T ! k)) = {}"
    "\<And>k. k < 208 \<Longrightarrow> slot k (img m) = (if 0 < k \<and> k \<le> length T then dinode_bytes (disk_inode (T ! (k - 1))) else replicate 64 0)"
    using assms(1) unfolding tree_ok_def by blast+
  have k: "?k < 208" using assms(2) by simp
  have sp: "space ?m" using t(1) by (simp add: space_def)
  have di: "disk_inode ?n = \<lparr>d_type = ty, d_major = 0, d_minor = 0, d_nlink = 1, d_size = 0, d_addrs = replicate 13 0\<rparr>"
    by (simp add: disk_inode_def addrs_of_def numeral_eq_Suc)
  have run: "mk_ialloc ty m = Inr (of_nat ?k, put_slot ?k ?v ?m)"
    using winode_eq(1) [OF sp _ k, of "disk_inode ?n"] t(2,3) by (simp add: mk_ialloc_def di)
  have "node_ok ?m ?n" by (simp add: node_ok_def file_at_def own_of_def nb_small)
  moreover have "node_ok ?m (T ! j)" if "j < length T" for j using t(6) [OF that] by (simp add: node_ok_def)
  ultimately have "node_ok ?m ((T @ [?n]) ! j)" if "j < length (T @ [?n])" for j using that by (auto simp: nth_append less_Suc_eq)
  then have nodes: "node_ok (put_slot ?k ?v ?m) ((T @ [?n]) ! j)" if "j < length (T @ [?n])" for j using that node_ok_put_slot k by blast
  have disj: "set (nown ((T @ [?n]) ! j)) \<inter> set (nown ((T @ [?n]) ! i)) = {}" if "j < Suc (length T)" "i < Suc (length T)" "j \<noteq> i" for i j
  proof -
    have "set (nown ?n) = {}" by (simp add: own_of_def)
    then show ?thesis using that t(7) [of j i] by (cases "j < length T"; cases "i < length T") (auto simp: nth_append less_Suc_eq simp del: Int_Un_distrib)
  qed
  have slots: "slot j (img (put_slot ?k ?v ?m)) = (if 0 < j \<and> j \<le> Suc (length T) then dinode_bytes (disk_inode ((T @ [?n]) ! (j - 1))) else replicate 64 0)"
    if "j < 208" for j
    using put_slot_space(2) [OF sp k, of ?v j] t(8) [OF that] that by (auto simp: nth_append)
  have meta: "meta_ok (img (put_slot ?k ?v ?m))" using meta_ok_put_slot [of ?m, OF _ k] t(4) by simp
  have "tree_ok (put_slot ?k ?v ?m) (T @ [?n])"
    unfolding tree_ok_def using put_slot_space(1) [OF sp k, of ?v] t(2,3,5) assms(2) meta nodes disj slots
    by (simp add: cost_def nb_small)
  then show ?thesis using run by blast
qed

lemma slot_cong: "k < 208 \<Longrightarrow> (\<And>b. b < 47 \<Longrightarrow> h b = g b) \<Longrightarrow> slot k h = slot k g"
  using inode_block(2) [of k] by (simp add: slot_def less_trans)

lemma sum_cost_update:
  fixes c :: "'a \<Rightarrow> nat"
  assumes "k < length T"
  shows "sum_list (map c (T[k := x])) + c (T ! k) = sum_list (map c T) + c x"
  using assms member_le_sum_list [of "c (T ! k)" "map c T"] by (simp add: map_update sum_list_update)

lemma iappend_tree:
  assumes "tree_ok m T" "k < length T" "length (nxs (T ! k)) + length dat \<le> 268 * 1024"
    and "unat (freeblock m) + cost (length (nxs (T ! k)) + length dat) \<le> 2000 + cost (length (nxs (T ! k)))"
  shows "\<exists>m' bs ib. iappend (of_nat (Suc k)) dat m = Inr m' \<and> tree_ok m' (T[k := (T ! k)\<lparr>nxs := nxs (T ! k) @ dat, nbs := bs, nib := ib\<rparr>])"
proof -
  let ?n = "T ! k" and ?k = "Suc k" and ?c = "\<lambda>n. cost (length (nxs n))"
  have t: "space m" "msb m = SB" "freeinode m = of_nat (Suc (length T))" "meta_ok (img m)" "length T \<le> 199"
    "unat (freeblock m) = 47 + sum_list (map ?c T)"
    "\<And>k. k < length T \<Longrightarrow> node_ok m (T ! k)" "\<And>j k. j < length T \<Longrightarrow> k < length T \<Longrightarrow> j \<noteq> k \<Longrightarrow> set (nown (T ! j)) \<inter> set (nown (T ! k)) = {}"
    "\<And>k. k < 208 \<Longrightarrow> slot k (img m) = (if 0 < k \<and> k \<le> length T then dinode_bytes (disk_inode (T ! (k - 1))) else replicate 64 0)"
    using assms(1) unfolding tree_ok_def by blast+
  have k: "?k < 208" using t(5) assms(2) by simp
  have d: "rinode (of_nat ?k) m = Inr (disk_inode ?n)"
    using winode_eq(2) [OF t(1,2) k] t(9) [OF k] assms(2) by (simp add: dinode_of_bytes)
  have h: "holds m (nxs ?n) (nbs ?n) (nib ?n)" "length (nbs ?n) = nb (length (nxs ?n))"
    using t(1) t(7) [OF assms(2)] by (simp_all add: holds_def node_ok_def)
  obtain bs ib m1 where l: "iappend_loop dat (disk_inode ?n) (of_nat (length (nxs ?n))) m =
      Inr ((disk_inode ?n)\<lparr>d_addrs := addrs_of bs ib\<rparr>, of_nat (length (nxs ?n) + length dat), m1)"
    "holds m1 (nxs ?n @ dat) bs ib" "length bs = nb (length (nxs ?n) + length dat)" "grown (nown ?n) m (own_of bs ib) m1"
    "unat (freeblock m1) + cost (length (nxs ?n)) = unat (freeblock m) + cost (length (nxs ?n) + length dat)"
    using iappend_loop_ok [OF h _ assms(3,4), of "disk_inode ?n"] by (auto simp: disk_inode_def)
  define n where "n = ?n\<lparr>nxs := nxs ?n @ dat, nbs := bs, nib := ib\<rparr>"
  have nd: "(disk_inode ?n)\<lparr>d_addrs := addrs_of bs ib, d_size := of_nat (length (nxs ?n) + length dat)\<rparr> = disk_inode n"
    by (simp add: disk_inode_def n_def)
  have m1: "space m1" "msb m1 = SB" "freeinode m1 = freeinode m" "freeblock m \<le> freeblock m1" "set (own_of bs ib) \<subseteq> {47..<freeblock m1}"
    "set (own_of bs ib) = set (nown ?n) \<union> {freeblock m..<freeblock m1}" "\<And>y. y \<notin> set (own_of bs ib) \<Longrightarrow> img m1 y = img m y"
    using l(2,4) t(2) by (auto simp: holds_def grown_def)
  have low: "img m1 b = img m b" if "b < 47" for b
  proof (rule m1(7), rule notI)
    assume "b \<in> set (own_of bs ib)"
    then have "47 \<le> b" using m1(5) by (meson atLeastLessThan_iff subsetD)
    then show False using that by (simp add: leD)
  qed
  define m' where "m' = put_slot ?k (dinode_bytes (disk_inode n)) m1"
  have run: "iappend (of_nat ?k) dat m = Inr m'"
    using d l(1) winode_eq(1) [OF m1(1,2) k] nd by (simp add: iappend_def m'_def disk_inode_def)
  have keep: "node_ok m1 (T ! j)" "set (own_of bs ib) \<inter> set (nown (T ! j)) = {}" if "j < length T" "j \<noteq> k" for j
  proof -
    have j: "node_ok m (T ! j)" using t(7) that by blast
    then have "set (nown (T ! j)) \<subseteq> {47..<freeblock m}" by (simp add: node_ok_def)
    then show dj: "set (own_of bs ib) \<inter> set (nown (T ! j)) = {}" using t(8) [OF that(1) assms(2) that(2)] m1(6) by fastforce
    have "img m1 y = img m y" if "y \<in> set (nown (T ! j))" for y using that dj m1(7) by blast
    then have "file_at (img m1) (nxs (T ! j)) (nbs (T ! j)) (nib (T ! j))" using file_at_cong j by (auto simp: node_ok_def)
    moreover have "{47..<freeblock m} \<subseteq> {47..<freeblock m1}" using m1(4) by simp
    then have "set (nown (T ! j)) \<subseteq> {47..<freeblock m1}" using j unfolding node_ok_def by (blast dest: subset_trans)
    ultimately show "node_ok m1 (T ! j)" using j by (simp add: node_ok_def)
  qed
  have "node_ok m1 n" using l(2,3) assms(3) by (simp add: node_ok_def n_def holds_def)
  then have nodes: "node_ok m' (T[k := n] ! j)" if "j < length T" for j
    unfolding m'_def using node_ok_put_slot [OF _ k] keep(1) [OF that] assms(2) by (cases "j = k") simp_all
  have disj: "set (nown (T[k := n] ! j)) \<inter> set (nown (T[k := n] ! i)) = {}" if "j < length T" "i < length T" "j \<noteq> i" for i j
    using t(8) [OF that] keep(2) [of i] keep(2) [of j] that by (cases "j = k"; cases "i = k") (auto simp: n_def)
  have slots: "slot j (img m') = (if 0 < j \<and> j \<le> length T then dinode_bytes (disk_inode (T[k := n] ! (j - 1))) else replicate 64 0)" if "j < 208" for j
    using put_slot_space(2) [OF m1(1) k _ that, of "dinode_bytes (disk_inode n)"] slot_cong [OF that low] t(9) [OF that] assms(2) unfolding m'_def
    by (cases j) (auto simp: nth_list_update)
  have meta: "meta_ok (img m')" unfolding m'_def
    by (rule meta_ok_put_slot [OF meta_ok_cong [OF t(4)] k]) (auto intro!: low intro: less_trans)
  have "unat (freeblock m1) = 47 + sum_list (map ?c (T[k := n]))"
    using sum_cost_update [OF assms(2), of ?c n] l(5) t(6) by (simp add: n_def)
  then have "tree_ok m' (T[k := n])"
    unfolding tree_ok_def using put_slot_space(1) [OF m1(1) k, of "dinode_bytes (disk_inode n)"] m1(2,3) t(3,5) meta nodes disj slots
    by (simp add: m'_def)
  then show ?thesis using run n_def by blast
qed

subsection \<open>The run of the builder\<close>

text \<open>The image holds the files \<open>F\<close>, type and bytes, in the inodes from 1 on.\<close>

definition tree :: "mkfs \<Rightarrow> (u16 \<times> u8 list) list \<Rightarrow> bool" where
  "tree m F \<longleftrightarrow> (\<exists>T. tree_ok m T \<and> map (\<lambda>n. (nty n, nxs n)) T = F)"

definition total :: "(u16 \<times> u8 list) list \<Rightarrow> nat" where
  "total F = sum_list (map (\<lambda>f. cost (length (snd f))) F)"

definition file_data :: "u8 list list \<Rightarrow> u8 list" where
  "file_data reads = concat (takeWhile (\<lambda>c. c \<noteq> []) reads)"

lemma total_simps [simp]: "total (f # F) = cost (length (snd f)) + total F" "total (F @ G) = total F + total G" "total [] = 0"
  by (simp_all add: total_def)

lemma tree_new:
  assumes "tree m F" "length F < 199"
  shows "\<exists>m'. mk_ialloc ty m = Inr (of_nat (Suc (length F)), m') \<and> tree m' (F @ [(ty, [])])"
proof -
  obtain T where T: "tree_ok m T" "map (\<lambda>n. (nty n, nxs n)) T = F" using assms(1) by (auto simp: tree_def)
  then have "length T = length F" by auto
  then obtain m' where m': "mk_ialloc ty m = Inr (of_nat (Suc (length F)), m')" "tree_ok m' (T @ [\<lparr>nty = ty, nxs = [], nbs = [], nib = 0\<rparr>])"
    using ialloc_tree [OF T(1), of ty] assms(2) by auto
  then have "tree m' (F @ [(ty, [])])" unfolding tree_def using T(2) by (intro exI [of _ "T @ [\<lparr>nty = ty, nxs = [], nbs = [], nib = 0\<rparr>]"]) simp
  then show ?thesis using m'(1) by blast
qed

lemma tree_append:
  assumes "tree m F" "k < length F" "F ! k = (ty, xs)" "length xs + length dat \<le> 268 * 1024" "47 + total (F[k := (ty, xs @ dat)]) \<le> 2000"
  shows "\<exists>m'. iappend (of_nat (Suc k)) dat m = Inr m' \<and> tree m' (F[k := (ty, xs @ dat)])"
proof -
  obtain T where T: "tree_ok m T" "map (\<lambda>n. (nty n, nxs n)) T = F" using assms(1) by (auto simp: tree_def)
  then have k: "k < length T" using assms(2) by auto
  have n: "nty (T ! k) = ty" "nxs (T ! k) = xs" using T(2) k assms(3) by auto
  have "unat (freeblock m) = 47 + total F" using T by (auto simp: tree_ok_def total_def comp_def)
  moreover have "total (F[k := (ty, xs @ dat)]) + cost (length xs) = total F + cost (length xs + length dat)"
    using sum_cost_update [OF assms(2), of "\<lambda>f. cost (length (snd f))" "(ty, xs @ dat)"] assms(3) by (simp add: total_def)
  ultimately have "unat (freeblock m) + cost (length xs + length dat) \<le> 2000 + cost (length xs)" using assms(5) by simp
  then obtain m' bs ib where m': "iappend (of_nat (Suc k)) dat m = Inr m'" "tree_ok m' (T[k := (T ! k)\<lparr>nxs := xs @ dat, nbs := bs, nib := ib\<rparr>])"
    using iappend_tree [OF T(1) k, of dat] assms(4) n(2) by auto
  have "map (\<lambda>n. (nty n, nxs n)) (T[k := (T ! k)\<lparr>nxs := xs @ dat, nbs := bs, nib := ib\<rparr>]) = F[k := (ty, xs @ dat)]"
    using T(2) n(1) by (simp add: map_update)
  then have "tree m' (F[k := (ty, xs @ dat)])" using m'(2) unfolding tree_def by blast
  then show ?thesis using m'(1) by blast
qed

lemma total_mono: "k < length F \<Longrightarrow> length a \<le> length b \<Longrightarrow> total (F[k := (ty, a)]) \<le> total (F[k := (ty, b)])"
  using sum_cost_update [of k F "\<lambda>f. cost (length (snd f))" "(ty, a)"] sum_cost_update [of k F "\<lambda>f. cost (length (snd f))" "(ty, b)"]
    nb_mono(2) [of "length a" "length b"] by (simp add: total_def)

lemma file_data_simps [simp]: "file_data [] = []" "file_data (c # cs) = (if c = [] then [] else c @ file_data cs)"
  by (simp_all add: file_data_def)

lemma copy_file_tree:
  assumes "tree m F" "k < length F" "F ! k = (ty, xs)" "length xs + length (file_data reads) \<le> 268 * 1024"
    and "47 + total (F[k := (ty, xs @ file_data reads)]) \<le> 2000"
  shows "\<exists>m'. copy_file (of_nat (Suc k)) reads m = Inr m' \<and> tree m' (F[k := (ty, xs @ file_data reads)])"
  using assms
proof (induction reads arbitrary: m F xs)
  case Nil
  then have "F[k := (ty, xs)] = F" by (metis list_update_id)
  then show ?case using Nil by simp
next
  case (Cons c cs)
  show ?case
  proof (cases "c = []")
    case True
    then have "F[k := (ty, xs)] = F" using Cons.prems(3) by (metis list_update_id)
    then show ?thesis using Cons.prems(1) True by simp
  next
    case False
    have "total (F[k := (ty, xs @ c)]) \<le> total (F[k := (ty, xs @ c @ file_data cs)])" using Cons.prems(2) by (intro total_mono) simp_all
    then obtain m1 where m1: "iappend (of_nat (Suc k)) c m = Inr m1" "tree m1 (F[k := (ty, xs @ c)])"
      using tree_append [OF Cons.prems(1-3), of c] Cons.prems(4,5) False by auto
    then show ?thesis using Cons.IH [OF m1(2), of "xs @ c"] Cons.prems(2,4,5) False by (auto simp del: of_nat_Suc)
  qed
qed

text \<open>The bytes of the root directory: two entries of its own, then one per file.\<close>

definition dirent :: "u16 \<Rightarrow> u8 list \<Rightarrow> u8 list" where
  "dirent n nm = le_bytes 2 n @ pad 14 nm"

definition root_bytes :: "u8 list list \<Rightarrow> u8 list" where
  "root_bytes nms = dirent 1 [46] @ dirent 1 [46, 46] @ concat (map (\<lambda>k. dirent (of_nat (k + 2)) (nms ! k)) [0..<length nms])"

definition built :: "(u8 list \<times> u8 list) list \<Rightarrow> (u16 \<times> u8 list) list" where
  "built fs = (T_DIR, root_bytes (map fst fs)) # map (\<lambda>f. (T_FILE, snd f)) fs"

text \<open>The command line names the files \<open>fs\<close>, short name and bytes.\<close>

definition names :: "(u8 list \<Rightarrow> u8 list list option) \<Rightarrow> u8 list \<Rightarrow> u8 list \<times> u8 list \<Rightarrow> bool" where
  "names open_file p f \<longleftrightarrow> shortname_for_image p = Inr (fst f) \<and> length (fst f) \<le> DIRSIZ \<and>
     (\<exists>reads. open_file p = Some reads \<and> snd f = file_data reads) \<and> length (snd f) \<le> MAXFILE * BSIZE"

lemma root_bytes_snoc: "root_bytes (nms @ [nm]) = root_bytes nms @ dirent (of_nat (length nms + 2)) nm"
proof -
  have "map (\<lambda>k. dirent (of_nat (k + 2)) ((nms @ [nm]) ! k)) [0..<length nms] = map (\<lambda>k. dirent (of_nat (k + 2)) (nms ! k)) [0..<length nms]"
    by (rule map_cong) (simp_all add: nth_append)
  moreover have "[0..<length (nms @ [nm])] = [0..<length nms] @ [length nms]" by simp
  ultimately show ?thesis unfolding root_bytes_def by (simp only: map_append concat_append) simp
qed

lemma root_bytes_le: "length (root_bytes a) \<le> length (root_bytes (a @ b))"
proof (induction b rule: rev_induct)
  case (snoc x b)
  have "root_bytes (a @ b @ [x]) = root_bytes (a @ b) @ dirent (of_nat (length (a @ b) + 2)) x" using root_bytes_snoc [of "a @ b" x] by simp
  then show ?case using snoc by simp
qed simp

lemma ucast_of_nat_u16: "ucast (of_nat n :: u32) = (of_nat n :: u16)"
  by (simp add: word_unat_eq_iff unsigned_of_nat unsigned_ucast_eq)

lemma length_root_bytes: "\<forall>nm \<in> set nms. length nm \<le> 14 \<Longrightarrow> length (root_bytes nms) = 16 * (length nms + 2)"
proof (induction nms rule: rev_induct)
  case (snoc nm nms)
  then show ?case by (simp add: root_bytes_snoc dirent_def pad_def)
qed (simp add: root_bytes_def dirent_def pad_def)

lemma add_file_tree:
  assumes "tree m (built fs)" "names open_file p f" "length fs < 198" "\<forall>g \<in> set fs. length (fst g) \<le> DIRSIZ" "47 + total (built (fs @ [f])) \<le> 2000"
  shows "\<exists>m'. add_file open_file p m = Inr m' \<and> tree m' (built (fs @ [f]))"
proof -
  obtain nm xs reads where f: "f = (nm, xs)" "shortname_for_image p = Inr nm" "length nm \<le> 14" "open_file p = Some reads" "xs = file_data reads" "length xs \<le> 268 * 1024"
    using assms(2) by (cases f) (auto simp: names_def)
  let ?r = "root_bytes (map fst fs)" and ?e = "dirent (of_nat (length fs + 2)) nm" and ?n = "Suc (length fs)"
  let ?F = "built fs @ [(T_FILE, [])]"
  have lf: "length (built fs) = ?n" by (simp add: built_def)
  obtain m1 where m1: "mk_ialloc T_FILE m = Inr (of_nat (Suc ?n), m1)" "tree m1 ?F"
    using tree_new [OF assms(1), of T_FILE] lf assms(3) by auto
  have de: "dirent_as_bytes \<lparr>de_ino = ucast (of_nat (Suc ?n) :: u32), de_nm = splice (replicate DIRSIZ 0) 0 nm\<rparr> = ?e"
    using f(3) by (simp add: dirent_as_bytes_def dirent_def splice_def pad_def ucast_of_nat_u16 del: of_nat_Suc)
  have b: "?F[0 := (T_DIR, ?r @ ?e)] = (T_DIR, ?r @ ?e) # map (\<lambda>f. (T_FILE, snd f)) fs @ [(T_FILE, [])]"
    "built (fs @ [f]) = (T_DIR, ?r @ ?e) # map (\<lambda>f. (T_FILE, snd f)) fs @ [(T_FILE, xs)]"
    using f(1) by (simp_all add: built_def root_bytes_snoc)
  have lr: "length ?r + length ?e \<le> 268 * 1024"
    using length_root_bytes [of "map fst fs"] assms(3,4) f(3) by (simp add: dirent_def pad_def)
  have "47 + total (?F[0 := (T_DIR, ?r @ ?e)]) \<le> 2000" using assms(5) b nb_mono(2) [of 0 "length xs"] by simp
  then obtain m2 where m2: "iappend (of_nat (Suc 0)) ?e m1 = Inr m2" "tree m2 (?F[0 := (T_DIR, ?r @ ?e)])"
    using tree_append [OF m1(2), of 0 T_DIR ?r ?e] lr by (auto simp: built_def)
  let ?G = "?F[0 := (T_DIR, ?r @ ?e)]"
  have G: "?G[?n := (T_FILE, xs)] = built (fs @ [f])" "?G ! ?n = (T_FILE, [])" "?n < length ?G"
    using b lf by (simp_all add: nth_append list_update_append)
  then obtain m3 where "copy_file (of_nat (Suc ?n)) reads m2 = Inr m3" "tree m3 (built (fs @ [f]))"
    using copy_file_tree [OF m2(2) G(3,2), of reads] f(5,6) assms(5) by auto
  then show ?thesis using m1(1) m2(1) f de by (auto simp: add_file_def)
qed

lemma zero_blocks:
  "n \<le> 2000 \<Longrightarrow> fold (\<lambda>i. wsect (of_nat i) (replicate BSIZE 0)) [0..<n] mkfs_new =
     mkfs_new\<lparr>img := (\<lambda>b. if unat b < n then replicate BSIZE 0 else []), img_len := n\<rparr>"
proof (induction n)
  case 0
  then show ?case by (simp add: mkfs_new_def Let_def)
next
  case (Suc n)
  then have u: "unat (of_nat n :: u32) = n" by (simp add: unsigned_of_nat take_bit_nat_eq_self)
  let ?f = "\<lambda>b :: u32. if b = of_nat n then replicate BSIZE (0 :: u8) else if n \<le> unat b \<and> b < of_nat n then replicate BSIZE 0
      else if unat b < n then replicate BSIZE 0 else []"
  let ?g = "\<lambda>b :: u32. if unat b < Suc n then replicate BSIZE (0 :: u8) else []"
  have "?f = ?g" using u
    by (auto simp: fun_eq_iff word_less_nat_alt word_unat_eq_iff less_Suc_eq)
  then have "wsect (of_nat n) (replicate BSIZE 0) (mkfs_new\<lparr>img := (\<lambda>b. if unat b < n then replicate BSIZE 0 else []), img_len := n\<rparr>) =
      mkfs_new\<lparr>img := (\<lambda>b. if unat b < Suc n then replicate BSIZE 0 else []), img_len := Suc n\<rparr>"
  proof -
    assume f: "?f = ?g"
    define x where "x = mkfs_new\<lparr>img := (\<lambda>b. if unat b < n then replicate BSIZE 0 else []), img_len := n\<rparr>"
    have x: "img x = (\<lambda>b. if unat b < n then replicate BSIZE 0 else [])" "img_len x = n" by (simp_all add: x_def)
    have "wsect (of_nat n) (replicate BSIZE 0) x = x\<lparr>img := ?g, img_len := Suc n\<rparr>"
      unfolding wsect_def x f using u by simp
    then show ?thesis by (simp add: x_def)
  qed
  moreover have "fold (\<lambda>i. wsect (of_nat i) (replicate BSIZE 0)) [0..<Suc n] mkfs_new =
      wsect (of_nat n) (replicate BSIZE 0) (fold (\<lambda>i. wsect (of_nat i) (replicate BSIZE 0)) [0..<n] mkfs_new)" by simp
  ultimately show ?case using Suc by (simp only: Suc_leD)
qed

lemma mkfs_begin_tree: "\<exists>m. mkfs_begin = Inr m \<and> tree m (built [])"
proof -
  let ?z = "replicate BSIZE 0 :: u8 list"
  define m0 where "m0 = mkfs_new\<lparr>img := (\<lambda>b. if unat b < 2000 then ?z else []), img_len := 2000\<rparr>"
  define m1 where "m1 = wsect 1 (splice ?z 0 (sb_bytes (msb m0))) m0"
  have len: "length (sb_bytes s) = 32" for s by (simp add: sb_bytes_def)
  have sb: "msb m0 = SB" "freeblock m0 = 47" "freeinode m0 = 1" by (simp_all add: m0_def mkfs_new_def Let_def SB_def)
  have m1: "m1 = m0\<lparr>img := (img m0)(1 := sb_bytes SB @ replicate 992 0)\<rparr>"
    by (simp add: m1_def wsect_in m0_def splice_def len sb [unfolded m0_def])
  have "space m0" using sb(2) by (simp add: space_def m0_def word_less_nat_alt)
  then have sp: "space m1" using space_wsect [of m0 1 "sb_bytes SB @ replicate 992 0"] sb(2) len by (simp add: m1)
  have slots: "slot k (img m1) = replicate 64 0" if "k < 208" for k
  proof -
    have "(33 + of_nat (k div 16) :: u32) \<noteq> 1" "unat (33 + of_nat (k div 16) :: u32) < 2000"
      using mk_iblock_eq(3) [OF that] that by (auto simp: word_unat_eq_iff)
    moreover have "k mod 16 < 16" by simp
    then have "64 * (k mod 16) + 64 \<le> 1024" by linarith
    ultimately show ?thesis by (simp add: slot_def m1 m0_def)
  qed
  have "meta_ok (img m1)" by (auto simp: meta_ok_def m1 m0_def word_less_nat_alt)
  then have "tree_ok m1 []" using sp slots sb by (simp add: tree_ok_def m1)
  then have "tree m1 []" by (auto simp: tree_def)
  then obtain m2 where m2: "mk_ialloc T_DIR m1 = Inr (1, m2)" "tree m2 [(T_DIR, [])]" using tree_new [of m1 "[]" T_DIR] by auto
  let ?d1 = "dirent 1 [46]" and ?d2 = "dirent 1 [46, 46]"
  have l: "length ?d1 = 16" "length ?d2 = 16" by (simp_all add: dirent_def pad_def)
  have c: "cost 16 = 1" "cost 32 = 1" by (simp_all add: cost_def nb_def)
  obtain m3 where m3: "iappend 1 ?d1 m2 = Inr m3" "tree m3 [(T_DIR, ?d1)]" using tree_append [OF m2(2), of 0 T_DIR "[]" ?d1] l c by auto
  obtain m4 where m4: "iappend 1 ?d2 m3 = Inr m4" "tree m4 [(T_DIR, ?d1 @ ?d2)]" using tree_append [OF m3(2), of 0 T_DIR ?d1 ?d2] l c by auto
  have e: "dirent_as_bytes \<lparr>de_ino = ucast (1 :: u32), de_nm = (replicate DIRSIZ 0)[0 := 46]\<rparr> = ?d1"
    "dirent_as_bytes \<lparr>de_ino = ucast (1 :: u32), de_nm = (replicate DIRSIZ 0)[0 := 46, 1 := 46]\<rparr> = ?d2"
    by (simp_all add: dirent_as_bytes_def dirent_def pad_def numeral_eq_Suc)
  have "mkfs_begin = Inr m4"
    unfolding mkfs_begin_def Let_def using zero_blocks [of 2000] m2(1) m3(1) m4(1) e by (simp add: m1_def m0_def)
  moreover have "built [] = [(T_DIR, ?d1 @ ?d2)]" by (simp add: built_def root_bytes_def)
  ultimately show ?thesis using m4(2) by auto
qed

lemma add_files_tree:
  assumes "tree m (built fs)" "list_all2 (names open_file) ps gs" "\<forall>g \<in> set fs. length (fst g) \<le> DIRSIZ" "length (fs @ gs) \<le> 198"
    and "47 + total (built (fs @ gs)) \<le> 2000"
  shows "\<exists>m'. for_each (add_file open_file) ps m = Inr m' \<and> tree m' (built (fs @ gs))"
  using assms(2,1,3-5)
proof (induction arbitrary: m fs rule: list_all2_induct)
  case (Cons p ps g gs)
  have "total (built (fs @ [g])) \<le> total (built (fs @ g # gs))"
  proof -
    have "length (root_bytes (map fst (fs @ [g]))) \<le> length (root_bytes (map fst (fs @ g # gs)))"
      using root_bytes_le [of "map fst (fs @ [g])" "map fst gs"] by simp
    then show ?thesis using nb_mono(2) by (simp add: built_def trans_le_add1)
  qed
  then obtain m1 where "add_file open_file p m = Inr m1" "tree m1 (built (fs @ [g]))"
    using add_file_tree [OF Cons.prems(1) Cons.hyps(1)] Cons.prems by auto
  then show ?case using Cons.IH [of m1 "fs @ [g]"] Cons.prems Cons.hyps(1) by (auto simp: names_def)
qed simp

subsection \<open>The finished image in the hands of the kernel\<close>

text \<open>The bits of the bitmap.\<close>

lemma bit_set_bit_in: "i div 8 < length z \<Longrightarrow> j div 8 < length z \<Longrightarrow>
    bit (set_bit_in i z ! (j div 8)) (j mod 8) \<longleftrightarrow> j = i \<or> bit (z ! (j div 8)) (j mod 8)"
proof -
  assume a: "i div 8 < length z" "j div 8 < length z"
  have e: "j = i \<longleftrightarrow> j div 8 = i div 8 \<and> j mod 8 = i mod 8" by (metis div_mult_mod_eq)
  show ?thesis
  proof (cases "j div 8 = i div 8")
    case True
    then show ?thesis using a e by (auto simp: set_bit_in_def bit_simps)
  next
    case False
    then show ?thesis using e by (auto simp: set_bit_in_def)
  qed
qed

lemma bitmap_bits:
  assumes "n \<le> 8192" "j < 8192"
  shows "length (fold set_bit_in [0..<n] (replicate 1024 0)) = 1024"
    "bit (fold set_bit_in [0..<n] (replicate 1024 0) ! (j div 8)) (j mod 8) \<longleftrightarrow> j < n"
  using assms(1)
proof (induction n)
  case 0
  case 1 show ?case by simp
  case 2 show ?case using assms(2) by simp
next
  case (Suc n)
  case 1
  then show ?case using Suc.IH(1) by (simp add: set_bit_in_def)
  case 2
  then have "n div 8 < 1024" "j div 8 < 1024" using assms(2) by simp_all
  then show ?case using Suc.IH 2 bit_set_bit_in [of n "fold set_bit_in [0..<n] (replicate 1024 0)" j] by auto
qed

text \<open>What \<open>mkfs_end\<close> leaves: the size of the root directory is rounded up to the next block and the bitmap is written.\<close>

definition round_up :: "nat \<Rightarrow> nat" where
  "round_up n = (n div 1024 + 1) * 1024"

definition disk_size :: "nat \<Rightarrow> node \<Rightarrow> nat" where
  "disk_size k n = (if k = 0 then round_up (length (nxs n)) else length (nxs n))"

definition finished :: "mkfs \<Rightarrow> node list \<Rightarrow> bool" where
  "finished m T \<longleftrightarrow> img_len m = 2000 \<and> img m 1 = sb_bytes SB @ replicate 992 0 \<and> img m 2 = replicate 1024 0 \<and>
     47 \<le> freeblock m \<and> freeblock m \<le> 2000 \<and> img m 46 = fold set_bit_in [0..<unat (freeblock m)] (replicate 1024 0) \<and> length T \<le> 199 \<and>
     (\<forall>k < length T. node_ok m (T ! k)) \<and> (\<forall>j < length T. \<forall>k < length T. j \<noteq> k \<longrightarrow> set (nown (T ! j)) \<inter> set (nown (T ! k)) = {}) \<and>
     (\<forall>k < length T. dinode_of (slot (Suc k) (img m)) = (disk_inode (T ! k))\<lparr>d_size := of_nat (disk_size k (T ! k))\<rparr>)"

lemma mkfs_end_finished:
  assumes "tree_ok m T" "T \<noteq> []"
  shows "\<exists>m'. mkfs_end m = Inr m' \<and> finished m' T"
proof -
  let ?n = "T ! 0"
  define d where "d = (disk_inode ?n)\<lparr>d_size := of_nat (disk_size 0 ?n)\<rparr>"
  define m1 where "m1 = put_slot 1 (dinode_bytes d) m"
  have t: "space m" "msb m = SB" "meta_ok (img m)" "length T \<le> 199" "\<And>k. k < length T \<Longrightarrow> node_ok m (T ! k)"
    "\<And>j k. j < length T \<Longrightarrow> k < length T \<Longrightarrow> j \<noteq> k \<Longrightarrow> set (nown (T ! j)) \<inter> set (nown (T ! k)) = {}"
    "\<And>k. k < 208 \<Longrightarrow> slot k (img m) = (if 0 < k \<and> k \<le> length T then dinode_bytes (disk_inode (T ! (k - 1))) else replicate 64 0)"
    using assms(1) unfolding tree_ok_def by blast+
  have one: "(1 :: u32) = of_nat 1" by simp
  have d13: "length (d_addrs d) = 13" by (simp add: d_def)
  have r: "rinode 1 m = Inr (disk_inode ?n)"
    using winode_eq(2) [OF t(1,2), of 1] t(7) [of 1] assms(2) by (simp add: dinode_of_bytes Suc_le_eq)
  have len: "length (nxs ?n) \<le> 268 * 1024" using t(5) [of 0] assms(2) by (simp add: node_ok_def)
  then have "unat (of_nat (length (nxs ?n)) :: u32) = length (nxs ?n)" by (simp add: unsigned_of_nat take_bit_nat_eq_self)
  then have "(of_nat (length (nxs ?n)) :: u32) div 1024 = of_nat (length (nxs ?n) div 1024)"
    using len by (simp add: word_unat_eq_iff unat_div unsigned_of_nat take_bit_nat_eq_self)
  then have sz: "(d_size (disk_inode ?n) div 1024 + 1) * 1024 = of_nat (disk_size 0 ?n)"
    by (simp add: disk_inode_def disk_size_def round_up_def)
  have w: "winode 1 d m = Inr m1" using winode_eq(1) [OF t(1,2), of 1 d] by (simp add: m1_def)
  have sp: "space m1" "\<And>k. k < 208 \<Longrightarrow> slot k (img m1) = (if k = 1 then dinode_bytes d else slot k (img m))"
    using put_slot_space [OF t(1), of 1 "dinode_bytes d"] length_dinode_bytes [OF d13] by (simp_all add: m1_def)
  have fb: "freeblock m1 \<le> 2000" "47 \<le> freeblock m1" "img_len m1 = 2000" using sp(1) by (simp_all add: space_def)
  then have lt: "freeblock m1 < BPB" by (simp add: word_le_nat_alt word_less_nat_alt)
  define m' where "m' = m1\<lparr>img := (img m1)(46 := fold set_bit_in [0..<unat (freeblock m1)] (replicate BSIZE 0))\<rparr>"
  have "mkfs_end m = Inr m'"
    using r w sz lt fb(3) t(2) by (simp add: mkfs_end_def Let_def d_def mk_balloc_def wsect_in m'_def m1_def SB_def)
  moreover have "finished m' T"
    unfolding finished_def
  proof (intro conjI allI impI)
    have "meta_ok (img m1)" unfolding m1_def using meta_ok_put_slot [OF t(3)] by simp
    then show "img m' 1 = sb_bytes SB @ replicate 992 0" "img m' 2 = replicate 1024 0" by (simp_all add: meta_ok_def m'_def)
    show "node_ok m' (T ! k)" if "k < length T" for k
    proof -
      have n: "node_ok m1 (T ! k)" unfolding m1_def using node_ok_put_slot t(5) [OF that] by simp
      have "y \<noteq> 46" if "y \<in> set (nown (T ! k))" for y
      proof -
        have "47 \<le> y" using n that unfolding node_ok_def by (meson atLeastLessThan_iff subsetD)
        then show ?thesis by (auto simp: word_le_nat_alt)
      qed
      then have "file_at (img m') (nxs (T ! k)) (nbs (T ! k)) (nib (T ! k))"
        using n file_at_cong [of "img m1" _ _ _ "img m'"] by (simp add: node_ok_def m'_def)
      then show ?thesis using n by (simp add: node_ok_def m'_def)
    qed
    show "dinode_of (slot (Suc k) (img m')) = (disk_inode (T ! k))\<lparr>d_size := of_nat (disk_size k (T ! k))\<rparr>" if "k < length T" for k
    proof -
      have k: "Suc k < 208" using that t(4) by simp
      have "slot (Suc k) (img m') = slot (Suc k) (img m1)"
        using inode_block(2) [OF k] by (auto simp: slot_def m'_def)
      then show ?thesis using sp(2) [OF k] t(7) [OF k] that d13
        by (cases k) (auto simp: dinode_of_bytes d_def disk_size_def)
    qed
  qed (use fb t(4,6) in \<open>simp_all add: m'_def\<close>)
  ultimately show ?thesis by blast
qed

lemma mkfs_run_finished:
  assumes "list_all2 (names open_file) paths fs" "length fs \<le> 198" "47 + total (built fs) \<le> 2000"
  shows "\<exists>m T. mkfs_run open_file (prog # out # paths) = Inr m \<and> finished m T \<and> map (\<lambda>n. (nty n, nxs n)) T = built fs"
proof -
  obtain m0 where m0: "mkfs_begin = Inr m0" "tree m0 (built [])" using mkfs_begin_tree by blast
  then obtain m1 where m1: "for_each (add_file open_file) paths m0 = Inr m1" "tree m1 (built fs)"
    using add_files_tree [OF m0(2) assms(1)] assms(2,3) by auto
  then obtain T where T: "tree_ok m1 T" "map (\<lambda>n. (nty n, nxs n)) T = built fs" by (auto simp: tree_def)
  then have "T \<noteq> []" by (auto simp: built_def)
  then obtain m where m: "mkfs_end m1 = Inr m" "finished m T" using mkfs_end_finished [OF T(1)] by blast
  have "mkfs_run open_file (prog # out # paths) = Inr m" unfolding mkfs_run_def by (simp add: m0(1) m1(1) m(1))
  then show ?thesis using m(2) T(2) by blast
qed

text \<open>
  A state of the kernel whose blocks, through cache and log, are those of the image; an entry of the inode table that holds inode
  \<open>n\<close> as \<open>ilock\<close> loads it.
\<close>

definition on_disk :: "mkfs \<Rightarrow> 'z fsst_scheme \<Rightarrow> bool" where
  "on_disk m s \<longleftrightarrow> sb s = sb_of (img m 1) \<and> (\<forall>y < 2000. blk y s = img m y)"

definition loaded :: "nat \<Rightarrow> u32 \<Rightarrow> 'z fsst_scheme \<Rightarrow> bool" where
  "loaded i n s \<longleftrightarrow> idev (inodes s i) = ROOTDEV \<and> inum (inodes s i) = n \<and> same_dinode (inodes s i) (dinode n s (inodes s i))"

lemma on_disk_SB: "finished m T \<Longrightarrow> on_disk m s \<Longrightarrow> sb s = SB"
  using sb_of_bytes [of SB "replicate 992 0"] by (simp add: finished_def on_disk_def)

lemma get_dinode_slot:
  assumes "finished m T" "on_disk m s" "j < 208"
  shows "same_dinode ip (dinode (of_nat j) s k) \<longleftrightarrow> itype ip = d_type (dinode_of (slot j (img m))) \<and> major ip = d_major (dinode_of (slot j (img m))) \<and>
    minor ip = d_minor (dinode_of (slot j (img m))) \<and> nlink ip = d_nlink (dinode_of (slot j (img m))) \<and>
    isize ip = d_size (dinode_of (slot j (img m))) \<and> addrs ip = d_addrs (dinode_of (slot j (img m)))"
proof -
  let ?b = "33 + of_nat (j div 16) :: u32"
  have b: "iblock (of_nat j) s = ?b" "dinode_ptr (of_nat j) = 64 * (j mod 16)"
    using mk_iblock_eq [OF assms(3)] on_disk_SB [OF assms(1,2)] by (simp_all add: iblock_def mk_iblock_def dinode_ptr_def)
  have "?b < 2000" using inode_block(2) [OF assms(3)] by (rule less_trans) simp
  then have "blk ?b s = img m ?b" using assms(2) by (simp add: on_disk_def)
  moreover have "map (\<lambda>x. getw 4 (take 64 (drop (64 * (j mod 16)) (img m ?b))) (12 + 4 * x)) [0..<13] =
      (map (\<lambda>x. getw 4 (img m ?b) (64 * (j mod 16) + (12 + 4 * x))) [0..<13] :: u32 list)"
    by (rule map_cong) (simp_all add: getw_slot)
  ultimately have sup: "blk ?b s = img m ?b" "map (\<lambda>x. getw 4 (take 64 (drop (64 * (j mod 16)) (img m ?b))) (12 + 4 * x)) [0..<13] =
      (map (\<lambda>x. getw 4 (img m ?b) (64 * (j mod 16) + 12 + 4 * x)) [0..<13] :: u32 list)" by (simp_all only: add.assoc)
  show ?thesis
    by (simp add: same_dinode_def dinode_def get_dinode_def dinode_of_def slot_def getw_slot b sup del: upt_Suc map_eq_conv)
qed

text \<open>A loaded inode is the node that the builder put there.\<close>

definition node_at :: "nat \<Rightarrow> 'z fsst_scheme \<Rightarrow> node \<Rightarrow> nat \<Rightarrow> bool" where
  "node_at i s n z \<longleftrightarrow> idev (inodes s i) = ROOTDEV \<and> itype (inodes s i) = nty n \<and> nlink (inodes s i) = 1 \<and> unat (isize (inodes s i)) = z \<and>
     addrs (inodes s i) = addrs_of (nbs n) (nib n)"

lemma loaded_node:
  assumes "finished m T" "on_disk m s" "k < length T" "loaded i (of_nat (Suc k)) s"
  shows "node_at i s (T ! k) (disk_size k (T ! k))"
proof -
  have "Suc k < 208" "length (nxs (T ! k)) \<le> 268 * 1024" using assms(1,3) by (auto simp: finished_def node_ok_def)
  then have "disk_size k (T ! k) < 2 ^ 32" by (auto simp: disk_size_def round_up_def)
  then have "unat (of_nat (disk_size k (T ! k)) :: u32) = disk_size k (T ! k)" by (simp add: unsigned_of_nat take_bit_nat_eq_self)
  moreover have "dinode_of (slot (Suc k) (img m)) = (disk_inode (T ! k))\<lparr>d_size := of_nat (disk_size k (T ! k))\<rparr>"
    using assms(1,3) by (simp add: finished_def)
  ultimately show ?thesis
    using assms(4) get_dinode_slot [OF assms(1,2) \<open>Suc k < 208\<close>, of "inodes s i" "inodes s i"]
    by (simp add: loaded_def node_at_def disk_inode_def)
qed

lemma finished_node:
  assumes "finished m T" "on_disk m s" "k < length T"
  defines "n \<equiv> T ! k"
  shows "file_at (\<lambda>y. blk y s) (nxs n) (nbs n) (nib n)" "set (nown n) \<subseteq> {47..<freeblock m}" "length (nbs n) = nb (length (nxs n))" "length (nbs n) \<le> 268"
proof -
  have n: "node_ok m n" using assms(1,3) by (simp add: finished_def n_def)
  then show o: "set (nown n) \<subseteq> {47..<freeblock m}" "length (nbs n) = nb (length (nxs n))" by (simp_all add: node_ok_def)
  have "blk y s = img m y" if "y \<in> set (nown n)" for y
  proof -
    have "y < freeblock m" using o(1) that by (meson atLeastLessThan_iff subsetD)
    also have "freeblock m \<le> 2000" using assms(1) by (simp add: finished_def)
    finally show ?thesis using assms(2) by (simp add: on_disk_def)
  qed
  then show "file_at (\<lambda>y. blk y s) (nxs n) (nbs n) (nib n)" using file_at_cong [of "img m"] n by (simp add: node_ok_def)
  then show "length (nbs n) \<le> 268" by (simp add: file_at_def)
qed

lemma own_pos: "set ys \<subseteq> {47..<f} \<Longrightarrow> y \<in> set ys \<Longrightarrow> 47 \<le> y \<and> y < f \<and> y \<noteq> (0 :: u32)"
proof -
  assume "set ys \<subseteq> {47..<f}" "y \<in> set ys"
  then have y: "y \<in> {47..<f}" by blast
  then have "y \<noteq> 0" by (auto simp: word_le_nat_alt)
  then show ?thesis using y by simp
qed

lemma fblk_node:
  assumes "finished m T" "on_disk m s" "k < length T" "node_at i s (T ! k) z" "b < 268"
  shows "fblk i b s = (if b < length (nbs (T ! k)) then nbs (T ! k) ! b else 0)"
proof -
  let ?n = "T ! k"
  note f = finished_node [OF assms(1-3)]
  have a: "addrs (inodes s i) = addrs_of (nbs ?n) (nib ?n)" using assms(4) by (simp add: node_at_def)
  show ?thesis
  proof (cases "b < 12")
    case True
    then show ?thesis using a nth_addrs_of(1) [OF f(4) True] by (simp add: fblk_def)
  next
    case False
    then show ?thesis
      using a nth_addrs_of(2) [OF f(4), of "nib ?n"] f(1) assms(5) by (auto simp: fblk_def file_at_def)
  qed
qed

lemma fbyte_node:
  assumes "finished m T" "on_disk m s" "k < length T" "node_at i s (T ! k) z" "p < 1024 * length (nbs (T ! k))"
  shows "fbyte i s p = byte0 (nxs (T ! k)) p"
proof -
  let ?n = "T ! k"
  note f = finished_node [OF assms(1-3)]
  have b: "p div 1024 < length (nbs ?n)" using assms(5) by (simp add: less_mult_imp_div_less mult.commute)
  then have "fbyte i s p = block_of (nxs ?n) (p div 1024) ! (p mod 1024)"
    using fblk_node [OF assms(1-4), of "p div 1024"] f(1,4) by (auto simp: fbyte_def file_at_def)
  then show ?thesis by (simp add: block_of_def)
qed

lemma mapped_node:
  assumes "finished m T" "on_disk m s" "k < length T" "node_at i s (T ! k) z" "z \<le> 268 * 1024"
  shows "mapped i s \<longleftrightarrow> nb z \<le> length (nbs (T ! k))"
proof -
  let ?l = "length (nbs (T ! k))"
  note f = finished_node [OF assms(1-3)]
  have pos: "nbs (T ! k) ! b \<noteq> 0" if "b < ?l" for b
  proof -
    have "nbs (T ! k) ! b \<in> set (nown (T ! k))" using that by (simp add: own_of_def)
    then show ?thesis using own_pos [OF f(2)] by blast
  qed
  have "fblk i b s \<noteq> 0 \<longleftrightarrow> b < ?l" if "b * 1024 < z" for b
    using fblk_node [OF assms(1-4), of b] that assms(5) pos by simp
  then have "mapped i s \<longleftrightarrow> (\<forall>b. b * 1024 < z \<longrightarrow> b < ?l)"
    using assms(4,5) nth_addrs_of(3) [OF f(4)] by (auto simp: mapped_def node_at_def)
  also have "\<dots> \<longleftrightarrow> z \<le> ?l * 1024" 
  proof (intro iffI allI impI)
    assume "\<forall>b. b * 1024 < z \<longrightarrow> b < ?l"
    then show "z \<le> ?l * 1024" using not_le by blast
  qed simp
  also have "\<dots> \<longleftrightarrow> nb z \<le> ?l" unfolding nb_def by linarith
  finally show ?thesis .
qed

lemma contents_node:
  assumes "finished m T" "on_disk m s" "k < length T" "node_at i s (T ! k) z" "z \<le> 268 * 1024" "mapped i s" "length (nxs (T ! k)) \<le> z"
  shows "contents i s = nxs (T ! k) @ replicate (z - length (nxs (T ! k))) 0"
proof (rule nth_equalityI)
  have z: "unat (isize (inodes s i)) = z" using assms(4) by (simp add: node_at_def)
  then show "length (contents i s) = length (nxs (T ! k) @ replicate (z - length (nxs (T ! k))) 0)" using assms(7) by (simp add: contents_def)
  fix p assume "p < length (contents i s)"
  then have p: "p < z" using z by (simp add: contents_def)
  have "nb z \<le> length (nbs (T ! k))" using mapped_node [OF assms(1-5)] assms(6) by simp
  moreover have "z \<le> 1024 * nb z" unfolding nb_def by linarith
  ultimately have "p < 1024 * length (nbs (T ! k))" using p by linarith
  then have "fbyte i s p = byte0 (nxs (T ! k)) p" using fbyte_node [OF assms(1-4)] by blast
  then show "contents i s ! p = (nxs (T ! k) @ replicate (z - length (nxs (T ! k))) 0) ! p"
    using p z assms(7) by (simp add: contents_def byte0_def nth_append)
qed

text \<open>The bitmap of the image, and what the allocator of the kernel relies on.\<close>

lemma finished_used:
  assumes "finished m T" "on_disk m s"
  shows "used s = {..<freeblock m}" "alloc_ok s" "meta s \<subseteq> {33..46}"
proof -
  note S = on_disk_SB [OF assms]
  have f: "47 \<le> freeblock m" "freeblock m \<le> 2000" "img m 46 = fold set_bit_in [0..<unat (freeblock m)] (replicate 1024 0)"
    using assms(1) by (simp_all add: finished_def)
  have bb: "bblock c s = 46" if "c < 2000" for c
  proof -
    have "c div BPB = 0" using that by (simp add: word_unat_eq_iff unat_div word_less_nat_alt)
    then show ?thesis by (simp add: bblock_def S SB_def)
  qed
  have ib: "33 \<le> iblock c s \<and> iblock c s < 46" if "c < 200" for c
  proof -
    have u: "unat c < 200" using that by (simp add: word_less_nat_alt)
    then have "iblock c s = 33 + of_nat (unat c div 16)"
      using mk_iblock_eq(1) [of "unat c"] by (simp add: iblock_def mk_iblock_def S)
    then show ?thesis using inode_block [of "unat c"] u by simp
  qed
  have map: "blk 46 s = img m 46" using assms(2) by (simp add: on_disk_def)
  have "bit_clear (blk 46 s) (b mod BPB) \<longleftrightarrow> \<not> b < freeblock m" if "b < 2000" for b
  proof -
    have u: "unat b < 2000" "unat (freeblock m) \<le> 2000" using that f(2) by (simp_all add: word_less_nat_alt word_le_nat_alt)
    then have "b mod BPB = b" by (simp add: word_unat_eq_iff unat_mod)
    then show ?thesis
      using bitmap_bits(2) [of "unat (freeblock m)" "unat b"] u f(3) map by (simp add: bit_clear_iff unat_div unat_mod word_less_nat_alt)
  qed
  then show us: "used s = {..<freeblock m}" using bb f(2) by (auto simp: used_def S SB_def)
  show meta: "meta s \<subseteq> {33..46}" using bb ib less_imp_le [of "iblock _ s" 46] by (auto simp: meta_def S SB_def)
  have lt: "y < freeblock m" if "y \<le> 46" for y
  proof -
    have "(46 :: u32) < 47" by simp
    then show ?thesis using that f(1) by (meson le_less_trans less_le_trans)
  qed
  have "46 \<noteq> iblock c s" if "c < 200" for c using ib [OF that] by auto
  moreover have "held_blocks {} s = {}" by (simp add: held_blocks_def)
  moreover have "meta s \<subseteq> used s" using meta us lt by auto
  ultimately show "alloc_ok s" using us lt bb by (simp add: alloc_ok_def bitmap_ok_def S SB_def)
qed

lemma fblk_own:
  assumes "finished m T" "on_disk m s" "k < length T" "node_at i s (T ! k) z"
  shows "own i s \<subseteq> insert 0 (set (nown (T ! k)))" "file_ok i s \<longleftrightarrow> inum (inodes s i) < 200"
proof -
  let ?n = "T ! k"
  note f = finished_node [OF assms(1-3)]
  note fb = fblk_node [OF assms(1-4)]
  note u = finished_used [OF assms(1,2)]
  have ind: "addrs (inodes s i) ! NDIRECT = nib ?n" "length (addrs (inodes s i)) = 13" "idev (inodes s i) = ROOTDEV"
    using assms(4) nth_addrs_of(2,3) [OF f(4)] by (simp_all add: node_at_def)
  have mem: "fblk i b s \<in> insert 0 (set (nbs ?n))" if "b < 268" for b using fb [OF that] by auto
  have ibm: "nib ?n \<in> insert 0 (set (nown ?n))" by (simp add: own_of_def)
  then show "own i s \<subseteq> insert 0 (set (nown ?n))" using mem ind(1) by (auto simp: own_def own_of_def)
  have good: "y \<in> used s - meta s" if "y \<in> set (nown ?n)" for y
  proof -
    have y: "47 \<le> y" "y < freeblock m" using own_pos [OF f(2) that] by auto
    have "(46 :: u32) < 47" by simp
    then have "\<not> y \<le> 46" using y(1) by (meson le_less_trans less_le_trans not_le)
    then show ?thesis using y(2) u(1,3) by auto
  qed
  have d: "distinct (nown ?n)" using f(1) by (simp add: file_at_def)
  have "fblk i b s \<in> used s - meta s \<and> fblk i b s \<noteq> nib ?n" if "b < 268" "fblk i b s \<noteq> 0" for b
    using mem [OF that(1)] that(2) good [of "fblk i b s"] d by (auto simp: own_of_def split: if_splits)
  moreover have "b = c" if "b < 268" "c < 268" "fblk i b s \<noteq> 0" "fblk i b s = fblk i c s" for b c
    using fb [OF that(1)] fb [OF that(2)] that(3,4) d by (auto simp: own_of_def nth_eq_iff_index_eq split: if_splits)
  moreover have "nib ?n \<in> used s - meta s" if "nib ?n \<noteq> 0" using ibm that good by blast
  ultimately show "file_ok i s \<longleftrightarrow> inum (inodes s i) < 200"
    using ind on_disk_SB [OF assms(1,2)] by (simp add: file_ok_def SB_def)
qed

text \<open>
  C36: the image that \<open>mkfs\<close> builds is a file system for the kernel.  When the names are short, every file is small enough and the
  2000 blocks suffice, \<open>mkfs\<close> succeeds and, in every state of the kernel over the image: the superblock has the magic number and the
  layout that the kernel computes with, the log is empty, exactly the blocks below \<open>freeblock\<close> are marked as in use and the allocator's assumptions hold;
  the inode \<open>k + 2\<close> is a file with one link whose contents, as \<open>readi\<close> reads them, are the bytes of the \<open>k\<close>-th file; no two inodes share a block.
\<close>

theorem mkfs_files:
  assumes "list_all2 (names open_file) paths fs" "length fs \<le> 198" "47 + total (built fs) \<le> 2000"
  shows "\<exists>m. mkfs_run open_file (prog # out # paths) = Inr m \<and> img_len m = 2000 \<and>
    (\<forall>s :: 'z fsst_scheme. on_disk m s \<longrightarrow>
      magic (sb s) = FSMAGIC \<and> sb_size (sb s) = 2000 \<and> logstart (sb s) = 2 \<and> hdr_n (blk 2 s) = 0 \<and>
      used s = {..<freeblock m} \<and> alloc_ok s \<and>
      (\<forall>k i. k < length fs \<longrightarrow> loaded i (of_nat (k + 2)) s \<longrightarrow> itype (inodes s i) = T_FILE \<and> nlink (inodes s i) = 1 \<and>
         file_ok i s \<and> mapped i s \<and> contents i s = snd (fs ! k)) \<and>
      (\<forall>a b i j. a \<le> length fs \<longrightarrow> b \<le> length fs \<longrightarrow> a \<noteq> b \<longrightarrow> loaded i (of_nat (Suc a)) s \<longrightarrow> loaded j (of_nat (Suc b)) s \<longrightarrow>
         own i s \<inter> own j s \<subseteq> {0}))"
proof -
  obtain m T where m: "mkfs_run open_file (prog # out # paths) = Inr m" "finished m T" "map (\<lambda>n. (nty n, nxs n)) T = built fs"
    using mkfs_run_finished [OF assms] by blast
  have lT: "length T = Suc (length fs)" using arg_cong [OF m(3), of length] by (simp add: built_def)
  have main: "itype (inodes s i) = T_FILE \<and> nlink (inodes s i) = 1 \<and> file_ok i s \<and> mapped i s \<and> contents i s = snd (fs ! k)"
    if s: "on_disk m s" "k < length fs" "loaded i (of_nat (k + 2)) s" for s :: "'z fsst_scheme" and k i
  proof -
    let ?n = "T ! Suc k"
    have k: "Suc k < length T" using s(2) lT by simp
    have l: "loaded i (of_nat (Suc (Suc k))) s" using s(3) by (simp add: add.commute)
    have n: "nty ?n = T_FILE" "nxs ?n = snd (fs ! k)"
      using arg_cong [OF m(3), of "\<lambda>x. x ! Suc k"] k s(2) by (simp_all add: built_def)
    have at: "node_at i s ?n (length (nxs ?n))" using loaded_node [OF m(2) s(1) k l] by (simp add: disk_size_def)
    have "node_ok m ?n" using m(2) k by (simp add: finished_def)
    then have z: "length (nxs ?n) \<le> 268 * 1024" "length (nbs ?n) = nb (length (nxs ?n))" by (simp_all add: node_ok_def)
    then have mp: "mapped i s" using mapped_node [OF m(2) s(1) k at] by simp
    have "inum (inodes s i) < 200" using l assms(2) s(2) by (simp add: loaded_def word_less_nat_alt unat_word_ariths unsigned_of_nat take_bit_nat_eq_self)
    then show ?thesis using at mp n contents_node [OF m(2) s(1) k at z(1) mp] fblk_own(2) [OF m(2) s(1) k at] by (simp add: node_at_def)
  qed
  have disj: "own i s \<inter> own j s \<subseteq> {0}"
    if "on_disk m s" "a \<le> length fs" "b \<le> length fs" "a \<noteq> b" "loaded i (of_nat (Suc a)) s" "loaded j (of_nat (Suc b)) s" for s :: "'z fsst_scheme" and a b i j
  proof -
    have ab: "a < length T" "b < length T" using that lT by simp_all
    have "set (nown (T ! a)) \<inter> set (nown (T ! b)) = {}" using m(2) ab that(4) by (simp add: finished_def)
    then show ?thesis
      using fblk_own(1) [OF m(2) that(1) ab(1) loaded_node [OF m(2) that(1) ab(1) that(5)]]
        fblk_own(1) [OF m(2) that(1) ab(2) loaded_node [OF m(2) that(1) ab(2) that(6)]] by blast
  qed
  have "hdr_n (blk 2 s) = 0" if "on_disk m s" for s :: "'z fsst_scheme"
    using that m(2) by (simp add: on_disk_def finished_def hdr_n_def getw_def)
  moreover have "used s = {..<freeblock m}" "alloc_ok s" "magic (sb s) = FSMAGIC" "sb_size (sb s) = 2000" "logstart (sb s) = 2"
    if "on_disk m s" for s :: "'z fsst_scheme"
    using finished_used [OF m(2) that] on_disk_SB [OF m(2) that] by (simp_all add: SB_def)
  moreover have "img_len m = 2000" using m(2) by (simp add: finished_def)
  ultimately show ?thesis using m(1) main disj by (intro exI [of _ m]) simp
qed

text \<open>The entries of the root directory.\<close>

lemma entries_append:
  assumes "length x = 16 * a"
  shows "entries (x @ y) = entries x @ entries y"
proof (rule nth_equalityI)
  show l: "length (entries (x @ y)) = length (entries x @ entries y)" using assms by simp
  fix j assume "j < length (entries (x @ y))"
  then have j: "j < a + length y div 16" using l assms by simp
  show "entries (x @ y) ! j = (entries x @ entries y) ! j"
  proof (cases "j < a")
    case True
    then have "entry j (x @ y) = entry j x" using assms by (simp add: entry_def)
    then show ?thesis using True assms by (simp add: nth_append)
  next
    case False
    then have "entry j (x @ y) = entry (j - a) y" using assms by (simp add: entry_def diff_mult_distrib2)
    then show ?thesis using False assms j by (simp add: nth_append)
  qed
qed

lemma entries_dirent:
  assumes "length nm \<le> 14" "0 \<notin> set nm"
  shows "entries (dirent n nm) = [(n, nm)]" "length (dirent n nm) = 16 * 1"
proof -
  show l: "length (dirent n nm) = 16 * 1" using assms(1) by (simp add: dirent_def pad_def)
  then have "entry 0 (dirent n nm) = dirent n nm" by (simp add: entry_def)
  moreover have "de_inum (dirent n nm) = n" by (simp add: de_inum_def dirent_def getw_def of_le_le_bytes)
  moreover have "de_name (dirent n nm) = pad 14 nm" using assms(1) by (simp add: de_name_def dirent_def pad_def)
  ultimately show "entries (dirent n nm) = [(n, nm)]" using l dname_pad [OF assms] by (simp add: entries_def)
qed

lemma entries_zero: "entries (replicate (16 * q) 0) = replicate q (0, [])"
proof (induction q)
  case (Suc q)
  have "entries (replicate 16 0) = [(0, [])]"
    by (simp add: entries_def entry_def de_inum_def de_name_def getw_def dname_def name_of_def takeWhile_replicate)
  moreover have "replicate (16 * Suc q) (0 :: u8) = replicate 16 0 @ replicate (16 * q) 0" by (simp add: replicate_add [symmetric])
  ultimately show ?case using Suc entries_append [of "replicate 16 0" 1 "replicate (16 * q) 0"] by simp
qed (simp add: entries_def)

lemma entries_root:
  assumes "\<forall>nm \<in> set nms. length nm \<le> 14 \<and> 0 \<notin> set nm"
  shows "entries (root_bytes nms) = (1, [46]) # (1, [46, 46]) # map (\<lambda>k. (of_nat (k + 2), nms ! k)) [0..<length nms]"
  using assms
proof (induction nms rule: rev_induct)
  case Nil
  then show ?case using entries_dirent [of "[46]" 1] entries_dirent [of "[46, 46]" 1] entries_append [of "dirent 1 [46]" 1] by (simp add: root_bytes_def)
next
  case (snoc nm nms)
  have "length (root_bytes nms) = 16 * (length nms + 2)" using snoc.prems by (intro length_root_bytes) simp
  then have "entries (root_bytes (nms @ [nm])) = entries (root_bytes nms) @ [(of_nat (length nms + 2), nm)]"
    unfolding root_bytes_snoc using entries_dirent(1) [of nm] snoc.prems by (subst entries_append [of _ "length nms + 2"]) simp_all
  moreover have "map (\<lambda>k. (of_nat (k + 2) :: u16, (nms @ [nm]) ! k)) [0..<length nms] = map (\<lambda>k. (of_nat (k + 2), nms ! k)) [0..<length nms]"
    by (rule map_cong) (simp_all add: nth_append)
  moreover have "[0..<length (nms @ [nm])] = [0..<length nms] @ [length nms]" by simp
  ultimately show ?case using snoc by (simp only: map_append) simp
qed

lemma shortname_set: "shortname_for_image p = Inr nm \<Longrightarrow> set nm \<subseteq> set p"
proof -
  have sp: "set (strip_prefix pre s) \<subseteq> set s" for pre s by (auto simp: strip_prefix_def dest: in_set_dropD)
  assume "shortname_for_image p = Inr nm"
  then have "nm = strip_prefix [95] (strip_prefix [117, 115, 101, 114, 47] p)" by (simp add: shortname_for_image_def Let_def split: if_splits)
  then show ?thesis using sp subset_trans by blast
qed

lemma names_bytes:
  assumes "list_all2 (names open_file) paths fs" "\<forall>p \<in> set paths. 0 \<notin> set p"
  shows "\<forall>f \<in> set fs. length (fst f) \<le> 14 \<and> 0 \<notin> set (fst f)"
  using assms
proof (induction rule: list_all2_induct)
  case (Cons p ps f fs)
  then show ?case using shortname_set [of p "fst f"] by (auto simp: names_def)
qed simp

lemma div_entries: "16 * l div 1024 = l div (64 :: nat)" "16 * l mod 1024 = 16 * (l mod (64 :: nat))"
proof -
  show "16 * l div 1024 = l div (64 :: nat)" using div_mult_mult1 [of 16 l 64] by simp
  show "16 * l mod 1024 = 16 * (l mod (64 :: nat))" using mult_mod_right [of 16 l 64] by simp
qed

lemma round_up_entries:
  assumes "l \<le> 200"
  defines "z \<equiv> round_up (16 * l)"
  shows "z = 1024 * (l div 64) + 1024" "z \<le> 268 * 1024" "16 * l \<le> z" "z - 16 * l = 16 * (64 - l mod 64)" "z mod 16 = 0" "nb z = l div 64 + 1"
proof -
  show z: "z = 1024 * (l div 64) + 1024" by (simp add: z_def round_up_def div_entries(1))
  have l: "l = 64 * (l div 64) + l mod 64" "l mod 64 < 64" by simp_all
  show "z \<le> 268 * 1024" using z assms(1) by linarith
  show "16 * l \<le> z" "z - 16 * l = 16 * (64 - l mod 64)" using z l by linarith+
  have "z = 16 * (64 * (l div 64) + 64)" using z by simp
  then show "z mod 16 = 0" by simp
  show "nb z = l div 64 + 1" using z nb_add [of "l div 64" 1024] nb_small(2) [of 1024] by simp
qed

lemma nb_entries: "nb (16 * l) = l div 64 + (if l mod 64 = 0 then 0 else 1)"
  using nb_simps [of "16 * l"] by (simp add: div_entries)

text \<open>
  C37: the root directory that \<open>mkfs\<close> builds.  Its entries, as the kernel's directory routines read them, are those for itself under two names, one for every file, in
  order, with the inode number of the file, and free ones up to the end of the last block.  When the entries fill their blocks
  exactly (62 files, 126 files, 190 files) the size covers one block more than the directory has and the last block is not mapped.
\<close>

theorem mkfs_root:
  assumes "list_all2 (names open_file) paths fs" "length fs \<le> 198" "47 + total (built fs) \<le> 2000" "\<forall>p \<in> set paths. 0 \<notin> set p"
  shows "\<exists>m. mkfs_run open_file (prog # out # paths) = Inr m \<and>
    (\<forall>(s :: 'z fsst_scheme) i. on_disk m s \<longrightarrow> loaded i ROOTINO s \<longrightarrow>
      (mapped i s \<longleftrightarrow> (length fs + 2) mod 64 \<noteq> 0) \<and>
      (mapped i s \<longrightarrow> dir_ok i s \<and> file_ok i s \<and>
        entries (contents i s) = (1, [46]) # (1, [46, 46]) # map (\<lambda>k. (of_nat (k + 2), fst (fs ! k))) [0..<length fs] @
          replicate (64 - (length fs + 2) mod 64) (0, [])))"
proof -
  obtain m T where m: "mkfs_run open_file (prog # out # paths) = Inr m" "finished m T" "map (\<lambda>n. (nty n, nxs n)) T = built fs"
    using mkfs_run_finished [OF assms(1-3)] by blast
  let ?n = "T ! 0" and ?l = "length fs + 2"
  have k: "0 < length T" using arg_cong [OF m(3), of length] by (simp add: built_def)
  have n: "nty ?n = T_DIR" "nxs ?n = root_bytes (map fst fs)" using arg_cong [OF m(3), of "\<lambda>x. x ! 0"] k by (simp_all add: built_def)
  have nms: "\<forall>nm \<in> set (map fst fs). length nm \<le> 14 \<and> 0 \<notin> set nm"
    using names_bytes [OF assms(1,4)] by simp
  have len: "length (nxs ?n) = 16 * ?l" using length_root_bytes [of "map fst fs"] nms n(2) by simp
  define z where "z = round_up (16 * ?l)"
  have z: "z = 1024 * (?l div 64) + 1024" "z \<le> 268 * 1024" "16 * ?l \<le> z" "z - 16 * ?l = 16 * (64 - ?l mod 64)" "z mod 16 = 0" "nb z = ?l div 64 + 1"
    using round_up_entries [of ?l] assms(2) by (simp_all add: z_def)
  have main: "(mapped i s \<longleftrightarrow> ?l mod 64 \<noteq> 0) \<and> (mapped i s \<longrightarrow> dir_ok i s \<and> file_ok i s \<and> entries (contents i s) =
      (1, [46]) # (1, [46, 46]) # map (\<lambda>k. (of_nat (k + 2), fst (fs ! k))) [0..<length fs] @ replicate (64 - ?l mod 64) (0, []))"
    if s: "on_disk m s" "loaded i ROOTINO s" for s :: "'z fsst_scheme" and i
  proof -
    have at: "node_at i s ?n z" using loaded_node [OF m(2) s(1) k] s(2) len by (simp add: disk_size_def z_def)
    have "node_ok m ?n" using m(2) k by (simp add: finished_def)
    then have "length (nbs ?n) = nb (16 * ?l)" using len by (simp add: node_ok_def)
    moreover have "nb z \<le> nb (16 * ?l) \<longleftrightarrow> ?l mod 64 \<noteq> 0" using nb_entries [of ?l] z(6) by simp
    ultimately have mp: "mapped i s \<longleftrightarrow> ?l mod 64 \<noteq> 0" using mapped_node [OF m(2) s(1) k at z(2)] by simp
    have "dir_ok i s" if "mapped i s" using that at n(1) z(5) by (simp add: dir_ok_def node_at_def)
    moreover have "file_ok i s" using fblk_own(2) [OF m(2) s(1) k at] s(2) by (simp add: loaded_def)
    moreover have "contents i s = root_bytes (map fst fs) @ replicate (16 * (64 - ?l mod 64)) 0" if "mapped i s"
      using contents_node [OF m(2) s(1) k at z(2) that] len z(3,4) n(2) by simp
    moreover have "map (\<lambda>k. (of_nat (k + 2) :: u16, map fst fs ! k)) [0..<length fs] = map (\<lambda>k. (of_nat (k + 2), fst (fs ! k))) [0..<length fs]"
      by (rule map_cong) simp_all
    ultimately show ?thesis
      using mp entries_append [of "root_bytes (map fst fs)" ?l] len n(2) entries_root [OF nms] entries_zero by (simp add: add.commute)
  qed
  then show ?thesis using m(1) by blast
qed

subsection \<open>A small image\<close>

text \<open>The command line names one file, \<open>user/_cat\<close>, of three bytes.\<close>

definition demo_open :: "u8 list \<Rightarrow> u8 list list option" where
  "demo_open p = (if p = [117, 115, 101, 114, 47, 95, 99, 97, 116] then Some [[1, 2], [3]] else None)"

definition mounted :: "mkfs \<Rightarrow> u32 \<Rightarrow> fsst" where
  "mounted m n = demo_fs\<lparr>disk := img m, sb := sb_of (img m 1),
     inodes := \<lambda>_. get_dinode (img m (n div IPB + inodestart (sb_of (img m 1)))) (dinode_ptr n) (demo_inode\<lparr>idev := ROOTDEV, inum := n\<rparr>)\<rparr>"

lemma mounted_blk: "blk b (mounted m n) = img m b"
  by (simp add: mounted_def view_def cached_def ring_buf_def split: option.split)

lemma mounted_ok: "on_disk m (mounted m n)" "loaded i n (mounted m n)"
proof -
  show "on_disk m (mounted m n)" by (simp add: on_disk_def mounted_blk) (simp add: mounted_def)
  have "iblock n (mounted m n) = n div IPB + inodestart (sb_of (img m 1))" by (simp add: iblock_def mounted_def)
  then show "loaded i n (mounted m n)"
    by (simp add: loaded_def dinode_def mounted_blk same_dinode_def) (simp add: mounted_def get_dinode_def demo_inode_def)
qed

lemma demo_open_ok:
  "list_all2 (names demo_open) [[117, 115, 101, 114, 47, 95, 99, 97, 116]] [([99, 97, 116], [1, 2, 3])]"
  "47 + total (built [([99, 97, 116], [1, 2, 3])]) \<le> 2000"
proof -
  show "list_all2 (names demo_open) [[117, 115, 101, 114, 47, 95, 99, 97, 116]] [([99, 97, 116], [1, 2, 3])]"
    by (simp add: names_def shortname_for_image_def strip_prefix_def demo_open_def Let_def)
  have "length (root_bytes [[99, 97, 116]]) = 48" using length_root_bytes [of "[[99, 97, 116]]"] by simp
  then show "47 + total (built [([99, 97, 116], [1, 2, 3])]) \<le> 2000" by (simp add: built_def cost_def nb_def)
qed

theorem mkfs_files_witness:
  "\<exists>m. mkfs_run demo_open [[], [], [117, 115, 101, 114, 47, 95, 99, 97, 116]] = Inr m \<and> contents 0 (mounted m 2) = [1, 2, 3]"
proof -
  obtain m where "mkfs_run demo_open [[], [], [117, 115, 101, 114, 47, 95, 99, 97, 116]] = Inr m"
    "\<forall>s :: fsst. on_disk m s \<longrightarrow> (\<forall>k i. k < 1 \<longrightarrow> loaded i (of_nat (k + 2)) s \<longrightarrow> contents i s = snd ([([99, 97, 116], [1, 2, 3])] ! k))"
    using mkfs_files [where prog = "[]" and out = "[]", OF demo_open_ok(1) _ demo_open_ok(2)] by auto
  then show ?thesis using mounted_ok(1) [of m 2] mounted_ok(2) [of 0 2 m] by fastforce
qed

theorem mkfs_root_witness:
  "\<exists>m. mkfs_run demo_open [[], [], [117, 115, 101, 114, 47, 95, 99, 97, 116]] = Inr m \<and>
     entries (contents 0 (mounted m 1)) = [(1, [46]), (1, [46, 46]), (2, [99, 97, 116])] @ replicate 61 (0, [])"
proof -
  obtain m where "mkfs_run demo_open [[], [], [117, 115, 101, 114, 47, 95, 99, 97, 116]] = Inr m"
    "\<forall>(s :: fsst) i. on_disk m s \<longrightarrow> loaded i ROOTINO s \<longrightarrow> entries (contents i s) =
       [(1, [46]), (1, [46, 46]), (2, [99, 97, 116])] @ replicate 61 (0, [])"
    using mkfs_root [where prog = "[]" and out = "[]", OF demo_open_ok(1) _ demo_open_ok(2)] by auto
  then show ?thesis using mounted_ok(1) [of m 1] mounted_ok(2) [of 0 1 m] by blast
qed

end
