(* ===== verification/Diskio.thy ===== *)
theory Diskio
  imports Virtio
begin

unbundle bit_operations_syntax

section \<open>A disk request from the driver to the device and back\<close>

text \<open>
  The buffer cache relies on \<open>disk_rw\<close>: under the disk lock, one block moves between a buffer and the disk.  Here the driver, the device
  and the interrupt handler together are shown to do that.  The device is a parameter; \<open>device_ok\<close> says what the driver relies on, as the
  specification of virtio block devices has it.
\<close>

subsection \<open>The device\<close>

text \<open>
  The request at the last position of the ring of available ones: a chain of three descriptors, the first a header of 16 bytes that names
  the sector and the direction, the second the data, which the device may write exactly when it is to read the disk, the third one byte for the status.
  The device moves the data, stores the status 0 and puts the head of the chain on the used ring.  A sector is 512 bytes, so a block of the
  file system is two of them.  A chain of another form is not served.
\<close>

definition completed :: "nat \<Rightarrow> nat \<Rightarrow> vdisk \<Rightarrow> vdisk" where
  "completed i0 k v = v\<lparr>info_status := (info_status v)[k := 0],
     used_ring := (used_ring v)[unat (used_dev_idx v) mod NUM := of_nat i0], used_dev_idx := used_dev_idx v + 1\<rparr>"

definition serve :: "'z vdst_scheme \<Rightarrow> 'z vdst_scheme option" where
  "serve w =
     (let v = vd w; i0 = unat (avail_ring v ! (unat (avail_idx v - 1) mod NUM));
          d0 = desc v ! i0; d1 = desc v ! unat (d_next d0); d2 = desc v ! unat (d_next d1) in
      case (d_addr d0, d_addr d1, d_addr d2) of
        (AOp q, ABuf b, AStatus k) \<Rightarrow>
          let r = ops v ! q; bn = ucast (sector r div 2); w' = upd_vd (completed i0 k) w in
          if d_len d0 = 16 \<and> d_len d1 = 1024 \<and> d_len d2 = 1 \<and> sector r mod 2 = 0 \<and>
             d_flags d0 = VRING_DESC_F_NEXT \<and> d_flags d2 = VRING_DESC_F_WRITE
          then if req_type r = VIRTIO_BLK_T_OUT \<and> d_flags d1 = VRING_DESC_F_NEXT
            then Some (w'\<lparr>disk := (disk w)(bn := data (bufs w b)), history := history w @ [(bn, data (bufs w b))]\<rparr>)
            else if req_type r = VIRTIO_BLK_T_IN \<and> d_flags d1 = VRING_DESC_F_WRITE OR VRING_DESC_F_NEXT
            then Some (upd_buf b (data_update (\<lambda>_. disk w bn)) w')
            else None
          else None
      | _ \<Rightarrow> None)"

definition device_ok :: "('z vdst_scheme \<Rightarrow> 'z vdst_scheme) \<Rightarrow> bool" where
  "device_ok device \<longleftrightarrow> (\<forall>w w'. serve w = Some w' \<longrightarrow> device w = w')"

subsection \<open>Descriptors\<close>

definition quiet :: "'z vdst_scheme \<Rightarrow> bool" where
  "quiet s \<longleftrightarrow> cpu_ok s \<and> procs_free s \<and> lock_free LDisk s"

text \<open>The tables have their eight entries and no completed request waits to be taken off the used ring; requests may be in flight.\<close>

definition queue_ok :: "vdisk \<Rightarrow> bool" where
  "queue_ok v \<longleftrightarrow> length (desc v) = NUM \<and> length (avail_ring v) = NUM \<and> length (used_ring v) = NUM \<and> length (dfree v) = NUM \<and>
     length (info_b v) = NUM \<and> length (info_status v) = NUM \<and> length (ops v) = NUM \<and> used_idx v = used_dev_idx v"

definition free_set :: "vdisk \<Rightarrow> nat set" where
  "free_set v = {i. i < NUM \<and> dfree v ! i}"

lemma finite_free_set [simp]: "finite (free_set v)"
  by (simp add: free_set_def)

lemma alloc_desc_ok:
  assumes "length (dfree v) = NUM" "free_set v \<noteq> {}"
  shows "\<exists>i \<in> free_set v. alloc_desc v = (Some i, v\<lparr>dfree := (dfree v)[i := False]\<rparr>) \<and>
    free_set (v\<lparr>dfree := (dfree v)[i := False]\<rparr>) = free_set v - {i}"
proof -
  obtain i where i: "find (\<lambda>i. dfree v ! i) [0..<NUM] = Some i"
    using assms(2) by (cases "find (\<lambda>i. dfree v ! i) [0..<NUM]") (auto simp: find_None_iff free_set_def)
  then have "i \<in> free_set v" by (auto simp: find_Some_iff free_set_def)
  moreover have "free_set (v\<lparr>dfree := (dfree v)[i := False]\<rparr>) = free_set v - {i}"
  proof -
    have "(dfree v)[i := False] ! x \<longleftrightarrow> x \<noteq> i \<and> dfree v ! x" if "x < NUM" for x using that assms(1) by (cases "x = i") simp_all
    then show ?thesis by (auto simp: free_set_def)
  qed
  ultimately show ?thesis using i by (auto simp: alloc_desc_def)
qed

definition taken :: "nat \<Rightarrow> nat \<Rightarrow> nat \<Rightarrow> vdisk \<Rightarrow> vdisk" where
  "taken i0 i1 i2 v = v\<lparr>dfree := (dfree v)[i0 := False, i1 := False, i2 := False]\<rparr>"

lemma alloc3_desc_ok:
  assumes "length (dfree (vd s)) = NUM" "3 \<le> card (free_set (vd s))"
  shows "\<exists>i0 i1 i2. alloc3_desc s = Inr (Some [i0, i1, i2], s\<lparr>vd := taken i0 i1 i2 (vd s)\<rparr>) \<and> distinct [i0, i1, i2] \<and>
    {i0, i1, i2} \<subseteq> free_set (vd s)"
proof -
  let ?v = "vd s"
  have "free_set ?v \<noteq> {}" using assms(2) by auto
  then obtain i0 where i0: "i0 \<in> free_set ?v" "alloc_desc ?v = (Some i0, ?v\<lparr>dfree := (dfree ?v)[i0 := False]\<rparr>)"
    "free_set (?v\<lparr>dfree := (dfree ?v)[i0 := False]\<rparr>) = free_set ?v - {i0}" using alloc_desc_ok [OF assms(1)] by blast
  let ?v1 = "?v\<lparr>dfree := (dfree ?v)[i0 := False]\<rparr>"
  have c1: "2 \<le> card (free_set ?v1)" using i0 assms(2) by (simp add: card_Diff_singleton)
  then have "free_set ?v1 \<noteq> {}" by auto
  then obtain i1 where i1: "i1 \<in> free_set ?v1" "alloc_desc ?v1 = (Some i1, ?v1\<lparr>dfree := (dfree ?v1)[i1 := False]\<rparr>)"
    "free_set (?v1\<lparr>dfree := (dfree ?v1)[i1 := False]\<rparr>) = free_set ?v1 - {i1}" using alloc_desc_ok [of ?v1] assms(1) by auto
  let ?v2 = "?v1\<lparr>dfree := (dfree ?v1)[i1 := False]\<rparr>"
  have "1 \<le> card (free_set ?v2)" using i1 c1 by (simp add: card_Diff_singleton)
  then have "free_set ?v2 \<noteq> {}" by auto
  then obtain i2 where i2: "i2 \<in> free_set ?v2" "alloc_desc ?v2 = (Some i2, ?v2\<lparr>dfree := (dfree ?v2)[i2 := False]\<rparr>)"
    using alloc_desc_ok [of ?v2] assms(1) by auto
  have three: "3 = Suc (Suc (Suc 0))" by simp
  have "alloc3_desc s = Inr (Some [i0, i1, i2], s\<lparr>vd := taken i0 i1 i2 ?v\<rparr>)"
    unfolding alloc3_desc_def three using i0(2) i1(2) i2(2) by (simp add: taken_def)
  then show ?thesis using i0 i1(1,3) i2(1) by auto
qed

subsection \<open>The stages of a request\<close>

text \<open>The queue right after the submission, and after the device and the interrupt handler are done with the request.\<close>

definition requested :: "nat \<Rightarrow> u32 \<Rightarrow> bool \<Rightarrow> nat \<Rightarrow> nat \<Rightarrow> nat \<Rightarrow> vdisk \<Rightarrow> vdisk" where
  "requested b bn write i0 i1 i2 v = submit b bn write i0 i1 i2 (taken i0 i1 i2 v)"

definition acknowledged :: "nat \<Rightarrow> nat \<Rightarrow> vdisk \<Rightarrow> vdisk" where
  "acknowledged b i0 v = (completed i0 i0 v)\<lparr>b_disk := (b_disk v)(b := False), used_idx := used_idx v + 1\<rparr>"

lemma rw_submit_eq:
  assumes "quiet s" "queue_ok (vd s)" "3 \<le> card (free_set (vd s))"
  shows "\<exists>i0 i1 i2. distinct [i0, i1, i2] \<and> {i0, i1, i2} \<subseteq> free_set (vd s) \<and>
    rw_submit b write s = Inr (i0, mmio_write 0x50 0 ((acquired LDisk s)\<lparr>vd := requested b (blockno (bufs s b)) write i0 i1 i2 (vd s)\<rparr>))"
proof -
  have "length (dfree (vd (acquired LDisk s))) = NUM" "3 \<le> card (free_set (vd (acquired LDisk s)))" using assms(2,3) by (simp_all add: queue_ok_def)
  from alloc3_desc_ok [OF this] obtain i0 i1 i2 where i: "distinct [i0, i1, i2]" "{i0, i1, i2} \<subseteq> free_set (vd s)"
    "alloc3_desc (acquired LDisk s) = Inr (Some [i0, i1, i2], (acquired LDisk s)\<lparr>vd := taken i0 i1 i2 (vd s)\<rparr>)" by auto
  have "rw_submit b write s = Inr (i0, mmio_write 0x50 0 ((acquired LDisk s)\<lparr>vd := requested b (blockno (bufs s b)) write i0 i1 i2 (vd s)\<rparr>))"
    using assms(1) i(3) by (simp add: rw_submit_def quiet_def flow upd_vd_def requested_def)
  then show ?thesis using i(1,2) by blast
qed

text \<open>The chain that the driver has laid out.\<close>

lemma requested_chain:
  assumes "queue_ok v" "distinct [i0, i1, i2]" "{i0, i1, i2} \<subseteq> free_set v"
    and p_def: "p = requested b bn write i0 i1 i2 v"
  shows "desc p ! i0 = \<lparr>d_addr = AOp i0, d_len = 16, d_flags = VRING_DESC_F_NEXT, d_next = of_nat i1\<rparr>"
    "desc p ! i1 = \<lparr>d_addr = ABuf b, d_len = 1024, d_flags = (if write then 0 else VRING_DESC_F_WRITE) OR VRING_DESC_F_NEXT, d_next = of_nat i2\<rparr>"
    "desc p ! i2 = \<lparr>d_addr = AStatus i0, d_len = 1, d_flags = VRING_DESC_F_WRITE, d_next = 0\<rparr>"
    "ops p ! i0 = \<lparr>req_type = if write then VIRTIO_BLK_T_OUT else VIRTIO_BLK_T_IN, reserved = 0, sector = ucast bn * 2\<rparr>"
    "avail_ring p ! (unat (avail_idx p - 1) mod NUM) = of_nat i0" "info_b p ! i0 = Some b" "b_disk p b" "queue_ok p"
    "dfree p = (dfree v)[i0 := False, i1 := False, i2 := False]"
proof -
  have l: "i0 < NUM" "i1 < NUM" "i2 < NUM" using assms(3) by (auto simp: free_set_def)
  show "desc p ! i0 = \<lparr>d_addr = AOp i0, d_len = 16, d_flags = VRING_DESC_F_NEXT, d_next = of_nat i1\<rparr>"
    "desc p ! i1 = \<lparr>d_addr = ABuf b, d_len = 1024, d_flags = (if write then 0 else VRING_DESC_F_WRITE) OR VRING_DESC_F_NEXT, d_next = of_nat i2\<rparr>"
    "desc p ! i2 = \<lparr>d_addr = AStatus i0, d_len = 1, d_flags = VRING_DESC_F_WRITE, d_next = 0\<rparr>"
    "ops p ! i0 = \<lparr>req_type = if write then VIRTIO_BLK_T_OUT else VIRTIO_BLK_T_IN, reserved = 0, sector = ucast bn * 2\<rparr>"
    "avail_ring p ! (unat (avail_idx p - 1) mod NUM) = of_nat i0" "info_b p ! i0 = Some b" "b_disk p b" "queue_ok p"
    "dfree p = (dfree v)[i0 := False, i1 := False, i2 := False]"
    using assms(1,2) l by (simp_all add: p_def requested_def submit_def taken_def queue_ok_def Let_def nth_list_update)
qed

lemma unat_desc: "i < NUM \<Longrightarrow> unat (of_nat i :: u16) = i" "i < NUM \<Longrightarrow> unat (of_nat i :: u32) = i"
  by (simp_all add: unsigned_of_nat take_bit_nat_eq_self)

lemma block_sector: "(ucast (ucast bn * 2 div 2 :: u64) :: u32) = bn" "(ucast bn * 2 :: u64) mod 2 = 0"
proof -
  have b: "unat bn < 2 ^ 32" by (rule unat_u32_less)
  then have uc: "unat (ucast bn :: u64) = unat bn" by (simp add: unsigned_ucast_eq take_bit_nat_eq_self)
  then have u: "unat (ucast bn * 2 :: u64) = unat bn * 2" using b by (simp add: unat_word_ariths)
  then show "(ucast bn * 2 :: u64) mod 2 = 0" by (simp add: word_unat_eq_iff unat_mod)
  have "unat (ucast bn * 2 div 2 :: u64) = unat bn" using u by (simp add: unat_div)
  then have "ucast bn * 2 div 2 = (ucast bn :: u64)" using uc by (simp add: word_unat_eq_iff)
  moreover have "ucast (ucast bn :: u64) = bn" using b uc by (simp add: word_unat_eq_iff unsigned_ucast_eq take_bit_nat_eq_self take_bit_word_eq_self)
  ultimately show "(ucast (ucast bn * 2 div 2 :: u64) :: u32) = bn" by simp
qed

text \<open>The device serves the chain.\<close>

definition moved :: "nat \<Rightarrow> bool \<Rightarrow> 'z bcache_scheme \<Rightarrow> 'z bcache_scheme" where
  "moved b write s = (if write
     then s\<lparr>disk := (disk s)(blockno (bufs s b) := data (bufs s b)), history := history s @ [(blockno (bufs s b), data (bufs s b))]\<rparr>
     else upd_buf b (data_update (\<lambda>_. disk s (blockno (bufs s b)))) s)"

lemma serve_request:
  assumes "queue_ok v" "distinct [i0, i1, i2]" "{i0, i1, i2} \<subseteq> free_set v" "vd w = requested b (blockno (bufs w b)) write i0 i1 i2 v"
  shows "serve w = Some (moved b write (w\<lparr>vd := completed i0 i0 (vd w)\<rparr>))"
proof -
  note c = requested_chain [OF assms(1-4)]
  have l: "i0 < NUM" "i1 < NUM" "i2 < NUM" using assms(3) by (auto simp: free_set_def)
  have "(0 :: u16) OR 1 = 1" "(2 :: u16) OR 1 = 3" by simp_all
  then show ?thesis
    unfolding serve_def Let_def c(5) using unat_desc l c(1-4) block_sector
    by (cases "write") (simp_all add: moved_def upd_vd_def upd_buf_def)
qed

lemma moved_frame [simp]: "vd (moved b write s) = vd s" "quiet (moved b write s) = quiet s" "procs (moved b write s) = procs s"
  by (simp_all add: moved_def upd_buf_def quiet_def)

lemma quiet_vd [simp]: "quiet (s\<lparr>vd := v\<rparr>) = quiet s"
  by (simp add: quiet_def)

lemma disk_rw_moved: "quiet s \<Longrightarrow> disk_rw b write s = Inr (crit (moved b write s))"
  by (simp add: disk_rw_def moved_def quiet_def flow upd_buf_def)

lemma quiet_acquired: "quiet s \<Longrightarrow> cpu_ok (acquired LDisk s) \<and> procs_free (acquired LDisk s) \<and> crit (acquired LDisk s) = acquired LDisk s"
  by (simp add: quiet_def procs_free_acquired)

text \<open>The interrupt handler takes the request off the used ring and wakes the process that waits for it.\<close>

lemma intr_request:
  assumes "queue_ok v" "distinct [i0, i1, i2]" "{i0, i1, i2} \<subseteq> free_set v" "p = requested b bn write i0 i1 i2 v"
    and "quiet w" "vd w = completed i0 i0 p"
  shows "\<exists>rs ws. virtio_disk_intr w = Inr ((crit w)\<lparr>vd := acknowledged b i0 p, procs := roused (ChDiskBuf b) (cproc (mycpu w)) {..<NPROC} (procs w),
    mmio_reads := rs, mmio_writes := ws\<rparr>)"
proof -
  note c = requested_chain [OF assms(1-4)]
  have l: "i0 < NUM" using assms(3) by (auto simp: free_set_def)
  have q: "used_idx p = used_dev_idx p" "length (used_ring p) = NUM" "length (info_status p) = NUM" using c(8) by (simp_all add: queue_ok_def)
  let ?r = "mmio_dev w (mmio_reads w) 0x60"
  let ?s = "(acquired LDisk w)\<lparr>mmio_reads := Suc (mmio_reads w), mmio_writes := mmio_writes w @ [(0x64, ?r AND 3)]\<rparr>"
  have v: "vd ?s = completed i0 i0 p" using assms(6) by simp
  have idx: "used_dev_idx (vd ?s) - used_idx (vd ?s) = 1" "used_idx (vd ?s) \<noteq> used_dev_idx (vd ?s)" using q by (simp_all add: v completed_def)
  have entry: "unat (used_ring (vd ?s) ! (unat (used_idx (vd ?s)) mod NUM)) = i0" "info_status (vd ?s) ! i0 = 0" "info_b (vd ?s) ! i0 = Some b"
    using q l unat_desc c(6) by (simp_all add: v completed_def)
  let ?w = "acquired LDisk w"
  note qa = quiet_acquired [OF assms(5)]
  have loop: "intr_loop 1 ?s = Inr (?s\<lparr>vd := acknowledged b i0 p, procs := roused (ChDiskBuf b) (cproc (mycpu w)) {..<NPROC} (procs w)\<rparr>)"
    using idx(2) entry l qa q
    by (simp add: flow upd_vd_def v acknowledged_def completed_def)
  have "virtio_disk_intr w = and_then (intr_loop 1 ?s) (release LDisk)"
    using assms(5) idx(1) by (simp add: virtio_disk_intr_def quiet_def flow mmio_read_def mmio_write_def)
  also have "\<dots> = release LDisk (?s\<lparr>vd := acknowledged b i0 p, procs := roused (ChDiskBuf b) (cproc (mycpu w)) {..<NPROC} (procs w)\<rparr>)"
    unfolding loop by simp
  also have "\<dots> = Inr ((crit w)\<lparr>vd := acknowledged b i0 p, procs := roused (ChDiskBuf b) (cproc (mycpu w)) {..<NPROC} (procs w),
      mmio_reads := Suc (mmio_reads w), mmio_writes := mmio_writes w @ [(0x64, ?r AND 3)]\<rparr>)"
    using assms(5) by (simp add: quiet_def flow)
  finally show ?thesis by blast
qed

text \<open>The process that waited gives the descriptors back.\<close>

definition freed :: "nat \<Rightarrow> vdisk \<Rightarrow> vdisk" where
  "freed i v = v\<lparr>desc := (desc v)[i := \<lparr>d_addr = ANull, d_len = 0, d_flags = 0, d_next = 0\<rparr>], dfree := (dfree v)[i := True]\<rparr>"

lemma free_desc_eq:
  assumes "quiet y" "i < NUM" "\<not> dfree v ! i"
  shows "\<exists>ps'. free_desc i ((acquired LDisk y)\<lparr>vd := v, procs := ps\<rparr>) = Inr ((acquired LDisk y)\<lparr>vd := freed i v, procs := ps'\<rparr>)"
proof -
  note qa = quiet_acquired [OF assms(1)]
  have "free_desc i ((acquired LDisk y)\<lparr>vd := v, procs := ps\<rparr>) = Inr ((acquired LDisk y)\<lparr>vd := freed i v,
      procs := roused ChDiskFree (cproc (mycpu y)) {..<NPROC} ps\<rparr>)"
    using assms(2,3) qa by (simp add: free_desc_def flow upd_vd_def freed_def)
  then show ?thesis by blast
qed

lemma finish_request:
  assumes "queue_ok v" "distinct [i0, i1, i2]" "{i0, i1, i2} \<subseteq> free_set v" "p = requested b bn write i0 i1 i2 v"
    and "quiet y" "vd y = acknowledged b i0 p"
  shows "\<exists>ps. rw_finish i0 (acquired LDisk y) =
    Inr ((crit y)\<lparr>vd := freed i2 (freed i1 (freed i0 ((acknowledged b i0 p)\<lparr>info_b := (info_b p)[i0 := None]\<rparr>))), procs := ps\<rparr>)"
proof -
  note c = requested_chain [OF assms(1-4)]
  let ?v = "(acknowledged b i0 p)\<lparr>info_b := (info_b p)[i0 := None]\<rparr>" and ?a = "acquired LDisk y"
  have l: "i0 < NUM" "i1 < NUM" "i2 < NUM" using assms(3) by (auto simp: free_set_def)
  have len: "length (desc p) = NUM" "length (dfree p) = NUM" using c(8) by (simp_all add: queue_ok_def)
  have lv: "length (dfree v) = NUM" using assms(1) by (simp add: queue_ok_def)
  have v: "desc ?v = desc p" "dfree ?v = dfree p" by (simp_all add: acknowledged_def completed_def)
  have nf: "\<not> dfree p ! i0" "\<not> dfree p ! i1" "\<not> dfree p ! i2" using c(9) l lv assms(2) by (simp_all add: nth_list_update)
  have s0: "upd_vd (\<lambda>v. v\<lparr>info_b := (info_b v)[i0 := None]\<rparr>) ?a = ?a\<lparr>vd := ?v, procs := procs y\<rparr>"
    using assms(6) by (simp add: upd_vd_def acknowledged_def completed_def)
  obtain p0 where f0: "free_desc i0 (?a\<lparr>vd := ?v, procs := procs y\<rparr>) = Inr (?a\<lparr>vd := freed i0 ?v, procs := p0\<rparr>)"
    using free_desc_eq [OF assms(5) l(1)] v nf(1) by metis
  have "\<not> dfree (freed i0 ?v) ! i1" using v nf(2) assms(2) by (simp add: freed_def)
  then obtain p1 where f1: "free_desc i1 (?a\<lparr>vd := freed i0 ?v, procs := p0\<rparr>) = Inr (?a\<lparr>vd := freed i1 (freed i0 ?v), procs := p1\<rparr>)"
    using free_desc_eq [OF assms(5) l(2)] by blast
  have "\<not> dfree (freed i1 (freed i0 ?v)) ! i2" using v nf(3) assms(2) by (simp add: freed_def)
  then obtain p2 where f2: "free_desc i2 (?a\<lparr>vd := freed i1 (freed i0 ?v), procs := p1\<rparr>) = Inr (?a\<lparr>vd := freed i2 (freed i1 (freed i0 ?v)), procs := p2\<rparr>)"
    using free_desc_eq [OF assms(5) l(3)] by blast
  have d: "desc ?v ! i0 = desc p ! i0" "desc (freed i0 ?v) ! i1 = desc p ! i1" "desc (freed i1 (freed i0 ?v)) ! i2 = desc p ! i2"
    using assms(2) v by (simp_all add: freed_def)
  have fl: "((if write then 0 else 2) OR 1 :: u16) AND 1 \<noteq> 0" "(2 :: u16) AND 1 = 0" by simp_all
  have nine: "Suc NUM = Suc (Suc (Suc (Suc 5)))" by simp
  have "free_chain i0 (?a\<lparr>vd := ?v, procs := procs y\<rparr>) = Inr (?a\<lparr>vd := freed i2 (freed i1 (freed i0 ?v)), procs := p2\<rparr>)"
    unfolding free_chain_def nine free_chain_loop.simps(2) Let_def using f0 f1 f2 d c(1-3) fl unat_desc l by simp
  then have "rw_finish i0 ?a = release LDisk (?a\<lparr>vd := freed i2 (freed i1 (freed i0 ?v)), procs := p2\<rparr>)"
    unfolding rw_finish_def s0 by simp
  also have "\<dots> = Inr ((crit y)\<lparr>vd := freed i2 (freed i1 (freed i0 ?v)), procs := p2\<rparr>)" using assms(5) by (simp add: quiet_def flow)
  finally show ?thesis by blast
qed

lemma finished_queue:
  assumes "queue_ok v" "distinct [i0, i1, i2]" "{i0, i1, i2} \<subseteq> free_set v"
  shows "queue_ok (freed i2 (freed i1 (freed i0 ((acknowledged b i0 (requested b bn write i0 i1 i2 v))\<lparr>info_b := xs[i0 := None]\<rparr>)))) \<longleftrightarrow> length xs = NUM"
    "dfree (freed i2 (freed i1 (freed i0 ((acknowledged b i0 (requested b bn write i0 i1 i2 v))\<lparr>info_b := xs[i0 := None]\<rparr>)))) = dfree v"
proof -
  have q: "queue_ok (requested b bn write i0 i1 i2 v)" "dfree (requested b bn write i0 i1 i2 v) = (dfree v)[i0 := False, i1 := False, i2 := False]"
    by (rule requested_chain(8) [OF assms refl], rule requested_chain(9) [OF assms refl])
  show "queue_ok (freed i2 (freed i1 (freed i0 ((acknowledged b i0 (requested b bn write i0 i1 i2 v))\<lparr>info_b := xs[i0 := None]\<rparr>)))) \<longleftrightarrow> length xs = NUM"
    using q(1) by (simp add: queue_ok_def freed_def acknowledged_def completed_def)
  have "(dfree v)[i0 := False, i1 := False, i2 := False, i0 := True, i1 := True, i2 := True] = dfree v"
  proof (rule nth_equalityI)
    fix i assume "i < length ((dfree v)[i0 := False, i1 := False, i2 := False, i0 := True, i1 := True, i2 := True])"
    then have "i < length (dfree v)" by simp
    moreover have "dfree v ! i0" "dfree v ! i1" "dfree v ! i2" using assms(3) by (auto simp: free_set_def)
    ultimately show "(dfree v)[i0 := False, i1 := False, i2 := False, i0 := True, i1 := True, i2 := True] ! i = dfree v ! i"
      by (cases "i = i0"; cases "i = i1"; cases "i = i2") simp_all
  qed simp
  then show "dfree (freed i2 (freed i1 (freed i0 ((acknowledged b i0 (requested b bn write i0 i1 i2 v))\<lparr>info_b := xs[i0 := None]\<rparr>)))) = dfree v"
    using q(2) by (simp add: freed_def acknowledged_def completed_def)
qed

text \<open>
  C5: driver, device and interrupt handler implement the block transfer \<open>disk_rw\<close> on which the buffer cache, the log and the file system rest.  The disk lock is free and the
  queue has three free descriptors.  The submission leaves a request for which the buffer is marked as owned by the disk and for which the process sleeps; when the
  device has served it, at whatever later moment, the interrupt handler runs through, the blocks on the disk, the buffers and the order of the
  writes are those of \<open>disk_rw\<close>, the buffer belongs to the process again and every process that sleeps on it is woken; and the process, when it runs on with the lock held, returns
  the three descriptors and the lock.
\<close>

theorem virtio_implements_disk_rw:
  fixes device :: "'z vdst_scheme \<Rightarrow> 'z vdst_scheme" and s :: "'z vdst_scheme"
  assumes "device_ok device" "quiet s" "queue_ok (vd s)" "3 \<le> card (free_set (vd s))"
  shows "\<exists>i0 u. rw_submit b write s = Inr (i0, u) \<and> b_disk (vd u) b \<and> bufs u = bufs s \<and> disk u = disk s \<and>
    (\<forall>p < NPROC. cproc (mycpu s) = Some p \<longrightarrow> noff (mycpu s) = 0 \<longrightarrow> virtio_disk_rw b write s = Inl (Sleeps (ChDiskBuf b))) \<and>
    (\<forall>w. quiet w \<longrightarrow> vd w = vd u \<longrightarrow> blockno (bufs w b) = blockno (bufs s b) \<longrightarrow>
      (\<exists>x r. virtio_disk_intr (device w) = Inr x \<and> disk_rw b write w = Inr r \<and> disk x = disk r \<and> bufs x = bufs r \<and> history x = history r \<and>
        \<not> b_disk (vd x) b \<and> procs x = roused (ChDiskBuf b) (cproc (mycpu w)) {..<NPROC} (procs w) \<and>
        (\<forall>y :: 'z vdst_scheme. quiet y \<longrightarrow> vd y = vd x \<longrightarrow>
          (\<exists>z. rw_finish i0 (acquired LDisk y) = Inr z \<and> dfree (vd z) = dfree (vd s) \<and> queue_ok (vd z) \<and> lock_free LDisk z \<and>
            bufs z = bufs y \<and> disk z = disk y \<and> history z = history y))))"
proof -
  obtain i0 i1 i2 where i: "distinct [i0, i1, i2]" "{i0, i1, i2} \<subseteq> free_set (vd s)"
    "rw_submit b write s = Inr (i0, mmio_write 0x50 0 ((acquired LDisk s)\<lparr>vd := requested b (blockno (bufs s b)) write i0 i1 i2 (vd s)\<rparr>))"
    using rw_submit_eq [OF assms(2-4)] by blast
  define p where "p = requested b (blockno (bufs s b)) write i0 i1 i2 (vd s)"
  define u where "u = mmio_write 0x50 0 ((acquired LDisk s)\<lparr>vd := p\<rparr>)"
  note c = requested_chain [OF assms(3) i(1,2) p_def]
  have u: "rw_submit b write s = Inr (i0, u)" "vd u = p" "bufs u = bufs s" "disk u = disk s"
    using i(3) by (simp_all add: u_def p_def mmio_write_def)
  have later: "\<exists>x r. virtio_disk_intr (device w) = Inr x \<and> disk_rw b write w = Inr r \<and> disk x = disk r \<and> bufs x = bufs r \<and> history x = history r \<and>
        vd x = acknowledged b i0 p \<and> procs x = roused (ChDiskBuf b) (cproc (mycpu w)) {..<NPROC} (procs w)"
    if w: "quiet w" "vd w = p" "blockno (bufs w b) = blockno (bufs s b)" for w
  proof -
    let ?w = "moved b write (w\<lparr>vd := completed i0 i0 (vd w)\<rparr>)"
    have "vd w = requested b (blockno (bufs w b)) write i0 i1 i2 (vd s)" using w(2,3) p_def by simp
    from serve_request [OF assms(3) i(1,2) this] have "serve w = Some ?w" .
    then have dv: "device w = ?w" using assms(1) by (simp add: device_ok_def)
    have "quiet ?w" "vd ?w = completed i0 i0 p" using w(1,2) by simp_all
    then obtain rs ws where x: "virtio_disk_intr ?w = Inr ((crit ?w)\<lparr>vd := acknowledged b i0 p,
        procs := roused (ChDiskBuf b) (cproc (mycpu ?w)) {..<NPROC} (procs ?w), mmio_reads := rs, mmio_writes := ws\<rparr>)"
      using intr_request [OF assms(3) i(1,2) p_def] by blast
    show ?thesis unfolding dv x disk_rw_moved [OF w(1)] by (simp add: moved_def upd_buf_def)
  qed
  have finish: "\<exists>z. rw_finish i0 (acquired LDisk y) = Inr z \<and> dfree (vd z) = dfree (vd s) \<and> queue_ok (vd z) \<and> lock_free LDisk z \<and>
      bufs z = bufs y \<and> disk z = disk y \<and> history z = history y" if y: "quiet y" "vd y = acknowledged b i0 p" for y :: "'z vdst_scheme"
  proof -
    have "length (info_b p) = NUM" using c(8) by (simp add: queue_ok_def)
    then show ?thesis
      using finish_request [OF assms(3) i(1,2) p_def y] y(1)
        finished_queue [OF assms(3) i(1,2), where b = b and bn = "blockno (bufs s b)" and xs = "info_b p"]
      by (auto simp: p_def quiet_def)
  qed
  have sl: "virtio_disk_rw b write s = Inl (Sleeps (ChDiskBuf b))" if "p' < NPROC" "cproc (mycpu s) = Some p'" "noff (mycpu s) = 0" for p'
  proof -
    let ?s = "s\<lparr>vd := p, mmio_writes := mmio_writes s @ [(0x50, 0)]\<rparr>"
    have "u = acquired LDisk ?s" by (simp add: u_def mmio_write_def)
    moreover have "cpu_ok ?s" "noff (mycpu ?s) = 0" "lock_free LDisk ?s" "lock_free (LProc p') ?s" "cproc (mycpu ?s) = Some p'"
      using assms(2) that by (simp_all add: quiet_def procs_free_def)
    ultimately have "sleep (ChDiskBuf b) LDisk u = Inl (Sleeps (ChDiskBuf b))" using sleep_enter_eq [of ?s LDisk p'] by (simp add: sleep_def)
    then show ?thesis using u(1,2) c(7) by (simp add: virtio_disk_rw_def)
  qed
  have "\<not> b_disk (acknowledged b i0 p) b" by (simp add: acknowledged_def)
  then have "\<exists>x r. virtio_disk_intr (device w) = Inr x \<and> disk_rw b write w = Inr r \<and> disk x = disk r \<and> bufs x = bufs r \<and> history x = history r \<and>
        \<not> b_disk (vd x) b \<and> procs x = roused (ChDiskBuf b) (cproc (mycpu w)) {..<NPROC} (procs w) \<and>
        (\<forall>y :: 'z vdst_scheme. quiet y \<longrightarrow> vd y = vd x \<longrightarrow>
          (\<exists>z. rw_finish i0 (acquired LDisk y) = Inr z \<and> dfree (vd z) = dfree (vd s) \<and> queue_ok (vd z) \<and> lock_free LDisk z \<and>
            bufs z = bufs y \<and> disk z = disk y \<and> history z = history y))"
    if "quiet w" "vd w = p" "blockno (bufs w b) = blockno (bufs s b)" for w
    using later [OF that] finish by fastforce
  then show ?thesis using u c(7) sl by (intro exI [of _ i0] exI [of _ u]) simp
qed

text \<open>An idle disk, and a device that serves what it can.\<close>

definition demo_vd :: vdisk where
  "demo_vd = \<lparr>desc = replicate NUM \<lparr>d_addr = ANull, d_len = 0, d_flags = 0, d_next = 0\<rparr>, avail_idx = 0, avail_ring = replicate NUM 0,
     used_dev_idx = 0, used_ring = replicate NUM 0, dfree = replicate NUM True, used_idx = 0, info_b = replicate NUM None,
     info_status = replicate NUM 0, ops = replicate NUM \<lparr>req_type = 0, reserved = 0, sector = 0\<rparr>, b_disk = \<lambda>_. False,
     d_desc = 0, d_avail = 0, d_used = 0\<rparr>"

definition demo_device :: "vdst \<Rightarrow> vdst" where
  "demo_device w = (case serve w of Some w' \<Rightarrow> w' | None \<Rightarrow> w)"

definition demo_vdst :: vdst where
  "demo_vdst = filest.extend demo_files (vdst.fields demo_vd (\<lambda>_ _. 0) 0 [])"

lemma demo_vdst_sel [simp]: "vd demo_vdst = demo_vd" "cpu_ok demo_vdst = cpu_ok demo_files" "procs_free demo_vdst = procs_free demo_files"
    "lock_free l demo_vdst = lock_free l demo_files"
  by (simp_all add: demo_vdst_def filest.defs vdst.defs cpu_ok_def procs_free_def lock_free_def machine_defs)

theorem virtio_implements_disk_rw_witness:
  "\<exists>i0 u x. rw_submit 3 True demo_vdst = Inr (i0, u) \<and> virtio_disk_intr (demo_device (demo_vdst\<lparr>vd := vd u\<rparr>)) = Inr x \<and>
     disk x = (disk demo_vdst)(blockno (bufs demo_vdst 3) := data (bufs demo_vdst 3)) \<and> \<not> b_disk (vd x) 3"
proof -
  have q: "quiet demo_vdst" by (simp add: quiet_def)
  have "free_set demo_vd = {..<8}" by (auto simp: free_set_def demo_vd_def)
  then have fr: "3 \<le> card (free_set (vd demo_vdst))" by simp
  have dv: "device_ok demo_device" by (simp add: device_ok_def demo_device_def)
  have qu: "queue_ok (vd demo_vdst)" by (simp add: queue_ok_def demo_vd_def)
  obtain i0 u where u: "rw_submit 3 True demo_vdst = Inr (i0, u)"
    "\<forall>w. quiet w \<longrightarrow> vd w = vd u \<longrightarrow> blockno (bufs w 3) = blockno (bufs demo_vdst 3) \<longrightarrow>
      (\<exists>x r. virtio_disk_intr (demo_device w) = Inr x \<and> disk_rw 3 True w = Inr r \<and> disk x = disk r \<and> \<not> b_disk (vd x) 3)"
    using virtio_implements_disk_rw [OF dv q qu fr, of 3 True] by blast
  let ?w = "demo_vdst\<lparr>vd := vd u\<rparr>"
  have "quiet ?w" using q by simp
  moreover have "vd ?w = vd u" "bufs ?w = bufs demo_vdst" by simp_all
  ultimately obtain x r where x: "virtio_disk_intr (demo_device ?w) = Inr x" "disk_rw 3 True ?w = Inr r" "disk x = disk r" "\<not> b_disk (vd x) 3"
    using u(2) by metis
  then have "disk x = disk (crit (moved 3 True ?w))" using disk_rw_moved [OF \<open>quiet ?w\<close>, of 3 True] by simp
  then have "disk x = (disk demo_vdst)(blockno (bufs demo_vdst 3) := data (bufs demo_vdst 3))" by (simp add: moved_def)
  then show ?thesis using u(1) x by blast
qed

end
