(* ===== verification/Spec2Isabelle.thy ===== *)
theory Spec2Isabelle
  imports Trap Dirent Lifecycle Ushtext Ushrun Uprintf Umalloc Utools Ulife Mkimage Diskio
begin

text \<open>
  \<^bold>\<open>xv6-riscv-rust: a verification library\<close>

  The program is a small Unix for RISC-V written in Rust: a kernel (\<open>src/kernel\<close>), the programs that run on it (\<open>src/user\<close>) and a host
  tool that writes the first disk image (\<open>src/mkfs\<close>).  This library holds a model of the kernel, of the user library, the shell, some user programs and the image
  builder, and theorems about them.  Every definition follows one routine of the source, keeps its name where Isabelle allows that, and has
  its guards, early returns, panics and side effects in the order of the source.

  \<^bold>\<open>How the program is put together.\<close>  Traps enter the kernel in \<open>rust_trap.rs\<close>; a system call goes through \<open>rust_syscall.rs\<close> to \<open>rust_sysfile.rs\<close> or
  \<open>rust_proc.rs\<close>.  Files are pipes, devices or inodes (\<open>rust_file.rs\<close>, \<open>rust_pipe.rs\<close>, \<open>rust_console.rs\<close>, \<open>rust_fs.rs\<close>).  The file system changes blocks
  inside transactions of the log (\<open>rust_log.rs\<close>), the log works on the buffer cache (\<open>rust_bio.rs\<close>), the cache on the disk driver
  (\<open>rust_virtio_disk.rs\<close>).  Everything that waits sleeps in the process table (\<open>rust_proc.rs\<close>); everything shared is under a spin lock
  (\<open>rust_spinlock.rs\<close>, \<open>rust_lock.rs\<close>) or a sleep lock (\<open>rust_sleeplock.rs\<close>); pages come from \<open>rust_kalloc.rs\<close> and page tables are handled by \<open>rust_vm.rs\<close>.

  \<^bold>\<open>Style of the model.\<close>  A routine of the kernel is a function from the state to \<open>'a kres\<close>, a sum: \<open>Inr\<close> is the result and the new state, \<open>Inl\<close> an
  abnormal end: a panic with its message, sleeping on a channel, undefined behaviour, or a loop that does not end.  The state is a chain of extensible records, one per
  component (\<open>machine\<close> \<open>\<rightarrow>\<close> \<open>kmem\<close> \<open>\<rightarrow>\<close> \<open>ptable\<close> \<open>\<rightarrow>\<close> \<open>sltable\<close> \<open>\<rightarrow>\<close> \<open>bcache\<close> \<open>\<rightarrow>\<close> \<open>logst\<close> \<open>\<rightarrow>\<close> \<open>fsst\<close> \<open>\<rightarrow>\<close> \<open>uartst\<close> \<open>\<rightarrow>\<close> \<open>consst\<close> \<open>\<rightarrow>\<close> \<open>filest\<close>
  \<open>\<rightarrow>\<close> \<open>vdst\<close> and on), so that a routine can be used in every later theory and leaves the later fields alone by its type.  Machine integers are words of their width, so
  arithmetic wraps; raw memory is a function from addresses to bytes; pointers into tables are indices and a null pointer is \<open>None\<close> or 0.  A
  routine that sleeps ends with the channel it sleeps on; what it does after it is woken is the next call of the same loop.  Device registers are environments: what the
  n-th read of a register returns is a field of the state, what is written is recorded.

  \<^bold>\<open>The theories of the kernel\<close>, in the order of their imports.
  \<^item> \<open>Prelude\<close>: words, result type, little-endian encodings, byte-addressed memory, counted loops; the collections \<open>flow\<close> and \<open>frame\<close>.
  \<^item> \<open>Spinlock\<close> (\<open>rust_spinlock.rs\<close>): the harts, \<open>push_off\<close>, \<open>pop_off\<close>, \<open>acquire\<close>, \<open>release\<close>; the interleaving of the atomic steps of all harts as an inductive step relation,
    with mutual exclusion, interrupts off under a lock, and panics on misuse only, as invariants of the reachable states (C2, C11, C12).
  \<^item> \<open>Cstring\<close> (\<open>rust_string.rs\<close>): \<open>memset\<close>, \<open>memmove\<close> with overlap, the bounded string routines (C21).
  \<^item> \<open>Kalloc\<close> (\<open>rust_kalloc.rs\<close>): the free list through the pages, reference counts of 16 bits, \<open>kinit\<close>; the locale \<open>page_allocator\<close> states the contract, is interpreted on the
    model, and gives that a page that stays referenced keeps its contents (C3, C8, C9); a count that wraps (C13).
  \<^item> \<open>Proctab\<close>, \<open>Sleeplock\<close> (\<open>rust_proc.rs\<close>, \<open>rust_sleeplock.rs\<close>): the table, \<open>sleep\<close> and \<open>wakeup\<close> with no lost wake-up (C6), sleep locks.
  \<^item> \<open>Vm\<close>, \<open>Frame\<close> (\<open>rust_vm.rs\<close>): Sv39 page tables in physical memory, copy-on-write, lazy allocation, copies to and from user memory; what these routines leave unchanged;
    \<open>copyin\<close> returns exactly the bytes of the user (C7).
  \<^item> \<open>Bio\<close>, \<open>Log\<close>, \<open>Commit\<close> (\<open>rust_bio.rs\<close>, \<open>rust_log.rs\<close>): the doubly linked list of buffers in order of use, pins, the log, commit and recovery; a commit that is interrupted after any
    number of block writes is recovered to all of its blocks old or all of them new (C1).
  \<^item> \<open>Fs\<close>, \<open>Dir\<close> (\<open>rust_fs.rs\<close>): blocks, inodes, contents, directories and paths.  \<open>Txn\<close>, \<open>Filebytes\<close>, \<open>Filewrite\<close>, \<open>Dirent\<close>: inside a transaction a block is what cache and log make of it (\<open>view\<close>); over that, the bitmap
    (C17), inodes on disk (C16), a file as an array of bytes that \<open>readi\<close> reads and \<open>writei\<close> changes (C15, C14), a directory as a map from names to inodes (C22, C23), path elements (C24).
  \<^item> \<open>Ring\<close>, \<open>Uart\<close>, \<open>Printf\<close>, \<open>Console\<close>, \<open>Pipe\<close> (\<open>rust_uart.rs\<close>, \<open>rust_printf.rs\<close>, \<open>rust_console.rs\<close>, \<open>rust_pipe.rs\<close>): rings with counters that wrap.  The locale \<open>bounded_fifo\<close> is the queue they
    implement, interpreted for the transmit ring and for pipes (C4, C10, C18); line editing (C19); formatted output (C20).
  \<^item> \<open>File\<close>, \<open>Proc\<close>, \<open>Exec\<close>, \<open>Sysfile\<close>, \<open>Syscall\<close>, \<open>Trap\<close>: open files, processes, program loading, the system calls and their dispatch, traps, interrupts, the interrupt controller and the start-up of
    a hart.  \<open>Lifecycle\<close>: \<open>kkill\<close>, a fair round of the scheduler, \<open>kwait\<close>, and a process that is born killed (C25 to C28).
  \<^item> \<open>Virtio\<close>, \<open>Diskio\<close> (\<open>rust_virtio_disk.rs\<close>): the descriptor queue; driver, device and interrupt handler together do what the buffer cache assumes of the disk (C5).

  \<^bold>\<open>The theories of user space and of the host.\<close>
  \<^item> \<open>Ulib\<close> (\<open>ulib.rs\<close>), \<open>Uprintf\<close> (\<open>printf.rs\<close>): string routines, buffered formatted output (C38).
  \<^item> \<open>Umalloc\<close> (\<open>umalloc.rs\<close>): the circular free list; \<open>malloc\<close> and \<open>free\<close> keep it sorted, disjoint and coalesced, and no two blocks of the client overlap (C34, C35).
  \<^item> \<open>Ugrep\<close> (\<open>grep.rs\<close>): the matcher decides the meaning of the pattern, and the program prints exactly the matching lines however \<open>read\<close> cuts the input (C32, C33).
  \<^item> \<open>Ush\<close>, \<open>Ushtext\<close>, \<open>Ushrun\<close> (\<open>sh.rs\<close>): tokens and parser, total on every line (C30); every command tree is read back from its text (C29); execution as a tree of system calls, with the
    descriptors of pipelines and redirections (C31).
  \<^item> \<open>Utools\<close> (\<open>wc.rs\<close>, \<open>primes.rs\<close>): the counting loop of \<open>wc\<close> counts the whole text however it is read; the chain of sieving processes prints exactly the primes (C39).
  \<^item> \<open>Ulife\<close> (\<open>life.rs\<close>): the frames drawn are the generations of the rule on the torus, and no unchecked access leaves its array (C40).
  \<^item> \<open>Mkfs\<close>, \<open>Mkimage\<close> (\<open>mkfs.rs\<close>): the builder, and the agreement of its image with the file system of the kernel (C36, C37).

  \<^bold>\<open>Bounds and fuel.\<close>  A loop over a fixed range or over a counter that grows is recursion on what is left.  The walks of the buffer list get 31 rounds, one more than there are buffers;
  \<open>free_chain\<close> gets nine, one more than there are descriptors; the loops of \<open>readi\<close> and \<open>writei\<close> get one round per byte asked for; \<open>balloc\<close> gets a round per bitmap block; the
  parser of the shell gets \<open>4 * length + 4\<close> calls, which \<open>parsecmd_total\<close> shows to be enough for every line.  Where fuel runs out the result is \<open>Diverges\<close>, and the theorems
  show that it does not.  \<open>malloc\<close>, \<open>free\<close>, \<open>atoi\<close> and \<open>rem_pos\<close> are partial functions into \<open>option\<close>, and the loops over the input of grep and
  wc get one round more than there are bytes; that they return is part of their theorems.
  \<open>malloc_correct\<close> bounds the request by 0x7fffff00 bytes and puts the heap below the address \<open>2 ^ 36\<close>, which the address space of a process guarantees.

  \<^bold>\<open>Parameters.\<close>  Linker symbols (\<open>etext\<close>, \<open>end\<close>, \<open>trampoline\<close>) are arguments or fields of the state.  The virtio device (\<open>device_ok\<close>), \<open>sbrk\<close> in the user heap (\<open>sbrk_fresh\<close>), \<open>read\<close> in grep and wc, the success of \<open>pipe\<close> and \<open>fork\<close> in primes, and the
  files of the host in the image builder are arguments; the theorems name what they rely on.

  \<^bold>\<open>Not modelled.\<close>  The assembly and entry code (\<open>rust_entry.rs\<close>, \<open>rust_start.rs\<close>, \<open>rust_swtch.rs\<close>, \<open>rust_kernelvec.rs\<close>, \<open>rust_trampoline.rs\<close>, \<open>usys.rs\<close>): inline assembly with no logic above the register
  level; the saved registers of a process appear as its trap frame.  The test programs (\<open>usertests.rs\<close>, \<open>grind.rs\<close> and others), which exercise the kernel.  The short user programs
  that forward their arguments to system calls, and the animation of \<open>isty.rs\<close>.  \<open>SleepMutex\<close> of \<open>rust_lock.rs\<close>, which nothing uses; its \<open>SpinMutex\<close> is
  modelled at each place of use.  The error type of \<open>rust_kerror.rs\<close>.  Memory ordering: the fences and the orderings of the atomics are taken as sequentially consistent.
\<close>

end
